(* ===== verification/Prelude.thy ===== *)
theory Prelude
  imports Main "HOL-Library.Multiset"
begin

text \<open>
  Shared vocabulary of the development.

  \<^item> C integers: \<open>int32_t\<close> values are \<open>int\<close> (the components write a wrap-around or a width
    check where the source depends on it); \<open>cdiv\<close> is C's division, which truncates.
  \<^item> C arrays: a list together with \<open>int\<close> indices, because the loops of \<^verbatim>\<open>src/common\<close> let an
    index step to \<open>-1\<close>.  \<open>aget\<close>, \<open>aset\<close> and \<open>aswap\<close> are the read, the store and the three
    line exchange; \<open>alen\<close> is the number of cells.
  \<^item> \<open>perm_on\<close> and \<open>sorted_on\<close> say what an in-place routine does to a range of an array: it
    permutes the cells between two indices, leaves the others alone, and orders them by a key.
\<close>

section \<open>Collections of facts\<close>

named_theorems arr_simps \<open>reads after stores, on indices in range\<close>
named_theorems perm_intros \<open>how in-place routines permute a range\<close>

section \<open>Integers\<close>

type_synonym int32 = int

definition MAX_INT32 :: int where
  "MAX_INT32 = 2147483647"

definition MIN_INT32 :: int where
  "MIN_INT32 = - 2147483648"

definition fits32 :: "int \<Rightarrow> bool" where
  "fits32 n \<longleftrightarrow> MIN_INT32 \<le> n \<and> n \<le> MAX_INT32"

text \<open>C's \<open>/\<close> on signed operands truncates towards zero.\<close>

definition cdiv :: "int \<Rightarrow> int \<Rightarrow> int" where
  "cdiv a b = sgn a * sgn b * (\<bar>a\<bar> div \<bar>b\<bar>)"

lemma cdiv_nonneg [simp]: "0 \<le> a \<Longrightarrow> 0 < b \<Longrightarrow> cdiv a b = a div b"
  by (cases "a = 0") (simp_all add: cdiv_def)

lemma cdiv_middle:
  assumes "low \<le> high"
  shows "low \<le> cdiv (low + high) 2 \<and> cdiv (low + high) 2 \<le> high"
proof (cases "0 \<le> low + high")
  case True
  with assms show ?thesis by auto
next
  case False
  then have "cdiv (low + high) 2 = - ((- (low + high)) div 2)" by (simp add: cdiv_def)
  with assms show ?thesis by linarith
qed

lemma cdiv_minus_one_two [simp]: "cdiv (- 1) 2 = 0"
  by (simp add: cdiv_def)

definition cmod :: "int \<Rightarrow> int \<Rightarrow> int" where
  "cmod a b = a - b * cdiv a b"

lemma cmod_nonneg [simp]: "0 \<le> a \<Longrightarrow> 0 < b \<Longrightarrow> cmod a b = a mod b"
  by (simp add: cmod_def minus_mult_div_eq_mod)

lemma mod_wrap: "0 \<le> a \<Longrightarrow> a < 2 * m \<Longrightarrow> a mod m = (if a < m then a else a - m)" for m :: int
  by (smt (verit) mod_pos_pos_trivial mod_pos_geq)

section \<open>Arrays\<close>

definition alen :: "'a list \<Rightarrow> int" where
  "alen v = int (length v)"

definition aget :: "'a list \<Rightarrow> int \<Rightarrow> 'a" where
  "aget v i = v ! nat i"

definition aset :: "'a list \<Rightarrow> int \<Rightarrow> 'a \<Rightarrow> 'a list" where
  "aset v i x = v[nat i := x]"

definition aswap :: "'a list \<Rightarrow> int \<Rightarrow> int \<Rightarrow> 'a list" where
  "aswap v i j = aset (aset v i (aget v j)) j (aget v i)"

definition in_range :: "'a list \<Rightarrow> int \<Rightarrow> bool" where
  "in_range v i \<longleftrightarrow> 0 \<le> i \<and> i < alen v"

lemma alen_nonneg [simp]: "0 \<le> alen v"
  by (simp add: alen_def)

lemma length_aset [simp]: "length (aset v i x) = length v"
  by (simp add: aset_def)

lemma length_aswap [simp]: "length (aswap v i j) = length v"
  by (simp add: aswap_def)

lemma alen_aset [simp]: "alen (aset v i x) = alen v"
  by (simp add: alen_def)

lemma alen_aswap [simp]: "alen (aswap v i j) = alen v"
  by (simp add: alen_def)

lemma in_range_aset [simp]: "in_range (aset v i x) k = in_range v k"
  by (simp add: in_range_def)

lemma in_range_aswap [simp]: "in_range (aswap v i j) k = in_range v k"
  by (simp add: in_range_def)

lemma in_rangeI [intro]: "0 \<le> i \<Longrightarrow> i < alen v \<Longrightarrow> in_range v i"
  by (simp add: in_range_def)

lemma aget_aset [arr_simps]:
  "in_range v i \<Longrightarrow> in_range v j \<Longrightarrow> aget (aset v i x) j = (if i = j then x else aget v j)"
  by (auto simp: in_range_def alen_def aget_def aset_def nth_list_update)

lemma aget_aset_other [arr_simps]:
  "0 \<le> i \<Longrightarrow> 0 \<le> j \<Longrightarrow> i \<noteq> j \<Longrightarrow> aget (aset v i x) j = aget v j"
  by (simp add: aget_def aset_def)

lemma aget_aswap [arr_simps]:
  "in_range v i \<Longrightarrow> in_range v j \<Longrightarrow> in_range v k \<Longrightarrow>
   aget (aswap v i j) k = (if k = i then aget v j else if k = j then aget v i else aget v k)"
  by (simp add: aswap_def aget_aset)

lemma aset_aget_same [simp]: "aset v i (aget v i) = v"
  by (simp add: aset_def aget_def)

lemma aget_map: "in_range v i \<Longrightarrow> aget (map f v) i = f (aget v i)"
  by (auto simp: in_range_def alen_def aget_def)

lemma map_aset: "map f (aset v i x) = aset (map f v) i (f x)"
  by (simp add: aset_def map_update)

lemma map_aswap: "in_range v i \<Longrightarrow> in_range v j \<Longrightarrow> map f (aswap v i j) = aswap (map f v) i j"
  by (simp add: aswap_def map_aset aget_map)

lemma mset_aswap [simp]: "in_range v i \<Longrightarrow> in_range v j \<Longrightarrow> mset (aswap v i j) = mset v"
  by (auto simp: aswap_def aset_def aget_def in_range_def alen_def intro: mset_swap)

lemma aswap_commute: "aswap v i j = aswap v j i" if "in_range v i" "in_range v j"
  using that by (cases "nat i = nat j") (auto simp: aswap_def aset_def aget_def list_update_swap in_range_def)

lemma array_ext:
  assumes "length v = length w" and "\<And>i. in_range v i \<Longrightarrow> aget v i = aget w i"
  shows "v = w"
proof (rule nth_equalityI)
  show "length v = length w" by fact
next
  fix k assume "k < length v"
  then have "in_range v (int k)" by (simp add: in_range_def alen_def)
  from assms(2) [OF this] show "v ! k = w ! k" by (simp add: aget_def)
qed

text \<open>
  Loops that shift cells move a hole: with \<open>temp\<close> thought to be in the hole, filling cell \<open>j\<close> from
  cell \<open>i\<close> is an exchange.
\<close>

lemma hole_exchange:
  assumes "in_range v i" "in_range v j" "i \<noteq> j"
  shows "aset (aset v j (aget v i)) i temp = aswap (aset v j temp) i j"
  using assms by (intro array_ext) (auto simp: aget_aset aget_aswap)

section \<open>Permuting a range\<close>

definition perm_on :: "int \<Rightarrow> int \<Rightarrow> 'a list \<Rightarrow> 'a list \<Rightarrow> bool" where
  "perm_on lo hi v w \<longleftrightarrow> mset w = mset v \<and>
     (\<forall>i. in_range v i \<longrightarrow> i < lo \<or> hi < i \<longrightarrow> aget w i = aget v i)"

lemma perm_on_length: "perm_on lo hi v w \<Longrightarrow> length w = length v"
  unfolding perm_on_def by (metis size_mset)

lemma perm_on_alen: "perm_on lo hi v w \<Longrightarrow> alen w = alen v"
  by (simp add: alen_def perm_on_length)

lemma perm_on_in_range: "perm_on lo hi v w \<Longrightarrow> in_range w i = in_range v i"
  by (simp add: in_range_def perm_on_alen)

lemma perm_on_mset: "perm_on lo hi v w \<Longrightarrow> mset w = mset v"
  by (simp add: perm_on_def)

lemma perm_on_outside:
  "perm_on lo hi v w \<Longrightarrow> in_range v i \<Longrightarrow> i < lo \<or> hi < i \<Longrightarrow> aget w i = aget v i"
  by (auto simp: perm_on_def)

lemma perm_on_refl [simp, perm_intros]: "perm_on lo hi v v"
  by (simp add: perm_on_def)

lemma perm_on_trans [perm_intros]:
  "perm_on lo hi u v \<Longrightarrow> perm_on lo hi v w \<Longrightarrow> perm_on lo hi u w"
  by (auto simp: perm_on_def in_range_def alen_def dest!: mset_eq_length)

lemma perm_on_mono:
  "perm_on lo hi v w \<Longrightarrow> lo' \<le> lo \<Longrightarrow> hi \<le> hi' \<Longrightarrow> perm_on lo' hi' v w"
  by (auto simp: perm_on_def)

lemma perm_on_aswap [perm_intros]:
  assumes "in_range v i" "in_range v j" "lo \<le> i" "i \<le> hi" "lo \<le> j" "j \<le> hi"
  shows "perm_on lo hi v (aswap v i j)"
  using assms by (auto simp: perm_on_def aget_aswap)

text \<open>The cells of the range, as a list.\<close>

definition slice :: "int \<Rightarrow> int \<Rightarrow> 'a list \<Rightarrow> 'a list" where
  "slice lo hi v = take (nat (hi + 1 - lo)) (drop (nat lo) v)"

lemma slice_set_iff:
  assumes "0 \<le> lo" "hi < alen v"
  shows "x \<in> set (slice lo hi v) \<longleftrightarrow> (\<exists>i. lo \<le> i \<and> i \<le> hi \<and> aget v i = x)"
proof
  assume "x \<in> set (slice lo hi v)"
  then obtain k where k: "k < length (slice lo hi v)" "slice lo hi v ! k = x"
    by (auto simp: in_set_conv_nth)
  from k(1) have "lo \<le> lo + int k" "lo + int k \<le> hi" by (auto simp: slice_def)
  moreover have "aget v (lo + int k) = x"
    using k assms(1) by (auto simp: slice_def aget_def nat_add_distrib)
  ultimately show "\<exists>i. lo \<le> i \<and> i \<le> hi \<and> aget v i = x" by blast
next
  assume "\<exists>i. lo \<le> i \<and> i \<le> hi \<and> aget v i = x"
  then obtain i where i: "lo \<le> i" "i \<le> hi" "aget v i = x" by blast
  let ?k = "nat (i - lo)"
  have "nat lo + ?k = nat i" using i assms(1) by simp
  moreover have "?k < length (slice lo hi v)"
    using i assms by (auto simp: slice_def alen_def)
  ultimately have "slice lo hi v ! ?k = x"
    using i assms by (simp add: slice_def aget_def)
  with \<open>?k < length (slice lo hi v)\<close> show "x \<in> set (slice lo hi v)"
    by (metis nth_mem)
qed

lemma array_split:
  assumes "0 \<le> lo" "lo \<le> hi + 1" "hi < alen v"
  shows "v = take (nat lo) v @ slice lo hi v @ drop (nat (hi + 1)) v"
proof -
  have "drop (nat lo) v = slice lo hi v @ drop (nat (hi + 1 - lo)) (drop (nat lo) v)"
    unfolding slice_def by (rule append_take_drop_id [symmetric])
  moreover have "nat (hi + 1 - lo) + nat lo = nat (hi + 1)" using assms by simp
  ultimately have "drop (nat lo) v = slice lo hi v @ drop (nat (hi + 1)) v"
    by (simp only: drop_drop)
  then show ?thesis by (metis append_take_drop_id)
qed

lemma perm_on_mset_slice:
  assumes p: "perm_on lo hi v w" and r: "0 \<le> lo" "lo \<le> hi + 1" "hi < alen v"
  shows "mset (slice lo hi w) = mset (slice lo hi v)"
proof -
  have len: "length w = length v" using p by (rule perm_on_length)
  have "take (nat lo) w = take (nat lo) v"
  proof (rule nth_equalityI)
    fix k assume "k < length (take (nat lo) w)"
    then have "in_range v (int k)" "int k < lo" using len by (auto simp: in_range_def alen_def)
    with p have "aget w (int k) = aget v (int k)" by (simp add: perm_on_def)
    then show "take (nat lo) w ! k = take (nat lo) v ! k"
      using \<open>int k < lo\<close> by (simp add: aget_def)
  qed (simp add: len)
  moreover have "drop (nat (hi + 1)) w = drop (nat (hi + 1)) v"
  proof (rule nth_equalityI)
    fix k assume k: "k < length (drop (nat (hi + 1)) w)"
    let ?i = "hi + 1 + int k"
    have "in_range v ?i" "hi < ?i" using k len r by (auto simp: in_range_def alen_def)
    with p have "aget w ?i = aget v ?i" by (simp add: perm_on_def)
    moreover have "nat ?i = nat (hi + 1) + k" using r by simp
    ultimately show "drop (nat (hi + 1)) w ! k = drop (nat (hi + 1)) v ! k"
      using k len by (simp add: aget_def)
  qed (simp add: len)
  moreover have "mset w = mset v" using p by (rule perm_on_mset)
  moreover have "hi < alen w" using r len by (simp add: alen_def)
  ultimately show ?thesis
    using array_split [OF r(1,2), of v] array_split [OF r(1,2), of w] r(3)
    by (metis (no_types) mset_append add_left_cancel add_right_cancel)
qed

lemma perm_on_all:
  assumes p: "perm_on lo hi v w" and r: "0 \<le> lo" "hi < alen v"
    and all: "\<And>i. lo \<le> i \<Longrightarrow> i \<le> hi \<Longrightarrow> P (aget v i)"
    and i: "lo \<le> i" "i \<le> hi"
  shows "P (aget w i)"
proof -
  have "mset (slice lo hi w) = mset (slice lo hi v)"
    using p r i by (intro perm_on_mset_slice) auto
  then have "set (slice lo hi w) = set (slice lo hi v)" by (rule mset_eq_setD)
  moreover have "aget w i \<in> set (slice lo hi w)"
    using r i p by (subst slice_set_iff) (auto simp: perm_on_alen)
  ultimately obtain k where "lo \<le> k" "k \<le> hi" "aget v k = aget w i"
    using r by (auto simp: slice_set_iff)
  with all show ?thesis by metis
qed

section \<open>Ordered ranges\<close>

definition sorted_on :: "('a \<Rightarrow> 'k::linorder) \<Rightarrow> int \<Rightarrow> int \<Rightarrow> 'a list \<Rightarrow> bool" where
  "sorted_on key lo hi v \<longleftrightarrow>
     (\<forall>i j. lo \<le> i \<longrightarrow> i \<le> j \<longrightarrow> j \<le> hi \<longrightarrow> key (aget v i) \<le> key (aget v j))"

lemma sorted_onI [intro?]:
  "(\<And>i j. lo \<le> i \<Longrightarrow> i < j \<Longrightarrow> j \<le> hi \<Longrightarrow> key (aget v i) \<le> key (aget v j)) \<Longrightarrow> sorted_on key lo hi v"
  unfolding sorted_on_def by (metis order_refl order_le_less)

lemma sorted_onD:
  "sorted_on key lo hi v \<Longrightarrow> lo \<le> i \<Longrightarrow> i \<le> j \<Longrightarrow> j \<le> hi \<Longrightarrow> key (aget v i) \<le> key (aget v j)"
  by (simp add: sorted_on_def)

lemma sorted_on_trivial [simp]: "hi \<le> lo \<Longrightarrow> sorted_on key lo hi v"
  by (rule sorted_onI) simp

lemma sorted_on_id [simp]: "sorted_on (\<lambda>x. x) lo hi v = sorted_on id lo hi v"
  by (simp only: id_def)

lemma sorted_on_whole: "sorted_on id 0 (alen v - 1) v \<longleftrightarrow> sorted v"
proof
  assume s: "sorted_on id 0 (alen v - 1) v"
  show "sorted v"
  proof (rule sorted_iff_nth_mono [THEN iffD2], intro allI impI)
    fix i j assume "i \<le> j" "j < length v"
    then show "v ! i \<le> v ! j"
      using sorted_onD [OF s, of "int i" "int j"] by (simp add: alen_def aget_def)
  qed
next
  assume s: "sorted v"
  show "sorted_on id 0 (alen v - 1) v"
  proof
    fix i j :: int assume "0 \<le> i" "i < j" "j \<le> alen v - 1"
    with s show "id (aget v i) \<le> id (aget v j)"
      by (auto simp: aget_def alen_def intro!: sorted_nth_mono)
  qed
qed

end
