(* ===== verification/Queue.thy ===== *)
theory Queue
  imports Prelude
begin

text \<open>
  The bounded queues of \<^verbatim>\<open>src/common/qqueue.h\<close>.

  \<open>QQueue\<close> is the ring buffer that carries sockets from the accept loop to the worker threads
  and that pools the search objects; \<open>QListQueue\<close> is the linked variant.  Every operation holds
  the queue's mutex from its first read to its last write, so an operation is one atomic step; a
  blocking operation that finds the queue full (empty) releases the mutex, sleeps and tries
  again, which is the result \<open>None\<close> of one attempt.

  The locale \<open>bounded_queue\<close> is the contract the servers rely on; both classes implement it.
\<close>

section \<open>The contract of a bounded queue\<close>

text \<open>One attempt of some thread at a blocking push or pop.\<close>

datatype 'a attempt = Push 'a | Pop

text \<open>
  A schedule is the sequence of attempts of all threads, in the order in which they get the
  mutex.  \<open>run\<close> returns the queue, what was pushed and what was popped.
\<close>

fun run :: "('q \<Rightarrow> 'a \<Rightarrow> 'q option) \<Rightarrow> ('q \<Rightarrow> ('a \<times> 'q) option) \<Rightarrow> 'a attempt list \<Rightarrow> 'q
    \<Rightarrow> 'q \<times> 'a list \<times> 'a list" where
  "run pu po [] q = (q, [], [])"
| "run pu po (Push x # as) q =
     (case pu q x of None \<Rightarrow> run pu po as q
      | Some q' \<Rightarrow> (case run pu po as q' of (r, ins, outs) \<Rightarrow> (r, x # ins, outs)))"
| "run pu po (Pop # as) q =
     (case po q of None \<Rightarrow> run pu po as q
      | Some (x, q') \<Rightarrow> (case run pu po as q' of (r, ins, outs) \<Rightarrow> (r, ins, x # outs)))"

text \<open>A loop that pushes the elements of a list; \<open>None\<close> when one of the pushes would block.\<close>

fun push_all :: "('q \<Rightarrow> 'a \<Rightarrow> 'q option) \<Rightarrow> 'a list \<Rightarrow> 'q \<Rightarrow> 'q option" where
  "push_all pu [] q = Some q"
| "push_all pu (x # xs) q = (case pu q x of None \<Rightarrow> None | Some q' \<Rightarrow> push_all pu xs q')"

locale bounded_queue =
  fixes invar :: "'q \<Rightarrow> bool"
    and contents :: "'q \<Rightarrow> 'a list"
    and capacity :: "'q \<Rightarrow> nat"
    and push :: "'q \<Rightarrow> 'a \<Rightarrow> 'q option"
    and pop :: "'q \<Rightarrow> ('a \<times> 'q) option"
  assumes size_le: "invar q \<Longrightarrow> length (contents q) \<le> capacity q"
    and push_None: "invar q \<Longrightarrow> push q x = None \<longleftrightarrow> length (contents q) = capacity q"
    and push_Some: "invar q \<Longrightarrow> push q x = Some q' \<Longrightarrow>
          invar q' \<and> capacity q' = capacity q \<and> contents q' = contents q @ [x]"
    and pop_None: "invar q \<Longrightarrow> pop q = None \<longleftrightarrow> contents q = []"
    and pop_Some: "invar q \<Longrightarrow> pop q = Some (x, q') \<Longrightarrow>
          invar q' \<and> capacity q' = capacity q \<and> contents q = x # contents q'"
begin

lemma run_fifo:
  assumes "invar q" and "run push pop as q = (q', ins, outs)"
  shows "invar q' \<and> capacity q' = capacity q \<and> contents q @ ins = outs @ contents q'"
  using assms
proof (induction as arbitrary: q q' ins outs)
  case Nil
  then show ?case by simp
next
  case (Cons a as)
  show ?case
  proof (cases a)
    case (Push x)
    show ?thesis
    proof (cases "push q x")
      case None
      with Cons Push show ?thesis by simp
    next
      case (Some q1)
      obtain ins' where "ins = x # ins'" "run push pop as q1 = (q', ins', outs)"
        using Cons.prems(2) Push Some by (auto split: prod.splits)
      with Cons.IH [of q1 q' ins' outs] push_Some [OF Cons.prems(1) Some] show ?thesis by auto
    qed
  next
    case Pop
    show ?thesis
    proof (cases "pop q")
      case None
      with Cons Pop show ?thesis by simp
    next
      case (Some r)
      obtain x q1 where r: "pop q = Some (x, q1)" using Some by (cases r) auto
      obtain outs' where "outs = x # outs'" "run push pop as q1 = (q', ins, outs')"
        using Cons.prems(2) Pop r by (auto split: prod.splits)
      with Cons.IH [of q1 q' ins outs'] pop_Some [OF Cons.prems(1) r] show ?thesis by auto
    qed
  qed
qed

lemma run_bounded:
  assumes "invar q" and "run push pop as q = (q', ins, outs)"
  shows "length outs \<le> length (contents q) + length ins
    \<and> length (contents q) + length ins \<le> length outs + capacity q"
proof -
  note f = run_fifo [OF assms]
  then have "length (contents q @ ins) = length (outs @ contents q')" by simp
  moreover have "length (contents q') \<le> capacity q" using f size_le by metis
  ultimately show ?thesis by simp
qed

lemma push_all_Some:
  "invar q \<Longrightarrow> length (contents q) + length xs \<le> capacity q \<Longrightarrow>
   \<exists>q'. push_all push xs q = Some q' \<and> invar q' \<and> capacity q' = capacity q
     \<and> contents q' = contents q @ xs"
proof (induction xs arbitrary: q)
  case Nil
  then show ?case by simp
next
  case (Cons x xs)
  then obtain q1 where q1: "push q x = Some q1" using push_None [of q x] by fastforce
  from push_Some [OF Cons.prems(1) q1] Cons.prems(2) Cons.IH [of q1] show ?case
    by (auto simp: q1)
qed

lemma push_all_None:
  "invar q \<Longrightarrow> capacity q < length (contents q) + length xs \<Longrightarrow> push_all push xs q = None"
proof (induction xs arbitrary: q)
  case Nil
  with size_le [of q] show ?case by simp
next
  case (Cons x xs)
  show ?case
  proof (cases "push q x")
    case None
    then show ?thesis by simp
  next
    case (Some q1)
    from push_Some [OF Cons.prems(1) Some] Cons.prems(2) Cons.IH [of q1] Some show ?thesis by auto
  qed
qed

text \<open>Of a thread that waits to push and one that waits to pop, one can proceed.\<close>

lemma not_stuck: "invar q \<Longrightarrow> 0 < capacity q \<Longrightarrow> push q x \<noteq> None \<or> pop q \<noteq> None"
  using push_None [of q x] pop_None [of q] by auto

end

section \<open>QQueue: the ring buffer\<close>

record 'a QQueue =
  q_queue :: "'a list"
  q_max_size :: int
  q_front :: int
  q_rear :: int

definition QQueue_new :: "'a QQueue" where
  "QQueue_new = \<lparr>q_queue = [], q_max_size = 0, q_front = 0, q_rear = 0\<rparr>"

text \<open>
  \<open>cells\<close> is what \<^verbatim>\<open>q_new_array\<close> returns: \<open>None\<close> for a null pointer, else the fresh cells,
  whose values are unspecified.
\<close>

definition QQueue_init :: "int \<Rightarrow> 'a list option \<Rightarrow> 'a QQueue \<Rightarrow> int \<times> 'a QQueue" where
  "QQueue_init n cells q =
     (if n \<le> 0 then (- 1, q)
      else (case cells of
              None \<Rightarrow> (- 2, q\<lparr>q_max_size := n, q_queue := []\<rparr>)
            | Some c \<Rightarrow> (0, q\<lparr>q_max_size := n, q_queue := c, q_front := 0, q_rear := 0\<rparr>)))"

definition QQueue_clear :: "'a QQueue \<Rightarrow> 'a QQueue" where
  "QQueue_clear q = q\<lparr>q_front := 0, q_rear := 0\<rparr>"

definition QQueue_size :: "'a QQueue \<Rightarrow> int" where
  "QQueue_size q = cmod (q_rear q - q_front q + q_max_size q) (q_max_size q)"

definition QQueue_full :: "'a QQueue \<Rightarrow> bool" where
  "QQueue_full q \<longleftrightarrow> cmod (q_rear q + 1) (q_max_size q) = q_front q"

definition QQueue_empty :: "'a QQueue \<Rightarrow> bool" where
  "QQueue_empty q \<longleftrightarrow> q_front q = q_rear q"

definition QQueue_push :: "'a QQueue \<Rightarrow> 'a \<Rightarrow> 'a QQueue option" where
  "QQueue_push q item =
     (if QQueue_full q then None
      else Some (q\<lparr>q_queue := aset (q_queue q) (q_rear q) item,
                   q_rear := cmod (q_rear q + 1) (q_max_size q)\<rparr>))"

definition QQueue_pop :: "'a QQueue \<Rightarrow> ('a \<times> 'a QQueue) option" where
  "QQueue_pop q =
     (if QQueue_empty q then None
      else Some (aget (q_queue q) (q_front q),
                 q\<lparr>q_front := cmod (q_front q + 1) (q_max_size q)\<rparr>))"

definition QQueue_push_non_blocking :: "'a QQueue \<Rightarrow> 'a \<Rightarrow> int \<times> 'a QQueue" where
  "QQueue_push_non_blocking q item =
     (if QQueue_full q then (- 1, q)
      else (0, q\<lparr>q_queue := aset (q_queue q) (q_rear q) item,
                 q_rear := cmod (q_rear q + 1) (q_max_size q)\<rparr>))"

text \<open>The out parameter keeps its old value when the queue is empty.\<close>

definition QQueue_pop_non_blocking :: "'a QQueue \<Rightarrow> 'a \<Rightarrow> int \<times> 'a \<times> 'a QQueue" where
  "QQueue_pop_non_blocking q item =
     (if QQueue_empty q then (- 1, item, q)
      else (0, aget (q_queue q) (q_front q),
            q\<lparr>q_front := cmod (q_front q + 1) (q_max_size q)\<rparr>))"

text \<open>Well-formed queues, their contents in order, and how many items fit.\<close>

definition QQueue_inv :: "'a QQueue \<Rightarrow> bool" where
  "QQueue_inv q \<longleftrightarrow> 0 < q_max_size q \<and> alen (q_queue q) = q_max_size q \<and>
     0 \<le> q_front q \<and> q_front q < q_max_size q \<and> 0 \<le> q_rear q \<and> q_rear q < q_max_size q"

definition QQueue_contents :: "'a QQueue \<Rightarrow> 'a list" where
  "QQueue_contents q =
     map (\<lambda>k. aget (q_queue q) ((q_front q + int k) mod q_max_size q)) [0..<nat (QQueue_size q)]"

definition QQueue_capacity :: "'a QQueue \<Rightarrow> nat" where
  "QQueue_capacity q = nat (q_max_size q - 1)"

lemmas QQueue_defs = QQueue_inv_def QQueue_contents_def QQueue_capacity_def QQueue_size_def
  QQueue_full_def QQueue_empty_def QQueue_push_def QQueue_pop_def

lemma QQueue_size_eq:
  "QQueue_inv q \<Longrightarrow> QQueue_size q =
     (if q_front q \<le> q_rear q then q_rear q - q_front q else q_rear q - q_front q + q_max_size q)"
  using mod_wrap [of "q_rear q - q_front q + q_max_size q" "q_max_size q"]
  by (auto simp: QQueue_inv_def QQueue_size_def simp del: mod_add_self2)

lemma QQueue_next_eq:
  "QQueue_inv q \<Longrightarrow> 0 \<le> i \<Longrightarrow> i < q_max_size q \<Longrightarrow>
   cmod (i + 1) (q_max_size q) = (if i + 1 = q_max_size q then 0 else i + 1)"
  by (auto simp: QQueue_inv_def mod_wrap)

lemma length_QQueue_contents [simp]: "length (QQueue_contents q) = nat (QQueue_size q)"
  by (simp add: QQueue_contents_def)

lemma QQueue_size_nonneg: "QQueue_inv q \<Longrightarrow> 0 \<le> QQueue_size q"
  by (simp add: QQueue_size_eq) (simp add: QQueue_inv_def)

lemma QQueue_full_iff: "QQueue_inv q \<Longrightarrow> QQueue_full q \<longleftrightarrow> QQueue_size q = q_max_size q - 1"
  using QQueue_next_eq [of q "q_rear q"]
  by (auto simp: QQueue_full_def QQueue_size_eq) (auto simp: QQueue_inv_def split: if_splits)

lemma QQueue_empty_iff: "QQueue_inv q \<Longrightarrow> QQueue_empty q \<longleftrightarrow> QQueue_size q = 0"
  by (auto simp: QQueue_empty_def QQueue_size_eq QQueue_inv_def)

lemma QQueue_size_le: "QQueue_inv q \<Longrightarrow> length (QQueue_contents q) \<le> QQueue_capacity q"
  by (auto simp: QQueue_size_eq QQueue_capacity_def QQueue_inv_def)

lemma QQueue_push_inv:
  assumes "QQueue_inv q" and "QQueue_push q x = Some q'"
  shows "QQueue_inv q'" and "q_max_size q' = q_max_size q" and "QQueue_size q' = QQueue_size q + 1"
proof -
  have q': "\<not> QQueue_full q" "q' = q\<lparr>q_queue := aset (q_queue q) (q_rear q) x,
      q_rear := (if q_rear q + 1 = q_max_size q then 0 else q_rear q + 1)\<rparr>"
    using assms QQueue_next_eq [OF assms(1), of "q_rear q"]
    by (auto simp: QQueue_push_def QQueue_inv_def split: if_splits)
  then show i: "QQueue_inv q'" using assms(1) by (auto simp: QQueue_inv_def)
  show m: "q_max_size q' = q_max_size q" using q' by simp
  show "QQueue_size q' = QQueue_size q + 1"
    using q' assms(1) QQueue_full_iff [OF assms(1)]
    unfolding QQueue_size_eq [OF i] QQueue_size_eq [OF assms(1)]
    by (auto simp: QQueue_inv_def split: if_splits)
qed

lemma QQueue_push_contents:
  assumes inv: "QQueue_inv q" and p: "QQueue_push q x = Some q'"
  shows "QQueue_contents q' = QQueue_contents q @ [x]"
proof (rule nth_equalityI)
  show len: "length (QQueue_contents q') = length (QQueue_contents q @ [x])"
    using QQueue_push_inv(3) [OF inv p] QQueue_size_nonneg [OF inv] by simp
  fix k assume "k < length (QQueue_contents q')"
  then have k: "int k \<le> QQueue_size q" "k < nat (QQueue_size q')"
    using len QQueue_size_nonneg [OF inv] by auto
  let ?i = "(q_front q + int k) mod q_max_size q"
  have nf: "QQueue_size q < q_max_size q - 1"
    using p inv QQueue_full_iff [OF inv] QQueue_size_le [OF inv]
    by (auto simp: QQueue_push_def QQueue_capacity_def QQueue_inv_def split: if_splits)
  have idx: "?i = q_rear q \<longleftrightarrow> int k = QQueue_size q"
    using k(1) nf inv unfolding QQueue_size_eq [OF inv]
    by (auto simp: mod_wrap QQueue_inv_def split: if_splits)
  have rng: "in_range (q_queue q) ?i" "in_range (q_queue q) (q_rear q)"
    using inv by (auto simp: QQueue_inv_def in_range_def)
  have "q_queue q' = aset (q_queue q) (q_rear q) x" "q_front q' = q_front q" "q_max_size q' = q_max_size q"
    using p by (auto simp: QQueue_push_def split: if_splits)
  then have "QQueue_contents q' ! k = aget (aset (q_queue q) (q_rear q) x) ?i"
    using k(2) by (simp add: QQueue_contents_def)
  also have "\<dots> = (QQueue_contents q @ [x]) ! k"
    using k idx rng by (auto simp: aget_aset nth_append QQueue_contents_def)
  finally show "QQueue_contents q' ! k = (QQueue_contents q @ [x]) ! k" .
qed

lemma QQueue_pop_inv:
  assumes "QQueue_inv q" and "QQueue_pop q = Some (x, q')"
  shows "QQueue_inv q'" and "q_max_size q' = q_max_size q" and "QQueue_size q = QQueue_size q' + 1"
proof -
  have q': "\<not> QQueue_empty q" "q' = q\<lparr>q_front := (if q_front q + 1 = q_max_size q then 0 else q_front q + 1)\<rparr>"
    using assms QQueue_next_eq [OF assms(1), of "q_front q"]
    by (auto simp: QQueue_pop_def QQueue_inv_def split: if_splits)
  then show i: "QQueue_inv q'" using assms(1) by (auto simp: QQueue_inv_def)
  show "q_max_size q' = q_max_size q" using q' by simp
  show "QQueue_size q = QQueue_size q' + 1"
    using q' assms(1) QQueue_empty_iff [OF assms(1)]
    unfolding QQueue_size_eq [OF i] QQueue_size_eq [OF assms(1)]
    by (auto simp: QQueue_inv_def split: if_splits)
qed

lemma QQueue_pop_contents:
  assumes inv: "QQueue_inv q" and p: "QQueue_pop q = Some (x, q')"
  shows "QQueue_contents q = x # QQueue_contents q'"
proof (rule nth_equalityI)
  note i' = QQueue_pop_inv [OF inv p]
  show len: "length (QQueue_contents q) = length (x # QQueue_contents q')"
    using i'(3) QQueue_size_nonneg [OF i'(1)] by simp
  have x: "x = aget (q_queue q) (q_front q)" "q_queue q' = q_queue q"
      "q_front q' = (q_front q + 1) mod q_max_size q"
    using p inv by (auto simp: QQueue_pop_def QQueue_inv_def split: if_splits)
  fix k assume k: "k < length (QQueue_contents q)"
  show "QQueue_contents q ! k = (x # QQueue_contents q') ! k"
  proof (cases k)
    case 0
    with k x inv show ?thesis by (simp add: QQueue_contents_def QQueue_inv_def)
  next
    case (Suc k')
    have "((q_front q + 1) mod q_max_size q + int k') mod q_max_size q = (q_front q + 1 + int k') mod q_max_size q"
      by (simp add: mod_add_left_eq)
    moreover have "k' < nat (QQueue_size q')" using k Suc i'(3) by simp
    ultimately show ?thesis using k Suc x i' by (simp add: QQueue_contents_def algebra_simps)
  qed
qed

interpretation ring: bounded_queue QQueue_inv QQueue_contents QQueue_capacity QQueue_push QQueue_pop
proof
  fix q q' :: "'a QQueue" and x :: 'a
  assume inv: "QQueue_inv q"
  show "length (QQueue_contents q) \<le> QQueue_capacity q" using inv by (rule QQueue_size_le)
  show "QQueue_push q x = None \<longleftrightarrow> length (QQueue_contents q) = QQueue_capacity q"
    using QQueue_full_iff [OF inv] QQueue_size_nonneg [OF inv] inv
    by (auto simp: QQueue_push_def QQueue_capacity_def QQueue_inv_def)
  show "QQueue_pop q = None \<longleftrightarrow> QQueue_contents q = []"
    using QQueue_empty_iff [OF inv] QQueue_size_nonneg [OF inv]
    by (auto simp: QQueue_pop_def simp flip: length_0_conv)
  show "QQueue_inv q' \<and> QQueue_capacity q' = QQueue_capacity q \<and> QQueue_contents q' = QQueue_contents q @ [x]"
    if "QQueue_push q x = Some q'"
    using QQueue_push_inv [OF inv that] QQueue_push_contents [OF inv that] by (simp add: QQueue_capacity_def)
  show "QQueue_inv q' \<and> QQueue_capacity q' = QQueue_capacity q \<and> QQueue_contents q = x # QQueue_contents q'"
    if "QQueue_pop q = Some (x, q')"
    using QQueue_pop_inv [OF inv that] QQueue_pop_contents [OF inv that] by (simp add: QQueue_capacity_def)
qed

lemma QQueue_init_ok:
  assumes "0 < n" and "length c = nat n"
  shows "fst (QQueue_init n (Some c) q) = 0"
    and "QQueue_inv (snd (QQueue_init n (Some c) q))"
    and "QQueue_contents (snd (QQueue_init n (Some c) q)) = []"
    and "QQueue_capacity (snd (QQueue_init n (Some c) q)) = nat (n - 1)"
  using assms
  by (simp_all add: QQueue_init_def QQueue_inv_def alen_def QQueue_contents_def QQueue_size_def
      QQueue_capacity_def)

section \<open>Properties\<close>

text \<open>
  C25. Start from a \<open>QQueue\<close> that \<open>init\<close> has just set up and let any number of threads push and pop
  in any interleaving: what has been popped, followed by what is still in the queue, is exactly
  what has been pushed, in that order, and the queue never holds more than \<open>n - 1\<close> items.
\<close>

theorem QQueue_schedule_fifo:
  assumes "0 < n" and "length c = nat n"
    and "run QQueue_push QQueue_pop as (snd (QQueue_init n (Some c) q)) = (q', ins, outs)"
  shows "ins = outs @ QQueue_contents q' \<and> length (QQueue_contents q') \<le> nat (n - 1) \<and> QQueue_inv q'"
proof -
  let ?q = "snd (QQueue_init n (Some c) q)"
  have "QQueue_inv ?q" using assms(1,2) by (rule QQueue_init_ok)
  from ring.run_fifo [OF this assms(3)] show ?thesis
    using QQueue_init_ok(3,4) [OF assms(1,2), of q] QQueue_size_le [of q'] by auto
qed

theorem QQueue_schedule_fifo_witness:
  "[7, 8 :: nat] = [7] @ QQueue_contents \<lparr>q_queue = [7, 8, 0], q_max_size = 3, q_front = 1, q_rear = 2\<rparr>
   \<and> length (QQueue_contents \<lparr>q_queue = [7, 8, 0 :: nat], q_max_size = 3, q_front = 1, q_rear = 2\<rparr>) \<le> nat (3 - 1)
   \<and> QQueue_inv \<lparr>q_queue = [7, 8, 0 :: nat], q_max_size = 3, q_front = 1, q_rear = 2\<rparr>"
  by (rule QQueue_schedule_fifo [of 3 "[0, 0, 0]" "[Pop, Push 7, Push 8, Push 9, Pop]" QQueue_new])
    (simp_all add: QQueue_init_def QQueue_push_def QQueue_pop_def QQueue_full_def QQueue_empty_def
      QQueue_new_def aset_def aget_def)

text \<open>
  A fresh ring of \<open>n\<close> cells takes \<open>n - 1\<close> items without blocking, and a loop that pushes
  \<open>n\<close> items with nobody popping blocks for ever at the last one.
\<close>

lemma QQueue_fill:
  assumes "0 < n" and "length c = nat n"
  shows "(push_all QQueue_push xs (snd (QQueue_init n (Some c) q)) \<noteq> None) \<longleftrightarrow> int (length xs) \<le> n - 1"
proof -
  let ?q = "snd (QQueue_init n (Some c) q)"
  note q = QQueue_init_ok [OF assms, of q]
  have "push_all QQueue_push xs ?q \<noteq> None" if "int (length xs) \<le> n - 1"
    using ring.push_all_Some [OF q(2), of xs] q that by (auto simp: le_nat_iff)
  moreover have "push_all QQueue_push xs ?q = None" if "\<not> int (length xs) \<le> n - 1"
    using ring.push_all_None [OF q(2), of xs] q that assms(1) by (auto simp: nat_less_iff)
  ultimately show ?thesis by (cases "int (length xs) \<le> n - 1") simp_all
qed

text \<open>
  Of a producer and a consumer of a well-formed ring of at least two cells, one can always
  proceed: \<open>push\<close> and \<open>pop\<close> never both wait.  A ring of one cell makes every push wait.
\<close>

lemma QQueue_progress:
  assumes "QQueue_inv q"
  shows "(2 \<le> q_max_size q \<longrightarrow> QQueue_push q x \<noteq> None \<or> QQueue_pop q \<noteq> None)
    \<and> (q_max_size q = 1 \<longrightarrow> QQueue_push q x = None \<and> QQueue_pop q = None)"
  using ring.not_stuck [OF assms, of x] ring.push_None [OF assms, of x] ring.pop_None [OF assms]
    QQueue_size_le [OF assms] by (auto simp: QQueue_capacity_def simp flip: length_0_conv)

text \<open>
  The non-blocking operations are the blocking ones with a return code: \<open>-1\<close> and an unchanged
  queue exactly when the blocking operation would wait, \<open>0\<close> and its effect otherwise.
\<close>

lemma QQueue_non_blocking:
  "QQueue_push_non_blocking q x = (case QQueue_push q x of None \<Rightarrow> (- 1, q) | Some q' \<Rightarrow> (0, q'))
   \<and> QQueue_pop_non_blocking q y = (case QQueue_pop q of None \<Rightarrow> (- 1, y, q) | Some (z, q') \<Rightarrow> (0, z, q'))"
  by (simp add: QQueue_push_non_blocking_def QQueue_pop_non_blocking_def QQueue_push_def QQueue_pop_def)

end
