(* ===== verification/ListQueue.thy ===== *)
theory ListQueue
  imports Queue
begin

text \<open>
  \<open>QListQueue\<close> of \<^verbatim>\<open>src/common/qqueue.h\<close>: the linked queue, over an explicit store of nodes.
  The model is of the build the repository makes (\<^verbatim>\<open>-D__multi_thread\<close>).  \<^verbatim>\<open>new(std::nothrow)\<close>
  takes the next unused address when the flag \<open>ok\<close> of the call says that memory is available and
  is a null pointer otherwise; \<^verbatim>\<open>q_delete\<close> removes the node from the store.
\<close>

section \<open>State and operations\<close>

record 'a ListNode =
  data :: 'a
  link :: "nat option"

record 'a QListQueue =
  l_store :: "nat \<Rightarrow> 'a ListNode option"
  l_next :: nat
  l_front :: "nat option"
  l_rear :: "nat option"
  l_now_size :: int
  l_max_size :: int

definition QListQueue_new :: "int \<Rightarrow> 'a QListQueue" where
  "QListQueue_new n = \<lparr>l_store = (\<lambda>_. None), l_next = 0, l_front = None, l_rear = None,
     l_now_size = 0, l_max_size = n\<rparr>"

definition QListQueue_full :: "'a QListQueue \<Rightarrow> bool" where
  "QListQueue_full q \<longleftrightarrow> l_now_size q = l_max_size q"

definition QListQueue_empty :: "'a QListQueue \<Rightarrow> bool" where
  "QListQueue_empty q \<longleftrightarrow> l_now_size q = 0"

definition new_node :: "'a \<Rightarrow> nat option \<Rightarrow> 'a QListQueue \<Rightarrow> 'a QListQueue" where
  "new_node x nxt q = q\<lparr>l_store := (l_store q)(l_next q \<mapsto> \<lparr>data = x, link = nxt\<rparr>),
     l_next := Suc (l_next q)\<rparr>"

definition set_link :: "nat \<Rightarrow> nat option \<Rightarrow> 'a QListQueue \<Rightarrow> 'a QListQueue" where
  "set_link a p q =
     (case l_store q a of None \<Rightarrow> q
      | Some nd \<Rightarrow> q\<lparr>l_store := (l_store q)(a \<mapsto> nd\<lparr>link := p\<rparr>)\<rparr>)"

text \<open>
  \<open>None\<close>: the queue is full and the caller waits.  Otherwise the return code and the queue.  A
  dereference of a null pointer or of a deleted node is a crash, \<open>Inl ()\<close>.
\<close>

definition QListQueue_push :: "bool \<Rightarrow> 'a QListQueue \<Rightarrow> 'a \<Rightarrow> (unit + int \<times> 'a QListQueue) option" where
  "QListQueue_push ok q x =
     (if QListQueue_full q then None
      else Some (case l_front q of
        None \<Rightarrow>
          if ok then Inr (0, (new_node x None q)\<lparr>l_front := Some (l_next q), l_rear := Some (l_next q),
                 l_now_size := l_now_size q + 1\<rparr>)
          else Inr (- 1, q\<lparr>l_front := None, l_rear := None\<rparr>)
      | Some f \<Rightarrow>
          (case l_rear q of None \<Rightarrow> Inl ()
           | Some r \<Rightarrow>
              if l_store q r = None then Inl ()
              else if ok then
                Inr (0, (set_link r (Some (l_next q)) (new_node x None q))\<lparr>l_rear := Some (l_next q),
                       l_now_size := l_now_size q + 1\<rparr>)
              else Inr (- 2, set_link r None q))))"

text \<open>In \<open>push_urgent\<close> the check after the allocation tests the old front, not the new node.\<close>

definition QListQueue_push_urgent :: "bool \<Rightarrow> 'a QListQueue \<Rightarrow> 'a \<Rightarrow> (int \<times> 'a QListQueue) option" where
  "QListQueue_push_urgent ok q x =
     (if QListQueue_full q then None
      else Some (case l_front q of
        None \<Rightarrow>
          if ok then (0, (new_node x None q)\<lparr>l_front := Some (l_next q), l_rear := Some (l_next q),
                 l_now_size := l_now_size q + 1\<rparr>)
          else (- 1, q\<lparr>l_front := None, l_rear := None\<rparr>)
      | Some p \<Rightarrow>
          (let q1 = (if ok then (new_node x (Some p) q)\<lparr>l_front := Some (l_next q)\<rparr>
                     else q\<lparr>l_front := None\<rparr>)
           in (0, q1\<lparr>l_now_size := l_now_size q + 1\<rparr>))))"

definition QListQueue_pop :: "'a QListQueue \<Rightarrow> (unit + 'a \<times> 'a QListQueue) option" where
  "QListQueue_pop q =
     (if QListQueue_empty q then None
      else Some (case l_front q of None \<Rightarrow> Inl ()
        | Some p \<Rightarrow> (case l_store q p of None \<Rightarrow> Inl ()
            | Some nd \<Rightarrow> Inr (data nd, q\<lparr>l_front := link nd, l_store := (l_store q)(p := None),
                                l_now_size := l_now_size q - 1\<rparr>))))"

partial_function (option) QListQueue_clear :: "'a QListQueue \<Rightarrow> (unit + 'a QListQueue) option" where
  "QListQueue_clear q =
     (case l_front q of None \<Rightarrow> Some (Inr q)
      | Some p \<Rightarrow> (case l_store q p of None \<Rightarrow> Some (Inl ())
          | Some nd \<Rightarrow> QListQueue_clear (q\<lparr>l_front := link nd, l_store := (l_store q)(p := None),
                        l_now_size := l_now_size q - 1\<rparr>)))"

section \<open>Representation\<close>

fun path :: "(nat \<Rightarrow> 'a ListNode option) \<Rightarrow> nat option \<Rightarrow> nat list \<Rightarrow> bool" where
  "path h p [] \<longleftrightarrow> p = None"
| "path h p (a # as) \<longleftrightarrow> p = Some a \<and> (\<exists>nd. h a = Some nd \<and> path h (link nd) as)"

fun chain :: "(nat \<Rightarrow> 'a ListNode option) \<Rightarrow> nat option \<Rightarrow> nat \<Rightarrow> 'a list" where
  "chain h p 0 = []"
| "chain h p (Suc n) = (case p of None \<Rightarrow> []
     | Some a \<Rightarrow> (case h a of None \<Rightarrow> [] | Some nd \<Rightarrow> data nd # chain h (link nd) n))"

definition QListQueue_rep :: "'a QListQueue \<Rightarrow> nat list \<Rightarrow> bool" where
  "QListQueue_rep q as \<longleftrightarrow> path (l_store q) (l_front q) as \<and> distinct as \<and>
     l_now_size q = int (length as) \<and> l_now_size q \<le> l_max_size q \<and>
     (as \<noteq> [] \<longrightarrow> l_rear q = Some (last as)) \<and> dom (l_store q) \<subseteq> {..<l_next q}"

definition QListQueue_inv :: "'a QListQueue \<Rightarrow> bool" where
  "QListQueue_inv q \<longleftrightarrow> (\<exists>as. QListQueue_rep q as)"

definition QListQueue_contents :: "'a QListQueue \<Rightarrow> 'a list" where
  "QListQueue_contents q = chain (l_store q) (l_front q) (nat (l_now_size q))"

lemma path_cong: "(\<And>a. a \<in> set as \<Longrightarrow> h' a = h a) \<Longrightarrow> path h' p as = path h p as"
  by (induction as arbitrary: p) auto

lemma path_dom: "path h p as \<Longrightarrow> set as \<subseteq> dom h"
  by (induction as arbitrary: p) auto

lemma path_chain: "path h p as \<Longrightarrow> chain h p (length as) = map (\<lambda>a. data (the (h a))) as"
  by (induction as arbitrary: p) auto

lemma path_last: "path h p as \<Longrightarrow> as \<noteq> [] \<Longrightarrow> h (last as) = Some nd \<Longrightarrow> link nd = None"
  by (induction as arbitrary: p) (auto split: if_splits)

lemma path_snoc:
  assumes "path h p as" "distinct as" "as \<noteq> []" "a \<notin> dom h"
    and "h (last as) = Some nd"
  shows "path (h(a \<mapsto> \<lparr>data = x, link = None\<rparr>, last as \<mapsto> nd\<lparr>link := Some a\<rparr>)) p (as @ [a])"
  using assms
proof (induction as arbitrary: p)
  case Nil
  then show ?case by simp
next
  case (Cons b bs)
  have ab: "a \<noteq> b" "a \<noteq> last (b # bs)" using Cons.prems(4,1,5) by auto
  show ?case
  proof (cases "bs = []")
    case True
    with Cons.prems ab show ?thesis by auto
  next
    case False
    then have "last bs \<noteq> b" using Cons.prems(2) by auto
    with Cons False ab show ?thesis by auto
  qed
qed

lemma QListQueue_rep_contents:
  "QListQueue_rep q as \<Longrightarrow> QListQueue_contents q = map (\<lambda>a. data (the (l_store q a))) as"
  by (auto simp: QListQueue_rep_def QListQueue_contents_def path_chain)

lemma QListQueue_push_rep:
  assumes rep: "QListQueue_rep q as" and nf: "\<not> QListQueue_full q"
  shows "\<exists>q'. QListQueue_push True q x = Some (Inr (0, q')) \<and> QListQueue_rep q' (as @ [l_next q])
    \<and> l_max_size q' = l_max_size q \<and> QListQueue_contents q' = QListQueue_contents q @ [x]"
proof (cases "as = []")
  case True
  with rep nf have "QListQueue_rep ((new_node x None q)\<lparr>l_front := Some (l_next q),
      l_rear := Some (l_next q), l_now_size := l_now_size q + 1\<rparr>) [l_next q]"
    by (auto simp: QListQueue_rep_def new_node_def QListQueue_full_def)
  with True rep nf show ?thesis
    by (auto simp: QListQueue_push_def QListQueue_contents_def QListQueue_rep_def new_node_def)
next
  case False
  let ?a = "l_next q"
  have p: "path (l_store q) (l_front q) as" "distinct as" and r: "l_rear q = Some (last as)"
    and fr: "?a \<notin> dom (l_store q)" using rep False by (auto simp: QListQueue_rep_def)
  obtain nd where nd: "l_store q (last as) = Some nd"
    using path_dom [OF p(1)] last_in_set [OF False] by auto
  obtain f where f: "l_front q = Some f" using p(1) False by (cases as) auto
  let ?h = "(l_store q)(?a \<mapsto> \<lparr>data = x, link = None\<rparr>, last as \<mapsto> nd\<lparr>link := Some ?a\<rparr>)"
  let ?q = "q\<lparr>l_store := ?h, l_next := Suc ?a, l_rear := Some ?a, l_now_size := l_now_size q + 1\<rparr>"
  have ne: "last as \<noteq> ?a" using nd fr by auto
  have push: "QListQueue_push True q x = Some (Inr (0, ?q))"
    using f r nd nf ne by (simp add: QListQueue_push_def set_link_def new_node_def)
  have "path ?h (l_front q) (as @ [?a])" using p False fr nd by (rule path_snoc)
  moreover have "?a \<notin> set as" using path_dom [OF p(1)] fr by auto
  ultimately have rep': "QListQueue_rep ?q (as @ [?a])"
    using rep nf p nd by (auto simp: QListQueue_rep_def QListQueue_full_def)
  have "map (\<lambda>a. data (the (?h a))) as = map (\<lambda>a. data (the (l_store q a))) as"
    using \<open>?a \<notin> set as\<close> nd by auto
  then have "QListQueue_contents ?q = QListQueue_contents q @ [x]"
    using ne by (simp add: QListQueue_rep_contents [OF rep'] QListQueue_rep_contents [OF rep])
  with push rep' show ?thesis by auto
qed

lemma QListQueue_pop_rep:
  assumes rep: "QListQueue_rep q as" and ne: "\<not> QListQueue_empty q"
  shows "\<exists>x q'. QListQueue_pop q = Some (Inr (x, q')) \<and> QListQueue_rep q' (tl as)
    \<and> l_max_size q' = l_max_size q \<and> QListQueue_contents q = x # QListQueue_contents q'"
proof -
  obtain p as' where as: "as = p # as'" using rep ne
    by (cases as) (auto simp: QListQueue_rep_def QListQueue_empty_def)
  obtain nd where nd: "l_store q p = Some nd" "path (l_store q) (link nd) as'"
    and f: "l_front q = Some p" using rep as by (auto simp: QListQueue_rep_def)
  let ?q = "q\<lparr>l_front := link nd, l_store := (l_store q)(p := None), l_now_size := l_now_size q - 1\<rparr>"
  have d: "p \<notin> set as'" using rep as by (simp add: QListQueue_rep_def)
  then have "path ((l_store q)(p := None)) (link nd) as'" using nd(2) by (subst path_cong) auto
  then have rep': "QListQueue_rep ?q as'" using rep as by (auto simp: QListQueue_rep_def)
  have "QListQueue_contents q = data nd # QListQueue_contents ?q"
    using d nd as by (auto simp: QListQueue_rep_contents [OF rep] QListQueue_rep_contents [OF rep'])
  moreover have "QListQueue_pop q = Some (Inr (data nd, ?q))"
    using ne f nd by (simp add: QListQueue_pop_def)
  ultimately show ?thesis using rep' as by auto
qed

section \<open>The linked queue implements the contract\<close>

definition lq_push :: "'a QListQueue \<Rightarrow> 'a \<Rightarrow> 'a QListQueue option" where
  "lq_push q x = (case QListQueue_push True q x of Some (Inr (_, q')) \<Rightarrow> Some q' | _ \<Rightarrow> None)"

definition lq_pop :: "'a QListQueue \<Rightarrow> ('a \<times> 'a QListQueue) option" where
  "lq_pop q = (case QListQueue_pop q of Some (Inr r) \<Rightarrow> Some r | _ \<Rightarrow> None)"

definition lq_capacity :: "'a QListQueue \<Rightarrow> nat" where
  "lq_capacity q = nat (l_max_size q)"

lemma QListQueue_length: "QListQueue_rep q as \<Longrightarrow> length (QListQueue_contents q) = nat (l_now_size q)"
  using QListQueue_rep_contents [of q as] by (simp add: QListQueue_rep_def)

lemma lq_push_full [simp]: "QListQueue_full q \<Longrightarrow> lq_push q x = None"
  by (simp add: lq_push_def QListQueue_push_def)

lemma lq_pop_empty [simp]: "QListQueue_empty q \<Longrightarrow> lq_pop q = None"
  by (simp add: lq_pop_def QListQueue_pop_def)

lemma lq_push_rep:
  assumes "QListQueue_rep q as" and "\<not> QListQueue_full q"
  obtains q' where "lq_push q x = Some q'" "QListQueue_inv q'" "lq_capacity q' = lq_capacity q"
    "QListQueue_contents q' = QListQueue_contents q @ [x]"
  using QListQueue_push_rep [OF assms, of x]
  by (force simp: lq_push_def lq_capacity_def QListQueue_inv_def)

lemma lq_pop_rep:
  assumes "QListQueue_rep q as" and "\<not> QListQueue_empty q"
  obtains x q' where "lq_pop q = Some (x, q')" "QListQueue_inv q'" "lq_capacity q' = lq_capacity q"
    "QListQueue_contents q = x # QListQueue_contents q'"
  using QListQueue_pop_rep [OF assms] by (force simp: lq_pop_def lq_capacity_def QListQueue_inv_def)

interpretation linked: bounded_queue QListQueue_inv QListQueue_contents lq_capacity lq_push lq_pop
proof
  fix q q' :: "'a QListQueue" and x :: 'a
  assume "QListQueue_inv q"
  then obtain as where rep: "QListQueue_rep q as" by (auto simp: QListQueue_inv_def)
  then have sz: "l_now_size q = int (length as)" "l_now_size q \<le> l_max_size q"
    by (auto simp: QListQueue_rep_def)
  have full: "QListQueue_full q \<longleftrightarrow> length (QListQueue_contents q) = lq_capacity q"
    using sz by (auto simp: QListQueue_length [OF rep] lq_capacity_def QListQueue_full_def nat_eq_iff2)
  have empty: "QListQueue_empty q \<longleftrightarrow> QListQueue_contents q = []"
    using sz QListQueue_length [OF rep] by (cases as) (auto simp: QListQueue_empty_def simp flip: length_0_conv)
  show "length (QListQueue_contents q) \<le> lq_capacity q"
    using sz by (simp add: QListQueue_length [OF rep] lq_capacity_def)
  show "lq_push q x = None \<longleftrightarrow> length (QListQueue_contents q) = lq_capacity q"
    using lq_push_rep [OF rep, of x] unfolding full [symmetric] by (metis lq_push_full option.distinct(1))
  show "lq_pop q = None \<longleftrightarrow> QListQueue_contents q = []"
    using lq_pop_rep [OF rep] unfolding empty [symmetric] by (metis lq_pop_empty option.distinct(1))
  show "QListQueue_inv q' \<and> lq_capacity q' = lq_capacity q \<and> QListQueue_contents q' = QListQueue_contents q @ [x]"
    if p: "lq_push q x = Some q'"
  proof -
    have "\<not> QListQueue_full q" using p by auto
    then show ?thesis by (rule lq_push_rep [OF rep, of x]) (use p in simp)
  qed
  show "QListQueue_inv q' \<and> lq_capacity q' = lq_capacity q \<and> QListQueue_contents q = x # QListQueue_contents q'"
    if p: "lq_pop q = Some (x, q')"
  proof -
    have "\<not> QListQueue_empty q" using p by auto
    then show ?thesis by (rule lq_pop_rep [OF rep]) (use p in simp)
  qed
qed

lemma QListQueue_inv_new: "0 \<le> n \<Longrightarrow> QListQueue_inv (QListQueue_new n)"
  by (auto simp: QListQueue_inv_def QListQueue_rep_def QListQueue_new_def intro!: exI [of _ "[]"])

lemma QListQueue_clear_rep:
  "QListQueue_rep q as \<Longrightarrow>
   \<exists>q'. QListQueue_clear q = Some (Inr q') \<and> QListQueue_rep q' [] \<and> l_max_size q' = l_max_size q"
proof (induction as arbitrary: q)
  case Nil
  then show ?case by (subst QListQueue_clear.simps) (auto simp: QListQueue_rep_def)
next
  case (Cons a as)
  then have "\<not> QListQueue_empty q" by (auto simp: QListQueue_rep_def QListQueue_empty_def)
  from QListQueue_pop_rep [OF Cons.prems this] Cons.prems obtain nd where
    nd: "l_front q = Some a" "l_store q a = Some nd"
    and rep: "QListQueue_rep (q\<lparr>l_front := link nd, l_store := (l_store q)(a := None),
       l_now_size := l_now_size q - 1\<rparr>) as"
    by (auto simp: QListQueue_pop_def QListQueue_rep_def \<open>\<not> QListQueue_empty q\<close>)
  from Cons.IH [OF rep] nd show ?case by (subst QListQueue_clear.simps) simp
qed

lemma QListQueue_new_contents [simp]:
  "QListQueue_contents (QListQueue_new n) = []" "lq_capacity (QListQueue_new n) = nat n"
  by (simp_all add: QListQueue_contents_def QListQueue_new_def lq_capacity_def)

lemma QListQueue_push_no_memory:
  assumes rep: "QListQueue_rep q as" and nf: "\<not> QListQueue_full q"
  shows "\<exists>rc q'. QListQueue_push False q x = Some (Inr (rc, q')) \<and> rc < 0 \<and> QListQueue_rep q' as
    \<and> QListQueue_contents q' = QListQueue_contents q"
proof (cases "as = []")
  case True
  with rep nf show ?thesis
    by (auto simp: QListQueue_push_def QListQueue_rep_def QListQueue_contents_def)
next
  case False
  have p: "path (l_store q) (l_front q) as" and r: "l_rear q = Some (last as)"
    using rep False by (auto simp: QListQueue_rep_def)
  obtain nd where nd: "l_store q (last as) = Some nd"
    using path_dom [OF p] last_in_set [OF False] by auto
  have "link nd = None" using path_last [OF p False] nd by simp
  then have same: "set_link (last as) None q = q"
    using nd by (simp add: set_link_def fun_upd_idem)
  obtain f where "l_front q = Some f" using p False by (cases as) auto
  with r nd nf same have "QListQueue_push False q x = Some (Inr (- 2, q))"
    by (simp add: QListQueue_push_def)
  with rep show ?thesis by auto
qed

section \<open>Properties\<close>

text \<open>
  C26. The linked queue is a FIFO queue under every interleaving of pushes and pops, as long as
  memory is available: what was popped followed by what is queued is what was pushed, at most \<open>n\<close>
  items are queued, and no operation dereferences a null or deleted node.
\<close>

theorem QListQueue_schedule_fifo:
  assumes "0 \<le> n" and "run lq_push lq_pop as (QListQueue_new n) = (q', ins, outs)"
  shows "ins = outs @ QListQueue_contents q' \<and> length (QListQueue_contents q') \<le> nat n
    \<and> (\<forall>x. QListQueue_push True q' x \<noteq> Some (Inl ())) \<and> QListQueue_pop q' \<noteq> Some (Inl ())"
proof -
  note f = linked.run_fifo [OF QListQueue_inv_new [OF assms(1)] assms(2)]
  then obtain bs where rep: "QListQueue_rep q' bs" by (auto simp: QListQueue_inv_def)
  have "QListQueue_push True q' x \<noteq> Some (Inl ())" for x
    using QListQueue_push_rep [OF rep, of x] by (cases "QListQueue_full q'") (simp add: QListQueue_push_def, auto)
  moreover have "QListQueue_pop q' \<noteq> Some (Inl ())"
    using QListQueue_pop_rep [OF rep] by (cases "QListQueue_empty q'") (simp add: QListQueue_pop_def, auto)
  ultimately show ?thesis using f linked.size_le [of q'] by auto
qed

theorem QListQueue_schedule_fifo_witness:
  "\<exists>q'. run lq_push lq_pop [Push 1, Push 2, Pop] (QListQueue_new 5) = (q', [1, 2], [1 :: nat])
    \<and> [1, 2] = [1] @ QListQueue_contents q' \<and> length (QListQueue_contents q') \<le> nat 5
    \<and> (\<forall>x. QListQueue_push True q' x \<noteq> Some (Inl ())) \<and> QListQueue_pop q' \<noteq> Some (Inl ())"
proof -
  obtain q' :: "nat QListQueue" where
    "run lq_push lq_pop [Push 1, Push 2, Pop] (QListQueue_new 5) = (q', [1, 2], [1])"
    by (simp add: lq_push_def lq_pop_def QListQueue_push_def QListQueue_pop_def QListQueue_new_def
      QListQueue_full_def QListQueue_empty_def new_node_def set_link_def)
  with QListQueue_schedule_fifo [OF _ this] show ?thesis by auto
qed

text \<open>
  A push that finds no memory returns a negative code and leaves a well-formed queue with the
  same contents.
\<close>

lemma QListQueue_push_out_of_memory:
  assumes "QListQueue_inv q" and "\<not> QListQueue_full q"
  shows "\<exists>rc q'. QListQueue_push False q x = Some (Inr (rc, q')) \<and> rc < 0 \<and> QListQueue_inv q'
    \<and> QListQueue_contents q' = QListQueue_contents q"
  using QListQueue_push_no_memory [OF _ assms(2), of _ x] assms(1) unfolding QListQueue_inv_def by metis

text \<open>
  \<open>push_urgent\<close> does not have that guarantee: its check tests the old front pointer, so when a
  node cannot be allocated for a non-empty queue that is not full it reports success, counts one
  more item and drops every queued item; the next \<open>pop\<close> then dereferences a null pointer.
\<close>

lemma QListQueue_push_urgent_out_of_memory:
  assumes "QListQueue_inv q" and "\<not> QListQueue_full q" and "\<not> QListQueue_empty q"
  shows "\<exists>q'. QListQueue_push_urgent False q x = Some (0, q') \<and> QListQueue_contents q' = []
    \<and> l_now_size q' = l_now_size q + 1 \<and> QListQueue_pop q' = Some (Inl ())"
proof -
  obtain as where rep: "QListQueue_rep q as" using assms(1) by (auto simp: QListQueue_inv_def)
  with assms(3) obtain p where p: "l_front q = Some p" "0 < l_now_size q"
    by (cases as) (auto simp: QListQueue_rep_def QListQueue_empty_def)
  have [simp]: "chain h None n = []" for h :: "nat \<Rightarrow> 'a ListNode option" and n by (cases n) auto
  from p assms(2) show ?thesis
    by (simp add: QListQueue_push_urgent_def QListQueue_contents_def QListQueue_pop_def QListQueue_empty_def)
qed

text \<open>
  \<open>clear\<close>, which the destructor calls, terminates, deletes each queued node exactly once and
  leaves an empty queue of the same bound.
\<close>

lemma QListQueue_clear_empties:
  assumes "QListQueue_inv q"
  shows "\<exists>q'. QListQueue_clear q = Some (Inr q') \<and> QListQueue_inv q' \<and> QListQueue_contents q' = []
    \<and> QListQueue_empty q' \<and> l_max_size q' = l_max_size q"
proof -
  obtain as where "QListQueue_rep q as" using assms by (auto simp: QListQueue_inv_def)
  from QListQueue_clear_rep [OF this] obtain q' where
    q': "QListQueue_clear q = Some (Inr q')" "QListQueue_rep q' []" "l_max_size q' = l_max_size q" by blast
  moreover have "QListQueue_contents q' = []" using QListQueue_rep_contents [OF q'(2)] by simp
  moreover have "QListQueue_empty q'" using q'(2) by (simp add: QListQueue_rep_def QListQueue_empty_def)
  ultimately show ?thesis by (auto simp: QListQueue_inv_def)
qed

end
