(* ===== verification/MultiKeySort.thy ===== *)
theory MultiKeySort
  imports Prelude
begin

text \<open>
  The multi-key quicksort family of \<^verbatim>\<open>src/common/qalgorithm.h\<close> (lines 459 to 2307).

  The header repeats one algorithm for every number of keys and of attached (satellite) arrays,
  once recursive (\<^verbatim>\<open>Q_Recursion_*\<close>) and once with an explicit stack of 1024 integers
  (\<^verbatim>\<open>Q_Unrecursion_*\<close>).  The text of the algorithm is translated once: \<open>scan_up\<close>, \<open>scan_down\<close>,
  \<open>part_loop\<close> are its three nested loops, \<open>qs_rec\<close> the recursive body and \<open>qs_unrec\<close> the loop over
  the stack.  They take what varies between the copies: \<open>rd\<close>, the key fields read at an index;
  \<open>lt\<close> and \<open>gt\<close>, the two comparisons with the pivot's keys; \<open>swp\<close>, the exchange of two rows in all
  arrays.  Every function of the header is then a definition of its own.

  The locale \<open>multikey_sort\<close> holds the correctness proof once for all copies.
\<close>

section \<open>The loops of the algorithm\<close>

text \<open>\<^verbatim>\<open>while(lBegin<lEnd&&tKey_1[lBegin]<tMid_1) lBegin++;\<close>\<close>

function scan_up :: "('m \<Rightarrow> 'm \<Rightarrow> bool) \<Rightarrow> ('s \<Rightarrow> int \<Rightarrow> 'm) \<Rightarrow> 's \<Rightarrow> 'm \<Rightarrow> int \<Rightarrow> int \<Rightarrow> int" where
  "scan_up lt rd st tMid lBegin lEnd =
     (if lBegin < lEnd \<and> lt (rd st lBegin) tMid then scan_up lt rd st tMid (lBegin + 1) lEnd
      else lBegin)"
  by pat_completeness auto
termination
  by (relation "measure (\<lambda>(lt, rd, st, tMid, lBegin, lEnd). nat (lEnd - lBegin))") auto

text \<open>\<^verbatim>\<open>while(lBegin<lEnd&&tKey_1[lEnd]>tMid_1) lEnd--;\<close>\<close>

function scan_down :: "('m \<Rightarrow> 'm \<Rightarrow> bool) \<Rightarrow> ('s \<Rightarrow> int \<Rightarrow> 'm) \<Rightarrow> 's \<Rightarrow> 'm \<Rightarrow> int \<Rightarrow> int \<Rightarrow> int" where
  "scan_down gt rd st tMid lBegin lEnd =
     (if lBegin < lEnd \<and> gt (rd st lEnd) tMid then scan_down gt rd st tMid lBegin (lEnd - 1)
      else lEnd)"
  by pat_completeness auto
termination
  by (relation "measure (\<lambda>(gt, rd, st, tMid, lBegin, lEnd). nat (lEnd - lBegin))") auto

declare scan_up.simps [simp del] scan_down.simps [simp del]

lemma scan_up_spec:
  "lBegin \<le> lEnd \<Longrightarrow> lBegin \<le> scan_up lt rd st tMid lBegin lEnd \<and> scan_up lt rd st tMid lBegin lEnd \<le> lEnd
   \<and> (\<forall>i. lBegin \<le> i \<longrightarrow> i < scan_up lt rd st tMid lBegin lEnd \<longrightarrow> lt (rd st i) tMid)
   \<and> (scan_up lt rd st tMid lBegin lEnd < lEnd \<longrightarrow> \<not> lt (rd st (scan_up lt rd st tMid lBegin lEnd)) tMid)"
proof (induction lt rd st tMid lBegin lEnd rule: scan_up.induct)
  case (1 lt rd st tMid lBegin lEnd)
  show ?case
  proof (cases "lBegin < lEnd \<and> lt (rd st lBegin) tMid")
    case True
    then have eq: "scan_up lt rd st tMid lBegin lEnd = scan_up lt rd st tMid (lBegin + 1) lEnd"
      by (subst scan_up.simps) simp
    have "lt (rd st i) tMid" if "lBegin \<le> i" "i < scan_up lt rd st tMid (lBegin + 1) lEnd" for i
      using that True "1.IH" [OF True] by (cases "i = lBegin") auto
    with True "1.IH" [OF True] show ?thesis unfolding eq by auto
  next
    case False
    then have "scan_up lt rd st tMid lBegin lEnd = lBegin" by (subst scan_up.simps) auto
    with False "1.prems" show ?thesis by auto
  qed
qed

lemma scan_down_spec:
  "lBegin \<le> lEnd \<Longrightarrow> lBegin \<le> scan_down gt rd st tMid lBegin lEnd \<and> scan_down gt rd st tMid lBegin lEnd \<le> lEnd
   \<and> (\<forall>i. scan_down gt rd st tMid lBegin lEnd < i \<longrightarrow> i \<le> lEnd \<longrightarrow> gt (rd st i) tMid)
   \<and> (lBegin < scan_down gt rd st tMid lBegin lEnd \<longrightarrow> \<not> gt (rd st (scan_down gt rd st tMid lBegin lEnd)) tMid)"
proof (induction gt rd st tMid lBegin lEnd rule: scan_down.induct)
  case (1 gt rd st tMid lBegin lEnd)
  show ?case
  proof (cases "lBegin < lEnd \<and> gt (rd st lEnd) tMid")
    case True
    then have eq: "scan_down gt rd st tMid lBegin lEnd = scan_down gt rd st tMid lBegin (lEnd - 1)"
      by (subst scan_down.simps) simp
    have "gt (rd st i) tMid" if "scan_down gt rd st tMid lBegin (lEnd - 1) < i" "i \<le> lEnd" for i
      using that True "1.IH" [OF True] by (cases "i = lEnd") auto
    with True "1.IH" [OF True] show ?thesis unfolding eq by auto
  next
    case False
    then have "scan_down gt rd st tMid lBegin lEnd = lEnd" by (subst scan_down.simps) auto
    with False "1.prems" show ?thesis by auto
  qed
qed

text \<open>
  The partition loop \<^verbatim>\<open>while(lBegin<lEnd) {...}\<close>.  When no exchange is made the scans have met,
  so the guard fails the next time round.
\<close>

function part_loop :: "('m \<Rightarrow> 'm \<Rightarrow> bool) \<Rightarrow> ('m \<Rightarrow> 'm \<Rightarrow> bool) \<Rightarrow> ('s \<Rightarrow> int \<Rightarrow> 'm) \<Rightarrow> ('s \<Rightarrow> int \<Rightarrow> int \<Rightarrow> 's)
    \<Rightarrow> 'm \<Rightarrow> int \<Rightarrow> int \<Rightarrow> 's \<Rightarrow> 's \<times> int \<times> int" where
  "part_loop lt gt rd swp tMid lBegin lEnd st =
     (if lBegin < lEnd then
        let b = scan_up lt rd st tMid lBegin lEnd; e = scan_down gt rd st tMid b lEnd
        in if b < e
           then part_loop lt gt rd swp tMid (b + 1) (if b + 1 < e then e - 1 else e) (swp st b e)
           else (st, b, e)
      else (st, lBegin, lEnd))"
  by pat_completeness auto
termination
proof (relation "measure (\<lambda>(lt, gt, rd, swp, tMid, lBegin, lEnd, st). nat (lEnd - lBegin))")
  fix lt gt :: "'m \<Rightarrow> 'm \<Rightarrow> bool" and rd :: "'s \<Rightarrow> int \<Rightarrow> 'm" and swp :: "'s \<Rightarrow> int \<Rightarrow> int \<Rightarrow> 's"
    and tMid :: 'm and lBegin lEnd b e :: int and st :: 's
  assume g: "lBegin < lEnd" "b = scan_up lt rd st tMid lBegin lEnd"
    "e = scan_down gt rd st tMid b lEnd" "b < e"
  then have "lBegin \<le> b" using scan_up_spec [of lBegin lEnd lt rd st tMid] by simp
  moreover have "e \<le> lEnd"
    using g scan_up_spec [of lBegin lEnd lt rd st tMid] scan_down_spec [of b lEnd gt rd st tMid] by simp
  ultimately show "((lt, gt, rd, swp, tMid, b + 1, if b + 1 < e then e - 1 else e, swp st b e),
      lt, gt, rd, swp, tMid, lBegin, lEnd, st) \<in> measure (\<lambda>(lt, gt, rd, swp, tMid, lBegin, lEnd, st). nat (lEnd - lBegin))"
    using g(1,4) by auto
qed simp

declare part_loop.simps [simp del]

section \<open>The recursive and the iterative body\<close>

text \<open>
  What both bodies do with a segment of at least three rows: the state after partitioning, the
  end \<open>lBegin - 1\<close> of the left part and the begin \<open>lEnd\<close> of the right part.
\<close>

definition qs_split :: "('m \<Rightarrow> 'm \<Rightarrow> bool) \<Rightarrow> ('m \<Rightarrow> 'm \<Rightarrow> bool) \<Rightarrow> ('s \<Rightarrow> int \<Rightarrow> 'm) \<Rightarrow> ('s \<Rightarrow> int \<Rightarrow> int \<Rightarrow> 's)
    \<Rightarrow> int \<Rightarrow> int \<Rightarrow> 's \<Rightarrow> 's \<times> int \<times> int" where
  "qs_split lt gt rd swp lBegin lEnd st =
     (let tMid = rd st ((lBegin + lEnd) div 2);
          (st', b, e) = part_loop lt gt rd swp tMid lBegin lEnd st;
          b' = (if lt (rd st' b) tMid then b + 1 else b)
      in (st', b' - 1, e))"

definition qs_pair :: "('m \<Rightarrow> 'm \<Rightarrow> bool) \<Rightarrow> ('s \<Rightarrow> int \<Rightarrow> 'm) \<Rightarrow> ('s \<Rightarrow> int \<Rightarrow> int \<Rightarrow> 's)
    \<Rightarrow> int \<Rightarrow> int \<Rightarrow> 's \<Rightarrow> 's" where
  "qs_pair gt rd swp lBegin lEnd st =
     (if gt (rd st lBegin) (rd st lEnd) then swp st lBegin lEnd else st)"

partial_function (option) qs_rec :: "('m \<Rightarrow> 'm \<Rightarrow> bool) \<Rightarrow> ('m \<Rightarrow> 'm \<Rightarrow> bool) \<Rightarrow> ('s \<Rightarrow> int \<Rightarrow> 'm)
    \<Rightarrow> ('s \<Rightarrow> int \<Rightarrow> int \<Rightarrow> 's) \<Rightarrow> int \<Rightarrow> int \<Rightarrow> 's \<Rightarrow> 's option" where
  "qs_rec lt gt rd swp lBegin lEnd st =
     (if lBegin \<ge> lEnd then Some st
      else if lBegin + 1 = lEnd then Some (qs_pair gt rd swp lBegin lEnd st)
      else (case qs_split lt gt rd swp lBegin lEnd st of (st', l, r) \<Rightarrow>
        Option.bind (if l > lBegin then qs_rec lt gt rd swp lBegin l st' else Some st')
          (\<lambda>st''. if r < lEnd then qs_rec lt gt rd swp r lEnd st'' else Some st'')))"

datatype sort_error = StackOverflow

text \<open>\<^verbatim>\<open>int32_t stack_buf[1<<10]\<close>: two integers per pending segment, and no check of the limit.\<close>

definition STACK_PAIRS :: nat where
  "STACK_PAIRS = 512"

definition push_seg :: "bool \<Rightarrow> int \<times> int \<Rightarrow> (int \<times> int) list \<Rightarrow> (int \<times> int) list option" where
  "push_seg c seg stack =
     (if c then (if STACK_PAIRS \<le> length stack then None else Some (seg # stack)) else Some stack)"

definition push_parts :: "int \<Rightarrow> int \<Rightarrow> int \<Rightarrow> int \<Rightarrow> (int \<times> int) list \<Rightarrow> (int \<times> int) list option" where
  "push_parts lBegin lEnd l r rest =
     (case push_seg (r < lEnd) (r, lEnd) rest of None \<Rightarrow> None
      | Some stack \<Rightarrow> push_seg (l > lBegin) (lBegin, l) stack)"

text \<open>
  The body of the \<^verbatim>\<open>Q_FOREVER\<close> loop: it ends the loop with a result, or goes on with a stack
  and a state.
\<close>

definition qs_step :: "('m \<Rightarrow> 'm \<Rightarrow> bool) \<Rightarrow> ('m \<Rightarrow> 'm \<Rightarrow> bool) \<Rightarrow> ('s \<Rightarrow> int \<Rightarrow> 'm) \<Rightarrow> ('s \<Rightarrow> int \<Rightarrow> int \<Rightarrow> 's)
    \<Rightarrow> (int \<times> int) list \<Rightarrow> 's \<Rightarrow> (sort_error + 's) + (int \<times> int) list \<times> 's" where
  "qs_step lt gt rd swp stack st =
     (case stack of [] \<Rightarrow> Inl (Inr st)
      | (lBegin, lEnd) # rest \<Rightarrow>
          if lBegin \<ge> lEnd then Inr (rest, st)
          else if lBegin + 1 = lEnd then Inr (rest, qs_pair gt rd swp lBegin lEnd st)
          else (case qs_split lt gt rd swp lBegin lEnd st of (st', l, r) \<Rightarrow>
            (case push_parts lBegin lEnd l r rest of
               None \<Rightarrow> Inl (Inl StackOverflow)
             | Some stack' \<Rightarrow> Inr (stack', st'))))"

partial_function (option) qs_unrec :: "('m \<Rightarrow> 'm \<Rightarrow> bool) \<Rightarrow> ('m \<Rightarrow> 'm \<Rightarrow> bool) \<Rightarrow> ('s \<Rightarrow> int \<Rightarrow> 'm)
    \<Rightarrow> ('s \<Rightarrow> int \<Rightarrow> int \<Rightarrow> 's) \<Rightarrow> (int \<times> int) list \<Rightarrow> 's \<Rightarrow> (sort_error + 's) option" where
  "qs_unrec lt gt rd swp stack st =
     (case qs_step lt gt rd swp stack st of Inl r \<Rightarrow> Some r
      | Inr (stack', st') \<Rightarrow> qs_unrec lt gt rd swp stack' st')"

section \<open>Correctness, once for all copies\<close>

text \<open>
  What the comparisons must satisfy: they do not separate a value from itself, and they never
  contradict the order of a key (the first key, for the multi-key variants).
\<close>

locale weak_order =
  fixes lt gt :: "'m \<Rightarrow> 'm \<Rightarrow> bool" and key :: "'m \<Rightarrow> 'k::linorder"
  assumes lt_irrefl: "\<not> lt x x"
    and gt_irrefl: "\<not> gt x x"
    and lt_le: "lt x y \<Longrightarrow> key x \<le> key y"
    and nlt_ge: "\<not> lt x y \<Longrightarrow> key y \<le> key x"
    and gt_ge: "gt x y \<Longrightarrow> key y \<le> key x"
    and ngt_le: "\<not> gt x y \<Longrightarrow> key x \<le> key y"

text \<open>
  The arrays of a variant, seen as one array of rows: \<open>rd\<close> reads the key fields of a row and
  \<open>swp\<close> exchanges two rows.
\<close>

locale multikey_sort = weak_order lt gt key
  for lt gt :: "'m \<Rightarrow> 'm \<Rightarrow> bool" and key :: "'m \<Rightarrow> 'k::linorder" +
  fixes rows :: "'s \<Rightarrow> 'r list" and inv :: "'s \<Rightarrow> bool" and rd :: "'s \<Rightarrow> int \<Rightarrow> 'm"
    and swp :: "'s \<Rightarrow> int \<Rightarrow> int \<Rightarrow> 's" and proj :: "'r \<Rightarrow> 'm"
  assumes rd_rows: "inv s \<Longrightarrow> in_range (rows s) i \<Longrightarrow> rd s i = proj (aget (rows s) i)"
    and rows_swp: "inv s \<Longrightarrow> in_range (rows s) i \<Longrightarrow> in_range (rows s) j \<Longrightarrow>
          rows (swp s i j) = aswap (rows s) i j"
    and inv_swp: "inv s \<Longrightarrow> in_range (rows s) i \<Longrightarrow> in_range (rows s) j \<Longrightarrow> inv (swp s i j)"
begin

definition part_inv :: "int \<Rightarrow> int \<Rightarrow> 'm \<Rightarrow> int \<Rightarrow> int \<Rightarrow> 's \<Rightarrow> bool" where
  "part_inv m n t b e s \<longleftrightarrow> inv s \<and> 0 \<le> m \<and> n < alen (rows s) \<and> m \<le> b \<and> b \<le> e \<and> e \<le> n \<and>
     (\<forall>i. m \<le> i \<longrightarrow> i < b \<longrightarrow> key (rd s i) \<le> key t) \<and>
     (\<forall>i. e < i \<longrightarrow> i \<le> n \<longrightarrow> key t \<le> key (rd s i)) \<and>
     (m < b \<or> (\<exists>i. b \<le> i \<and> i \<le> e \<and> m < i \<and> \<not> gt (rd s i) t)) \<and>
     (e < n \<or> (\<exists>i. b \<le> i \<and> i \<le> e \<and> i < n \<and> \<not> lt (rd s i) t) \<or> b = e \<and> \<not> lt (rd s e) t)"

lemma rd_swp:
  assumes "inv s" "in_range (rows s) i" "in_range (rows s) j" "in_range (rows s) k"
  shows "rd (swp s i j) k = (if k = i then rd s j else if k = j then rd s i else rd s k)"
  using assms rd_rows [OF inv_swp [OF assms(1-3)], of k]
  by (simp add: rd_rows rows_swp aget_aswap)

lemma part_inv_meet:
  assumes i: "part_inv m n t b e s" "b < e"
    and b': "b' = scan_up lt rd s t b e" and e': "e' = scan_down gt rd s t b' e" and "\<not> b' < e'"
  shows "b' = e'" and "part_inv m n t b' e' s"
proof -
  note u = scan_up_spec [of b e lt rd s t, folded b']
  note d = scan_down_spec [of b' e gt rd s t, folded e']
  have r: "b \<le> b'" "b' \<le> e" "b' \<le> e'" "e' \<le> e" using u d assms(2) by auto
  then show eq: "b' = e'" using assms(5) by simp
  have "key (rd s i) \<le> key t" if "m \<le> i" "i < b'" for i
    using that i u lt_le by (cases "i < b") (auto simp: part_inv_def)
  moreover have "key t \<le> key (rd s i)" if "e' < i" "i \<le> n" for i
    using that i d r gt_ge by (cases "e < i") (auto simp: part_inv_def)
  moreover have "m < b'"
  proof (rule ccontr)
    assume "\<not> m < b'"
    with r i obtain k where "b \<le> k" "k \<le> e" "m < k" "\<not> gt (rd s k) t" "b' = m"
      by (auto simp: part_inv_def)
    with d eq r show False by force
  qed
  moreover have "e' < n"
  proof (rule ccontr)
    assume "\<not> e' < n"
    with r i obtain k where "b \<le> k" "k \<le> e" "k < n" "\<not> lt (rd s k) t" "e' = n"
      using assms(2) by (auto simp: part_inv_def)
    with u eq r show False using assms(2) by force
  qed
  ultimately show "part_inv m n t b' e' s" using i r by (auto simp: part_inv_def)
qed

lemma part_inv_swap:
  assumes i: "part_inv m n t b e s" "b < e"
    and b': "b' = scan_up lt rd s t b e" and e': "e' = scan_down gt rd s t b' e" and lt': "b' < e'"
  shows "part_inv m n t (b' + 1) (if b' + 1 < e' then e' - 1 else e') (swp s b' e')"
proof -
  note u = scan_up_spec [of b e lt rd s t, folded b']
  note d = scan_down_spec [of b' e gt rd s t, folded e']
  have r: "b \<le> b'" "b' \<le> e" "b' \<le> e'" "e' \<le> e" using u d assms(2) by auto
  have rng: "inv s" "0 \<le> m" "m \<le> b" "e \<le> n" "n < alen (rows s)" using i by (auto simp: part_inv_def)
  have ir: "in_range (rows s) b'" "in_range (rows s) e'" using rng r by (auto simp: in_range_def)
  note sw = rd_swp [OF rng(1) ir]
  have nl: "\<not> lt (rd s b') t" "\<not> gt (rd s e') t" using u d r lt' assms(2) by auto
  have lo: "key (rd (swp s b' e') k) \<le> key t" if k: "m \<le> k" "k < b' + 1" for k
  proof (cases "k < b'")
    case True
    then have "key (rd s k) \<le> key t"
      using k i u lt_le assms(2) by (cases "k < b") (auto simp: part_inv_def)
    then show ?thesis using True k lt' rng r by (subst sw) auto
  next
    case False
    with k have "k = b'" by simp
    then show ?thesis using nl ngt_le by (subst sw) (auto simp: ir)
  qed
  have hi: "key t \<le> key (rd (swp s b' e') k)" if k: "e' \<le> k" "k \<le> n" for k
  proof (cases "e' < k")
    case True
    then have "key t \<le> key (rd s k)"
      using k i d r gt_ge by (cases "e < k") (auto simp: part_inv_def)
    then show ?thesis using True k lt' rng r by (subst sw) auto
  next
    case False
    with k have "k = e'" by simp
    then show ?thesis using nl nlt_ge lt' by (subst sw) (auto simp: ir)
  qed
  have "inv (swp s b' e')" "alen (rows (swp s b' e')) = alen (rows s)"
    using inv_swp rows_swp rng ir by auto
  moreover have "\<not> lt (rd (swp s b' e') e') t" using nl lt' ir by (subst sw) auto
  ultimately show ?thesis
    using lo hi rng r lt' by (auto simp: part_inv_def)
qed

lemma part_loop_spec:
  assumes "part_inv m n t b e s" and "part_loop lt gt rd swp t b e s = (s', b', e')"
  shows "b' = e' \<and> part_inv m n t b' e' s' \<and> perm_on m n (rows s) (rows s')"
  using assms
proof (induction "nat (e - b)" arbitrary: b e s rule: less_induct)
  case less
  let ?b = "scan_up lt rd s t b e"
  let ?e = "scan_down gt rd s t ?b e"
  show ?case
  proof (cases "b < e")
    case False
    then have "part_loop lt gt rd swp t b e s = (s, b, e)" by (subst part_loop.simps) simp
    with less.prems False show ?thesis by (auto simp: part_inv_def)
  next
    case True
    note u = scan_up_spec [of b e lt rd s t] and d = scan_down_spec [of ?b e gt rd s t]
    have r: "b \<le> ?b" "?b \<le> e" "?b \<le> ?e" "?e \<le> e" using u d True by auto
    have rng: "inv s" "0 \<le> m" "m \<le> b" "e \<le> n" "n < alen (rows s)"
      using less.prems(1) by (auto simp: part_inv_def)
    show ?thesis
    proof (cases "?b < ?e")
      case False
      then have "part_loop lt gt rd swp t b e s = (s, ?b, ?e)"
        using True by (subst part_loop.simps) (simp add: Let_def)
      with less.prems part_inv_meet [OF less.prems(1) True refl refl False] show ?thesis by auto
    next
      case sw: True
      let ?e1 = "if ?b + 1 < ?e then ?e - 1 else ?e"
      have "part_loop lt gt rd swp t b e s = part_loop lt gt rd swp t (?b + 1) ?e1 (swp s ?b ?e)"
        using True sw by (subst part_loop.simps) (simp add: Let_def)
      then have eq: "part_loop lt gt rd swp t (?b + 1) ?e1 (swp s ?b ?e) = (s', b', e')"
        using less.prems(2) by (rule subst)
      have dec: "nat (?e1 - (?b + 1)) < nat (e - b)" using r sw by auto
      note * = less.hyps [OF dec part_inv_swap [OF less.prems(1) True refl refl sw] eq]
      have "in_range (rows s) ?b" "in_range (rows s) ?e" using rng r by (auto simp: in_range_def)
      then have "perm_on m n (rows s) (rows (swp s ?b ?e))"
        using rng r by (auto simp: rows_swp intro: perm_on_aswap)
      with * show ?thesis by (blast intro: perm_on_trans)
    qed
  qed
qed

end

lemma sorted_on_join:
  assumes p1: "perm_on m l v w1" and s1: "sorted_on k m l w1"
    and p2: "perm_on r n w1 w2" and s2: "sorted_on k r n w2"
    and rng: "0 \<le> m" "m \<le> r" "l \<le> n" "n < alen v" "l = r \<or> l = r - 1"
    and lo: "\<And>i. m \<le> i \<Longrightarrow> i \<le> l \<Longrightarrow> k (aget v i) \<le> c"
    and hi: "\<And>i. l < i \<Longrightarrow> i \<le> n \<Longrightarrow> c \<le> k (aget v i)"
  shows "sorted_on k m n w2" and "perm_on m n v w2"
proof -
  have len: "alen w1 = alen v" "alen w2 = alen v" using p1 p2 by (simp_all add: perm_on_alen)
  have w1lo: "k (aget w1 i) \<le> c" if "m \<le> i" "i \<le> l" for i
    using perm_on_all [OF p1, of "\<lambda>x. k x \<le> c" i] lo that rng by auto
  have w1hi: "c \<le> k (aget w1 i)" if "l < i" "i \<le> n" for i
    using hi [OF that] perm_on_outside [OF p1, of i] that rng by (auto simp: in_range_def)
  have w1_le: "k (aget w1 i) \<le> k (aget w1 j)" if "m \<le> i" "i < r" "r \<le> j" "j \<le> n" for i j
  proof (cases "j \<le> l")
    case True
    then show ?thesis using that s1 by (auto intro: sorted_onD)
  next
    case False
    then show ?thesis using that rng w1lo [of i] w1hi [of j] by auto
  qed
  have w2_low: "aget w2 i = aget w1 i" if "m \<le> i" "i < r" "i \<le> n" for i
    using perm_on_outside [OF p2, of i] that rng len by (auto simp: in_range_def)
  show "sorted_on k m n w2"
  proof
    fix i j assume ij: "m \<le> i" "i < j" "j \<le> n"
    consider "j < r" | "r \<le> i" | "i < r" "r \<le> j" by linarith
    then show "k (aget w2 i) \<le> k (aget w2 j)"
    proof cases
      case 1
      then show ?thesis using ij rng s1 w2_low [of i] w2_low [of j] by (auto intro: sorted_onD)
    next
      case 2
      then show ?thesis using ij s2 by (auto intro: sorted_onD)
    next
      case 3
      have "k (aget w1 i) \<le> k (aget w2 j)"
        using perm_on_all [OF p2, of "\<lambda>x. k (aget w1 i) \<le> k x" j] w1_le [of i] ij 3 rng len by auto
      then show ?thesis using w2_low [of i] ij 3 by auto
    qed
  qed
  show "perm_on m n v w2"
    using perm_on_mono [OF p1, of m n] perm_on_mono [OF p2, of m n] rng by (auto intro: perm_on_trans)
qed

context multikey_sort
begin

lemma qs_split_spec:
  assumes "inv s" "0 \<le> m" "m + 1 < n" "n < alen (rows s)"
    and sp: "qs_split lt gt rd swp m n s = (s', l, r)"
  obtains c where "inv s'" "perm_on m n (rows s) (rows s')" "m < r" "r \<le> n" "l < n" "m \<le> l"
    "l = r \<or> l = r - 1"
    "\<And>i. m \<le> i \<Longrightarrow> i \<le> l \<Longrightarrow> key (proj (aget (rows s') i)) \<le> c"
    "\<And>i. l < i \<Longrightarrow> i \<le> n \<Longrightarrow> c \<le> key (proj (aget (rows s') i))"
proof -
  let ?mid = "(m + n) div 2"
  let ?t = "rd s ?mid"
  have mid: "m < ?mid" "?mid < n" using assms by auto
  obtain b e where pl: "part_loop lt gt rd swp ?t m n s = (s', b, e)"
    and l: "l = (if lt (rd s' b) ?t then b + 1 else b) - 1" and r: "r = e"
    using sp by (auto simp: qs_split_def Let_def split: prod.splits)
  have "part_inv m n ?t m n s"
    unfolding part_inv_def using assms mid lt_irrefl gt_irrefl by (auto intro!: exI [of _ ?mid])
  from part_loop_spec [OF this pl] have *: "b = e" "part_inv m n ?t e e s'"
    "perm_on m n (rows s) (rows s')" by auto
  have i: "inv s'" "m < e" "e < n \<or> \<not> lt (rd s' e) ?t" "e \<le> n" "n < alen (rows s')"
    using *(2) by (auto simp: part_inv_def)
  have rd': "rd s' k = proj (aget (rows s') k)" if "m \<le> k" "k \<le> n" for k
    using that i assms(2) by (intro rd_rows) (auto simp: in_range_def)
  have lo: "key (rd s' k) \<le> key ?t" if "m \<le> k" "k \<le> l" for k
    using that *(1,2) l lt_le [of "rd s' e" ?t]
    by (cases "k = e") (auto simp: part_inv_def split: if_splits)
  have hi: "key ?t \<le> key (rd s' k)" if "l < k" "k \<le> n" for k
    using that *(1,2) l nlt_ge [of "rd s' e" ?t]
    by (cases "k = e") (auto simp: part_inv_def split: if_splits)
  show ?thesis
  proof (rule that [of "key ?t"])
    show "key (proj (aget (rows s') k)) \<le> key ?t" if "m \<le> k" "k \<le> l" for k
      using lo [OF that] rd' [of k] that i l *(1) by (auto split: if_splits)
    show "key ?t \<le> key (proj (aget (rows s') k))" if "l < k" "k \<le> n" for k
      using hi [OF that] rd' [of k] that i l *(1) by (auto split: if_splits)
  qed (use * i l r in auto)
qed

lemma qs_pair_spec:
  assumes "inv s" "0 \<le> m" "m + 1 < alen (rows s)"
  shows "inv (qs_pair gt rd swp m (m + 1) s)"
    and "perm_on m (m + 1) (rows s) (rows (qs_pair gt rd swp m (m + 1) s))"
    and "sorted_on (key \<circ> proj) m (m + 1) (rows (qs_pair gt rd swp m (m + 1) s))"
proof -
  have r: "in_range (rows s) m" "in_range (rows s) (m + 1)" using assms by (auto simp: in_range_def)
  show "inv (qs_pair gt rd swp m (m + 1) s)"
    using assms r by (simp add: qs_pair_def inv_swp)
  show "perm_on m (m + 1) (rows s) (rows (qs_pair gt rd swp m (m + 1) s))"
    using assms r by (auto simp: qs_pair_def rows_swp intro: perm_on_aswap)
  show "sorted_on (key \<circ> proj) m (m + 1) (rows (qs_pair gt rd swp m (m + 1) s))"
  proof
    fix i j :: int assume "m \<le> i" "i < j" "j \<le> m + 1"
    then have "i = m" "j = m + 1" by auto
    then show "(key \<circ> proj) (aget (rows (qs_pair gt rd swp m (m + 1) s)) i)
        \<le> (key \<circ> proj) (aget (rows (qs_pair gt rd swp m (m + 1) s)) j)"
      using assms r gt_ge ngt_le by (simp add: qs_pair_def rows_swp aget_aswap rd_rows)
  qed
qed

lemma qs_rec_spec:
  assumes "inv s" "0 \<le> m" "n < alen (rows s)"
  shows "\<exists>s'. qs_rec lt gt rd swp m n s = Some s' \<and> inv s' \<and> perm_on m n (rows s) (rows s')
    \<and> sorted_on (key \<circ> proj) m n (rows s')"
  using assms
proof (induction "nat (n - m)" arbitrary: m n s rule: less_induct)
  case less
  consider "n \<le> m" | "n = m + 1" | "m + 1 < n" by linarith
  then show ?case
  proof cases
    case 1
    then show ?thesis using less.prems by (subst qs_rec.simps) simp
  next
    case 2
    then show ?thesis using less.prems qs_pair_spec [of s m] by (subst qs_rec.simps) simp
  next
    case 3
    obtain s1 l r where sp: "qs_split lt gt rd swp m n s = (s1, l, r)"
      by (cases "qs_split lt gt rd swp m n s") auto
    from less.prems(1,2) 3 less.prems(3) sp obtain c where f: "inv s1" "perm_on m n (rows s) (rows s1)"
      "m < r" "r \<le> n" "l < n" "m \<le> l" "l = r \<or> l = r - 1"
      "\<And>i. m \<le> i \<Longrightarrow> i \<le> l \<Longrightarrow> key (proj (aget (rows s1) i)) \<le> c"
      "\<And>i. l < i \<Longrightarrow> i \<le> n \<Longrightarrow> c \<le> key (proj (aget (rows s1) i))"
      by (rule qs_split_spec) blast
    have len1: "alen (rows s1) = alen (rows s)" using f(2) by (rule perm_on_alen)
    obtain s2 where s2: "(if l > m then qs_rec lt gt rd swp m l s1 else Some s1) = Some s2"
      "inv s2" "perm_on m l (rows s1) (rows s2)" "sorted_on (key \<circ> proj) m l (rows s2)"
      using less.hyps [of l m s1] f len1 less.prems by (cases "l > m") auto
    have len2: "alen (rows s2) = alen (rows s)" using perm_on_alen [OF s2(3)] len1 by simp
    obtain s3 where s3: "(if r < n then qs_rec lt gt rd swp r n s2 else Some s2) = Some s3"
      "inv s3" "perm_on r n (rows s2) (rows s3)" "sorted_on (key \<circ> proj) r n (rows s3)"
      using less.hyps [of n r s2] f s2 len2 less.prems by (cases "r < n") auto
    have "sorted_on (key \<circ> proj) m n (rows s3)" "perm_on m n (rows s1) (rows s3)"
      by (rule sorted_on_join [OF s2(3,4) s3(3,4), where c = c]; use f len1 less.prems in auto)+
    moreover have "qs_rec lt gt rd swp m n s = Some s3"
      using 3 sp s2(1) s3(1) by (subst qs_rec.simps) (simp del: if_split)
    ultimately show ?thesis using s3 f(2) by (auto intro: perm_on_trans)
  qed
qed

end

section \<open>The iterative form refines the recursive one\<close>

fun qs_rec_all :: "('m \<Rightarrow> 'm \<Rightarrow> bool) \<Rightarrow> ('m \<Rightarrow> 'm \<Rightarrow> bool) \<Rightarrow> ('s \<Rightarrow> int \<Rightarrow> 'm) \<Rightarrow> ('s \<Rightarrow> int \<Rightarrow> int \<Rightarrow> 's)
    \<Rightarrow> (int \<times> int) list \<Rightarrow> 's \<Rightarrow> 's option" where
  "qs_rec_all lt gt rd swp [] st = Some st"
| "qs_rec_all lt gt rd swp ((b, e) # segs) st =
     Option.bind (qs_rec lt gt rd swp b e st) (qs_rec_all lt gt rd swp segs)"

definition seg_weight :: "int \<times> int \<Rightarrow> nat" where
  "seg_weight = (\<lambda>(b, e). nat (max 1 (2 * (e - b) - 1)))"

definition seg_span :: "int \<times> int \<Rightarrow> nat" where
  "seg_span = (\<lambda>(b, e). nat (max 1 (e - b)))"

lemma length_le_spans: "length stack \<le> sum_list (map seg_span stack)"
  by (induction stack) (auto simp: seg_span_def)

lemma push_parts_Some:
  assumes "push_parts m n l r rest = Some stack"
  shows "stack = (if l > m then [(m, l)] else []) @ (if r < n then [(r, n)] else []) @ rest"
  using assms by (auto simp: push_parts_def push_seg_def split: if_splits option.splits)

lemma push_parts_fits:
  assumes "length rest + 2 \<le> STACK_PAIRS"
  shows "push_parts m n l r rest \<noteq> None"
  using assms by (auto simp: push_parts_def push_seg_def split: option.splits)

context multikey_sort
begin

lemma qs_rec_all_split:
  assumes "qs_split lt gt rd swp m n s = (s1, l, r)" and "m + 1 < n"
  shows "qs_rec_all lt gt rd swp ((m, n) # rest) s =
    qs_rec_all lt gt rd swp ((if l > m then [(m, l)] else []) @ (if r < n then [(r, n)] else []) @ rest) s1"
  using assms by (subst qs_rec_all.simps, subst qs_rec.simps) (auto split: bind_splits)

lemma qs_unrec_spec:
  assumes "inv s" and "\<And>b e. (b, e) \<in> set stack \<Longrightarrow> 0 \<le> b \<and> e < alen (rows s)"
  shows "\<exists>r. qs_unrec lt gt rd swp stack s = Some r
    \<and> (\<forall>s'. r = Inr s' \<longrightarrow> qs_rec_all lt gt rd swp stack s = Some s')
    \<and> (sum_list (map seg_span stack) \<le> STACK_PAIRS \<longrightarrow> r \<noteq> Inl StackOverflow)"
  using assms
proof (induction "sum_list (map seg_weight stack)" arbitrary: stack s rule: less_induct)
  case less
  have step: ?case
    if "qs_unrec lt gt rd swp stack s = qs_unrec lt gt rd swp stack' s1"
      "qs_rec_all lt gt rd swp stack s = qs_rec_all lt gt rd swp stack' s1"
      "sum_list (map seg_weight stack') < sum_list (map seg_weight stack)"
      "sum_list (map seg_span stack') \<le> sum_list (map seg_span stack)"
      "inv s1" "\<And>b e. (b, e) \<in> set stack' \<Longrightarrow> 0 \<le> b \<and> e < alen (rows s1)" for stack' s1
  proof -
    from less.hyps [OF that(3,5,6)] obtain r where "qs_unrec lt gt rd swp stack' s1 = Some r"
      "\<forall>s'. r = Inr s' \<longrightarrow> qs_rec_all lt gt rd swp stack' s1 = Some s'"
      "sum_list (map seg_span stack') \<le> STACK_PAIRS \<longrightarrow> r \<noteq> Inl StackOverflow" by blast
    with that(1,2,4) show ?case by (intro exI [of _ r]) auto
  qed
  show ?case
  proof (cases stack)
    case Nil
    then show ?thesis by (subst qs_unrec.simps) (simp add: qs_step_def)
  next
    case (Cons seg rest)
    obtain m n where seg: "seg = (m, n)" by (cases seg)
    have w1: "0 < seg_weight (m, n)" "0 < seg_span (m, n)" by (auto simp: seg_weight_def seg_span_def)
    have mn: "0 \<le> m" "n < alen (rows s)" using less.prems(2) Cons seg by auto
    consider "n \<le> m" | "n = m + 1" | "m + 1 < n" by linarith
    then show ?thesis
    proof cases
      case 1
      then have "qs_unrec lt gt rd swp stack s = qs_unrec lt gt rd swp rest s"
        using Cons seg by (subst qs_unrec.simps) (simp add: qs_step_def)
      moreover have "qs_rec_all lt gt rd swp stack s = qs_rec_all lt gt rd swp rest s"
        using Cons seg 1 by (simp add: qs_rec.simps)
      ultimately show ?thesis using less.prems Cons seg w1 by (intro step [of rest s]) auto
    next
      case 2
      let ?s = "qs_pair gt rd swp m n s"
      have "qs_unrec lt gt rd swp stack s = qs_unrec lt gt rd swp rest ?s"
        using Cons seg 2 by (subst qs_unrec.simps) (simp add: qs_step_def)
      moreover have "qs_rec_all lt gt rd swp stack s = qs_rec_all lt gt rd swp rest ?s"
        using Cons seg 2 by (simp add: qs_rec.simps)
      moreover have "inv ?s" "alen (rows ?s) = alen (rows s)"
        using qs_pair_spec(1,2) [of s m] less.prems(1) mn 2 perm_on_alen by auto
      ultimately show ?thesis using less.prems Cons seg w1 by (intro step [of rest ?s]) auto
    next
      case 3
      obtain s1 l r where sp: "qs_split lt gt rd swp m n s = (s1, l, r)"
        by (cases "qs_split lt gt rd swp m n s") auto
      from less.prems(1) mn(1) 3 mn(2) sp obtain c where f: "inv s1" "perm_on m n (rows s) (rows s1)"
        "m < r" "r \<le> n" "l < n" "m \<le> l" "l = r \<or> l = r - 1"
        by (rule qs_split_spec) blast
      have len: "alen (rows s1) = alen (rows s)" using f(2) by (rule perm_on_alen)
      show ?thesis
      proof (cases "push_parts m n l r rest")
        case None
        then have "qs_unrec lt gt rd swp stack s = Some (Inl StackOverflow)"
          using Cons seg sp 3 by (subst qs_unrec.simps) (simp add: qs_step_def)
        moreover have "\<not> length rest + 2 \<le> STACK_PAIRS" using None push_parts_fits by metis
        then have "\<not> sum_list (map seg_span stack) \<le> STACK_PAIRS"
          using length_le_spans [of rest] Cons seg 3 by (auto simp: seg_span_def)
        ultimately show ?thesis by simp
      next
        case (Some stack')
        note st' = push_parts_Some [OF Some]
        have "qs_unrec lt gt rd swp stack s = qs_unrec lt gt rd swp stack' s1"
          using Cons seg sp 3 Some by (subst qs_unrec.simps) (simp add: qs_step_def)
        moreover have "qs_rec_all lt gt rd swp stack s = qs_rec_all lt gt rd swp stack' s1"
          unfolding Cons seg st' using qs_rec_all_split [OF sp 3] .
        moreover have "sum_list (map seg_weight stack') < sum_list (map seg_weight stack)"
          using Cons seg f 3 by (auto simp: st' seg_weight_def)
        moreover have "sum_list (map seg_span stack') \<le> sum_list (map seg_span stack)"
          using Cons seg f 3 by (auto simp: st' seg_span_def)
        moreover have "0 \<le> b \<and> e < alen (rows s1)" if "(b, e) \<in> set stack'" for b e
          using that less.prems(2) [of b e] mn f len unfolding st' Cons seg by (auto split: if_splits)
        ultimately show ?thesis using f(1) by (intro step [of stack' s1])
      qed
    qed
  qed
qed

text \<open>The iterative sort of one range, against the recursive one.\<close>

lemma qs_unrec_refines:
  assumes "inv s" "0 \<le> m" "n < alen (rows s)"
  obtains s' where "qs_rec lt gt rd swp m n s = Some s'"
    "qs_unrec lt gt rd swp [(m, n)] s = Some (Inr s') \<or>
     qs_unrec lt gt rd swp [(m, n)] s = Some (Inl StackOverflow) \<and> 512 < n - m"
proof -
  obtain s' where s': "qs_rec lt gt rd swp m n s = Some s'" using qs_rec_spec [OF assms] by auto
  obtain r where r: "qs_unrec lt gt rd swp [(m, n)] s = Some r"
    "\<forall>s'. r = Inr s' \<longrightarrow> qs_rec_all lt gt rd swp [(m, n)] s = Some s'"
    "sum_list (map seg_span [(m, n)]) \<le> STACK_PAIRS \<longrightarrow> r \<noteq> Inl StackOverflow"
    using qs_unrec_spec [of s "[(m, n)]"] assms by auto
  show ?thesis
  proof (cases r)
    case (Inl e)
    then have "e = StackOverflow" by (cases e) simp
    with r Inl s' show ?thesis by (intro that) (auto simp: seg_span_def STACK_PAIRS_def)
  next
    case (Inr s2)
    with r s' show ?thesis by (intro that) auto
  qed
qed

end

end
