(* ===== verification/MultiKeyVariants.thy ===== *)
theory MultiKeyVariants
  imports MultiKeySort
begin

text \<open>
  The functions of the multi-key quicksort family of \<^verbatim>\<open>src/common/qalgorithm.h\<close>, one definition
  each, and the interpretations of \<open>multikey_sort\<close> that prove them correct.  A variant with
  several arrays works on the tuple of its arrays; its rows are the tuples of the cells at one
  index.  \<open>None\<close> would be a call that does not return; an iterative variant may also run over its
  stack buffer.
\<close>

section \<open>Comparison functions\<close>

definition Compare_1K :: "'k::linorder \<Rightarrow> 'k \<Rightarrow> int" where
  "Compare_1K key_1_1 key_1_2 = (if key_1_1 > key_1_2 then 1 else if key_1_1 < key_1_2 then - 1 else 0)"

definition Compare_1K_Ascending :: "'k::linorder \<Rightarrow> 'k \<Rightarrow> int" where
  "Compare_1K_Ascending key_1_1 key_1_2 =
     (if key_1_1 > key_1_2 then 1 else if key_1_1 < key_1_2 then - 1 else 0)"

definition Compare_1K_Descending :: "'k::linorder \<Rightarrow> 'k \<Rightarrow> int" where
  "Compare_1K_Descending key_1_1 key_1_2 =
     (if key_1_1 > key_1_2 then - 1 else if key_1_1 < key_1_2 then 1 else 0)"

definition Compare_1K_Ascending_S :: "'k::linorder \<Rightarrow> 'k \<Rightarrow> int \<Rightarrow> int \<Rightarrow> int" where
  "Compare_1K_Ascending_S key_1_1 key_1_2 pos_1 pos_2 =
     (if key_1_1 > key_1_2 then 1 else if key_1_1 < key_1_2 then - 1
      else if pos_1 > pos_2 then 1 else if pos_1 < pos_2 then - 1 else 0)"

definition Compare_1K_Descending_S :: "'k::linorder \<Rightarrow> 'k \<Rightarrow> int \<Rightarrow> int \<Rightarrow> int" where
  "Compare_1K_Descending_S key_1_1 key_1_2 pos_1 pos_2 =
     (if key_1_1 > key_1_2 then - 1 else if key_1_1 < key_1_2 then 1
      else if pos_1 > pos_2 then 1 else if pos_1 < pos_2 then - 1 else 0)"

text \<open>Both comparisons of the second key return \<open>-1\<close> in the source.\<close>

definition Compare_2K :: "'k1::linorder \<Rightarrow> 'k1 \<Rightarrow> 'k2::linorder \<Rightarrow> 'k2 \<Rightarrow> int" where
  "Compare_2K key_1_1 key_1_2 key_2_1 key_2_2 =
     (if key_1_1 > key_1_2 then 1 else if key_1_1 < key_1_2 then - 1
      else if key_2_1 > key_2_2 then - 1 else if key_2_1 < key_2_2 then - 1
      else 0)"

definition Compare_3K :: "'k1::linorder \<Rightarrow> 'k1 \<Rightarrow> 'k2::linorder \<Rightarrow> 'k2 \<Rightarrow> 'k3::linorder \<Rightarrow> 'k3 \<Rightarrow> int" where
  "Compare_3K key_1_1 key_1_2 key_2_1 key_2_2 key_3_1 key_3_2 =
     (if key_1_1 > key_1_2 then 1 else if key_1_1 < key_1_2 then - 1
      else if key_2_1 > key_2_2 then - 1 else if key_2_1 < key_2_2 then - 1
      else if key_3_1 > key_3_2 then 1 else if key_3_1 < key_3_2 then - 1
      else 0)"

lemmas Compare_defs = Compare_1K_def Compare_1K_Ascending_def Compare_1K_Descending_def
  Compare_2K_def Compare_3K_def

definition lt_2K :: "'k1::linorder \<times> 'k2::linorder \<Rightarrow> 'k1 \<times> 'k2 \<Rightarrow> bool" where
  "lt_2K x y \<longleftrightarrow> Compare_2K (fst x) (fst y) (snd x) (snd y) < 0"

definition gt_2K :: "'k1::linorder \<times> 'k2::linorder \<Rightarrow> 'k1 \<times> 'k2 \<Rightarrow> bool" where
  "gt_2K x y \<longleftrightarrow> Compare_2K (fst x) (fst y) (snd x) (snd y) > 0"

definition lt_3K :: "'k1::linorder \<times> 'k2::linorder \<times> 'k3::linorder \<Rightarrow> 'k1 \<times> 'k2 \<times> 'k3 \<Rightarrow> bool" where
  "lt_3K x y \<longleftrightarrow> Compare_3K (fst x) (fst y) (fst (snd x)) (fst (snd y)) (snd (snd x)) (snd (snd y)) < 0"

definition gt_3K :: "'k1::linorder \<times> 'k2::linorder \<times> 'k3::linorder \<Rightarrow> 'k1 \<times> 'k2 \<times> 'k3 \<Rightarrow> bool" where
  "gt_3K x y \<longleftrightarrow> Compare_3K (fst x) (fst y) (fst (snd x)) (fst (snd y)) (snd (snd x)) (snd (snd y)) > 0"

lemmas order_defs = lt_2K_def gt_2K_def lt_3K_def gt_3K_def

section \<open>Parallel arrays\<close>

definition swap2 :: "'a list \<times> 'b list \<Rightarrow> int \<Rightarrow> int \<Rightarrow> 'a list \<times> 'b list" where
  "swap2 = (\<lambda>(k1, k2) i j. (aswap k1 i j, aswap k2 i j))"

definition swap3 :: "'a list \<times> 'b list \<times> 'c list \<Rightarrow> int \<Rightarrow> int \<Rightarrow> 'a list \<times> 'b list \<times> 'c list" where
  "swap3 = (\<lambda>(k1, k2, k3) i j. (aswap k1 i j, aswap k2 i j, aswap k3 i j))"

definition swap4 :: "'a list \<times> 'b list \<times> 'c list \<times> 'd list \<Rightarrow> int \<Rightarrow> int
    \<Rightarrow> 'a list \<times> 'b list \<times> 'c list \<times> 'd list" where
  "swap4 = (\<lambda>(k1, k2, k3, k4) i j. (aswap k1 i j, aswap k2 i j, aswap k3 i j, aswap k4 i j))"

definition swap5 :: "'a list \<times> 'b list \<times> 'c list \<times> 'd list \<times> 'e list \<Rightarrow> int \<Rightarrow> int
    \<Rightarrow> 'a list \<times> 'b list \<times> 'c list \<times> 'd list \<times> 'e list" where
  "swap5 = (\<lambda>(k1, k2, k3, k4, k5) i j.
     (aswap k1 i j, aswap k2 i j, aswap k3 i j, aswap k4 i j, aswap k5 i j))"

text \<open>The first key, the first two and the first three keys at an index.\<close>

definition key1 :: "'a list \<times> 't \<Rightarrow> int \<Rightarrow> 'a" where
  "key1 st i = aget (fst st) i"

definition key2 :: "'a list \<times> 'b list \<Rightarrow> int \<Rightarrow> 'a \<times> 'b" where
  "key2 st i = (aget (fst st) i, aget (snd st) i)"

definition key2P :: "'a list \<times> 'b list \<times> 't \<Rightarrow> int \<Rightarrow> 'a \<times> 'b" where
  "key2P st i = (aget (fst st) i, aget (fst (snd st)) i)"

definition key3P :: "'a list \<times> 'b list \<times> 'c list \<times> 't \<Rightarrow> int \<Rightarrow> 'a \<times> 'b \<times> 'c" where
  "key3P st i = (aget (fst st) i, aget (fst (snd st)) i, aget (fst (snd (snd st))) i)"

section \<open>The functions of the header\<close>

definition Q_Recursion_1K :: "int \<Rightarrow> int \<Rightarrow> 'k::linorder list \<Rightarrow> 'k list option" where
  "Q_Recursion_1K lBegin lEnd tKey_1 = qs_rec (<) (>) aget aswap lBegin lEnd tKey_1"

definition Q_Unrecursion_1K :: "int \<Rightarrow> int \<Rightarrow> 'k::linorder list \<Rightarrow> (sort_error + 'k list) option" where
  "Q_Unrecursion_1K lBegin lEnd tKey_1 = qs_unrec (<) (>) aget aswap [(lBegin, lEnd)] tKey_1"

definition Q_Recursion_1K_Custom :: "int \<Rightarrow> int \<Rightarrow> 'k list \<Rightarrow> ('k \<Rightarrow> 'k \<Rightarrow> int) \<Rightarrow> 'k list option" where
  "Q_Recursion_1K_Custom lBegin lEnd tKey_1 Compare_Key =
     qs_rec (\<lambda>x y. Compare_Key x y < 0) (\<lambda>x y. Compare_Key x y > 0) aget aswap lBegin lEnd tKey_1"

definition Q_Unrecursion_1K_Custom ::
  "int \<Rightarrow> int \<Rightarrow> 'k list \<Rightarrow> ('k \<Rightarrow> 'k \<Rightarrow> int) \<Rightarrow> (sort_error + 'k list) option" where
  "Q_Unrecursion_1K_Custom lBegin lEnd tKey_1 Compare_Key =
     qs_unrec (\<lambda>x y. Compare_Key x y < 0) (\<lambda>x y. Compare_Key x y > 0) aget aswap [(lBegin, lEnd)] tKey_1"

definition Q_Recursion_1K_1P :: "int \<Rightarrow> int \<Rightarrow> 'k1::linorder list \<times> 'b list
    \<Rightarrow> ('k1 list \<times> 'b list) option" where
  "Q_Recursion_1K_1P lBegin lEnd = (\<lambda>(tKey_1, tKey_2).
     qs_rec (<) (>) key1 swap2 lBegin lEnd (tKey_1, tKey_2))"

definition Q_Unrecursion_1K_1P :: "int \<Rightarrow> int \<Rightarrow> 'k1::linorder list \<times> 'b list
    \<Rightarrow> (sort_error + 'k1 list \<times> 'b list) option" where
  "Q_Unrecursion_1K_1P lBegin lEnd = (\<lambda>(tKey_1, tKey_2).
     qs_unrec (<) (>) key1 swap2 [(lBegin, lEnd)] (tKey_1, tKey_2))"

definition Q_Recursion_1K_2P :: "int \<Rightarrow> int \<Rightarrow> 'k1::linorder list \<times> 'b list \<times> 'c list
    \<Rightarrow> ('k1 list \<times> 'b list \<times> 'c list) option" where
  "Q_Recursion_1K_2P lBegin lEnd = (\<lambda>(tKey_1, tKey_2, tKey_3).
     qs_rec (<) (>) key1 swap3 lBegin lEnd (tKey_1, tKey_2, tKey_3))"

definition Q_Unrecursion_1K_2P :: "int \<Rightarrow> int \<Rightarrow> 'k1::linorder list \<times> 'b list \<times> 'c list
    \<Rightarrow> (sort_error + 'k1 list \<times> 'b list \<times> 'c list) option" where
  "Q_Unrecursion_1K_2P lBegin lEnd = (\<lambda>(tKey_1, tKey_2, tKey_3).
     qs_unrec (<) (>) key1 swap3 [(lBegin, lEnd)] (tKey_1, tKey_2, tKey_3))"

definition Q_Recursion_1K_3P :: "int \<Rightarrow> int \<Rightarrow> 'k1::linorder list \<times> 'b list \<times> 'c list \<times> 'd list
    \<Rightarrow> ('k1 list \<times> 'b list \<times> 'c list \<times> 'd list) option" where
  "Q_Recursion_1K_3P lBegin lEnd = (\<lambda>(tKey_1, tKey_2, tKey_3, tKey_4).
     qs_rec (<) (>) key1 swap4 lBegin lEnd (tKey_1, tKey_2, tKey_3, tKey_4))"

definition Q_Unrecursion_1K_3P :: "int \<Rightarrow> int \<Rightarrow> 'k1::linorder list \<times> 'b list \<times> 'c list \<times> 'd list
    \<Rightarrow> (sort_error + 'k1 list \<times> 'b list \<times> 'c list \<times> 'd list) option" where
  "Q_Unrecursion_1K_3P lBegin lEnd = (\<lambda>(tKey_1, tKey_2, tKey_3, tKey_4).
     qs_unrec (<) (>) key1 swap4 [(lBegin, lEnd)] (tKey_1, tKey_2, tKey_3, tKey_4))"

definition Q_Recursion_2K :: "int \<Rightarrow> int \<Rightarrow> 'k1::linorder list \<times> 'k2::linorder list
    \<Rightarrow> ('k1 list \<times> 'k2 list) option" where
  "Q_Recursion_2K lBegin lEnd = (\<lambda>(tKey_1, tKey_2).
     qs_rec lt_2K gt_2K key2 swap2 lBegin lEnd (tKey_1, tKey_2))"

definition Q_Unrecursion_2K :: "int \<Rightarrow> int \<Rightarrow> 'k1::linorder list \<times> 'k2::linorder list
    \<Rightarrow> (sort_error + 'k1 list \<times> 'k2 list) option" where
  "Q_Unrecursion_2K lBegin lEnd = (\<lambda>(tKey_1, tKey_2).
     qs_unrec lt_2K gt_2K key2 swap2 [(lBegin, lEnd)] (tKey_1, tKey_2))"

definition Q_Recursion_2K_1P :: "int \<Rightarrow> int \<Rightarrow> 'k1::linorder list \<times> 'k2::linorder list \<times> 'c list
    \<Rightarrow> ('k1 list \<times> 'k2 list \<times> 'c list) option" where
  "Q_Recursion_2K_1P lBegin lEnd = (\<lambda>(tKey_1, tKey_2, tKey_3).
     qs_rec lt_2K gt_2K key2P swap3 lBegin lEnd (tKey_1, tKey_2, tKey_3))"

definition Q_Unrecursion_2K_1P :: "int \<Rightarrow> int \<Rightarrow> 'k1::linorder list \<times> 'k2::linorder list \<times> 'c list
    \<Rightarrow> (sort_error + 'k1 list \<times> 'k2 list \<times> 'c list) option" where
  "Q_Unrecursion_2K_1P lBegin lEnd = (\<lambda>(tKey_1, tKey_2, tKey_3).
     qs_unrec lt_2K gt_2K key2P swap3 [(lBegin, lEnd)] (tKey_1, tKey_2, tKey_3))"

definition Q_Recursion_2K_2P :: "int \<Rightarrow> int \<Rightarrow> 'k1::linorder list \<times> 'k2::linorder list \<times> 'c list \<times> 'd list
    \<Rightarrow> ('k1 list \<times> 'k2 list \<times> 'c list \<times> 'd list) option" where
  "Q_Recursion_2K_2P lBegin lEnd = (\<lambda>(tKey_1, tKey_2, tKey_3, tKey_4).
     qs_rec lt_2K gt_2K key2P swap4 lBegin lEnd (tKey_1, tKey_2, tKey_3, tKey_4))"

definition Q_Unrecursion_2K_2P :: "int \<Rightarrow> int \<Rightarrow> 'k1::linorder list \<times> 'k2::linorder list \<times> 'c list \<times> 'd list
    \<Rightarrow> (sort_error + 'k1 list \<times> 'k2 list \<times> 'c list \<times> 'd list) option" where
  "Q_Unrecursion_2K_2P lBegin lEnd = (\<lambda>(tKey_1, tKey_2, tKey_3, tKey_4).
     qs_unrec lt_2K gt_2K key2P swap4 [(lBegin, lEnd)] (tKey_1, tKey_2, tKey_3, tKey_4))"

definition Q_Recursion_2K_3P :: "int \<Rightarrow> int \<Rightarrow> 'k1::linorder list \<times> 'k2::linorder list \<times> 'c list \<times> 'd list \<times> 'e list
    \<Rightarrow> ('k1 list \<times> 'k2 list \<times> 'c list \<times> 'd list \<times> 'e list) option" where
  "Q_Recursion_2K_3P lBegin lEnd = (\<lambda>(tKey_1, tKey_2, tKey_3, tKey_4, tKey_5).
     qs_rec lt_2K gt_2K key2P swap5 lBegin lEnd (tKey_1, tKey_2, tKey_3, tKey_4, tKey_5))"

definition Q_Unrecursion_2K_3P :: "int \<Rightarrow> int \<Rightarrow> 'k1::linorder list \<times> 'k2::linorder list \<times> 'c list \<times> 'd list \<times> 'e list
    \<Rightarrow> (sort_error + 'k1 list \<times> 'k2 list \<times> 'c list \<times> 'd list \<times> 'e list) option" where
  "Q_Unrecursion_2K_3P lBegin lEnd = (\<lambda>(tKey_1, tKey_2, tKey_3, tKey_4, tKey_5).
     qs_unrec lt_2K gt_2K key2P swap5 [(lBegin, lEnd)] (tKey_1, tKey_2, tKey_3, tKey_4, tKey_5))"

definition Q_Recursion_3K_1P :: "int \<Rightarrow> int \<Rightarrow> 'k1::linorder list \<times> 'k2::linorder list \<times> 'k3::linorder list \<times> 'd list
    \<Rightarrow> ('k1 list \<times> 'k2 list \<times> 'k3 list \<times> 'd list) option" where
  "Q_Recursion_3K_1P lBegin lEnd = (\<lambda>(tKey_1, tKey_2, tKey_3, tKey_4).
     qs_rec lt_3K gt_3K key3P swap4 lBegin lEnd (tKey_1, tKey_2, tKey_3, tKey_4))"

definition Q_Unrecursion_3K_1P :: "int \<Rightarrow> int \<Rightarrow> 'k1::linorder list \<times> 'k2::linorder list \<times> 'k3::linorder list \<times> 'd list
    \<Rightarrow> (sort_error + 'k1 list \<times> 'k2 list \<times> 'k3 list \<times> 'd list) option" where
  "Q_Unrecursion_3K_1P lBegin lEnd = (\<lambda>(tKey_1, tKey_2, tKey_3, tKey_4).
     qs_unrec lt_3K gt_3K key3P swap4 [(lBegin, lEnd)] (tKey_1, tKey_2, tKey_3, tKey_4))"

definition Q_Recursion_3K_2P :: "int \<Rightarrow> int \<Rightarrow> 'k1::linorder list \<times> 'k2::linorder list \<times> 'k3::linorder list \<times> 'd list \<times> 'e list
    \<Rightarrow> ('k1 list \<times> 'k2 list \<times> 'k3 list \<times> 'd list \<times> 'e list) option" where
  "Q_Recursion_3K_2P lBegin lEnd = (\<lambda>(tKey_1, tKey_2, tKey_3, tKey_4, tKey_5).
     qs_rec lt_3K gt_3K key3P swap5 lBegin lEnd (tKey_1, tKey_2, tKey_3, tKey_4, tKey_5))"

definition Q_Unrecursion_3K_2P :: "int \<Rightarrow> int \<Rightarrow> 'k1::linorder list \<times> 'k2::linorder list \<times> 'k3::linorder list \<times> 'd list \<times> 'e list
    \<Rightarrow> (sort_error + 'k1 list \<times> 'k2 list \<times> 'k3 list \<times> 'd list \<times> 'e list) option" where
  "Q_Unrecursion_3K_2P lBegin lEnd = (\<lambda>(tKey_1, tKey_2, tKey_3, tKey_4, tKey_5).
     qs_unrec lt_3K gt_3K key3P swap5 [(lBegin, lEnd)] (tKey_1, tKey_2, tKey_3, tKey_4, tKey_5))"

section \<open>The orders\<close>

lemma weak_order_1K: "weak_order (<) (>) (id :: 'k::linorder \<Rightarrow> 'k)"
  by unfold_locales auto

lemma weak_order_2K: "weak_order lt_2K gt_2K (fst :: 'k1::linorder \<times> 'k2::linorder \<Rightarrow> 'k1)"
  by unfold_locales (auto simp: order_defs Compare_defs split: if_splits)

lemma weak_order_3K:
  "weak_order lt_3K gt_3K (fst :: 'k1::linorder \<times> 'k2::linorder \<times> 'k3::linorder \<Rightarrow> 'k1)"
  by unfold_locales (auto simp: order_defs Compare_defs split: if_splits)

section \<open>Rows\<close>

definition rows2 :: "'a list \<times> 'b list \<Rightarrow> ('a \<times> 'b) list" where
  "rows2 = (\<lambda>(k1, k2). zip k1 k2)"

definition rows3 :: "'a list \<times> 'b list \<times> 'c list \<Rightarrow> ('a \<times> 'b \<times> 'c) list" where
  "rows3 = (\<lambda>(k1, k2, k3). zip k1 (zip k2 k3))"

definition rows4 :: "'a list \<times> 'b list \<times> 'c list \<times> 'd list \<Rightarrow> ('a \<times> 'b \<times> 'c \<times> 'd) list" where
  "rows4 = (\<lambda>(k1, k2, k3, k4). zip k1 (zip k2 (zip k3 k4)))"

definition rows5 :: "'a list \<times> 'b list \<times> 'c list \<times> 'd list \<times> 'e list
    \<Rightarrow> ('a \<times> 'b \<times> 'c \<times> 'd \<times> 'e) list" where
  "rows5 = (\<lambda>(k1, k2, k3, k4, k5). zip k1 (zip k2 (zip k3 (zip k4 k5))))"

definition same2 :: "'a list \<times> 'b list \<Rightarrow> bool" where
  "same2 = (\<lambda>(k1, k2). length k2 = length k1)"

definition same3 :: "'a list \<times> 'b list \<times> 'c list \<Rightarrow> bool" where
  "same3 = (\<lambda>(k1, k2, k3). length k2 = length k1 \<and> length k3 = length k1)"

definition same4 :: "'a list \<times> 'b list \<times> 'c list \<times> 'd list \<Rightarrow> bool" where
  "same4 = (\<lambda>(k1, k2, k3, k4). length k2 = length k1 \<and> length k3 = length k1 \<and> length k4 = length k1)"

definition same5 :: "'a list \<times> 'b list \<times> 'c list \<times> 'd list \<times> 'e list \<Rightarrow> bool" where
  "same5 = (\<lambda>(k1, k2, k3, k4, k5). length k2 = length k1 \<and> length k3 = length k1
     \<and> length k4 = length k1 \<and> length k5 = length k1)"

lemmas row_defs = rows2_def rows3_def rows4_def rows5_def same2_def same3_def same4_def same5_def
  swap2_def swap3_def swap4_def swap5_def key1_def key2_def key2P_def key3P_def

lemma aget_zip:
  "length a = length b \<Longrightarrow> 0 \<le> i \<Longrightarrow> i < int (length b) \<Longrightarrow> aget (zip a b) i = (aget a i, aget b i)"
  by (simp add: aget_def)

lemma aset_zip: "zip (aset a i x) (aset b i y) = aset (zip a b) i (x, y)"
  by (simp add: aset_def zip_update)

lemma aswap_zip:
  "length a = length b \<Longrightarrow> 0 \<le> i \<Longrightarrow> i < int (length b) \<Longrightarrow> 0 \<le> j \<Longrightarrow> j < int (length b) \<Longrightarrow>
   zip (aswap a i j) (aswap b i j) = aswap (zip a b) i j"
  by (simp add: aswap_def aset_zip aget_zip)

lemmas zip_rows = in_range_def alen_def aget_zip aswap_zip

section \<open>Interpretations\<close>

interpretation q1K: multikey_sort "(<)" "(>)" id id "\<lambda>_. True" aget aswap "\<lambda>x :: 'k::linorder. x"
  by unfold_locales auto

interpretation q1K_asc: multikey_sort "\<lambda>x y. Compare_1K_Ascending x y < 0" "\<lambda>x y. Compare_1K_Ascending x y > 0"
  id id "\<lambda>_. True" aget aswap "\<lambda>x :: 'k::linorder. x"
  by unfold_locales (auto simp: Compare_defs split: if_splits)

interpretation q1K_desc: multikey_sort "\<lambda>x y. Compare_1K_Descending x y < 0" "\<lambda>x y. Compare_1K_Descending x y > 0"
  uminus id "\<lambda>_. True" aget aswap "\<lambda>x :: int. x"
  by unfold_locales (auto simp: Compare_defs split: if_splits)

interpretation q1K_1P: multikey_sort "(<)" "(>)" id rows2 same2 key1 swap2 fst
  by (rule multikey_sort.intro [OF weak_order_1K], unfold_locales) (auto simp: row_defs zip_rows)

interpretation q1K_2P: multikey_sort "(<)" "(>)" id rows3 same3 key1 swap3 fst
  by (rule multikey_sort.intro [OF weak_order_1K], unfold_locales) (auto simp: row_defs zip_rows)

interpretation q1K_3P: multikey_sort "(<)" "(>)" id rows4 same4 key1 swap4 fst
  by (rule multikey_sort.intro [OF weak_order_1K], unfold_locales) (auto simp: row_defs zip_rows)

interpretation q2K: multikey_sort lt_2K gt_2K fst rows2 same2 key2 swap2 "\<lambda>x. x"
  by (rule multikey_sort.intro [OF weak_order_2K], unfold_locales) (auto simp: row_defs zip_rows)

interpretation q2K_1P: multikey_sort lt_2K gt_2K fst rows3 same3 key2P swap3 "\<lambda>x. (fst x, fst (snd x))"
  by (rule multikey_sort.intro [OF weak_order_2K], unfold_locales) (auto simp: row_defs zip_rows)

interpretation q2K_2P: multikey_sort lt_2K gt_2K fst rows4 same4 key2P swap4 "\<lambda>x. (fst x, fst (snd x))"
  by (rule multikey_sort.intro [OF weak_order_2K], unfold_locales) (auto simp: row_defs zip_rows)

interpretation q2K_3P: multikey_sort lt_2K gt_2K fst rows5 same5 key2P swap5 "\<lambda>x. (fst x, fst (snd x))"
  by (rule multikey_sort.intro [OF weak_order_2K], unfold_locales) (auto simp: row_defs zip_rows)

interpretation q3K_1P: multikey_sort lt_3K gt_3K fst rows4 same4 key3P swap4 "\<lambda>x. (fst x, fst (snd x), fst (snd (snd x)))"
  by (rule multikey_sort.intro [OF weak_order_3K], unfold_locales) (auto simp: row_defs zip_rows)

interpretation q3K_2P: multikey_sort lt_3K gt_3K fst rows5 same5 key3P swap5 "\<lambda>x. (fst x, fst (snd x), fst (snd (snd x)))"
  by (rule multikey_sort.intro [OF weak_order_3K], unfold_locales) (auto simp: row_defs zip_rows)

section \<open>What every variant does\<close>

lemma alen_rows:
  "same2 s2 \<Longrightarrow> alen (rows2 s2) = alen (fst s2)"
  "same3 s3 \<Longrightarrow> alen (rows3 s3) = alen (fst s3)"
  "same4 s4 \<Longrightarrow> alen (rows4 s4) = alen (fst s4)"
  "same5 s5 \<Longrightarrow> alen (rows5 s5) = alen (fst s5)"
  by (auto simp: row_defs alen_def)

lemma fst_comp: "id \<circ> fst = fst" "fst \<circ> (\<lambda>x. (fst x, f x)) = fst" "fst \<circ> (\<lambda>x. x) = fst"
  by auto

lemma Q_Recursion_1K_1P_sorts:
  assumes "same2 st" "0 \<le> lBegin" "lEnd < alen (fst st)"
  shows "\<exists>st'. Q_Recursion_1K_1P lBegin lEnd st = Some st' \<and> same2 st'
    \<and> perm_on lBegin lEnd (rows2 st) (rows2 st') \<and> sorted_on fst lBegin lEnd (rows2 st')"
  using q1K_1P.qs_rec_spec [of st lBegin lEnd] assms
  by (auto simp: Q_Recursion_1K_1P_def alen_rows fst_comp split: prod.splits)

lemma Q_Unrecursion_1K_1P_refines:
  assumes "same2 st" "0 \<le> lBegin" "lEnd < alen (fst st)" "lEnd - lBegin \<le> 512"
  shows "Q_Unrecursion_1K_1P lBegin lEnd st = map_option Inr (Q_Recursion_1K_1P lBegin lEnd st)"
  by (rule q1K_1P.qs_unrec_refines [of st lBegin lEnd])
    (use assms in \<open>auto simp: Q_Recursion_1K_1P_def Q_Unrecursion_1K_1P_def alen_rows split: prod.splits\<close>)

lemma Q_Recursion_1K_2P_sorts:
  assumes "same3 st" "0 \<le> lBegin" "lEnd < alen (fst st)"
  shows "\<exists>st'. Q_Recursion_1K_2P lBegin lEnd st = Some st' \<and> same3 st'
    \<and> perm_on lBegin lEnd (rows3 st) (rows3 st') \<and> sorted_on fst lBegin lEnd (rows3 st')"
  using q1K_2P.qs_rec_spec [of st lBegin lEnd] assms
  by (auto simp: Q_Recursion_1K_2P_def alen_rows fst_comp split: prod.splits)

lemma Q_Unrecursion_1K_2P_refines:
  assumes "same3 st" "0 \<le> lBegin" "lEnd < alen (fst st)" "lEnd - lBegin \<le> 512"
  shows "Q_Unrecursion_1K_2P lBegin lEnd st = map_option Inr (Q_Recursion_1K_2P lBegin lEnd st)"
  by (rule q1K_2P.qs_unrec_refines [of st lBegin lEnd])
    (use assms in \<open>auto simp: Q_Recursion_1K_2P_def Q_Unrecursion_1K_2P_def alen_rows split: prod.splits\<close>)

lemma Q_Recursion_2K_sorts:
  assumes "same2 st" "0 \<le> lBegin" "lEnd < alen (fst st)"
  shows "\<exists>st'. Q_Recursion_2K lBegin lEnd st = Some st' \<and> same2 st'
    \<and> perm_on lBegin lEnd (rows2 st) (rows2 st') \<and> sorted_on fst lBegin lEnd (rows2 st')"
  using q2K.qs_rec_spec [of st lBegin lEnd] assms
  by (auto simp: Q_Recursion_2K_def alen_rows fst_comp split: prod.splits)

lemma Q_Unrecursion_2K_refines:
  assumes "same2 st" "0 \<le> lBegin" "lEnd < alen (fst st)" "lEnd - lBegin \<le> 512"
  shows "Q_Unrecursion_2K lBegin lEnd st = map_option Inr (Q_Recursion_2K lBegin lEnd st)"
  by (rule q2K.qs_unrec_refines [of st lBegin lEnd])
    (use assms in \<open>auto simp: Q_Recursion_2K_def Q_Unrecursion_2K_def alen_rows split: prod.splits\<close>)

lemma Q_Recursion_2K_1P_sorts:
  assumes "same3 st" "0 \<le> lBegin" "lEnd < alen (fst st)"
  shows "\<exists>st'. Q_Recursion_2K_1P lBegin lEnd st = Some st' \<and> same3 st'
    \<and> perm_on lBegin lEnd (rows3 st) (rows3 st') \<and> sorted_on fst lBegin lEnd (rows3 st')"
  using q2K_1P.qs_rec_spec [of st lBegin lEnd] assms
  by (auto simp: Q_Recursion_2K_1P_def alen_rows fst_comp split: prod.splits)

lemma Q_Unrecursion_2K_1P_refines:
  assumes "same3 st" "0 \<le> lBegin" "lEnd < alen (fst st)" "lEnd - lBegin \<le> 512"
  shows "Q_Unrecursion_2K_1P lBegin lEnd st = map_option Inr (Q_Recursion_2K_1P lBegin lEnd st)"
  by (rule q2K_1P.qs_unrec_refines [of st lBegin lEnd])
    (use assms in \<open>auto simp: Q_Recursion_2K_1P_def Q_Unrecursion_2K_1P_def alen_rows split: prod.splits\<close>)

lemma Q_Recursion_2K_2P_sorts:
  assumes "same4 st" "0 \<le> lBegin" "lEnd < alen (fst st)"
  shows "\<exists>st'. Q_Recursion_2K_2P lBegin lEnd st = Some st' \<and> same4 st'
    \<and> perm_on lBegin lEnd (rows4 st) (rows4 st') \<and> sorted_on fst lBegin lEnd (rows4 st')"
  using q2K_2P.qs_rec_spec [of st lBegin lEnd] assms
  by (auto simp: Q_Recursion_2K_2P_def alen_rows fst_comp split: prod.splits)

lemma Q_Unrecursion_2K_2P_refines:
  assumes "same4 st" "0 \<le> lBegin" "lEnd < alen (fst st)" "lEnd - lBegin \<le> 512"
  shows "Q_Unrecursion_2K_2P lBegin lEnd st = map_option Inr (Q_Recursion_2K_2P lBegin lEnd st)"
  by (rule q2K_2P.qs_unrec_refines [of st lBegin lEnd])
    (use assms in \<open>auto simp: Q_Recursion_2K_2P_def Q_Unrecursion_2K_2P_def alen_rows split: prod.splits\<close>)

lemma Q_Recursion_3K_1P_sorts:
  assumes "same4 st" "0 \<le> lBegin" "lEnd < alen (fst st)"
  shows "\<exists>st'. Q_Recursion_3K_1P lBegin lEnd st = Some st' \<and> same4 st'
    \<and> perm_on lBegin lEnd (rows4 st) (rows4 st') \<and> sorted_on fst lBegin lEnd (rows4 st')"
  using q3K_1P.qs_rec_spec [of st lBegin lEnd] assms
  by (auto simp: Q_Recursion_3K_1P_def alen_rows fst_comp split: prod.splits)

lemma Q_Unrecursion_3K_1P_refines:
  assumes "same4 st" "0 \<le> lBegin" "lEnd < alen (fst st)" "lEnd - lBegin \<le> 512"
  shows "Q_Unrecursion_3K_1P lBegin lEnd st = map_option Inr (Q_Recursion_3K_1P lBegin lEnd st)"
  by (rule q3K_1P.qs_unrec_refines [of st lBegin lEnd])
    (use assms in \<open>auto simp: Q_Recursion_3K_1P_def Q_Unrecursion_3K_1P_def alen_rows split: prod.splits\<close>)

lemma Q_Recursion_3K_2P_sorts:
  assumes "same5 st" "0 \<le> lBegin" "lEnd < alen (fst st)"
  shows "\<exists>st'. Q_Recursion_3K_2P lBegin lEnd st = Some st' \<and> same5 st'
    \<and> perm_on lBegin lEnd (rows5 st) (rows5 st') \<and> sorted_on fst lBegin lEnd (rows5 st')"
  using q3K_2P.qs_rec_spec [of st lBegin lEnd] assms
  by (auto simp: Q_Recursion_3K_2P_def alen_rows fst_comp split: prod.splits)

lemma Q_Unrecursion_3K_2P_refines:
  assumes "same5 st" "0 \<le> lBegin" "lEnd < alen (fst st)" "lEnd - lBegin \<le> 512"
  shows "Q_Unrecursion_3K_2P lBegin lEnd st = map_option Inr (Q_Recursion_3K_2P lBegin lEnd st)"
  by (rule q3K_2P.qs_unrec_refines [of st lBegin lEnd])
    (use assms in \<open>auto simp: Q_Recursion_3K_2P_def Q_Unrecursion_3K_2P_def alen_rows split: prod.splits\<close>)

lemma Q_Recursion_1K_Custom_descends:
  assumes "0 \<le> lBegin" "lEnd < alen tKey_1"
  shows "\<exists>w. Q_Recursion_1K_Custom lBegin lEnd tKey_1 Compare_1K_Descending = Some w
    \<and> perm_on lBegin lEnd tKey_1 w \<and> sorted_on (uminus :: int \<Rightarrow> int) lBegin lEnd w"
  using q1K_desc.qs_rec_spec [where s = tKey_1 and m = lBegin and n = lEnd] assms
  by (simp add: Q_Recursion_1K_Custom_def comp_def)

section \<open>Properties\<close>



text \<open>
  The iterative \<open>Q_Unrecursion_1K\<close> computes what the recursive \<open>Q_Recursion_1K\<close> computes, and
  never runs over its fixed buffer of 1024 integers, on every range of at most 513 cells.
\<close>

lemma Q_Unrecursion_1K_refines:
  assumes "0 \<le> lBegin" "lEnd < alen tKey_1" "lEnd - lBegin \<le> 512"
  shows "Q_Unrecursion_1K lBegin lEnd tKey_1 = map_option Inr (Q_Recursion_1K lBegin lEnd tKey_1)"
  by (rule q1K.qs_unrec_refines [where s = tKey_1 and m = lBegin and n = lEnd])
    (use assms in \<open>auto simp: Q_Recursion_1K_def Q_Unrecursion_1K_def\<close>)

text \<open>
  On larger ranges the iterative sort still returns: it either agrees with the recursive sort
  or has written past the end of \<open>stack_buf\<close>, which the code does not check.
\<close>

lemma Q_Unrecursion_1K_returns:
  assumes "0 \<le> lBegin" "lEnd < alen tKey_1"
  shows "Q_Unrecursion_1K lBegin lEnd tKey_1 = map_option Inr (Q_Recursion_1K lBegin lEnd tKey_1)
    \<or> Q_Unrecursion_1K lBegin lEnd tKey_1 = Some (Inl StackOverflow) \<and> 512 < lEnd - lBegin"
  by (rule q1K.qs_unrec_refines [where s = tKey_1 and m = lBegin and n = lEnd])
    (use assms in \<open>auto simp: Q_Recursion_1K_def Q_Unrecursion_1K_def\<close>)

text \<open>
  \<open>Q_Recursion_1K_3P\<close> keeps the four arrays aligned: the rows of the range are permuted as
  whole rows, every other row stays where it is, and the keys of the range end in order.
\<close>

lemma Q_Recursion_1K_3P_sorts:
  assumes "same4 st" "0 \<le> lBegin" "lEnd < alen (fst st)"
  shows "\<exists>st'. Q_Recursion_1K_3P lBegin lEnd st = Some st' \<and> same4 st'
    \<and> perm_on lBegin lEnd (rows4 st) (rows4 st') \<and> sorted_on fst lBegin lEnd (rows4 st')"
  using q1K_3P.qs_rec_spec [of st lBegin lEnd] assms
  by (auto simp: Q_Recursion_1K_3P_def alen_rows fst_comp split: prod.splits)

text \<open>
  The two-key sort with three attached arrays, in its iterative form: on at most 513 rows it
  returns, keeps the five arrays aligned and orders the rows by the first key.
\<close>

lemma Q_Unrecursion_2K_3P_sorts:
  assumes "same5 st" "0 \<le> lBegin" "lEnd < alen (fst st)" "lEnd - lBegin \<le> 512"
  shows "\<exists>st'. Q_Unrecursion_2K_3P lBegin lEnd st = Some (Inr st')
    \<and> Q_Recursion_2K_3P lBegin lEnd st = Some st' \<and> same5 st'
    \<and> perm_on lBegin lEnd (rows5 st) (rows5 st') \<and> sorted_on fst lBegin lEnd (rows5 st')"
  by (rule q2K_3P.qs_unrec_refines [of st lBegin lEnd])
    (use q2K_3P.qs_rec_spec [of st lBegin lEnd] assms in
      \<open>auto simp: Q_Recursion_2K_3P_def Q_Unrecursion_2K_3P_def alen_rows fst_comp split: prod.splits\<close>)

text \<open>
  The comparison of two keys is not antisymmetric, and so the two-key sorts never order two
  rows by their second key: rows with equal first keys stay as they are.
\<close>

lemma Q_Recursion_2K_ignores_second_key:
  "(a \<noteq> b \<longrightarrow> Compare_2K k k a b = - 1 \<and> Compare_2K k k b a = - 1)
   \<and> Q_Recursion_2K 0 1 ([k, k], [a, b]) = Some ([k, k], [a, b])"
  by (auto simp: Q_Recursion_2K_def qs_rec.simps qs_pair_def gt_2K_def Compare_2K_def key2_def aget_def)

end
