(* ===== verification/HeapArray.thy ===== *)
theory HeapArray
  imports Prelude
begin

text \<open>
  Binary heaps laid out in an array, as \<^verbatim>\<open>QMinHeap\<close> and \<^verbatim>\<open>QMaxHeap\<close> of \<^verbatim>\<open>src/common/qheap.h\<close> and
  the heap sort of \<^verbatim>\<open>src/common/qalgorithm.h\<close> use them.  The children of cell \<open>i\<close> are the cells
  \<open>2 * i + 1\<close> and \<open>2 * i + 2\<close>.  The locale \<open>total_preorder\<close> holds, for any total preorder of the
  items, how exchanges along an edge repair a heap that is out of order at one cell.
\<close>

definition edge :: "int \<Rightarrow> int \<Rightarrow> bool" where
  "edge i k \<longleftrightarrow> k = 2 * i + 1 \<or> k = 2 * i + 2"

text \<open>The cells \<open>s, ..., m\<close> are in heap order.\<close>

definition heap_from :: "('a \<Rightarrow> 'a \<Rightarrow> bool) \<Rightarrow> int \<Rightarrow> int \<Rightarrow> 'a list \<Rightarrow> bool" where
  "heap_from le s m v \<longleftrightarrow> (\<forall>i k. s \<le> i \<longrightarrow> edge i k \<longrightarrow> k \<le> m \<longrightarrow> le (aget v i) (aget v k))"

text \<open>In heap order except between \<open>h\<close> and its children (\<open>down\<close>) or \<open>h\<close> and its parent (\<open>up\<close>).\<close>

definition down_hole :: "('a \<Rightarrow> 'a \<Rightarrow> bool) \<Rightarrow> int \<Rightarrow> int \<Rightarrow> int \<Rightarrow> 'a list \<Rightarrow> bool" where
  "down_hole le s m h v \<longleftrightarrow>
     (\<forall>i k. s \<le> i \<longrightarrow> edge i k \<longrightarrow> k \<le> m \<longrightarrow> i \<noteq> h \<longrightarrow> le (aget v i) (aget v k)) \<and>
     (\<forall>p k. s \<le> p \<longrightarrow> edge p h \<longrightarrow> edge h k \<longrightarrow> k \<le> m \<longrightarrow> le (aget v p) (aget v k))"

definition up_hole :: "('a \<Rightarrow> 'a \<Rightarrow> bool) \<Rightarrow> int \<Rightarrow> int \<Rightarrow> 'a list \<Rightarrow> bool" where
  "up_hole le m h v \<longleftrightarrow>
     (\<forall>i k. 0 \<le> i \<longrightarrow> edge i k \<longrightarrow> k \<le> m \<longrightarrow> k \<noteq> h \<longrightarrow> le (aget v i) (aget v k)) \<and>
     (\<forall>p k. 0 \<le> p \<longrightarrow> edge p h \<longrightarrow> edge h k \<longrightarrow> k \<le> m \<longrightarrow> le (aget v p) (aget v k))"

lemma edge_less: "edge i k \<Longrightarrow> 0 \<le> i \<Longrightarrow> i < k"
  by (auto simp: edge_def)

lemma edge_parent: "0 < k \<Longrightarrow> edge ((k - 1) div 2) k"
  unfolding edge_def by presburger

lemma edge_unique: "edge i k \<Longrightarrow> edge j k \<Longrightarrow> i = j"
  unfolding edge_def by presburger

lemma heap_from_vacuous: "m < 2 * s + 1 \<Longrightarrow> heap_from le s m v"
  by (auto simp: heap_from_def edge_def)

lemma heap_from_shrink: "heap_from le s m v \<Longrightarrow> m' \<le> m \<Longrightarrow> heap_from le s m' v"
  by (auto simp: heap_from_def)

lemma heap_from_cong:
  "heap_from le s m v \<Longrightarrow> 0 \<le> s \<Longrightarrow> (\<And>i. s \<le> i \<Longrightarrow> i \<le> m \<Longrightarrow> aget w i = aget v i) \<Longrightarrow> heap_from le s m w"
  unfolding heap_from_def using edge_less by (smt (verit))

lemma down_hole_start: "heap_from le (s + 1) m v \<Longrightarrow> 0 \<le> s \<Longrightarrow> down_hole le s m s v"
  unfolding heap_from_def down_hole_def using edge_less by (smt (verit))

lemma up_hole_start: "heap_from le 0 (m - 1) v \<Longrightarrow> 0 \<le> m \<Longrightarrow> up_hole le m m v"
  unfolding heap_from_def up_hole_def using edge_less by (smt (verit))

locale total_preorder =
  fixes le :: "'a \<Rightarrow> 'a \<Rightarrow> bool"
  assumes total: "le a b \<or> le b a"
    and trans: "le a b \<Longrightarrow> le b c \<Longrightarrow> le a c"
begin

lemma refl: "le a a"
  using total by blast

lemma not_le: "\<not> le a b \<Longrightarrow> le b a"
  using total by blast

lemma root_le:
  assumes "heap_from le 0 m v" "0 \<le> k" "k \<le> m"
  shows "le (aget v 0) (aget v k)"
  using assms(2,3)
proof (induction "nat k" arbitrary: k rule: less_induct)
  case less
  show ?case
  proof (cases "k = 0")
    case True
    then show ?thesis by (simp add: refl)
  next
    case False
    let ?p = "(k - 1) div 2"
    have e: "edge ?p k" "0 \<le> ?p" using False less.prems edge_parent [of k] by auto
    then have "le (aget v 0) (aget v ?p)" using less edge_less [of ?p k] by auto
    moreover have "le (aget v ?p) (aget v k)" using assms(1) e less.prems by (auto simp: heap_from_def)
    ultimately show ?thesis by (rule trans)
  qed
qed

lemma down_done:
  "down_hole le s m h v \<Longrightarrow> (\<And>k. edge h k \<Longrightarrow> k \<le> m \<Longrightarrow> le (aget v h) (aget v k)) \<Longrightarrow> heap_from le s m v"
  unfolding down_hole_def heap_from_def by metis

lemma down_swap:
  assumes dh: "down_hole le s m h v" and e: "edge h c" and r: "0 \<le> s" "s \<le> h" "c \<le> m" "m < alen v"
    and le: "le (aget v c) (aget v h)"
    and least: "\<And>k. edge h k \<Longrightarrow> k \<le> m \<Longrightarrow> le (aget v c) (aget v k)"
  shows "down_hole le s m c (aswap v h c)"
proof -
  have hc: "h < c" using e r edge_less by auto
  have rd: "aget (aswap v h c) i = (if i = h then aget v c else if i = c then aget v h else aget v i)"
    if "0 \<le> i" "i \<le> m" for i
    using that r hc by (intro aget_aswap) (auto simp: in_range_def)
  have "le (aget (aswap v h c) i) (aget (aswap v h c) k)"
    if i: "s \<le> i" "edge i k" "k \<le> m" "i \<noteq> c" for i k
  proof -
    have ik: "i < k" "0 \<le> i" using i r edge_less by auto
    consider "i = h" "k = c" | "i = h" "k \<noteq> c" "k \<noteq> h" | "i \<noteq> h" "k = h" | "i \<noteq> h" "k \<noteq> h" "k \<noteq> c"
      using edge_unique [OF i(2), of h] e ik by (cases "i = h"; cases "k = h"; cases "k = c") auto
    then show ?thesis
    proof cases
      case 1
      with le ik i hc show ?thesis by (auto simp: rd)
    next
      case 2
      with least i ik show ?thesis by (simp add: rd)
    next
      case 3
      with dh i e ik hc r show ?thesis by (auto simp: rd down_hole_def)
    next
      case 4
      with dh i ik show ?thesis by (auto simp: rd down_hole_def)
    qed
  qed
  moreover have "le (aget (aswap v h c) p) (aget (aswap v h c) k)"
    if k: "s \<le> p" "edge p c" "edge c k" "k \<le> m" for p k
  proof -
    have "p = h" using edge_unique [OF k(2)] e by simp
    moreover have "c < k" using k(3) hc r edge_less by auto
    ultimately show ?thesis using dh k hc r by (auto simp: rd down_hole_def)
  qed
  ultimately show ?thesis unfolding down_hole_def by blast
qed

lemma up_done:
  "up_hole le m h v \<Longrightarrow> (\<And>p. 0 \<le> p \<Longrightarrow> edge p h \<Longrightarrow> le (aget v p) (aget v h)) \<Longrightarrow> heap_from le 0 m v"
  unfolding up_hole_def heap_from_def by metis

lemma up_swap:
  assumes uh: "up_hole le m h v" and e: "edge p h" and r: "0 \<le> p" "h \<le> m" "m < alen v"
    and le: "le (aget v h) (aget v p)"
  shows "up_hole le m p (aswap v p h)"
proof -
  have ph: "p < h" using e r edge_less by auto
  have rd: "aget (aswap v p h) i = (if i = p then aget v h else if i = h then aget v p else aget v i)"
    if "0 \<le> i" "i \<le> m" for i
    using that r ph by (intro aget_aswap) (auto simp: in_range_def)
  have sib: "le (aget v h) (aget v k)" if "edge p k" "k \<le> m" "k \<noteq> h" for k
    using uh that r le trans by (auto simp: up_hole_def)
  have "le (aget (aswap v p h) i) (aget (aswap v p h) k)"
    if i: "0 \<le> i" "edge i k" "k \<le> m" "k \<noteq> p" for i k
  proof -
    have ik: "i < k" using i edge_less by auto
    consider "i = p" "k = h" | "i = p" "k \<noteq> h" | "i = h" | "i \<noteq> h" "i \<noteq> p" "k \<noteq> h"
      using edge_unique [OF i(2)] e by metis
    then show ?thesis
    proof cases
      case 1
      with le ik i ph show ?thesis by (auto simp: rd)
    next
      case 2
      with sib i ik show ?thesis by (simp add: rd)
    next
      case 3
      with uh i e ik ph r show ?thesis by (auto simp: rd up_hole_def)
    next
      case 4
      with uh i ik show ?thesis by (auto simp: rd up_hole_def)
    qed
  qed
  moreover have "le (aget (aswap v p h) q) (aget (aswap v p h) k)"
    if q: "0 \<le> q" "edge q p" "edge p k" "k \<le> m" for q k
  proof -
    have qp: "q < p" "p < k" using q r edge_less by auto
    have "le (aget v q) (aget v p)" using uh q qp ph by (auto simp: up_hole_def)
    moreover have "le (aget v p) (aget v k)" if "k \<noteq> h" using uh q r that by (auto simp: up_hole_def)
    ultimately show ?thesis using qp q ph trans by (auto simp: rd)
  qed
  ultimately show ?thesis unfolding up_hole_def by blast
qed

end

interpretation ascending: total_preorder "(\<le>) :: 'a::linorder \<Rightarrow> 'a \<Rightarrow> bool"
  by unfold_locales auto

interpretation descending: total_preorder "(\<ge>) :: 'a::linorder \<Rightarrow> 'a \<Rightarrow> bool"
  by unfold_locales auto

end
