(* ===== verification/PriorityQueue.thy ===== *)
theory PriorityQueue
  imports Queue HeapArray
begin

text \<open>
  The contract of a bounded priority queue, and \<open>QPriorityQueue\<close> of \<^verbatim>\<open>src/common/qqueue.h\<close>, which
  keeps its items in descending order in an array.  As for the other queues an operation is one
  attempt under the mutex, with the result \<open>None\<close> when the caller has to wait.
\<close>

section \<open>The contract\<close>

fun pop_n :: "('q \<Rightarrow> ('a \<times> 'q) option) \<Rightarrow> nat \<Rightarrow> 'q \<Rightarrow> ('a list \<times> 'q) option" where
  "pop_n po 0 q = Some ([], q)"
| "pop_n po (Suc n) q = (case po q of None \<Rightarrow> None
     | Some (x, q1) \<Rightarrow> (case pop_n po n q1 of None \<Rightarrow> None | Some (xs, q2) \<Rightarrow> Some (x # xs, q2)))"

locale bounded_pqueue = total_preorder le
  for le :: "'a \<Rightarrow> 'a \<Rightarrow> bool" +
  fixes invar :: "'q \<Rightarrow> bool"
    and items :: "'q \<Rightarrow> 'a multiset"
    and capacity :: "'q \<Rightarrow> nat"
    and push :: "'q \<Rightarrow> 'a \<Rightarrow> 'q option"
    and pop :: "'q \<Rightarrow> ('a \<times> 'q) option"
  assumes size_le: "invar q \<Longrightarrow> size (items q) \<le> capacity q"
    and push_None: "invar q \<Longrightarrow> push q x = None \<longleftrightarrow> size (items q) = capacity q"
    and push_Some: "invar q \<Longrightarrow> push q x = Some q' \<Longrightarrow>
          invar q' \<and> capacity q' = capacity q \<and> items q' = add_mset x (items q)"
    and pop_None: "invar q \<Longrightarrow> pop q = None \<longleftrightarrow> items q = {#}"
    and pop_Some: "invar q \<Longrightarrow> pop q = Some (x, q') \<Longrightarrow>
          invar q' \<and> capacity q' = capacity q \<and> items q = add_mset x (items q')
          \<and> (\<forall>y\<in>#items q. le x y)"
begin

lemma push_all_Some:
  "invar q \<Longrightarrow> size (items q) + length xs \<le> capacity q \<Longrightarrow>
   \<exists>q'. push_all push xs q = Some q' \<and> invar q' \<and> items q' = items q + mset xs"
proof (induction xs arbitrary: q)
  case Nil
  then show ?case by simp
next
  case (Cons x xs)
  then obtain q1 where q1: "push q x = Some q1" using push_None [of q x] by fastforce
  from push_Some [OF Cons.prems(1) q1] Cons.prems(2) Cons.IH [of q1] show ?case
    by (auto simp: q1)
qed

text \<open>Popping as many items as there are returns all of them, the first in the order first.\<close>

lemma pop_n_drains:
  "invar q \<Longrightarrow> \<exists>xs q'. pop_n pop (size (items q)) q = Some (xs, q') \<and> invar q' \<and> items q' = {#}
     \<and> mset xs = items q \<and> sorted_wrt le xs"
proof (induction "size (items q)" arbitrary: q)
  case 0
  then show ?case by simp
next
  case (Suc n)
  then obtain x q1 where x: "pop q = Some (x, q1)" using pop_None [of q] by fastforce
  note q1 = pop_Some [OF Suc.prems x]
  then have n: "size (items q1) = n" using Suc.hyps(2) by simp
  with Suc.hyps(1) [of q1] q1 obtain xs q2 where
    q2: "pop_n pop n q1 = Some (xs, q2)" "invar q2" "items q2 = {#}" "mset xs = items q1" "sorted_wrt le xs"
    by auto
  have "\<forall>y\<in>set xs. le x y" using q1 q2(4) by (metis in_multiset_in_set union_iff add_mset_add_single)
  with x q1 q2 Suc.hyps(2) [symmetric] show ?case by auto
qed

lemma push_pop_sorts:
  assumes "invar q" "items q = {#}" "length xs \<le> capacity q"
  shows "\<exists>q1 ys q2. push_all push xs q = Some q1 \<and> pop_n pop (length xs) q1 = Some (ys, q2)
    \<and> mset ys = mset xs \<and> sorted_wrt le ys \<and> items q2 = {#}"
proof -
  obtain q1 where q1: "push_all push xs q = Some q1" "invar q1" "items q1 = mset xs"
    using push_all_Some [of q xs] assms by auto
  with pop_n_drains [OF q1(2)] show ?thesis by auto
qed

lemma not_stuck: "invar q \<Longrightarrow> 0 < capacity q \<Longrightarrow> push q x \<noteq> None \<or> pop q \<noteq> None"
  using push_None [of q x] pop_None [of q] by auto

end

section \<open>Live cells of an array\<close>

text \<open>The first \<open>n\<close> cells hold the items; the other cells hold leftovers.\<close>

definition live :: "int \<Rightarrow> 'a list \<Rightarrow> 'a list" where
  "live n v = take (nat n) v"

lemma length_live: "0 \<le> n \<Longrightarrow> n \<le> alen v \<Longrightarrow> length (live n v) = nat n"
  by (simp add: live_def alen_def)

lemma live_slice: "live n v = slice 0 (n - 1) v"
  by (simp add: live_def slice_def)

lemma perm_on_live: "perm_on 0 (n - 1) v w \<Longrightarrow> 0 \<le> n \<Longrightarrow> n \<le> alen v \<Longrightarrow> mset (live n w) = mset (live n v)"
  by (simp add: live_slice perm_on_mset_slice)

lemma live_snoc: "0 \<le> n \<Longrightarrow> n < alen v \<Longrightarrow> live (n + 1) v = live n v @ [aget v n]"
  by (simp add: live_def aget_def alen_def nat_add_distrib take_Suc_conv_app_nth)

lemma live_aset_end: "live n (aset v n x) = live n v"
  by (simp add: live_def aset_def)

lemma in_live: "0 \<le> n \<Longrightarrow> n \<le> alen v \<Longrightarrow> y \<in> set (live n v) \<longleftrightarrow> (\<exists>i. 0 \<le> i \<and> i < n \<and> aget v i = y)"
  by (auto simp: live_slice slice_set_iff)

section \<open>QPriorityQueue\<close>

record 'a QPriorityQueue =
  p_queue :: "'a list"
  p_size :: int
  p_max_size :: int

definition QPriorityQueue_new :: "'a QPriorityQueue" where
  "QPriorityQueue_new = \<lparr>p_queue = [], p_size = 0, p_max_size = 0\<rparr>"

text \<open>\<open>cells\<close> is the result of \<^verbatim>\<open>q_new_array\<close>, as for \<open>QQueue\<close>.\<close>

definition QPriorityQueue_init :: "int \<Rightarrow> 'a list option \<Rightarrow> 'a QPriorityQueue \<Rightarrow> int \<times> 'a QPriorityQueue" where
  "QPriorityQueue_init n cells q =
     (if n \<le> 0 then (- 1, q)
      else (case cells of
              None \<Rightarrow> (- 2, q\<lparr>p_max_size := n, p_queue := []\<rparr>)
            | Some c \<Rightarrow> (0, q\<lparr>p_max_size := n, p_queue := c, p_size := 0\<rparr>)))"

definition QPriorityQueue_empty :: "'a QPriorityQueue \<Rightarrow> bool" where
  "QPriorityQueue_empty q \<longleftrightarrow> p_size q = 0"

definition QPriorityQueue_full :: "'a QPriorityQueue \<Rightarrow> bool" where
  "QPriorityQueue_full q \<longleftrightarrow> p_size q = p_max_size q"

definition QPriorityQueue_clear :: "'a QPriorityQueue \<Rightarrow> 'a QPriorityQueue" where
  "QPriorityQueue_clear q = q\<lparr>p_size := 0\<rparr>"

text \<open>The loop of \<open>adjust\<close> from index \<open>j\<close> and the store after it.\<close>

function adjust_loop :: "'a::linorder \<Rightarrow> 'a list \<Rightarrow> int \<Rightarrow> 'a list" where
  "adjust_loop temp v j =
     (if 0 \<le> j then if aget v j \<ge> temp then aset v (j + 1) temp
                     else adjust_loop temp (aset v (j + 1) (aget v j)) (j - 1)
      else aset v (j + 1) temp)"
  by pat_completeness auto
termination
  by (relation "measure (\<lambda>(temp, v, j). nat (j + 1))") auto

definition adjust :: "'a::linorder list \<Rightarrow> int \<Rightarrow> 'a list" where
  "adjust v n = adjust_loop (aget v (n - 1)) v (n - 2)"

text \<open>\<^verbatim>\<open>for(int32_t i=1; i<size_; ++i) queue_[i-1]=queue_[i];\<close>\<close>

function shift_down :: "'a list \<Rightarrow> int \<Rightarrow> int \<Rightarrow> 'a list" where
  "shift_down v i n = (if i < n then shift_down (aset v (i - 1) (aget v i)) (i + 1) n else v)"
  by pat_completeness auto
termination
  by (relation "measure (\<lambda>(v, i, n). nat (n - i))") auto

declare adjust_loop.simps [simp del] shift_down.simps [simp del]

definition QPriorityQueue_push :: "'a::linorder QPriorityQueue \<Rightarrow> 'a \<Rightarrow> 'a QPriorityQueue option" where
  "QPriorityQueue_push q item =
     (if QPriorityQueue_full q then None
      else Some (q\<lparr>p_queue := adjust (aset (p_queue q) (p_size q) item) (p_size q + 1),
                   p_size := p_size q + 1\<rparr>))"

definition QPriorityQueue_pop :: "'a QPriorityQueue \<Rightarrow> ('a \<times> 'a QPriorityQueue) option" where
  "QPriorityQueue_pop q =
     (if QPriorityQueue_empty q then None
      else Some (aget (p_queue q) 0,
                 q\<lparr>p_queue := shift_down (p_queue q) 1 (p_size q), p_size := p_size q - 1\<rparr>))"

definition QPriorityQueue_push_non_blocking :: "'a::linorder QPriorityQueue \<Rightarrow> 'a \<Rightarrow> int \<times> 'a QPriorityQueue" where
  "QPriorityQueue_push_non_blocking q item =
     (if p_size q = p_max_size q then (- 1, q)
      else (0, q\<lparr>p_queue := adjust (aset (p_queue q) (p_size q) item) (p_size q + 1),
                 p_size := p_size q + 1\<rparr>))"

definition QPriorityQueue_pop_non_blocking :: "'a QPriorityQueue \<Rightarrow> 'a \<Rightarrow> int \<times> 'a \<times> 'a QPriorityQueue" where
  "QPriorityQueue_pop_non_blocking q item =
     (if QPriorityQueue_empty q then (- 1, item, q)
      else (0, aget (p_queue q) 0,
            q\<lparr>p_queue := shift_down (p_queue q) 1 (p_size q), p_size := p_size q - 1\<rparr>))"

subsection \<open>The two loops\<close>

definition descends :: "int \<Rightarrow> 'a::linorder list \<Rightarrow> bool" where
  "descends m v \<longleftrightarrow> (\<forall>i k. 0 \<le> i \<longrightarrow> i < k \<longrightarrow> k \<le> m \<longrightarrow> aget v k \<le> aget v i)"

text \<open>
  The array with \<open>temp\<close> in the hole at \<open>j + 1\<close> descends, except that \<open>temp\<close> may be larger than
  items before it; each round exchanges \<open>temp\<close> with its left neighbour.
\<close>

lemma adjust_loop_spec:
  assumes "- 1 \<le> j" "j + 1 \<le> m" "m < alen v"
    and "\<And>i k. 0 \<le> i \<Longrightarrow> i < k \<Longrightarrow> k \<le> m \<Longrightarrow> i \<noteq> j + 1 \<Longrightarrow> k \<noteq> j + 1 \<Longrightarrow> aget v k \<le> aget v i"
    and "\<And>k. j + 1 < k \<Longrightarrow> k \<le> m \<Longrightarrow> aget v k \<le> temp"
  shows "perm_on 0 m (aset v (j + 1) temp) (adjust_loop temp v j) \<and> descends m (adjust_loop temp v j)"
  using assms
proof (induction temp v j rule: adjust_loop.induct)
  case (1 temp v j)
  have rng: "in_range v (j + 1)" using "1.prems" by auto
  show ?case
  proof (cases "0 \<le> j \<and> aget v j < temp")
    case True
    let ?v = "aset v (j + 1) (aget v j)"
    have j: "in_range v j" using True "1.prems" by (auto simp: in_range_def)
    have rd: "aget ?v i = (if i = j + 1 then aget v j else aget v i)" if "0 \<le> i" "i \<le> m" for i
      using that rng "1.prems"(3) by (subst aget_aset) (auto simp: in_range_def)
    have eq: "adjust_loop temp v j = adjust_loop temp ?v (j - 1)"
      using True by (subst adjust_loop.simps) auto
    have ih: "perm_on 0 m (aset ?v (j - 1 + 1) temp) (adjust_loop temp ?v (j - 1))
        \<and> descends m (adjust_loop temp ?v (j - 1))"
    proof (rule "1.IH")
      show "aget ?v k \<le> aget ?v i" if "0 \<le> i" "i < k" "k \<le> m" "i \<noteq> j - 1 + 1" "k \<noteq> j - 1 + 1" for i k
        using that True "1.prems" by (auto simp: rd)
      show "aget ?v k \<le> temp" if "j - 1 + 1 < k" "k \<le> m" for k
        using that True "1.prems" by (auto simp: rd)
    qed (use True "1.prems" in auto)
    have "perm_on 0 m (aset v (j + 1) temp) (aset ?v j temp)"
      by (subst hole_exchange [OF j rng]) (use True "1.prems" rng j in \<open>auto intro!: perm_on_aswap\<close>)
    with ih show ?thesis unfolding eq by (auto intro: perm_on_trans)
  next
    case False
    then have eq: "adjust_loop temp v j = aset v (j + 1) temp" by (subst adjust_loop.simps) auto
    have rd: "aget (aset v (j + 1) temp) i = (if i = j + 1 then temp else aget v i)"
      if "0 \<le> i" "i \<le> m" for i
      using that rng "1.prems"(3) by (subst aget_aset) (auto simp: in_range_def)
    have "temp \<le> aget v i" if "0 \<le> i" "i < j + 1" for i
      using that False "1.prems"(2) "1.prems"(4) [of i j] by (cases "i = j") (auto intro: order_trans)
    then have "descends m (aset v (j + 1) temp)"
      unfolding descends_def using "1.prems" by (auto simp: rd)
    then show ?thesis unfolding eq by simp
  qed
qed

lemma shift_down_length [simp]: "length (shift_down v i n) = length v"
  by (induction v i n rule: shift_down.induct) (subst shift_down.simps, simp)

lemma shift_down_spec:
  "1 \<le> i \<Longrightarrow> n \<le> alen v \<Longrightarrow> in_range v k \<Longrightarrow>
   aget (shift_down v i n) k = (if i - 1 \<le> k \<and> k < n - 1 then aget v (k + 1) else aget v k)"
proof (induction v i n rule: shift_down.induct)
  case (1 v i n)
  show ?case
  proof (cases "i < n")
    case True
    then have "shift_down v i n = shift_down (aset v (i - 1) (aget v i)) (i + 1) n"
      by (subst shift_down.simps) simp
    with "1.IH" True "1.prems" show ?thesis by (auto simp: aget_aset in_range_def)
  next
    case False
    then show ?thesis by (subst shift_down.simps) auto
  qed
qed

subsection \<open>The array queue implements the contract\<close>

definition QPriorityQueue_inv :: "'a::linorder QPriorityQueue \<Rightarrow> bool" where
  "QPriorityQueue_inv q \<longleftrightarrow> alen (p_queue q) = p_max_size q \<and> 0 \<le> p_size q \<and> p_size q \<le> p_max_size q
     \<and> descends (p_size q - 1) (p_queue q)"

definition QPriorityQueue_items :: "'a QPriorityQueue \<Rightarrow> 'a multiset" where
  "QPriorityQueue_items q = mset (live (p_size q) (p_queue q))"

definition QPriorityQueue_capacity :: "'a QPriorityQueue \<Rightarrow> nat" where
  "QPriorityQueue_capacity q = nat (p_max_size q)"

lemma size_QPriorityQueue_items: "QPriorityQueue_inv q \<Longrightarrow> size (QPriorityQueue_items q) = nat (p_size q)"
  by (simp add: QPriorityQueue_items_def QPriorityQueue_inv_def length_live)

lemma QPriorityQueue_push_ok:
  assumes inv: "QPriorityQueue_inv q" and p: "QPriorityQueue_push q x = Some q'"
  shows "QPriorityQueue_inv q'" and "p_max_size q' = p_max_size q"
    and "QPriorityQueue_items q' = add_mset x (QPriorityQueue_items q)"
proof -
  let ?n = "p_size q" and ?v = "aset (p_queue q) (p_size q) x"
  have n: "0 \<le> ?n" "?n < alen (p_queue q)"
    using inv p by (auto simp: QPriorityQueue_inv_def QPriorityQueue_push_def QPriorityQueue_full_def split: if_splits)
  have q': "q' = q\<lparr>p_queue := adjust ?v (?n + 1), p_size := ?n + 1\<rparr>"
    using p by (auto simp: QPriorityQueue_push_def split: if_splits)
  have rd: "aget ?v i = (if i = ?n then x else aget (p_queue q) i)" if "0 \<le> i" "i \<le> ?n" for i
    using that n by (subst aget_aset) (auto simp: in_range_def)
  have "perm_on 0 ?n (aset ?v (?n - 1 + 1) x) (adjust_loop x ?v (?n - 1)) \<and> descends ?n (adjust_loop x ?v (?n - 1))"
    by (rule adjust_loop_spec) (use n inv in \<open>auto simp: rd QPriorityQueue_inv_def descends_def\<close>)
  moreover have "adjust ?v (?n + 1) = adjust_loop x ?v (?n - 1)"
    using n by (simp add: adjust_def rd)
  moreover have "aset ?v (?n - 1 + 1) x = ?v" by (simp add: aset_def)
  ultimately have a: "perm_on 0 ?n ?v (adjust ?v (?n + 1))" "descends ?n (adjust ?v (?n + 1))" by auto
  show "p_max_size q' = p_max_size q" by (simp add: q')
  show "QPriorityQueue_inv q'"
    using inv a(2) n perm_on_alen [OF a(1)] by (auto simp: q' QPriorityQueue_inv_def)
  have "mset (live (?n + 1) (adjust ?v (?n + 1))) = mset (live (?n + 1) ?v)"
    using a(1) n by (intro perm_on_live) auto
  also have "live (?n + 1) ?v = live ?n (p_queue q) @ [x]"
    using n rd [of ?n] by (subst live_snoc) (auto simp: live_aset_end)
  finally show "QPriorityQueue_items q' = add_mset x (QPriorityQueue_items q)"
    by (simp add: q' QPriorityQueue_items_def)
qed

lemma QPriorityQueue_pop_ok:
  assumes inv: "QPriorityQueue_inv q" and p: "QPriorityQueue_pop q = Some (x, q')"
  shows "QPriorityQueue_inv q'" and "p_max_size q' = p_max_size q"
    and "live (p_size q) (p_queue q) = x # live (p_size q') (p_queue q')"
    and "\<forall>y\<in>#QPriorityQueue_items q. y \<le> x"
proof -
  let ?n = "p_size q" and ?v = "p_queue q"
  have n: "0 < ?n" "?n \<le> alen ?v"
    using inv p by (auto simp: QPriorityQueue_inv_def QPriorityQueue_pop_def QPriorityQueue_empty_def split: if_splits)
  have q': "x = aget ?v 0" "q' = q\<lparr>p_queue := shift_down ?v 1 ?n, p_size := ?n - 1\<rparr>"
    using p by (auto simp: QPriorityQueue_pop_def split: if_splits)
  have rd: "aget (shift_down ?v 1 ?n) k = aget ?v (k + 1)" if "0 \<le> k" "k < ?n - 1" for k
    using that n by (subst shift_down_spec) (auto simp: in_range_def)
  show "p_max_size q' = p_max_size q" by (simp add: q')
  show "QPriorityQueue_inv q'"
    using inv n by (auto simp: q' QPriorityQueue_inv_def descends_def rd alen_def)
  show "live ?n ?v = x # live (p_size q') (p_queue q')"
  proof (rule nth_equalityI)
    show "length (live ?n ?v) = length (x # live (p_size q') (p_queue q'))"
      using n by (simp add: q' length_live) (simp add: live_def alen_def)
    fix k assume k: "k < length (live ?n ?v)"
    then show "live ?n ?v ! k = (x # live (p_size q') (p_queue q')) ! k"
      using n rd [of "int k - 1"] by (cases k) (auto simp: q' live_def aget_def alen_def nat_add_distrib)
  qed
  show "\<forall>y\<in>#QPriorityQueue_items q. y \<le> x"
  proof
    fix y assume "y \<in># QPriorityQueue_items q"
    then obtain i where "0 \<le> i" "i < ?n" "aget ?v i = y"
      using n by (auto simp: QPriorityQueue_items_def in_live)
    then show "y \<le> x" using inv by (cases "i = 0") (auto simp: q' QPriorityQueue_inv_def descends_def)
  qed
qed

interpretation array_pq: bounded_pqueue "(\<ge>) :: 'a::linorder \<Rightarrow> 'a \<Rightarrow> bool" QPriorityQueue_inv
  QPriorityQueue_items QPriorityQueue_capacity QPriorityQueue_push QPriorityQueue_pop
proof
  fix q q' :: "'a QPriorityQueue" and x :: 'a
  assume inv: "QPriorityQueue_inv q"
  then have n: "0 \<le> p_size q" "p_size q \<le> p_max_size q" by (auto simp: QPriorityQueue_inv_def)
  note sz = size_QPriorityQueue_items [OF inv]
  show "size (QPriorityQueue_items q) \<le> QPriorityQueue_capacity q"
    using n by (simp add: sz QPriorityQueue_capacity_def)
  show "QPriorityQueue_push q x = None \<longleftrightarrow> size (QPriorityQueue_items q) = QPriorityQueue_capacity q"
    using n by (auto simp: sz QPriorityQueue_capacity_def QPriorityQueue_push_def QPriorityQueue_full_def)
  show "QPriorityQueue_pop q = None \<longleftrightarrow> QPriorityQueue_items q = {#}"
    using n sz by (auto simp: QPriorityQueue_pop_def QPriorityQueue_empty_def simp flip: size_eq_0_iff_empty)
  show "QPriorityQueue_inv q' \<and> QPriorityQueue_capacity q' = QPriorityQueue_capacity q
      \<and> QPriorityQueue_items q' = add_mset x (QPriorityQueue_items q)" if "QPriorityQueue_push q x = Some q'"
    using QPriorityQueue_push_ok [OF inv that] by (simp add: QPriorityQueue_capacity_def)
  show "QPriorityQueue_inv q' \<and> QPriorityQueue_capacity q' = QPriorityQueue_capacity q
      \<and> QPriorityQueue_items q = add_mset x (QPriorityQueue_items q') \<and> (\<forall>y\<in>#QPriorityQueue_items q. x \<ge> y)"
    if "QPriorityQueue_pop q = Some (x, q')"
    using QPriorityQueue_pop_ok [OF inv that] by (auto simp: QPriorityQueue_capacity_def QPriorityQueue_items_def)
qed

lemma QPriorityQueue_init_ok:
  assumes "0 < n" and "length c = nat n"
  shows "QPriorityQueue_inv (snd (QPriorityQueue_init n (Some c) q))"
    and "QPriorityQueue_items (snd (QPriorityQueue_init n (Some c) q)) = {#}"
    and "QPriorityQueue_capacity (snd (QPriorityQueue_init n (Some c) q)) = nat n"
  using assms
  by (simp_all add: QPriorityQueue_init_def QPriorityQueue_inv_def alen_def QPriorityQueue_items_def
      live_def descends_def QPriorityQueue_capacity_def)

section \<open>Properties\<close>

text \<open>
  An initialised \<open>QPriorityQueue\<close> of \<open>n\<close> cells takes any \<open>n\<close> items without blocking, and
  popping them again returns exactly these items, the largest first, and empties the queue.
\<close>

lemma QPriorityQueue_sorts:
  assumes "0 < n" "length c = nat n" "int (length xs) \<le> n"
  shows "\<exists>q1 ys q2. push_all QPriorityQueue_push xs (snd (QPriorityQueue_init n (Some c) q)) = Some q1
    \<and> pop_n QPriorityQueue_pop (length xs) q1 = Some (ys, q2)
    \<and> mset ys = mset xs \<and> sorted_wrt (\<ge>) ys \<and> QPriorityQueue_items q2 = {#}"
  using array_pq.push_pop_sorts [OF QPriorityQueue_init_ok(1,2) [OF assms(1,2)], of xs q]
    QPriorityQueue_init_ok(3) [OF assms(1,2), of q] assms(3) by (simp add: nat_le_iff le_nat_iff)

end
