(* ===== verification/Heaps.thy ===== *)
theory Heaps
  imports PriorityQueue
begin

text \<open>
  \<open>QMinHeap\<close> and \<open>QMaxHeap\<close> of \<^verbatim>\<open>src/common/qheap.h\<close>: bounded binary heaps in an array.  The two
  classes differ in the comparisons of \<open>siftUp\<close> and \<open>siftDown\<close> only, which are arguments of the
  bodies below: \<open>le\<close> is \<open><=\<close> of the minimum heap and \<open>>=\<close> of the maximum heap, \<open>gt\<close> is \<open>>\<close> and
  \<open><\<close>.  Both implement the priority queue contract.
\<close>

section \<open>State and operations\<close>

record 'a QHeap =
  h_heap :: "'a list"
  h_size :: int
  h_max_size :: int

text \<open>\<open>cells\<close> is what \<^verbatim>\<open>q_new_array\<close> returns; the constructor asserts that it is not null.\<close>

definition QHeap_new :: "int \<Rightarrow> 'a list \<Rightarrow> 'a QHeap" where
  "QHeap_new n cells = \<lparr>h_heap = cells, h_size = 0, h_max_size = n\<rparr>"

definition QHeap_empty :: "'a QHeap \<Rightarrow> bool" where
  "QHeap_empty q \<longleftrightarrow> h_size q = 0"

definition QHeap_full :: "'a QHeap \<Rightarrow> bool" where
  "QHeap_full q \<longleftrightarrow> h_size q = h_max_size q"

definition QHeap_clear :: "'a QHeap \<Rightarrow> 'a QHeap" where
  "QHeap_clear q = q\<lparr>h_size := 0\<rparr>"

text \<open>
  The loop of \<open>siftUp\<close>.  In the source \<open>i\<close> is \<open>(j - 1) / 2\<close> before the loop and after every
  round, so only \<open>j\<close> is carried along.
\<close>

function siftUp_loop :: "('a \<Rightarrow> 'a \<Rightarrow> bool) \<Rightarrow> 'a \<Rightarrow> 'a list \<Rightarrow> int \<Rightarrow> 'a list" where
  "siftUp_loop le temp h j =
     (if 0 < j then
        let i = cdiv (j - 1) 2
        in if le (aget h i) temp then aset h j temp
           else siftUp_loop le temp (aset h j (aget h i)) i
      else aset h j temp)"
  by pat_completeness auto
termination
  by (relation "measure (\<lambda>(le, temp, h, j). nat j)") auto

definition siftUp :: "('a \<Rightarrow> 'a \<Rightarrow> bool) \<Rightarrow> 'a list \<Rightarrow> int \<Rightarrow> 'a list" where
  "siftUp le h start = siftUp_loop le (aget h start) h start"

text \<open>
  The loop of \<open>siftDown\<close>, where \<open>j\<close> is \<open>2 * i + 1\<close> at the head of every round.  The indices
  never decrease from a start that is not negative; the guard \<open>0 \<le> i\<close> makes that visible.
\<close>

function siftDown_loop :: "('a \<Rightarrow> 'a \<Rightarrow> bool) \<Rightarrow> ('a \<Rightarrow> 'a \<Rightarrow> bool) \<Rightarrow> 'a \<Rightarrow> 'a list \<Rightarrow> int \<Rightarrow> int \<Rightarrow> 'a list" where
  "siftDown_loop gt le temp h i m =
     (if 0 \<le> i \<and> 2 * i + 1 \<le> m then
        let j = 2 * i + 1;
            j' = (if j < m \<and> gt (aget h j) (aget h (j + 1)) then j + 1 else j)
        in if le temp (aget h j') then aset h i temp
           else siftDown_loop gt le temp (aset h i (aget h j')) j' m
      else aset h i temp)"
  by pat_completeness auto
termination
  by (relation "measure (\<lambda>(gt, le, temp, h, i, m). nat (m - i))") (auto simp: Let_def split: if_splits)

definition siftDown :: "('a \<Rightarrow> 'a \<Rightarrow> bool) \<Rightarrow> ('a \<Rightarrow> 'a \<Rightarrow> bool) \<Rightarrow> 'a list \<Rightarrow> int \<Rightarrow> int \<Rightarrow> 'a list" where
  "siftDown gt le h start m = siftDown_loop gt le (aget h start) h start m"

declare siftUp_loop.simps [simp del] siftDown_loop.simps [simp del]

definition heap_push :: "('a \<Rightarrow> 'a \<Rightarrow> bool) \<Rightarrow> 'a QHeap \<Rightarrow> 'a \<Rightarrow> 'a QHeap option" where
  "heap_push le q x =
     (if QHeap_full q then None
      else Some (q\<lparr>h_heap := siftUp le (aset (h_heap q) (h_size q) x) (h_size q),
                   h_size := h_size q + 1\<rparr>))"

definition heap_pop :: "('a \<Rightarrow> 'a \<Rightarrow> bool) \<Rightarrow> ('a \<Rightarrow> 'a \<Rightarrow> bool) \<Rightarrow> 'a QHeap \<Rightarrow> ('a \<times> 'a QHeap) option" where
  "heap_pop gt le q =
     (if QHeap_empty q then None
      else let n = h_size q - 1; h = aset (h_heap q) 0 (aget (h_heap q) n)
           in Some (aget (h_heap q) 0, q\<lparr>h_heap := siftDown gt le h 0 (n - 1), h_size := n\<rparr>))"

definition QMinHeap_push :: "'a::linorder QHeap \<Rightarrow> 'a \<Rightarrow> 'a QHeap option" where
  "QMinHeap_push = heap_push (\<le>)"

definition QMinHeap_pop :: "'a::linorder QHeap \<Rightarrow> ('a \<times> 'a QHeap) option" where
  "QMinHeap_pop = heap_pop (>) (\<le>)"

definition QMaxHeap_push :: "'a::linorder QHeap \<Rightarrow> 'a \<Rightarrow> 'a QHeap option" where
  "QMaxHeap_push = heap_push (\<ge>)"

definition QMaxHeap_pop :: "'a::linorder QHeap \<Rightarrow> ('a \<times> 'a QHeap) option" where
  "QMaxHeap_pop = heap_pop (<) (\<ge>)"

text \<open>The non-blocking operations repeat the bodies of the blocking ones after the test.\<close>

definition heap_push_non_blocking :: "('a \<Rightarrow> 'a \<Rightarrow> bool) \<Rightarrow> 'a QHeap \<Rightarrow> 'a \<Rightarrow> int \<times> 'a QHeap" where
  "heap_push_non_blocking le q x =
     (if QHeap_full q then (- 1, q)
      else (0, q\<lparr>h_heap := siftUp le (aset (h_heap q) (h_size q) x) (h_size q),
                 h_size := h_size q + 1\<rparr>))"

definition heap_pop_non_blocking :: "('a \<Rightarrow> 'a \<Rightarrow> bool) \<Rightarrow> ('a \<Rightarrow> 'a \<Rightarrow> bool) \<Rightarrow> 'a QHeap \<Rightarrow> 'a
    \<Rightarrow> int \<times> 'a \<times> 'a QHeap" where
  "heap_pop_non_blocking gt le q x =
     (if QHeap_empty q then (- 1, x, q)
      else let n = h_size q - 1; h = aset (h_heap q) 0 (aget (h_heap q) n)
           in (0, aget (h_heap q) 0, q\<lparr>h_heap := siftDown gt le h 0 (n - 1), h_size := n\<rparr>))"

definition QMinHeap_push_non_blocking :: "'a::linorder QHeap \<Rightarrow> 'a \<Rightarrow> int \<times> 'a QHeap" where
  "QMinHeap_push_non_blocking = heap_push_non_blocking (\<le>)"

definition QMinHeap_pop_non_blocking :: "'a::linorder QHeap \<Rightarrow> 'a \<Rightarrow> int \<times> 'a \<times> 'a QHeap" where
  "QMinHeap_pop_non_blocking = heap_pop_non_blocking (>) (\<le>)"

definition QMaxHeap_push_non_blocking :: "'a::linorder QHeap \<Rightarrow> 'a \<Rightarrow> int \<times> 'a QHeap" where
  "QMaxHeap_push_non_blocking = heap_push_non_blocking (\<ge>)"

definition QMaxHeap_pop_non_blocking :: "'a::linorder QHeap \<Rightarrow> 'a \<Rightarrow> int \<times> 'a \<times> 'a QHeap" where
  "QMaxHeap_pop_non_blocking = heap_pop_non_blocking (<) (\<ge>)"

section \<open>Correctness of the sifts\<close>

definition QHeap_inv :: "('a \<Rightarrow> 'a \<Rightarrow> bool) \<Rightarrow> 'a QHeap \<Rightarrow> bool" where
  "QHeap_inv le q \<longleftrightarrow> alen (h_heap q) = h_max_size q \<and> 0 \<le> h_size q \<and> h_size q \<le> h_max_size q
     \<and> heap_from le 0 (h_size q - 1) (h_heap q)"

definition QHeap_items :: "'a QHeap \<Rightarrow> 'a multiset" where
  "QHeap_items q = mset (live (h_size q) (h_heap q))"

definition QHeap_capacity :: "'a QHeap \<Rightarrow> nat" where
  "QHeap_capacity q = nat (h_max_size q)"

lemma size_QHeap_items: "QHeap_inv le q \<Longrightarrow> size (QHeap_items q) = nat (h_size q)"
  by (simp add: QHeap_items_def QHeap_inv_def length_live)

text \<open>Moving the last live item into the first cell drops the first item.\<close>

lemma mset_live_replace:
  assumes "0 \<le> n" "n < alen v"
  shows "mset (live (n + 1) v) = add_mset (aget v 0) (mset (live n (aset v 0 (aget v n))))"
proof (cases "n = 0")
  case True
  with assms show ?thesis using live_snoc [of 0 v] by (simp add: live_def)
next
  case False
  then obtain k where k: "n = int (Suc k)" using assms(1) by (metis nonneg_int_cases not0_implies_Suc of_nat_0)
  obtain a w where v: "v = a # w" using assms k by (cases v) (auto simp: alen_def)
  have nat_k: "nat (1 + int k) = Suc k" by simp
  have "live (n + 1) v = live n v @ [aget v n]" using assms by (rule live_snoc)
  moreover have "live n v = a # take k w" "live n (aset v 0 (aget v n)) = aget v n # take k w" "aget v 0 = a"
    using nat_k by (simp_all add: live_def k v aset_def aget_def)
  ultimately show ?thesis by simp
qed

locale heap_order = total_preorder le
  for le :: "'a \<Rightarrow> 'a \<Rightarrow> bool" +
  fixes gt :: "'a \<Rightarrow> 'a \<Rightarrow> bool"
  assumes gt_iff: "gt a b \<longleftrightarrow> \<not> le a b"
begin

lemma siftUp_loop_spec:
  "0 \<le> j \<Longrightarrow> j \<le> m \<Longrightarrow> m < alen h \<Longrightarrow> up_hole le m j (aset h j temp) \<Longrightarrow>
   perm_on 0 m (aset h j temp) (siftUp_loop le temp h j) \<and> heap_from le 0 m (siftUp_loop le temp h j)"
proof (induction "nat j" arbitrary: j h rule: less_induct)
  case less
  let ?w = "aset h j temp" and ?i = "(j - 1) div 2"
  have j: "in_range h j" and wj: "aget ?w j = temp" using less.prems by (auto simp: aget_aset in_range_def)
  show ?case
  proof (cases "0 < j \<and> \<not> le (aget h ?i) temp")
    case True
    have e: "edge ?i j" "0 \<le> ?i" "?i < j" using True edge_parent [of j] by auto
    then have i: "in_range h ?i" using less.prems by (auto simp: in_range_def)
    have wi: "aget ?w ?i = aget h ?i" using i j e by (auto simp: aget_aset)
    let ?h = "aset h j (aget h ?i)"
    have sw: "aset ?h ?i temp = aswap ?w ?i j" using i j e by (intro hole_exchange) auto
    have eq: "siftUp_loop le temp h j = siftUp_loop le temp ?h ?i"
      using True by (subst siftUp_loop.simps) (simp add: Let_def)
    have "up_hole le m ?i (aswap ?w ?i j)"
      using less.prems e True not_le [of "aget h ?i" temp] by (intro up_swap) (auto simp: wi wj)
    then have ih: "perm_on 0 m (aset ?h ?i temp) (siftUp_loop le temp ?h ?i)
        \<and> heap_from le 0 m (siftUp_loop le temp ?h ?i)"
      using less.hyps [of ?i ?h] e less.prems unfolding sw by auto
    have "perm_on 0 m ?w (aset ?h ?i temp)"
      unfolding sw using i j e less.prems by (intro perm_on_aswap) auto
    with ih show ?thesis unfolding eq by (auto intro: perm_on_trans)
  next
    case False
    then have eq: "siftUp_loop le temp h j = ?w" by (subst siftUp_loop.simps) auto
    have "le (aget ?w p) (aget ?w j)" if p: "0 \<le> p" "edge p j" for p
    proof -
      have "p < j" using p edge_less by auto
      moreover from this p have "p = ?i" using edge_unique [OF p(2) edge_parent [of j]] by simp
      ultimately show ?thesis using False p less.prems j wj by (auto simp: aget_aset in_range_def)
    qed
    then show ?thesis unfolding eq using up_done [OF less.prems(4)] by simp
  qed
qed

lemma siftDown_loop_spec:
  "0 \<le> s \<Longrightarrow> s \<le> i \<Longrightarrow> m < alen h \<Longrightarrow> in_range h i \<Longrightarrow> down_hole le s m i (aset h i temp) \<Longrightarrow>
   (i \<le> m \<longrightarrow> perm_on s m (aset h i temp) (siftDown_loop gt le temp h i m)) \<and>
   (m < i \<longrightarrow> siftDown_loop gt le temp h i m = aset h i temp) \<and>
   heap_from le s m (siftDown_loop gt le temp h i m)"
proof (induction "nat (m - i)" arbitrary: i h rule: less_induct)
  case less
  let ?w = "aset h i temp" and ?j = "2 * i + 1"
  let ?c = "if ?j < m \<and> gt (aget h ?j) (aget h (?j + 1)) then ?j + 1 else ?j"
  have wi: "aget ?w i = temp" using less.prems by (auto simp: aget_aset)
  have w: "aget ?w k = aget h k" if "0 \<le> k" "k \<le> m" "k \<noteq> i" for k
    using that less.prems by (auto simp: aget_aset in_range_def)
  have least: "le (aget ?w ?c) (aget ?w k)" if "?j \<le> m" "edge i k" "k \<le> m" for k
    using that less.prems by (auto simp: edge_def w refl gt_iff add.commute dest: not_le)
  show ?case
  proof (cases "?j \<le> m \<and> \<not> le temp (aget h ?c)")
    case True
    let ?h = "aset h i (aget h ?c)"
    have e: "edge i ?c" "i < ?c" "?c \<le> m" using True less.prems by (auto simp: edge_def)
    then have c: "in_range h ?c" using less.prems by (auto simp: in_range_def)
    have wc: "aget ?w ?c = aget h ?c" using e less.prems by (intro w) auto
    have sw: "aset ?h ?c temp = aswap ?w ?c i" using e c less.prems by (intro hole_exchange) auto
    also have "\<dots> = aswap ?w i ?c" using e less.prems c by (intro aswap_commute) auto
    finally have sw: "aset ?h ?c temp = aswap ?w i ?c" .
    have eq: "siftDown_loop gt le temp h i m = siftDown_loop gt le temp ?h ?c m"
      using True less.prems by (subst siftDown_loop.simps) (simp add: Let_def)
    have "down_hole le s m ?c (aswap ?w i ?c)"
      using True e less.prems least wc by (intro down_swap) (auto simp: wi intro: not_le)
    then have ih: "perm_on s m (aset ?h ?c temp) (siftDown_loop gt le temp ?h ?c m)
        \<and> heap_from le s m (siftDown_loop gt le temp ?h ?c m)"
      using less.hyps [of ?c ?h] e less.prems c unfolding sw by auto
    have "perm_on s m ?w (aset ?h ?c temp)"
      unfolding sw using e c less.prems by (intro perm_on_aswap) auto
    with ih e show ?thesis unfolding eq by (auto intro: perm_on_trans)
  next
    case False
    then have eq: "siftDown_loop gt le temp h i m = ?w"
      using less.prems by (subst siftDown_loop.simps) (auto simp: Let_def)
    have "le (aget ?w i) (aget ?w k)" if k: "edge i k" "k \<le> m" for k
    proof -
      have j: "?j \<le> m" using k by (auto simp: edge_def)
      have "aget ?w ?c = aget h ?c" using j less.prems by (intro w) auto
      then show ?thesis using False j least [OF j k] trans by (auto simp: wi)
    qed
    then show ?thesis unfolding eq using down_done [OF less.prems(5)] by simp
  qed
qed

lemma siftUp_spec:
  assumes "0 \<le> j" "j < alen h" "heap_from le 0 (j - 1) h"
  shows "perm_on 0 j h (siftUp le h j) \<and> heap_from le 0 j (siftUp le h j)"
  using siftUp_loop_spec [of j j h "aget h j"] assms up_hole_start [of le j h] by (simp add: siftUp_def)

lemma siftDown_spec:
  assumes "0 \<le> s" "s \<le> m" "m < alen h" "heap_from le (s + 1) m h"
  shows "perm_on s m h (siftDown gt le h s m) \<and> heap_from le s m (siftDown gt le h s m)"
  using siftDown_loop_spec [of s s m h "aget h s"] assms down_hole_start [of le s m h]
  by (auto simp: siftDown_def in_range_def)

lemma heap_push_ok:
  assumes inv: "QHeap_inv le q" and p: "heap_push le q x = Some q'"
  shows "QHeap_inv le q'" and "h_max_size q' = h_max_size q"
    and "QHeap_items q' = add_mset x (QHeap_items q)"
proof -
  let ?n = "h_size q" and ?h = "aset (h_heap q) (h_size q) x"
  have n: "0 \<le> ?n" "?n < alen (h_heap q)"
    using inv p by (auto simp: QHeap_inv_def heap_push_def QHeap_full_def split: if_splits)
  have q': "q' = q\<lparr>h_heap := siftUp le ?h ?n, h_size := ?n + 1\<rparr>"
    using p by (auto simp: heap_push_def split: if_splits)
  have rd: "aget ?h i = (if i = ?n then x else aget (h_heap q) i)" if "0 \<le> i" "i \<le> ?n" for i
    using that n by (subst aget_aset) (auto simp: in_range_def)
  have "heap_from le 0 (?n - 1) ?h"
    by (rule heap_from_cong [of le 0 "?n - 1" "h_heap q"]) (use inv in \<open>auto simp: QHeap_inv_def rd\<close>)
  with n have s: "perm_on 0 ?n ?h (siftUp le ?h ?n)" "heap_from le 0 ?n (siftUp le ?h ?n)"
    using siftUp_spec [of ?n ?h] by auto
  show "h_max_size q' = h_max_size q" by (simp add: q')
  show "QHeap_inv le q'" using inv s n perm_on_alen [OF s(1)] by (auto simp: q' QHeap_inv_def)
  have "mset (live (?n + 1) (siftUp le ?h ?n)) = mset (live (?n + 1) ?h)"
    using s(1) n by (intro perm_on_live) auto
  also have "live (?n + 1) ?h = live ?n (h_heap q) @ [x]"
    using n rd [of ?n] by (subst live_snoc) (auto simp: live_aset_end)
  finally show "QHeap_items q' = add_mset x (QHeap_items q)" by (simp add: q' QHeap_items_def)
qed

lemma heap_pop_ok:
  assumes inv: "QHeap_inv le q" and p: "heap_pop gt le q = Some (x, q')"
  shows "QHeap_inv le q'" and "h_max_size q' = h_max_size q"
    and "QHeap_items q = add_mset x (QHeap_items q')" and "\<forall>y\<in>#QHeap_items q. le x y"
proof -
  let ?v = "h_heap q" and ?n = "h_size q - 1"
  let ?h = "aset ?v 0 (aget ?v ?n)"
  have n: "0 \<le> ?n" "?n < alen ?v" and hp: "heap_from le 0 ?n ?v"
    using inv p by (auto simp: QHeap_inv_def heap_pop_def QHeap_empty_def split: if_splits)
  have q': "x = aget ?v 0" "q' = q\<lparr>h_heap := siftDown gt le ?h 0 (?n - 1), h_size := ?n\<rparr>"
    using p by (auto simp: heap_pop_def Let_def split: if_splits)
  have rd: "aget ?h i = (if i = 0 then aget ?v ?n else aget ?v i)" if "0 \<le> i" "i \<le> ?n" for i
    using that n by (subst aget_aset) (auto simp: in_range_def)
  have s: "perm_on 0 (?n - 1) ?h (siftDown gt le ?h 0 (?n - 1)) \<and> heap_from le 0 (?n - 1) (siftDown gt le ?h 0 (?n - 1))"
  proof (cases "?n = 0")
    case True
    then have "siftDown gt le ?h 0 (?n - 1) = ?h" by (simp add: siftDown_def siftDown_loop.simps)
    with True show ?thesis by (simp add: heap_from_vacuous)
  next
    case False
    have "heap_from le (0 + 1) (?n - 1) ?v" using hp by (auto simp: heap_from_def)
    then have "heap_from le (0 + 1) (?n - 1) ?h"
      by (rule heap_from_cong) (use n in \<open>auto simp: rd\<close>)
    with False n show ?thesis by (intro siftDown_spec) auto
  qed
  show "h_max_size q' = h_max_size q" by (simp add: q')
  show "QHeap_inv le q'" using inv s n perm_on_alen [OF conjunct1 [OF s]] by (auto simp: q' QHeap_inv_def)
  show "\<forall>y\<in>#QHeap_items q. le x y"
    using root_le [OF hp] inv by (auto simp: QHeap_items_def QHeap_inv_def in_live q')
  have "mset (live ?n (siftDown gt le ?h 0 (?n - 1))) = mset (live ?n ?h)"
    using s n by (intro perm_on_live) auto
  moreover have "mset (live (?n + 1) ?v) = add_mset (aget ?v 0) (mset (live ?n ?h))"
    using n by (intro mset_live_replace) auto
  ultimately show "QHeap_items q = add_mset x (QHeap_items q')" by (simp add: q' QHeap_items_def)
qed

lemma heap_contract:
  "bounded_pqueue le (QHeap_inv le) QHeap_items QHeap_capacity (heap_push le) (heap_pop gt le)"
proof
  fix q q' :: "'a QHeap" and x :: 'a
  assume inv: "QHeap_inv le q"
  then have n: "0 \<le> h_size q" "h_size q \<le> h_max_size q" by (auto simp: QHeap_inv_def)
  note sz = size_QHeap_items [OF inv]
  show "size (QHeap_items q) \<le> QHeap_capacity q" using n by (simp add: sz QHeap_capacity_def)
  show "heap_push le q x = None \<longleftrightarrow> size (QHeap_items q) = QHeap_capacity q"
    using n by (auto simp: sz QHeap_capacity_def heap_push_def QHeap_full_def)
  show "heap_pop gt le q = None \<longleftrightarrow> QHeap_items q = {#}"
    using n sz by (auto simp: heap_pop_def Let_def QHeap_empty_def simp flip: size_eq_0_iff_empty)
  show "QHeap_inv le q' \<and> QHeap_capacity q' = QHeap_capacity q \<and> QHeap_items q' = add_mset x (QHeap_items q)"
    if "heap_push le q x = Some q'"
    using heap_push_ok [OF inv that] by (simp add: QHeap_capacity_def)
  show "QHeap_inv le q' \<and> QHeap_capacity q' = QHeap_capacity q
      \<and> QHeap_items q = add_mset x (QHeap_items q') \<and> (\<forall>y\<in>#QHeap_items q. le x y)"
    if "heap_pop gt le q = Some (x, q')"
    using heap_pop_ok [OF inv that] by (simp add: QHeap_capacity_def)
qed

lemma heap_new_inv:
  assumes "0 \<le> n" "length c = nat n"
  shows "QHeap_inv le (QHeap_new n c)" "QHeap_items (QHeap_new n c) = {#}" "QHeap_capacity (QHeap_new n c) = nat n"
  using assms
  by (simp_all add: QHeap_inv_def QHeap_new_def QHeap_items_def live_def QHeap_capacity_def alen_def heap_from_vacuous)

end

interpretation min_order: heap_order "(\<le>) :: 'a::linorder \<Rightarrow> 'a \<Rightarrow> bool" "(>)"
  by unfold_locales auto

interpretation max_order: heap_order "(\<ge>) :: 'a::linorder \<Rightarrow> 'a \<Rightarrow> bool" "(<)"
  by unfold_locales auto

interpretation min_heap: bounded_pqueue "(\<le>) :: 'a::linorder \<Rightarrow> 'a \<Rightarrow> bool" "QHeap_inv (\<le>)"
  QHeap_items QHeap_capacity QMinHeap_push QMinHeap_pop
  unfolding QMinHeap_push_def QMinHeap_pop_def by (rule min_order.heap_contract)

interpretation max_heap: bounded_pqueue "(\<ge>) :: 'a::linorder \<Rightarrow> 'a \<Rightarrow> bool" "QHeap_inv (\<ge>)"
  QHeap_items QHeap_capacity QMaxHeap_push QMaxHeap_pop
  unfolding QMaxHeap_push_def QMaxHeap_pop_def by (rule max_order.heap_contract)

section \<open>Properties\<close>

text \<open>
  Pushing any items that fit into a new \<open>QMinHeap\<close> and popping as many returns exactly these
  items in ascending order, without blocking, and empties the heap.
\<close>

lemma QMinHeap_sorts:
  assumes "length c = nat n" "int (length xs) \<le> n"
  shows "\<exists>q1 q2. push_all QMinHeap_push xs (QHeap_new n c) = Some q1
    \<and> pop_n QMinHeap_pop (length xs) q1 = Some (sort xs, q2) \<and> QHeap_items q2 = {#}"
proof -
  have n: "0 \<le> n" using assms(2) by linarith
  note h = min_order.heap_new_inv [OF n assms(1)]
  obtain q1 ys q2 where "push_all QMinHeap_push xs (QHeap_new n c) = Some q1"
    "pop_n QMinHeap_pop (length xs) q1 = Some (ys, q2)" "mset ys = mset xs" "sorted ys" "QHeap_items q2 = {#}"
    using min_heap.push_pop_sorts [OF h(1,2), of xs] h(3) assms(2) by (auto simp: le_nat_iff)
  then show ?thesis using properties_for_sort by blast
qed

text \<open>
  Under every history of pushes and pops a \<open>QMaxHeap\<close> stays well formed; a pop returns a
  largest item and removes one copy of it, a push adds one item, and each of them waits exactly
  when the heap is empty or holds \<open>max_size\<close> items.
\<close>

lemma QMaxHeap_step:
  assumes "QHeap_inv (\<ge>) q"
  shows "(QMaxHeap_push q x = None \<longleftrightarrow> h_size q = h_max_size q) \<and> (QMaxHeap_pop q = None \<longleftrightarrow> h_size q = 0)
    \<and> (\<forall>q'. QMaxHeap_push q x = Some q' \<longrightarrow> QHeap_inv (\<ge>) q' \<and> QHeap_items q' = add_mset x (QHeap_items q))
    \<and> (\<forall>y q'. QMaxHeap_pop q = Some (y, q') \<longrightarrow> QHeap_inv (\<ge>) q'
         \<and> QHeap_items q = add_mset y (QHeap_items q') \<and> y = Max_mset (QHeap_items q))"
proof -
  have n: "0 \<le> h_size q" "h_size q \<le> h_max_size q" using assms by (auto simp: QHeap_inv_def)
  have "QHeap_items q = {#} \<longleftrightarrow> h_size q = 0"
    using size_QHeap_items [OF assms] n by (auto simp flip: size_eq_0_iff_empty)
  moreover have "y = Max_mset (QHeap_items q)" if "QMaxHeap_pop q = Some (y, q')" for y q'
    using max_heap.pop_Some [OF assms that] by (intro Max_eqI [symmetric]) auto
  moreover have "QMaxHeap_push q x = None \<longleftrightarrow> h_size q = h_max_size q"
    using max_heap.push_None [OF assms, of x] size_QHeap_items [OF assms] n by (simp add: QHeap_capacity_def eq_nat_nat_iff)
  ultimately show ?thesis
    using max_heap.pop_None [OF assms] max_heap.push_Some [OF assms] max_heap.pop_Some [OF assms] by metis
qed

end
