(* ===== verification/Searching.thy ===== *)
theory Searching
  imports Prelude
begin

text \<open>
  The searches of \<^verbatim>\<open>src/common/qalgorithm.h\<close> over the cells \<open>lBegin, ..., lEnd\<close> of an array: a
  sequential and a binary search, each with the built-in comparisons and with a comparison
  function, and a recursive binary search.  All return the index of a matching cell, or \<open>-1\<close>.
  The locale \<open>three_way\<close> is what the searches need of a comparison function.
\<close>

section \<open>The searches\<close>

definition Compare_Key_Default :: "'k::linorder \<Rightarrow> 'k \<Rightarrow> int" where
  "Compare_Key_Default tKey1 tKey2 = (if tKey1 > tKey2 then 1 else if tKey1 < tKey2 then - 1 else 0)"

function Q_Sequential_Search_Default :: "int \<Rightarrow> int \<Rightarrow> 'k list \<Rightarrow> 'k \<Rightarrow> int" where
  "Q_Sequential_Search_Default lPos lEnd tpLibrary tKey =
     (if lPos \<le> lEnd then
        if aget tpLibrary lPos = tKey then lPos
        else Q_Sequential_Search_Default (lPos + 1) lEnd tpLibrary tKey
      else - 1)"
  by pat_completeness auto
termination
  by (relation "measure (\<lambda>(lPos, lEnd, _, _). nat (lEnd + 1 - lPos))") auto

function Q_Sequential_Search_Custom :: "int \<Rightarrow> int \<Rightarrow> 'k list \<Rightarrow> 'k \<Rightarrow> ('k \<Rightarrow> 'k \<Rightarrow> int) \<Rightarrow> int" where
  "Q_Sequential_Search_Custom lPos lEnd tpLibrary tKey Compare_Key =
     (if lPos \<le> lEnd then
        if Compare_Key (aget tpLibrary lPos) tKey = 0 then lPos
        else Q_Sequential_Search_Custom (lPos + 1) lEnd tpLibrary tKey Compare_Key
      else - 1)"
  by pat_completeness auto
termination
  by (relation "measure (\<lambda>(lPos, lEnd, _, _, _). nat (lEnd + 1 - lPos))") auto

function Q_Binary_Search_Default :: "int \<Rightarrow> int \<Rightarrow> 'k::linorder list \<Rightarrow> 'k \<Rightarrow> int" where
  "Q_Binary_Search_Default lBegin lEnd tpLibrary tKey =
     (if lBegin \<le> lEnd then
        let lMidVal = (lBegin + lEnd) div 2; tMidVal = aget tpLibrary lMidVal
        in if tMidVal < tKey then Q_Binary_Search_Default (lMidVal + 1) lEnd tpLibrary tKey
           else if tMidVal > tKey then Q_Binary_Search_Default lBegin (lMidVal - 1) tpLibrary tKey
           else lMidVal
      else - 1)"
  by pat_completeness auto
termination
  by (relation "measure (\<lambda>(lBegin, lEnd, _, _). nat (lEnd + 1 - lBegin))") auto

text \<open>
  The recursive version assigns the recursive result to \<open>lMidVal\<close>, starts it with \<open>0\<close> and
  tests \<open>lBegin \<le> lEnd\<close> a second time.
\<close>

function Q_Binary_Search_Recursion :: "int \<Rightarrow> int \<Rightarrow> 'k::linorder list \<Rightarrow> 'k \<Rightarrow> int" where
  "Q_Binary_Search_Recursion lBegin lEnd tpLibrary tKey =
     (if lBegin > lEnd then - 1
      else if lBegin \<le> lEnd then
        let lMidVal = (lBegin + lEnd) div 2; tMidVal = aget tpLibrary lMidVal
        in if tMidVal < tKey then Q_Binary_Search_Recursion (lMidVal + 1) lEnd tpLibrary tKey
           else if tMidVal > tKey then Q_Binary_Search_Recursion lBegin (lMidVal - 1) tpLibrary tKey
           else lMidVal
      else 0)"
  by pat_completeness auto
termination
  by (relation "measure (\<lambda>(lBegin, lEnd, _, _). nat (lEnd + 1 - lBegin))") auto

function Q_Binary_Search_Custom :: "int \<Rightarrow> int \<Rightarrow> 'k list \<Rightarrow> 'k \<Rightarrow> ('k \<Rightarrow> 'k \<Rightarrow> int) \<Rightarrow> int" where
  "Q_Binary_Search_Custom lBegin lEnd tpLibrary tKey Compare_Key =
     (if lBegin \<le> lEnd then
        let lMidVal = (lBegin + lEnd) div 2; tMidVal = aget tpLibrary lMidVal
        in if Compare_Key tMidVal tKey < 0 then Q_Binary_Search_Custom (lMidVal + 1) lEnd tpLibrary tKey Compare_Key
           else if Compare_Key tMidVal tKey > 0 then Q_Binary_Search_Custom lBegin (lMidVal - 1) tpLibrary tKey Compare_Key
           else lMidVal
      else - 1)"
  by pat_completeness auto
termination
  by (relation "measure (\<lambda>(lBegin, lEnd, _, _, _). nat (lEnd + 1 - lBegin))") auto

declare Q_Sequential_Search_Default.simps [simp del] Q_Sequential_Search_Custom.simps [simp del]
  Q_Binary_Search_Default.simps [simp del] Q_Binary_Search_Recursion.simps [simp del]
  Q_Binary_Search_Custom.simps [simp del]

section \<open>What a search promises\<close>

text \<open>A search result: some index of the range at which \<open>P\<close> holds, or \<open>-1\<close> when there is none.\<close>

definition hit :: "(int \<Rightarrow> bool) \<Rightarrow> int \<Rightarrow> int \<Rightarrow> int \<Rightarrow> bool" where
  "hit P lo hi r \<longleftrightarrow> (if r = - 1 then \<forall>i. lo \<le> i \<longrightarrow> i \<le> hi \<longrightarrow> \<not> P i else lo \<le> r \<and> r \<le> hi \<and> P r)"

definition first_hit :: "(int \<Rightarrow> bool) \<Rightarrow> int \<Rightarrow> int \<Rightarrow> int \<Rightarrow> bool" where
  "first_hit P lo hi r \<longleftrightarrow> hit P lo hi r \<and> (\<forall>i. lo \<le> i \<longrightarrow> i < r \<longrightarrow> \<not> P i)"

lemma hit_none: "hi < lo \<Longrightarrow> hit P lo hi (- 1)"
  by (simp add: hit_def)

lemma hit_found: "0 \<le> lo \<Longrightarrow> lo \<le> r \<Longrightarrow> r \<le> hi \<Longrightarrow> P r \<Longrightarrow> hit P lo hi r"
  by (simp add: hit_def)

lemma hit_right: "hit P (m + 1) hi r \<Longrightarrow> (\<And>i. lo \<le> i \<Longrightarrow> i \<le> m \<Longrightarrow> \<not> P i) \<Longrightarrow> lo \<le> m + 1 \<Longrightarrow> hit P lo hi r"
  unfolding hit_def by (smt (verit))

lemma hit_left: "hit P lo (m - 1) r \<Longrightarrow> (\<And>i. m \<le> i \<Longrightarrow> i \<le> hi \<Longrightarrow> \<not> P i) \<Longrightarrow> m - 1 \<le> hi \<Longrightarrow> hit P lo hi r"
  unfolding hit_def by (smt (verit))

lemma first_hit_skip: "first_hit P (lo + 1) hi r \<Longrightarrow> \<not> P lo \<Longrightarrow> first_hit P lo hi r"
  unfolding first_hit_def hit_def by (smt (verit))

text \<open>
  A three-way comparison orders the keys by some rank; the array is sorted when the ranks are.
\<close>

locale three_way =
  fixes cmp :: "'k \<Rightarrow> 'k \<Rightarrow> int" and rank :: "'k \<Rightarrow> 'r::linorder"
  assumes cmp_neg: "cmp a b < 0 \<longleftrightarrow> rank a < rank b"
    and cmp_pos: "0 < cmp a b \<longleftrightarrow> rank b < rank a"
begin

lemma cmp_zero: "cmp a b = 0 \<longleftrightarrow> rank a = rank b"
  using cmp_neg [of a b] cmp_pos [of a b] by (metis less_irrefl linorder_neqE)

lemma sequential_custom:
  "0 \<le> lPos \<Longrightarrow> first_hit (\<lambda>i. rank (aget v i) = rank key) lPos lEnd (Q_Sequential_Search_Custom lPos lEnd v key cmp)"
proof (induction "nat (lEnd + 1 - lPos)" arbitrary: lPos rule: less_induct)
  case less
  note eq = Q_Sequential_Search_Custom.simps [of lPos lEnd v key cmp]
  show ?case
  proof (cases "lPos \<le> lEnd \<and> cmp (aget v lPos) key \<noteq> 0")
    case True
    then have "Q_Sequential_Search_Custom lPos lEnd v key cmp = Q_Sequential_Search_Custom (lPos + 1) lEnd v key cmp"
      by (subst eq) simp
    moreover have "first_hit (\<lambda>i. rank (aget v i) = rank key) (lPos + 1) lEnd
        (Q_Sequential_Search_Custom (lPos + 1) lEnd v key cmp)"
      using True less by simp
    ultimately show ?thesis using True by (simp add: cmp_zero first_hit_skip)
  next
    case False
    then have "Q_Sequential_Search_Custom lPos lEnd v key cmp = (if lPos \<le> lEnd then lPos else - 1)"
      by (subst eq) simp
    with False less.prems show ?thesis by (auto simp: cmp_zero first_hit_def intro: hit_none hit_found)
  qed
qed

lemma binary_custom:
  "0 \<le> lBegin \<Longrightarrow> sorted_on rank lBegin lEnd v \<Longrightarrow>
   hit (\<lambda>i. rank (aget v i) = rank key) lBegin lEnd (Q_Binary_Search_Custom lBegin lEnd v key cmp)"
proof (induction "nat (lEnd + 1 - lBegin)" arbitrary: lBegin lEnd rule: less_induct)
  case less
  let ?m = "(lBegin + lEnd) div 2"
  note eq = Q_Binary_Search_Custom.simps [of lBegin lEnd v key cmp]
  have sub: "sorted_on rank a b v" if "lBegin \<le> a" "b \<le> lEnd" for a b
    using that less.prems(2) by (auto simp: sorted_on_def)
  consider "lEnd < lBegin" | "lBegin \<le> lEnd" "cmp (aget v ?m) key < 0"
    | "lBegin \<le> lEnd" "0 < cmp (aget v ?m) key" | "lBegin \<le> lEnd" "cmp (aget v ?m) key = 0"
    by linarith
  then show ?case
  proof cases
    case 1
    then have "Q_Binary_Search_Custom lBegin lEnd v key cmp = - 1" by (subst eq) simp
    with 1 show ?thesis by (simp add: hit_none)
  next
    case 2
    have "rank (aget v i) \<noteq> rank key" if i: "lBegin \<le> i" "i \<le> ?m" for i
      using 2 sorted_onD [OF less.prems(2) i] by (force simp: cmp_neg)
    then have "hit (\<lambda>i. rank (aget v i) = rank key) lBegin lEnd (Q_Binary_Search_Custom (?m + 1) lEnd v key cmp)"
      using 2 less.prems by (intro hit_right [OF less.hyps] sub) auto
    with 2 show ?thesis by (subst eq) (simp add: Let_def)
  next
    case 3
    have "rank (aget v i) \<noteq> rank key" if i: "?m \<le> i" "i \<le> lEnd" for i
      using 3 sorted_onD [OF less.prems(2) _ i] by (force simp: cmp_pos)
    then have "hit (\<lambda>i. rank (aget v i) = rank key) lBegin lEnd (Q_Binary_Search_Custom lBegin (?m - 1) v key cmp)"
      using 3 less.prems by (intro hit_left [OF less.hyps] sub) auto
    with 3 show ?thesis by (subst eq) (simp add: Let_def)
  next
    case 4
    then have "Q_Binary_Search_Custom lBegin lEnd v key cmp = ?m" by (subst eq) (simp add: Let_def)
    with 4 less.prems show ?thesis by (auto simp: cmp_zero intro!: hit_found)
  qed
qed

end

interpretation default: three_way Compare_Key_Default "id :: 'k::linorder \<Rightarrow> 'k"
  by unfold_locales (auto simp: Compare_Key_Default_def)

section \<open>The variants agree\<close>

lemma Q_Sequential_Search_Default_custom:
  "Q_Sequential_Search_Default lPos lEnd v key = Q_Sequential_Search_Custom lPos lEnd v key Compare_Key_Default"
  by (induction lPos lEnd v key rule: Q_Sequential_Search_Default.induct)
    (subst Q_Sequential_Search_Default.simps, subst Q_Sequential_Search_Custom.simps, simp add: default.cmp_zero)

lemma Q_Binary_Search_Default_custom:
  "Q_Binary_Search_Default lBegin lEnd v key = Q_Binary_Search_Custom lBegin lEnd v key Compare_Key_Default"
  by (induction lBegin lEnd v key rule: Q_Binary_Search_Default.induct)
    (subst Q_Binary_Search_Default.simps, subst Q_Binary_Search_Custom.simps,
      simp add: Let_def default.cmp_neg default.cmp_pos)

lemma Q_Binary_Search_Recursion_default:
  "Q_Binary_Search_Recursion lBegin lEnd v key = Q_Binary_Search_Default lBegin lEnd v key"
  by (induction lBegin lEnd v key rule: Q_Binary_Search_Default.induct)
    (subst Q_Binary_Search_Recursion.simps, subst Q_Binary_Search_Default.simps, simp add: Let_def)

section \<open>Properties\<close>

text \<open>
  On a range in ascending order the binary search returns an index of the range whose cell is
  the key, and \<open>-1\<close> exactly when no cell of the range is; the three versions (loop, recursion,
  comparison function) return the same index on every array, sorted or not.
\<close>

lemma Q_Binary_Search_correct:
  "(0 \<le> lBegin \<and> sorted_on id lBegin lEnd v \<longrightarrow>
     (let r = Q_Binary_Search_Default lBegin lEnd v key in
        if r = - 1 then \<forall>i. lBegin \<le> i \<longrightarrow> i \<le> lEnd \<longrightarrow> aget v i \<noteq> key
        else lBegin \<le> r \<and> r \<le> lEnd \<and> aget v r = key))
   \<and> Q_Binary_Search_Recursion lBegin lEnd v key = Q_Binary_Search_Default lBegin lEnd v key
   \<and> Q_Binary_Search_Custom lBegin lEnd v key Compare_Key_Default = Q_Binary_Search_Default lBegin lEnd v key"
  using default.binary_custom [of lBegin lEnd v key]
  by (simp add: Q_Binary_Search_Recursion_default Q_Binary_Search_Default_custom hit_def Let_def)

text \<open>
  The sequential search returns the first index of the range whose cell is the key, and \<open>-1\<close>
  exactly when there is none; the version with a comparison function does the same.
\<close>

lemma Q_Sequential_Search_correct:
  assumes "0 \<le> lBegin"
  shows "let r = Q_Sequential_Search_Default lBegin lEnd v key in
     (if r = - 1 then \<forall>i. lBegin \<le> i \<longrightarrow> i \<le> lEnd \<longrightarrow> aget v i \<noteq> key
      else lBegin \<le> r \<and> r \<le> lEnd \<and> aget v r = key \<and> (\<forall>i. lBegin \<le> i \<longrightarrow> i < r \<longrightarrow> aget v i \<noteq> key))
     \<and> Q_Sequential_Search_Custom lBegin lEnd v key Compare_Key_Default = r"
  using default.sequential_custom [OF assms, of v key lEnd]
  by (simp add: Q_Sequential_Search_Default_custom first_hit_def hit_def Let_def)

end
