(* ===== verification/BasicSorts.thy ===== *)
theory BasicSorts
  imports MultiKeyVariants
begin

text \<open>
  The plain sorts of \<^verbatim>\<open>src/common/qalgorithm.h\<close> over the cells \<open>lBegin, ..., lEnd\<close> of one array:
  bubble, binary insertion, selection and Shell sort.  The locale \<open>range_sort\<close> is their common
  contract.  It determines the result, \<open>sort_range\<close>, so routines that implement it are
  interchangeable.
\<close>

section \<open>The contract of a sort of a range\<close>

definition sort_range :: "'k::linorder list \<Rightarrow> int \<Rightarrow> int \<Rightarrow> 'k list" where
  "sort_range v lo hi =
     (if lo \<le> hi then take (nat lo) v @ sort (slice lo hi v) @ drop (nat (hi + 1)) v else v)"

lemma sorted_slice:
  assumes "0 \<le> lo" "hi < alen v" "sorted_on id lo hi v"
  shows "sorted (slice lo hi v)"
proof (rule sorted_iff_nth_mono [THEN iffD2], intro allI impI)
  fix i j assume ij: "i \<le> j" "j < length (slice lo hi v)"
  then have "lo + int j \<le> hi" by (auto simp: slice_def)
  moreover have "slice lo hi v ! k = aget v (lo + int k)" if "k < length (slice lo hi v)" for k
    using that assms(1,2) by (auto simp: slice_def aget_def nat_add_distrib)
  ultimately show "slice lo hi v ! i \<le> slice lo hi v ! j"
    using ij sorted_onD [OF assms(3), of "lo + int i" "lo + int j"] by auto
qed

lemma perm_on_take_drop:
  assumes "perm_on lo hi v w" "0 \<le> lo" "lo \<le> hi + 1"
  shows "take (nat lo) w = take (nat lo) v" "drop (nat (hi + 1)) w = drop (nat (hi + 1)) v"
proof -
  have len: "length w = length v" using assms(1) by (rule perm_on_length)
  have out: "w ! k = v ! k" if "k < length v" "int k < lo \<or> hi < int k" for k
    using perm_on_outside [OF assms(1), of "int k"] that by (simp add: in_range_def alen_def aget_def)
  show "take (nat lo) w = take (nat lo) v"
    by (rule nth_equalityI) (use len in \<open>auto simp: out zless_nat_eq_int_zless\<close>)
  show "drop (nat (hi + 1)) w = drop (nat (hi + 1)) v"
    by (rule nth_equalityI) (use len assms(2,3) in \<open>auto simp: out\<close>)
qed

lemma sort_range_unique:
  assumes p: "perm_on lo hi v w" and s: "sorted_on id lo hi w" and r: "0 \<le> lo" "hi < alen v"
  shows "w = sort_range v lo hi"
proof (cases "lo \<le> hi")
  case True
  have hw: "hi < alen w" using r perm_on_alen [OF p] by simp
  have "w = take (nat lo) w @ slice lo hi w @ drop (nat (hi + 1)) w" using True r hw by (intro array_split) auto
  moreover have "slice lo hi w = sort (slice lo hi v)"
    using perm_on_mset_slice [OF p r(1) _ r(2)] True sorted_slice [OF r(1) hw s]
    by (intro properties_for_sort [symmetric]) auto
  ultimately show ?thesis using perm_on_take_drop [OF p r(1)] True by (simp add: sort_range_def)
next
  case False
  then have "i < lo \<or> hi < i" for i by linarith
  then have "w = v"
    using perm_on_outside [OF p] perm_on_in_range [OF p] perm_on_length [OF p] by (intro array_ext) auto
  with False show ?thesis by (simp add: sort_range_def)
qed

locale range_sort =
  fixes sort_fn :: "'k::linorder list \<Rightarrow> int \<Rightarrow> int \<Rightarrow> 'k list"
  assumes perm: "0 \<le> lo \<Longrightarrow> hi < alen v \<Longrightarrow> perm_on lo hi v (sort_fn v lo hi)"
    and ordered: "0 \<le> lo \<Longrightarrow> hi < alen v \<Longrightarrow> sorted_on id lo hi (sort_fn v lo hi)"
begin

lemma computes: "0 \<le> lo \<Longrightarrow> hi < alen v \<Longrightarrow> sort_fn v lo hi = sort_range v lo hi"
  by (rule sort_range_unique [OF perm ordered])

lemma whole: "sort_fn v 0 (alen v - 1) = sort v"
  by (subst computes) (auto simp: sort_range_def slice_def alen_def)

end

section \<open>Bubble sort\<close>

text \<open>The inner loop from \<open>j\<close> down to \<open>i\<close>, and the outer loop with its early exit.\<close>

function bubble_pass :: "'k::linorder list \<Rightarrow> int \<Rightarrow> int \<Rightarrow> bool \<Rightarrow> 'k list \<times> bool" where
  "bubble_pass v i j exchange =
     (if i \<le> j then
        if aget v (j - 1) > aget v j then bubble_pass (aswap v (j - 1) j) i (j - 1) True
        else bubble_pass v i (j - 1) exchange
      else (v, exchange))"
  by pat_completeness auto
termination
  by (relation "measure (\<lambda>(_, i, j, _). nat (j + 1 - i))") auto

function bubble_outer :: "'k::linorder list \<Rightarrow> int \<Rightarrow> int \<Rightarrow> 'k list" where
  "bubble_outer v i lEnd =
     (if i \<le> lEnd then
        let (v', exchange) = bubble_pass v i lEnd False
        in if exchange then bubble_outer v' (i + 1) lEnd else v'
      else v)"
  by pat_completeness auto
termination
  by (relation "measure (\<lambda>(_, i, lEnd). nat (lEnd + 1 - i))") auto

definition Q_Bubble_Sort_Improved :: "'k::linorder list \<Rightarrow> int \<Rightarrow> int \<Rightarrow> 'k list" where
  "Q_Bubble_Sort_Improved v lBegin lEnd = bubble_outer v (lBegin + 1) lEnd"

declare bubble_pass.simps [simp del] bubble_outer.simps [simp del]

lemma bubble_pass_spec:
  "1 \<le> i \<Longrightarrow> i - 1 \<le> j \<Longrightarrow> j \<le> lEnd \<Longrightarrow> lEnd < alen v \<Longrightarrow>
   (\<And>k. j \<le> k \<Longrightarrow> k \<le> lEnd \<Longrightarrow> aget v j \<le> aget v k) \<Longrightarrow>
   (\<not> ex \<Longrightarrow> sorted_on id j lEnd v) \<Longrightarrow>
   bubble_pass v i j ex = (w, ex') \<Longrightarrow>
   perm_on (i - 1) lEnd v w \<and> (\<forall>k. i - 1 \<le> k \<longrightarrow> k \<le> lEnd \<longrightarrow> aget w (i - 1) \<le> aget w k)
   \<and> (\<not> ex' \<longrightarrow> sorted_on id (i - 1) lEnd w)"
proof (induction v i j ex rule: bubble_pass.induct)
  case (1 v i j ex)
  show ?case
  proof (cases "i \<le> j")
    case False
    then have "j = i - 1" "w = v" "ex' = ex"
      using "1.prems" by (auto simp: bubble_pass.simps [of v i j ex])
    with "1.prems" show ?thesis by auto
  next
    case le: True
    have r: "in_range v (j - 1)" "in_range v j" using le "1.prems" by (auto simp: in_range_def)
    show ?thesis
    proof (cases "aget v (j - 1) > aget v j")
      case True
      let ?v = "aswap v (j - 1) j"
      have rd: "aget ?v k = (if k = j - 1 then aget v j else if k = j then aget v (j - 1) else aget v k)"
        if "j - 1 \<le> k" "k \<le> lEnd" for k
        using that r "1.prems" le by (intro aget_aswap) (auto simp: in_range_def)
      have "perm_on (i - 1) lEnd ?v w \<and> (\<forall>k. i - 1 \<le> k \<longrightarrow> k \<le> lEnd \<longrightarrow> aget w (i - 1) \<le> aget w k)
          \<and> (\<not> ex' \<longrightarrow> sorted_on id (i - 1) lEnd w)"
      proof (rule "1.IH"(1) [OF le True])
        show "aget ?v (j - 1) \<le> aget ?v k" if "j - 1 \<le> k" "k \<le> lEnd" for k
          using that True "1.prems"(3,5) by (auto simp: rd)
        show "bubble_pass ?v i (j - 1) True = (w, ex')"
          using "1.prems"(7) le True by (subst (asm) bubble_pass.simps) simp
      qed (use "1.prems" le in auto)
      moreover have "perm_on (i - 1) lEnd v ?v" using r le "1.prems" by (intro perm_on_aswap) auto
      ultimately show ?thesis by (blast intro: perm_on_trans)
    next
      case False
      show ?thesis
      proof (rule "1.IH"(2) [OF le False])
        show min: "aget v (j - 1) \<le> aget v k" if "j - 1 \<le> k" "k \<le> lEnd" for k
          using that False "1.prems"(3) "1.prems"(5) [of k] by (cases "k = j - 1") auto
        show "sorted_on id (j - 1) lEnd v" if "\<not> ex"
        proof
          fix a b assume ab: "j - 1 \<le> a" "a < b" "b \<le> lEnd"
          then show "id (aget v a) \<le> id (aget v b)"
            using min sorted_onD [OF "1.prems"(6), of a b] that by (cases "a = j - 1") auto
        qed
        show "bubble_pass v i (j - 1) ex = (w, ex')"
          using "1.prems"(7) le False by (subst (asm) bubble_pass.simps) simp
      qed (use "1.prems" le in auto)
    qed
  qed
qed

text \<open>
  The cells before \<open>i\<close> are in order and none is above a cell from \<open>i\<close> on: what the outer loops of
  the bubble and the selection sort keep.
\<close>

definition sorted_prefix :: "int \<Rightarrow> int \<Rightarrow> int \<Rightarrow> 'k::linorder list \<Rightarrow> bool" where
  "sorted_prefix lo i hi v \<longleftrightarrow> (\<forall>a b. lo \<le> a \<longrightarrow> a < i \<longrightarrow> a \<le> b \<longrightarrow> b \<le> hi \<longrightarrow> aget v a \<le> aget v b)"

lemma sorted_prefix_perm:
  assumes "sorted_prefix lo i hi v" "perm_on i hi v w" "0 \<le> lo" "lo \<le> i" "hi < alen v"
  shows "sorted_prefix lo i hi w"
  unfolding sorted_prefix_def
proof (intro allI impI)
  fix a b assume ab: "lo \<le> a" "a < i" "a \<le> b" "b \<le> hi"
  have a: "aget w a = aget v a" using ab assms by (intro perm_on_outside) (auto simp: in_range_def)
  show "aget w a \<le> aget w b"
  proof (cases "b < i")
    case True
    then have "aget w b = aget v b" using ab assms by (intro perm_on_outside) (auto simp: in_range_def)
    with a ab assms(1) show ?thesis by (simp add: sorted_prefix_def)
  next
    case False
    have "aget v a \<le> aget w b"
      by (rule perm_on_all [OF assms(2), of "\<lambda>x. aget v a \<le> x"])
        (use assms ab False in \<open>auto simp: sorted_prefix_def\<close>)
    with a show ?thesis by simp
  qed
qed

lemma sorted_prefix_extend:
  "sorted_prefix lo i hi v \<Longrightarrow> (\<And>k. i \<le> k \<Longrightarrow> k \<le> hi \<Longrightarrow> aget v i \<le> aget v k) \<Longrightarrow> sorted_prefix lo (i + 1) hi v"
  by (auto simp: sorted_prefix_def zless_add1_eq)

lemma sorted_prefix_start: "sorted_prefix lo lo hi v"
  by (simp add: sorted_prefix_def)

lemma sorted_prefix_all: "sorted_prefix lo i hi v \<Longrightarrow> hi \<le> i \<Longrightarrow> sorted_on id lo hi v"
  by (rule sorted_onI) (simp add: sorted_prefix_def)

lemma sorted_prefix_join: "sorted_prefix lo i hi v \<Longrightarrow> sorted_on id i hi v \<Longrightarrow> sorted_on id lo hi v"
proof (rule sorted_onI)
  fix a b assume "sorted_prefix lo i hi v" "sorted_on id i hi v" "lo \<le> a" "a < b" "b \<le> hi"
  then show "id (aget v a) \<le> id (aget v b)"
    using sorted_onD [of id i hi v a b] by (cases "a < i") (auto simp: sorted_prefix_def)
qed

lemma bubble_outer_spec:
  "0 \<le> lo \<Longrightarrow> lo < i \<Longrightarrow> lEnd < alen v \<Longrightarrow> sorted_prefix lo (i - 1) lEnd v \<Longrightarrow>
   perm_on lo lEnd v (bubble_outer v i lEnd) \<and> sorted_on id lo lEnd (bubble_outer v i lEnd)"
proof (induction v i lEnd rule: bubble_outer.induct)
  case (1 v i lEnd)
  show ?case
  proof (cases "i \<le> lEnd")
    case False
    then show ?thesis using "1.prems" sorted_prefix_all [of lo "i - 1" lEnd v]
      by (subst (1 2) bubble_outer.simps) simp
  next
    case True
    obtain w ex where w: "bubble_pass v i lEnd False = (w, ex)" by fastforce
    have p: "perm_on (i - 1) lEnd v w \<and> (\<forall>k. i - 1 \<le> k \<longrightarrow> k \<le> lEnd \<longrightarrow> aget w (i - 1) \<le> aget w k)
        \<and> (\<not> ex \<longrightarrow> sorted_on id (i - 1) lEnd w)"
      by (rule bubble_pass_spec [OF _ _ _ _ _ _ w]) (use True "1.prems" in auto)
    then have pl: "perm_on lo lEnd v w" using "1.prems" perm_on_mono [of "i - 1" lEnd v w lo lEnd] by auto
    have sp: "sorted_prefix lo (i - 1) lEnd w"
      by (rule sorted_prefix_perm [OF "1.prems"(4) conjunct1 [OF p]]) (use "1.prems" in auto)
    show ?thesis
    proof (cases ex)
      case False
      then have "bubble_outer v i lEnd = w" using True w by (subst bubble_outer.simps) simp
      with False p pl sp show ?thesis using sorted_prefix_join by auto
    next
      case ex: True
      have eq: "bubble_outer v i lEnd = bubble_outer w (i + 1) lEnd"
        using True w ex by (subst bubble_outer.simps) simp
      have "perm_on lo lEnd w (bubble_outer w (i + 1) lEnd) \<and> sorted_on id lo lEnd (bubble_outer w (i + 1) lEnd)"
        using "1.IH" [OF True w [symmetric] refl ex] "1.prems" perm_on_alen [OF pl] p
          sorted_prefix_extend [OF sp] by simp
      with pl show ?thesis unfolding eq by (blast intro: perm_on_trans)
    qed
  qed
qed

interpretation bubble: range_sort "Q_Bubble_Sort_Improved :: 'k::linorder list \<Rightarrow> int \<Rightarrow> int \<Rightarrow> 'k list"
proof
  fix lo hi :: int and v :: "'k list"
  assume "0 \<le> lo" "hi < alen v"
  with bubble_outer_spec [of lo "lo + 1" hi v] sorted_prefix_start
  show "perm_on lo hi v (Q_Bubble_Sort_Improved v lo hi)" "sorted_on id lo hi (Q_Bubble_Sort_Improved v lo hi)"
    by (auto simp: Q_Bubble_Sort_Improved_def)
qed

section \<open>Selection sort\<close>

text \<open>The scan for the index \<open>k\<close> of a least cell, and the outer loop (the source spells it \<open>Slect\<close>).\<close>

function select_min :: "'k::linorder list \<Rightarrow> int \<Rightarrow> int \<Rightarrow> int \<Rightarrow> int" where
  "select_min v k j lEnd =
     (if j \<le> lEnd then select_min v (if aget v j < aget v k then j else k) (j + 1) lEnd else k)"
  by pat_completeness auto
termination
  by (relation "measure (\<lambda>(_, _, j, lEnd). nat (lEnd + 1 - j))") auto

function Q_Slect_Sort :: "'k::linorder list \<Rightarrow> int \<Rightarrow> int \<Rightarrow> 'k list" where
  "Q_Slect_Sort v i lEnd =
     (if i < lEnd then
        let k = select_min v i (i + 1) lEnd
        in Q_Slect_Sort (if k \<noteq> i then aswap v i k else v) (i + 1) lEnd
      else v)"
  by pat_completeness auto
termination
  by (relation "measure (\<lambda>(_, i, lEnd). nat (lEnd - i))") auto

declare select_min.simps [simp del] Q_Slect_Sort.simps [simp del]

lemma select_min_spec:
  "i \<le> k \<Longrightarrow> k < j \<Longrightarrow> j \<le> lEnd + 1 \<Longrightarrow> (\<And>m. i \<le> m \<Longrightarrow> m < j \<Longrightarrow> aget v k \<le> aget v m) \<Longrightarrow>
   i \<le> select_min v k j lEnd \<and> select_min v k j lEnd \<le> lEnd
   \<and> (\<forall>m. i \<le> m \<longrightarrow> m \<le> lEnd \<longrightarrow> aget v (select_min v k j lEnd) \<le> aget v m)"
proof (induction v k j lEnd rule: select_min.induct)
  case (1 v k j lEnd)
  show ?case
  proof (cases "j \<le> lEnd")
    case True
    let ?k = "if aget v j < aget v k then j else k"
    have eq: "select_min v k j lEnd = select_min v ?k (j + 1) lEnd" using True by (subst select_min.simps) simp
    have "aget v ?k \<le> aget v m" if "i \<le> m" "m < j + 1" for m
      using that "1.prems"(4) [of m] by (cases "m = j") auto
    then show ?thesis unfolding eq using "1.IH" [OF True] "1.prems" True by auto
  next
    case False
    then show ?thesis using "1.prems" by (subst (1 2 3) select_min.simps) auto
  qed
qed

lemma Q_Slect_Sort_spec:
  "0 \<le> lo \<Longrightarrow> lo \<le> i \<Longrightarrow> lEnd < alen v \<Longrightarrow> sorted_prefix lo i lEnd v \<Longrightarrow>
   perm_on lo lEnd v (Q_Slect_Sort v i lEnd) \<and> sorted_on id lo lEnd (Q_Slect_Sort v i lEnd)"
proof (induction v i lEnd rule: Q_Slect_Sort.induct)
  case (1 v i lEnd)
  show ?case
  proof (cases "i < lEnd")
    case False
    then show ?thesis using "1.prems" sorted_prefix_all [of lo i lEnd v]
      by (subst (1 2) Q_Slect_Sort.simps) simp
  next
    case True
    define k where "k = select_min v i (i + 1) lEnd"
    define w where "w = (if k \<noteq> i then aswap v i k else v)"
    have k: "i \<le> k" "k \<le> lEnd" "\<And>m. i \<le> m \<Longrightarrow> m \<le> lEnd \<Longrightarrow> aget v k \<le> aget v m"
      using select_min_spec [of i i "i + 1" lEnd v] True by (auto simp: k_def)
    have r: "in_range v i" "in_range v k" using k True "1.prems" by (auto simp: in_range_def)
    have p: "perm_on i lEnd v w" using r k True by (auto simp: w_def intro: perm_on_aswap)
    have "aget w i = aget v k" using r by (auto simp: w_def aget_aswap)
    moreover have "aget v k \<le> aget w m" if "i \<le> m" "m \<le> lEnd" for m
      by (rule perm_on_all [OF p, of "\<lambda>x. aget v k \<le> x"]) (use that k "1.prems" in auto)
    ultimately have sp: "sorted_prefix lo (i + 1) lEnd w"
      using sorted_prefix_perm [OF "1.prems"(4) p] "1.prems" by (auto intro!: sorted_prefix_extend)
    have pl: "perm_on lo lEnd v w" using p "1.prems" by (auto intro: perm_on_mono)
    have eq: "Q_Slect_Sort v i lEnd = Q_Slect_Sort w (i + 1) lEnd"
      using True by (subst Q_Slect_Sort.simps) (simp add: k_def w_def Let_def)
    have "perm_on lo lEnd w (Q_Slect_Sort w (i + 1) lEnd) \<and> sorted_on id lo lEnd (Q_Slect_Sort w (i + 1) lEnd)"
      using "1.IH" [OF True k_def, folded w_def] "1.prems"(1,2,3) sp perm_on_alen [OF pl] by simp
    with pl show ?thesis unfolding eq by (blast intro: perm_on_trans)
  qed
qed

interpretation select: range_sort "Q_Slect_Sort :: 'k::linorder list \<Rightarrow> int \<Rightarrow> int \<Rightarrow> 'k list"
proof
  fix lo hi :: int and v :: "'k list"
  assume "0 \<le> lo" "hi < alen v"
  with Q_Slect_Sort_spec [of lo lo hi v] sorted_prefix_start
  show "perm_on lo hi v (Q_Slect_Sort v lo hi)" "sorted_on id lo hi (Q_Slect_Sort v lo hi)" by auto
qed

section \<open>Binary insertion sort\<close>

function insert_pos :: "'k::linorder list \<Rightarrow> 'k \<Rightarrow> int \<Rightarrow> int \<Rightarrow> int" where
  "insert_pos v temp low high =
     (if low \<le> high then
        let middle = cdiv (low + high) 2
        in if temp < aget v middle then insert_pos v temp low (middle - 1)
           else insert_pos v temp (middle + 1) high
      else low)"
  by pat_completeness auto
termination
proof (relation "measure (\<lambda>(_, _, low, high). nat (high + 1 - low))")
qed (use cdiv_middle in fastforce)+

text \<open>\<^verbatim>\<open>for(k=i-1; k>=low; --k) v[k+1]=v[k];\<close>\<close>

function insert_shift :: "'k list \<Rightarrow> int \<Rightarrow> int \<Rightarrow> 'k list" where
  "insert_shift v k low = (if low \<le> k then insert_shift (aset v (k + 1) (aget v k)) (k - 1) low else v)"
  by pat_completeness auto
termination
  by (relation "measure (\<lambda>(_, k, low). nat (k + 1 - low))") auto

function insert_outer :: "'k::linorder list \<Rightarrow> int \<Rightarrow> int \<Rightarrow> int \<Rightarrow> 'k list" where
  "insert_outer v lBegin i lEnd =
     (if i \<le> lEnd then
        let temp = aget v i; low = insert_pos v temp lBegin (i - 1)
        in insert_outer (aset (insert_shift v (i - 1) low) low temp) lBegin (i + 1) lEnd
      else v)"
  by pat_completeness auto
termination
  by (relation "measure (\<lambda>(_, _, i, lEnd). nat (lEnd + 1 - i))") auto

definition Q_Insert_Sort :: "'k::linorder list \<Rightarrow> int \<Rightarrow> int \<Rightarrow> 'k list" where
  "Q_Insert_Sort v lBegin lEnd = insert_outer v lBegin (lBegin + 1) lEnd"

declare insert_pos.simps [simp del] insert_shift.simps [simp del] insert_outer.simps [simp del]

lemma insert_pos_spec:
  "lo \<le> low \<Longrightarrow> low \<le> high + 1 \<Longrightarrow> high \<le> hi \<Longrightarrow> sorted_on id lo hi v \<Longrightarrow>
   (\<And>k. lo \<le> k \<Longrightarrow> k < low \<Longrightarrow> aget v k \<le> temp) \<Longrightarrow> (\<And>k. high < k \<Longrightarrow> k \<le> hi \<Longrightarrow> temp < aget v k) \<Longrightarrow>
   lo \<le> insert_pos v temp low high \<and> insert_pos v temp low high \<le> hi + 1
   \<and> (\<forall>k. lo \<le> k \<longrightarrow> k < insert_pos v temp low high \<longrightarrow> aget v k \<le> temp)
   \<and> (\<forall>k. insert_pos v temp low high \<le> k \<longrightarrow> k \<le> hi \<longrightarrow> temp < aget v k)"
proof (induction v temp low high rule: insert_pos.induct)
  case (1 v temp low high)
  let ?m = "cdiv (low + high) 2"
  note eq = insert_pos.simps [of v temp low high]
  show ?case
  proof (cases "low \<le> high")
    case False
    then have e: "insert_pos v temp low high = low" by (subst eq) simp
    show ?thesis unfolding e using False "1.prems"(1,2,3) "1.prems"(5,6) by simp
  next
    case True
    note m = cdiv_middle [OF True]
    have so: "aget v a \<le> aget v b" if "lo \<le> a" "a \<le> b" "b \<le> hi" for a b
      using sorted_onD [OF "1.prems"(4) that] by simp
    show ?thesis
    proof (cases "temp < aget v ?m")
      case less: True
      then have e: "insert_pos v temp low high = insert_pos v temp low (?m - 1)" using True by (subst eq) (simp add: Let_def)
      have h: "temp < aget v k" if "?m - 1 < k" "k \<le> hi" for k
        using less so [of ?m k] that m "1.prems"(1) by fastforce
      show ?thesis unfolding e
        by (rule "1.IH"(1) [OF True refl less "1.prems"(1) _ _ "1.prems"(4,5) h]) (use m "1.prems"(3) in auto)
    next
      case le: False
      then have e: "insert_pos v temp low high = insert_pos v temp (?m + 1) high" using True by (subst eq) (simp add: Let_def)
      have l: "aget v k \<le> temp" if "lo \<le> k" "k < ?m + 1" for k
        using le so [of k ?m] that m "1.prems"(3) by fastforce
      show ?thesis unfolding e
        by (rule "1.IH"(2) [OF True refl le _ _ "1.prems"(3,4) l "1.prems"(6)]) (use m "1.prems"(1) in auto)
    qed
  qed
qed

lemma insert_shift_length [simp]: "length (insert_shift v k low) = length v"
  by (induction v k low rule: insert_shift.induct) (subst insert_shift.simps, simp)

lemma insert_shift_spec:
  "0 \<le> low \<Longrightarrow> k + 1 < alen v \<Longrightarrow> in_range v x \<Longrightarrow>
   aget (insert_shift v k low) x = (if low < x \<and> x \<le> k + 1 then aget v (x - 1) else aget v x)"
proof (induction v k low rule: insert_shift.induct)
  case (1 v k low)
  show ?case
  proof (cases "low \<le> k")
    case True
    then have "insert_shift v k low = insert_shift (aset v (k + 1) (aget v k)) (k - 1) low"
      by (subst insert_shift.simps) simp
    with "1.IH" True "1.prems" show ?thesis by (auto simp: aget_aset in_range_def)
  next
    case False
    then show ?thesis by (subst insert_shift.simps) auto
  qed
qed

lemma insert_shift_perm:
  "0 \<le> low \<Longrightarrow> low \<le> k + 1 \<Longrightarrow> k + 1 < alen v \<Longrightarrow>
   perm_on low (k + 1) (aset v (k + 1) temp) (aset (insert_shift v k low) low temp)"
proof (induction v k low rule: insert_shift.induct)
  case (1 v k low)
  show ?case
  proof (cases "low \<le> k")
    case True
    let ?v = "aset v (k + 1) (aget v k)"
    have eq: "insert_shift v k low = insert_shift ?v (k - 1) low" using True by (subst insert_shift.simps) simp
    have r: "in_range v k" "in_range v (k + 1)" using True "1.prems" by (auto simp: in_range_def)
    have "perm_on low k (aset ?v k temp) (aset (insert_shift ?v (k - 1) low) low temp)"
      using "1.IH" [OF True] "1.prems" True by simp
    then have "perm_on low (k + 1) (aset ?v k temp) (aset (insert_shift ?v (k - 1) low) low temp)"
      by (rule perm_on_mono) auto
    moreover have "perm_on low (k + 1) (aset v (k + 1) temp) (aset ?v k temp)"
      by (subst hole_exchange [OF r]) (use r True in \<open>auto intro!: perm_on_aswap\<close>)
    ultimately show ?thesis unfolding eq by (blast intro: perm_on_trans)
  next
    case False
    then have "low = k + 1" using "1.prems" by simp
    with False show ?thesis by (subst insert_shift.simps) simp
  qed
qed

lemma insert_step:
  assumes s: "sorted_on id lo (i - 1) v" and r: "0 \<le> lo" "lo < i" "i < alen v"
  defines "low \<equiv> insert_pos v (aget v i) lo (i - 1)"
  defines "w \<equiv> aset (insert_shift v (i - 1) low) low (aget v i)"
  shows "perm_on lo i v w" "sorted_on id lo i w"
proof -
  have low: "lo \<le> low" "low \<le> i" "\<And>k. lo \<le> k \<Longrightarrow> k < low \<Longrightarrow> aget v k \<le> aget v i"
    "\<And>k. low \<le> k \<Longrightarrow> k < i \<Longrightarrow> aget v i < aget v k"
    using insert_pos_spec [of lo lo "i - 1" "i - 1" v "aget v i"] s r by (auto simp: low_def)
  have "perm_on low (i - 1 + 1) (aset v (i - 1 + 1) (aget v i)) w"
    unfolding w_def by (rule insert_shift_perm) (use low r in auto)
  then show "perm_on lo i v w" using low by (auto intro: perm_on_mono)
  have rd: "aget w x = (if x = low then aget v i else if low < x \<and> x \<le> i then aget v (x - 1) else aget v x)"
    if "0 \<le> x" "x \<le> i" for x
    using that low r by (auto simp: w_def aget_aset insert_shift_spec in_range_def alen_def)
  show "sorted_on id lo i w"
  proof
    fix a b assume ab: "lo \<le> a" "a < b" "b \<le> i"
    then have so: "aget v x \<le> aget v y" if "lo \<le> x" "x \<le> y" "y < i" for x y
      using sorted_onD [OF s, of x y] that by auto
    show "id (aget w a) \<le> id (aget w b)"
      using ab r low so [of a b] so [of a "b - 1"] so [of "a - 1" "b - 1"] low(3) [of a] less_imp_le [OF low(4) [of "b - 1"]]
      by (auto simp: rd)
  qed
qed

lemma insert_outer_spec:
  "0 \<le> lo \<Longrightarrow> lo < i \<Longrightarrow> lEnd < alen v \<Longrightarrow> i \<le> lEnd + 1 \<Longrightarrow> sorted_on id lo (i - 1) v \<Longrightarrow>
   perm_on lo lEnd v (insert_outer v lo i lEnd) \<and> sorted_on id lo lEnd (insert_outer v lo i lEnd)"
proof (induction v lo i lEnd rule: insert_outer.induct)
  case (1 v lo i lEnd)
  show ?case
  proof (cases "i \<le> lEnd")
    case False
    with "1.prems" have "i - 1 = lEnd" by simp
    with False "1.prems" show ?thesis by (subst (1 2) insert_outer.simps) simp
  next
    case True
    define low where "low = insert_pos v (aget v i) lo (i - 1)"
    define w where "w = aset (insert_shift v (i - 1) low) low (aget v i)"
    have w: "perm_on lo i v w" "sorted_on id lo i w"
      using insert_step [of lo i v] "1.prems" True by (auto simp: w_def low_def)
    have pl: "perm_on lo lEnd v w" using w(1) True by (auto intro: perm_on_mono)
    have eq: "insert_outer v lo i lEnd = insert_outer w lo (i + 1) lEnd"
      using True by (subst insert_outer.simps) (simp add: low_def w_def Let_def)
    have "perm_on lo lEnd w (insert_outer w lo (i + 1) lEnd) \<and> sorted_on id lo lEnd (insert_outer w lo (i + 1) lEnd)"
      using "1.IH" [OF True refl low_def, folded w_def] "1.prems" w True perm_on_alen [OF pl] by simp
    with pl show ?thesis unfolding eq by (blast intro: perm_on_trans)
  qed
qed

interpretation insert: range_sort "Q_Insert_Sort :: 'k::linorder list \<Rightarrow> int \<Rightarrow> int \<Rightarrow> 'k list"
proof
  fix lo hi :: int and v :: "'k list"
  assume a: "0 \<le> lo" "hi < alen v"
  have "perm_on lo hi v (Q_Insert_Sort v lo hi) \<and> sorted_on id lo hi (Q_Insert_Sort v lo hi)"
  proof (cases "lo \<le> hi")
    case True
    with a show ?thesis using insert_outer_spec [of lo "lo + 1" hi v] by (simp add: Q_Insert_Sort_def)
  next
    case False
    then show ?thesis by (simp add: Q_Insert_Sort_def insert_outer.simps)
  qed
  then show "perm_on lo hi v (Q_Insert_Sort v lo hi)" "sorted_on id lo hi (Q_Insert_Sort v lo hi)" by auto
qed

section \<open>Shell sort\<close>

text \<open>
  The inner \<^verbatim>\<open>do ... while\<close> with the store after it.  The gap is positive whenever the loop
  over \<open>i\<close> has a round; the guard \<open>0 < gap\<close> says so.
\<close>

function shell_shift :: "'k::linorder \<Rightarrow> int \<Rightarrow> int \<Rightarrow> 'k list \<Rightarrow> int \<Rightarrow> 'k list" where
  "shell_shift temp gap lBegin v j =
     (let v' = aset v (j + gap) (aget v j); j' = j - gap
      in if 0 < gap \<and> j' \<ge> lBegin \<and> temp < aget v' j' then shell_shift temp gap lBegin v' j'
         else aset v' (j' + gap) temp)"
  by pat_completeness auto
termination
  by (relation "measure (\<lambda>(_, _, lBegin, _, j). nat (j + 1 - lBegin))") auto

function shell_pass :: "int \<Rightarrow> int \<Rightarrow> int \<Rightarrow> 'k::linorder list \<Rightarrow> int \<Rightarrow> 'k list" where
  "shell_pass gap lBegin lEnd v i =
     (if i \<le> lEnd then
        shell_pass gap lBegin lEnd
          (if aget v i < aget v (i - gap) then shell_shift (aget v i) gap lBegin v (i - gap) else v) (i + 1)
      else v)"
  by pat_completeness auto
termination
  by (relation "measure (\<lambda>(_, _, lEnd, _, i). nat (lEnd + 1 - i))") auto

text \<open>\<^verbatim>\<open>do { gap=gap/3+1; ... } while(gap>1);\<close>\<close>

lemma cdiv_three: "gap \<le> 0 \<Longrightarrow> gap \<le> cdiv gap 3 \<and> cdiv gap 3 \<le> 0"
  by (cases "gap = 0") (auto simp: cdiv_def)

function shell_loop :: "int \<Rightarrow> int \<Rightarrow> int \<Rightarrow> 'k::linorder list \<Rightarrow> 'k list" where
  "shell_loop lBegin lEnd gap v =
     (let gap' = cdiv gap 3 + 1; v' = shell_pass gap' lBegin lEnd v (lBegin + gap')
      in if gap' > 1 then shell_loop lBegin lEnd gap' v' else v')"
  by pat_completeness auto
termination
proof (relation "measure (\<lambda>(_, _, gap, _). nat gap)")
  fix lBegin lEnd gap gap' :: int and v v' :: "'k list"
  assume "gap' = cdiv gap 3 + 1" "gap' > 1"
  moreover from this have "0 < gap" using cdiv_three [of gap] by linarith
  ultimately show "((lBegin, lEnd, gap', v'), lBegin, lEnd, gap, v) \<in> measure (\<lambda>(_, _, gap, _). nat gap)"
    by auto
qed simp

definition Q_Shell_Sort :: "'k::linorder list \<Rightarrow> int \<Rightarrow> int \<Rightarrow> 'k list" where
  "Q_Shell_Sort v lBegin lEnd = shell_loop lBegin lEnd (lEnd - lBegin + 1) v"

declare shell_shift.simps [simp del] shell_pass.simps [simp del] shell_loop.simps [simp del]

lemma shell_shift_step:
  assumes "0 < gap" "lBegin \<le> j" "0 \<le> lBegin" "j + gap < alen v"
  shows "shell_shift temp gap lBegin v j =
    (if j - gap \<ge> lBegin \<and> temp < aget v (j - gap)
     then shell_shift temp gap lBegin (aset v (j + gap) (aget v j)) (j - gap)
     else aset (aset v (j + gap) (aget v j)) j temp)"
  using assms by (subst shell_shift.simps) (auto simp: Let_def aget_aset_other)

lemma shell_shift_perm:
  "0 < gap \<Longrightarrow> 0 \<le> lBegin \<Longrightarrow> lBegin \<le> j \<Longrightarrow> j + gap \<le> hi \<Longrightarrow> hi < alen v \<Longrightarrow>
   perm_on lBegin hi (aset v (j + gap) temp) (shell_shift temp gap lBegin v j)"
proof (induction temp gap lBegin v j rule: shell_shift.induct)
  case (1 temp gap lBegin v j)
  let ?v = "aset v (j + gap) (aget v j)"
  have r: "in_range v j" "in_range v (j + gap)" "j \<noteq> j + gap" using "1.prems" by (auto simp: in_range_def)
  have first: "perm_on lBegin hi (aset v (j + gap) temp) (aset ?v j temp)"
    by (subst hole_exchange [OF r]) (use r "1.prems" in \<open>auto intro!: perm_on_aswap\<close>)
  have eq: "shell_shift temp gap lBegin v j = (if j - gap \<ge> lBegin \<and> temp < aget v (j - gap)
      then shell_shift temp gap lBegin ?v (j - gap) else aset ?v j temp)"
    using "1.prems" by (intro shell_shift_step) auto
  show ?case
  proof (cases "j - gap \<ge> lBegin \<and> temp < aget v (j - gap)")
    case True
    have "aget ?v (j - gap) = aget v (j - gap)" using True "1.prems" by (intro aget_aset_other) auto
    then have "perm_on lBegin hi (aset ?v (j - gap + gap) temp) (shell_shift temp gap lBegin ?v (j - gap))"
      using True "1.prems" by (intro "1.IH" refl) auto
    with True first show ?thesis unfolding eq by (auto intro: perm_on_trans)
  next
    case False
    with first show ?thesis unfolding eq by auto
  qed
qed

text \<open>With gap 1 the shift is an insertion into the sorted cells before the hole.\<close>

lemma shell_shift_sorts:
  "0 \<le> lBegin \<Longrightarrow> lBegin \<le> j \<Longrightarrow> j + 1 \<le> i \<Longrightarrow> i < alen v \<Longrightarrow> temp < aget v j \<Longrightarrow>
   (\<And>a b. lBegin \<le> a \<Longrightarrow> a < b \<Longrightarrow> b \<le> i \<Longrightarrow> a \<noteq> j + 1 \<Longrightarrow> b \<noteq> j + 1 \<Longrightarrow> aget v a \<le> aget v b) \<Longrightarrow>
   sorted_on id lBegin i (shell_shift temp 1 lBegin v j)"
proof (induction "nat (j - lBegin)" arbitrary: j v rule: less_induct)
  case less
  let ?v = "aset v (j + 1) (aget v j)"
  have rd: "aget ?v x = (if x = j + 1 then aget v j else aget v x)" if "0 \<le> x" "x \<le> i" for x
    using that less.prems by (subst aget_aset) (auto simp: in_range_def)
  have so: "aget ?v a \<le> aget ?v b" if "lBegin \<le> a" "a < b" "b \<le> i" "a \<noteq> j" "b \<noteq> j" for a b
    using that less.prems(1,2) less.prems(6) [of a b] less.prems(6) [of a j] less.prems(6) [of j b] less.prems(3)
    by (auto simp: rd)
  show ?case
  proof (cases "j - 1 \<ge> lBegin \<and> temp < aget v (j - 1)")
    case True
    then have eq: "shell_shift temp 1 lBegin v j = shell_shift temp 1 lBegin ?v (j - 1)"
      using less.prems by (subst shell_shift_step) auto
    show ?thesis unfolding eq
      by (rule less.hyps) (use True less.prems(1-4) so in \<open>auto simp: rd\<close>)
  next
    case False
    then have eq: "shell_shift temp 1 lBegin v j = aset ?v j temp"
      using less.prems by (subst shell_shift_step) auto
    have rw: "aget (aset ?v j temp) x = (if x = j then temp else aget ?v x)" if "0 \<le> x" "x \<le> i" for x
      using that less.prems by (subst aget_aset) (auto simp: in_range_def)
    have above: "temp \<le> aget ?v b" if "j < b" "b \<le> i" for b
      using that less.prems(1,2,5) less.prems(6) [of j b] by (auto simp: rd)
    have below: "aget ?v a \<le> temp" if "lBegin \<le> a" "a < j" for a
      using that False less.prems(1,3) less.prems(6) [of a "j - 1"] by (cases "a = j - 1") (auto simp: rd)
    show ?thesis unfolding eq
    proof
      fix a b assume "lBegin \<le> a" "a < b" "b \<le> i"
      then show "id (aget (aset ?v j temp) a) \<le> id (aget (aset ?v j temp) b)"
        using so [of a b] above [of b] below [of a] less.prems(1) by (auto simp: rw)
    qed
  qed
qed

lemma shell_pass_perm:
  "0 < gap \<Longrightarrow> 0 \<le> lBegin \<Longrightarrow> lBegin + gap \<le> i \<Longrightarrow> lEnd < alen v \<Longrightarrow>
   perm_on lBegin lEnd v (shell_pass gap lBegin lEnd v i)"
proof (induction gap lBegin lEnd v i rule: shell_pass.induct)
  case (1 gap lBegin lEnd v i)
  show ?case
  proof (cases "i \<le> lEnd")
    case True
    let ?w = "if aget v i < aget v (i - gap) then shell_shift (aget v i) gap lBegin v (i - gap) else v"
    have p: "perm_on lBegin lEnd v ?w"
      using shell_shift_perm [of gap lBegin "i - gap" lEnd v "aget v i"] True "1.prems" by auto
    have "perm_on lBegin lEnd ?w (shell_pass gap lBegin lEnd ?w (i + 1))"
      using "1.IH" [OF True] "1.prems" perm_on_alen [OF p] by simp
    moreover have "shell_pass gap lBegin lEnd v i = shell_pass gap lBegin lEnd ?w (i + 1)"
      using True by (subst shell_pass.simps) simp
    ultimately show ?thesis using p by (metis perm_on_trans)
  next
    case False
    then show ?thesis by (subst shell_pass.simps) simp
  qed
qed

lemma shell_pass_sorts:
  "0 \<le> lBegin \<Longrightarrow> lBegin < i \<Longrightarrow> i \<le> lEnd + 1 \<Longrightarrow> lEnd < alen v \<Longrightarrow> sorted_on id lBegin (i - 1) v \<Longrightarrow>
   sorted_on id lBegin lEnd (shell_pass 1 lBegin lEnd v i)"
proof (induction "nat (lEnd + 1 - i)" arbitrary: v i)
  case 0
  then have "i - 1 = lEnd" "\<not> i \<le> lEnd" by auto
  with 0 show ?case by (subst shell_pass.simps) simp
next
  case (Suc n)
  let ?w = "if aget v i < aget v (i - 1) then shell_shift (aget v i) 1 lBegin v (i - 1) else v"
  have le: "i \<le> lEnd" using Suc by simp
  have so: "aget v a \<le> aget v b" if "lBegin \<le> a" "a \<le> b" "b < i" for a b
    using sorted_onD [OF Suc.prems(5), of a b] that by simp
  have p: "perm_on lBegin lEnd v ?w"
    using shell_shift_perm [of 1 lBegin "i - 1" lEnd v "aget v i"] le Suc.prems by auto
  have "sorted_on id lBegin i ?w"
  proof (cases "aget v i < aget v (i - 1)")
    case True
    then show ?thesis using Suc.prems le so by (auto intro!: shell_shift_sorts)
  next
    case False
    have "aget v a \<le> aget v i" if "lBegin \<le> a" "a < i" for a
      using so [of a "i - 1"] that False by auto
    then have "aget v a \<le> aget v b" if "lBegin \<le> a" "a < b" "b \<le> i" for a b
      using so [of a b] that by (cases "b = i") auto
    with False show ?thesis by (auto intro!: sorted_onI)
  qed
  then have "sorted_on id lBegin lEnd (shell_pass 1 lBegin lEnd ?w (i + 1))"
    using Suc perm_on_alen [OF p] le by (intro Suc.hyps) auto
  then show ?case using le by (subst shell_pass.simps) simp
qed

lemma shell_loop_spec:
  "0 \<le> lBegin \<Longrightarrow> lBegin \<le> lEnd \<Longrightarrow> lEnd < alen v \<Longrightarrow> 0 < gap \<Longrightarrow>
   perm_on lBegin lEnd v (shell_loop lBegin lEnd gap v) \<and> sorted_on id lBegin lEnd (shell_loop lBegin lEnd gap v)"
proof (induction lBegin lEnd gap v rule: shell_loop.induct)
  case (1 lBegin lEnd gap v)
  define g where "g = cdiv gap 3 + 1"
  define w where "w = shell_pass g lBegin lEnd v (lBegin + g)"
  have g: "0 < g" using "1.prems" by (simp add: g_def)
  have p: "perm_on lBegin lEnd v w" unfolding w_def using g "1.prems" by (intro shell_pass_perm) auto
  show ?case
  proof (cases "g > 1")
    case True
    then have eq: "shell_loop lBegin lEnd gap v = shell_loop lBegin lEnd g w"
      by (subst shell_loop.simps) (simp add: g_def w_def Let_def)
    have "perm_on lBegin lEnd w (shell_loop lBegin lEnd g w) \<and> sorted_on id lBegin lEnd (shell_loop lBegin lEnd g w)"
      using "1.IH" [OF g_def w_def True] "1.prems" g perm_on_alen [OF p] by simp
    with p show ?thesis unfolding eq by (blast intro: perm_on_trans)
  next
    case False
    then have eq: "shell_loop lBegin lEnd gap v = w"
      by (subst shell_loop.simps) (simp add: g_def w_def Let_def)
    have "g = 1" using False g by simp
    then have "sorted_on id lBegin lEnd w"
      unfolding w_def using "1.prems" by (auto intro!: shell_pass_sorts)
    with p show ?thesis unfolding eq by blast
  qed
qed

interpretation shell: range_sort "Q_Shell_Sort :: 'k::linorder list \<Rightarrow> int \<Rightarrow> int \<Rightarrow> 'k list"
proof
  fix lo hi :: int and v :: "'k list"
  assume a: "0 \<le> lo" "hi < alen v"
  have "perm_on lo hi v (Q_Shell_Sort v lo hi) \<and> sorted_on id lo hi (Q_Shell_Sort v lo hi)"
  proof (cases "lo \<le> hi")
    case True
    with a show ?thesis using shell_loop_spec [of lo hi v "hi - lo + 1"] by (simp add: Q_Shell_Sort_def)
  next
    case False
    then have "Q_Shell_Sort v lo hi = v"
      using cdiv_three [of "hi - lo + 1"]
      by (simp add: Q_Shell_Sort_def shell_loop.simps [of lo hi "hi - lo + 1"] shell_pass.simps Let_def)
    with False show ?thesis by simp
  qed
  then show "perm_on lo hi v (Q_Shell_Sort v lo hi)" "sorted_on id lo hi (Q_Shell_Sort v lo hi)" by auto
qed

section \<open>Properties\<close>

text \<open>
  Bubble, binary insertion, selection and Shell sort all compute the same function on every
  range of every array: the cells outside the range stay, those inside are put in ascending order.
\<close>

lemma basic_sorts_compute:
  assumes "0 \<le> lBegin" "lEnd < alen v"
  shows "Q_Bubble_Sort_Improved v lBegin lEnd = sort_range v lBegin lEnd
    \<and> Q_Insert_Sort v lBegin lEnd = sort_range v lBegin lEnd
    \<and> Q_Slect_Sort v lBegin lEnd = sort_range v lBegin lEnd
    \<and> Q_Shell_Sort v lBegin lEnd = sort_range v lBegin lEnd"
  using bubble.computes [OF assms] insert.computes [OF assms] select.computes [OF assms]
    shell.computes [OF assms] by blast

end
