(* ===== verification/HeapQuickSort.thy ===== *)
theory HeapQuickSort
  imports BasicSorts HeapArray
begin

text \<open>
  Heap sort and the quick sort with median-of-three pivot of \<^verbatim>\<open>src/common/qalgorithm.h\<close>.  The
  partition loop of the quick sort does not always end, so it is a \<open>partial_function (option)\<close>
  whose result \<open>None\<close> is a run that never returns.
\<close>

section \<open>Heap sort\<close>

text \<open>
  The children of \<open>i\<close> lie after \<open>i\<close> because no index is negative; the guard \<open>0 \<le> i\<close> of the
  recursive call says so.
\<close>

function heapAdjust :: "'k::linorder list \<Rightarrow> int \<Rightarrow> int \<Rightarrow> 'k list" where
  "heapAdjust v sz i =
     (let l = 2 * i + 1; r = 2 * i + 2;
          largest = (if l < sz \<and> aget v l > aget v i then l else i);
          largest = (if r < sz \<and> aget v r > aget v largest then r else largest)
      in if largest \<noteq> i \<and> 0 \<le> i then heapAdjust (aswap v i largest) sz largest else v)"
  by pat_completeness auto
termination
  by (relation "measure (\<lambda>(_, sz, i). nat (sz - i))") (auto simp: Let_def split: if_splits)

function heap_build :: "'k::linorder list \<Rightarrow> int \<Rightarrow> int \<Rightarrow> 'k list" where
  "heap_build v sz i = (if i \<ge> 0 then heap_build (heapAdjust v sz i) sz (i - 1) else v)"
  by pat_completeness auto
termination
  by (relation "measure (\<lambda>(_, _, i). nat (i + 1))") auto

function heap_extract :: "'k::linorder list \<Rightarrow> int \<Rightarrow> int \<Rightarrow> 'k list" where
  "heap_extract v sz i =
     (if i > 0 then heap_extract (heapAdjust (aswap v 0 i) (sz - 1) 0) (sz - 1) (i - 1) else v)"
  by pat_completeness auto
termination
  by (relation "measure (\<lambda>(_, _, i). nat i)") auto

definition Q_Heap_Sort :: "'k::linorder list \<Rightarrow> int \<Rightarrow> 'k list" where
  "Q_Heap_Sort v sz = heap_extract (heap_build v sz (cdiv sz 2 - 1)) sz (sz - 1)"

declare heapAdjust.simps [simp del] heap_build.simps [simp del] heap_extract.simps [simp del]

lemma heapAdjust_spec:
  "0 \<le> s \<Longrightarrow> s \<le> i \<Longrightarrow> i < sz \<Longrightarrow> sz \<le> alen v \<Longrightarrow> down_hole (\<ge>) s (sz - 1) i v \<Longrightarrow>
   perm_on s (sz - 1) v (heapAdjust v sz i) \<and> heap_from (\<ge>) s (sz - 1) (heapAdjust v sz i)"
proof (induction "nat (sz - i)" arbitrary: v i rule: less_induct)
  case less
  define l1 where "l1 = (if 2 * i + 1 < sz \<and> aget v (2 * i + 1) > aget v i then 2 * i + 1 else i)"
  define c where "c = (if 2 * i + 2 < sz \<and> aget v (2 * i + 2) > aget v l1 then 2 * i + 2 else l1)"
  have eq: "heapAdjust v sz i = (if c \<noteq> i then heapAdjust (aswap v i c) sz c else v)"
    using less.prems by (subst heapAdjust.simps) (simp add: Let_def c_def l1_def)
  have top: "aget v k \<le> aget v c" if "k = i \<or> edge i k" "k \<le> sz - 1" for k
    using that by (auto simp: c_def l1_def edge_def split: if_splits)
  show ?case
  proof (cases "c = i")
    case True
    with top have "heap_from (\<ge>) s (sz - 1) v"
      using less.prems(5) by (intro descending.down_done) auto
    with True eq show ?thesis by simp
  next
    case False
    then have c: "edge i c" "c < sz" "i < c" using less.prems
      by (auto simp: c_def l1_def edge_def split: if_splits)
    have r: "in_range v i" "in_range v c" using c less.prems by (auto simp: in_range_def)
    have "down_hole (\<ge>) s (sz - 1) c (aswap v i c)"
      using less.prems c top by (intro descending.down_swap) auto
    moreover have "perm_on s (sz - 1) v (aswap v i c)"
      using r c less.prems by (intro perm_on_aswap) auto
    moreover have "perm_on s (sz - 1) (aswap v i c) (heapAdjust (aswap v i c) sz c)
        \<and> heap_from (\<ge>) s (sz - 1) (heapAdjust (aswap v i c) sz c)" if "down_hole (\<ge>) s (sz - 1) c (aswap v i c)"
      using that c less.prems by (intro less.hyps) auto
    ultimately show ?thesis using eq False by (auto intro: perm_on_trans)
  qed
qed

lemma heap_build_spec:
  "- 1 \<le> i \<Longrightarrow> i < sz \<Longrightarrow> sz \<le> alen v \<Longrightarrow> heap_from (\<ge>) (i + 1) (sz - 1) v \<Longrightarrow>
   perm_on 0 (sz - 1) v (heap_build v sz i) \<and> heap_from (\<ge>) 0 (sz - 1) (heap_build v sz i)"
proof (induction v sz i rule: heap_build.induct)
  case (1 v sz i)
  show ?case
  proof (cases "i \<ge> 0")
    case True
    let ?w = "heapAdjust v sz i"
    have a: "perm_on i (sz - 1) v ?w" "heap_from (\<ge>) i (sz - 1) ?w"
      using heapAdjust_spec [of i i sz v] down_hole_start [of "(\<ge>)" i "sz - 1" v] True "1.prems" by auto
    have p: "perm_on 0 (sz - 1) v ?w" using a(1) True by (auto intro: perm_on_mono)
    have "heap_build v sz i = heap_build ?w sz (i - 1)" using True by (subst heap_build.simps) simp
    with "1.IH" [OF True] a(2) p True "1.prems" perm_on_alen [OF p] show ?thesis by (auto intro: perm_on_trans)
  next
    case False
    with "1.prems" have "i = - 1" by simp
    with "1.prems" show ?thesis by (subst (1 2) heap_build.simps) simp
  qed
qed

lemma heap_extract_spec:
  "0 \<le> i \<Longrightarrow> i \<le> n \<Longrightarrow> n < alen v \<Longrightarrow> heap_from (\<ge>) 0 i v \<Longrightarrow>
   (\<And>a b. 0 \<le> a \<Longrightarrow> a \<le> b \<Longrightarrow> i < b \<Longrightarrow> b \<le> n \<Longrightarrow> aget v a \<le> aget v b) \<Longrightarrow>
   perm_on 0 n v (heap_extract v (i + 1) i) \<and> sorted_on id 0 n (heap_extract v (i + 1) i)"
proof (induction "nat i" arbitrary: v i rule: less_induct)
  case less
  show ?case
  proof (cases "i > 0")
    case True
    let ?u = "aswap v 0 i"
    let ?w = "heapAdjust ?u i 0"
    have r: "in_range v 0" "in_range v i" using True less.prems by (auto simp: in_range_def)
    have rd: "aget ?u k = (if k = 0 then aget v i else if k = i then aget v 0 else aget v k)"
      if "0 \<le> k" "k \<le> n" for k
      using that r less.prems by (intro aget_aswap) (auto simp: in_range_def)
    have "heap_from (\<ge>) (0 + 1) (i - 1) v" using less.prems(4) by (auto simp: heap_from_def)
    then have h1: "heap_from (\<ge>) (0 + 1) (i - 1) ?u"
      by (rule heap_from_cong) (use less.prems(2) in \<open>auto simp: rd\<close>)
    have w: "perm_on 0 (i - 1) ?u ?w" "heap_from (\<ge>) 0 (i - 1) ?w"
      using heapAdjust_spec [of 0 0 i ?u] down_hole_start [OF h1] True less.prems by auto
    have "perm_on 0 n v ?u" using r less.prems by (intro perm_on_aswap) auto
    moreover have "perm_on 0 n ?u ?w" using w(1) less.prems by (auto intro: perm_on_mono)
    ultimately have p: "perm_on 0 n v ?w" by (rule perm_on_trans)
    have top: "aget v k \<le> aget v 0" if "0 \<le> k" "k \<le> i" for k
      using descending.root_le [OF less.prems(4) that] by simp
    have out: "aget ?w k = aget ?u k" if "i - 1 < k" "k \<le> n" for k
      using perm_on_outside [OF w(1)] that less.prems True by (auto simp: in_range_def)
    have above: "aget ?w a \<le> aget ?w b" if "0 \<le> a" "a \<le> b" "i - 1 < b" "b \<le> n" for a b
    proof (cases "a \<le> i - 1")
      case True
      have b: "aget v k \<le> aget ?u b" if "0 \<le> k" "k \<le> i" for k
        using that \<open>i - 1 < b\<close> \<open>b \<le> n\<close> top less.prems(5) [of k b] less.prems(1) by (auto simp: rd)
      have "aget ?w a \<le> aget ?u b"
        by (rule perm_on_all [OF w(1), of "\<lambda>x. x \<le> aget ?u b"])
          (use True that less.prems b in \<open>auto simp: rd\<close>)
      with out that show ?thesis by simp
    next
      case False
      then show ?thesis using that out top less.prems(5) [of a b] less.prems(1) \<open>i > 0\<close>
        by (auto simp: rd less.prems(5))
    qed
    have "heap_extract v (i + 1) i = heap_extract ?w i (i - 1)" using True by (subst heap_extract.simps) simp
    moreover have "perm_on 0 n ?w (heap_extract ?w (i - 1 + 1) (i - 1)) \<and> sorted_on id 0 n (heap_extract ?w (i - 1 + 1) (i - 1))"
      using True w(2) above less.prems(2,3) perm_on_alen [OF p] by (intro less.hyps) auto
    ultimately show ?thesis using p by (auto intro: perm_on_trans)
  next
    case False
    with less.prems have i: "i = 0" by simp
    then have "sorted_on id 0 n v" using less.prems(5) by (auto intro!: sorted_onI)
    with i show ?thesis by (subst (1 2) heap_extract.simps) simp
  qed
qed

lemma Q_Heap_Sort_spec:
  assumes "0 \<le> sz" "sz \<le> alen v"
  shows "perm_on 0 (sz - 1) v (Q_Heap_Sort v sz) \<and> sorted_on id 0 (sz - 1) (Q_Heap_Sort v sz)"
proof (cases "sz = 0")
  case True
  then show ?thesis by (simp add: Q_Heap_Sort_def heap_build.simps heap_extract.simps)
next
  case False
  let ?w = "heap_build v sz (sz div 2 - 1)"
  have w: "perm_on 0 (sz - 1) v ?w" "heap_from (\<ge>) 0 (sz - 1) ?w"
    using heap_build_spec [of "sz div 2 - 1" sz v] heap_from_vacuous [of "sz - 1" "sz div 2" "(\<ge>)" v] False assms by auto
  have "perm_on 0 (sz - 1) ?w (heap_extract ?w (sz - 1 + 1) (sz - 1))
      \<and> sorted_on id 0 (sz - 1) (heap_extract ?w (sz - 1 + 1) (sz - 1))"
    using False assms w(2) perm_on_alen [OF w(1)] by (intro heap_extract_spec) auto
  with w(1) assms show ?thesis by (auto simp: Q_Heap_Sort_def intro: perm_on_trans)
qed

section \<open>Quick sort\<close>

text \<open>The result is the pivot, which is the last cell of the range afterwards, and the array.\<close>

definition median3 :: "'k::linorder list \<Rightarrow> int \<Rightarrow> int \<Rightarrow> 'k \<times> 'k list" where
  "median3 v lBegin lEnd =
     (let mid = cdiv (lBegin + lEnd) 2;
          k = (if aget v mid < aget v lBegin then mid else lBegin);
          k = (if aget v lEnd < aget v k then lEnd else k);
          v = (if k \<noteq> lBegin then aswap v k lBegin else v);
          v = (if mid \<noteq> lEnd \<and> aget v mid < aget v lEnd then aswap v mid lEnd else v)
      in (aget v lEnd, v))"

text \<open>The two inner loops of \<open>partition\<close> are the scans of the multi-key sorts.\<close>

partial_function (option) partition_loop :: "'k::linorder \<Rightarrow> 'k list \<Rightarrow> int \<Rightarrow> int \<Rightarrow> ('k list \<times> int) option" where
  "partition_loop pivot v i j =
     (let i' = scan_up (<) aget v pivot i j; j' = scan_down (>) aget v pivot i' j
      in if i' < j' then partition_loop pivot (aswap v i' j') i' j' else Some (v, i'))"

definition partition_range :: "'k::linorder list \<Rightarrow> int \<Rightarrow> int \<Rightarrow> ('k list \<times> int) option" where
  "partition_range v lBegin lEnd =
     (if lBegin < lEnd then
        let (pivot, v1) = median3 v lBegin lEnd
        in (case partition_loop pivot v1 lBegin (lEnd - 1) of
              None \<Rightarrow> None
            | Some (v2, i) \<Rightarrow>
                Some (if aget v2 i > pivot then aset (aset v2 lEnd (aget v2 i)) i pivot else v2, i))
      else Some (v, lBegin))"

partial_function (option) Q_Quick_Sort :: "'k::linorder list \<Rightarrow> int \<Rightarrow> int \<Rightarrow> 'k list option" where
  "Q_Quick_Sort v lBegin lEnd =
     (if lEnd - lBegin \<le> 20 then Some (Q_Insert_Sort v lBegin lEnd)
      else (case partition_range v lBegin lEnd of None \<Rightarrow> None
        | Some (v1, pivotpos) \<Rightarrow>
            Option.bind (Q_Quick_Sort v1 lBegin (pivotpos - 1))
              (\<lambda>v2. Q_Quick_Sort v2 (pivotpos + 1) lEnd)))"

subsection \<open>Equal keys: the partition never returns\<close>

text \<open>
  When the scans stop at two cells that both hold the pivot, the exchange changes nothing and
  neither index moves.
\<close>

definition stuck_at :: "'k \<Rightarrow> 'k list \<Rightarrow> int \<Rightarrow> int \<Rightarrow> bool" where
  "stuck_at pivot v i j \<longleftrightarrow> i < j \<and> 0 \<le> i \<and> j < alen v \<and> aget v i = pivot \<and> aget v j = pivot"

lemma partition_loop_not_stuck:
  assumes "partition_loop pivot v i j = Some y"
  shows "\<not> stuck_at pivot v i j"
proof (rule partition_loop.raw_induct [where P = "\<lambda>pivot v i j _. \<not> stuck_at pivot v i j", OF _ assms])
  fix loop :: "'a \<Rightarrow> 'a list \<Rightarrow> int \<Rightarrow> int \<Rightarrow> ('a list \<times> int) option" and pivot v i j y
  assume ih: "\<And>p w a b z. loop p w a b = Some z \<Longrightarrow> \<not> stuck_at p w a b"
    and body: "(let i' = scan_up (<) aget v pivot i j; j' = scan_down (>) aget v pivot i' j
      in if i' < j' then loop pivot (aswap v i' j') i' j' else Some (v, i')) = Some y"
  show "\<not> stuck_at pivot v i j"
  proof
    assume a: "stuck_at pivot v i j"
    then have scans: "scan_up (<) aget v pivot i j = i" "scan_down (>) aget v pivot i j = j"
      by (auto simp: stuck_at_def scan_up.simps [of _ _ _ _ i] scan_down.simps [of _ _ _ _ i])
    have "stuck_at pivot (aswap v i j) i j"
      using a by (auto simp: stuck_at_def in_range_def aget_aswap)
    moreover have "loop pivot (aswap v i j) i j = Some y"
      using body scans a by (simp add: Let_def stuck_at_def)
    ultimately show False using ih by blast
  qed
qed

lemma partition_loop_stuck: "stuck_at pivot v i j \<Longrightarrow> partition_loop pivot v i j = None"
  by (cases "partition_loop pivot v i j") (auto dest: partition_loop_not_stuck)

lemma median3_constant:
  assumes "\<And>k. lBegin \<le> k \<Longrightarrow> k \<le> lEnd \<Longrightarrow> aget v k = x" "lBegin \<le> lEnd"
  shows "median3 v lBegin lEnd = (x, v)"
  using assms cdiv_middle [OF assms(2)] by (simp add: median3_def Let_def)

lemma Q_Quick_Sort_equal_keys:
  assumes "0 \<le> lBegin" "lEnd < alen v" "20 < lEnd - lBegin"
    and "\<And>k. lBegin \<le> k \<Longrightarrow> k \<le> lEnd \<Longrightarrow> aget v k = x"
  shows "Q_Quick_Sort v lBegin lEnd = None"
proof -
  have "partition_loop x v lBegin (lEnd - 1) = None"
    using assms by (auto intro!: partition_loop_stuck simp: stuck_at_def)
  then have "partition_range v lBegin lEnd = None"
    using assms median3_constant [of lBegin lEnd v x] by (simp add: partition_range_def)
  then show ?thesis using assms by (subst Q_Quick_Sort.simps) simp
qed

subsection \<open>Distinct keys: the sort is correct\<close>

definition distinct_on :: "int \<Rightarrow> int \<Rightarrow> 'k list \<Rightarrow> bool" where
  "distinct_on lo hi v \<longleftrightarrow> (\<forall>a b. lo \<le> a \<longrightarrow> a < b \<longrightarrow> b \<le> hi \<longrightarrow> aget v a \<noteq> aget v b)"

lemma distinct_on_slice:
  assumes "0 \<le> lo" "hi < alen v"
  shows "distinct_on lo hi v \<longleftrightarrow> distinct (slice lo hi v)"
proof -
  have nth: "slice lo hi v ! k = aget v (lo + int k)" if "k < length (slice lo hi v)" for k
    using that assms by (auto simp: slice_def aget_def nat_add_distrib)
  have len: "length (slice lo hi v) = nat (hi + 1 - lo)" using assms by (auto simp: slice_def alen_def)
  then have le: "lo + int k \<le> hi" if "k < length (slice lo hi v)" for k using that by linarith
  show ?thesis
  proof
    assume d: "distinct_on lo hi v"
    show "distinct (slice lo hi v)"
      unfolding distinct_conv_nth
    proof (intro allI impI)
      fix i j assume ij: "i < length (slice lo hi v)" "j < length (slice lo hi v)" "i \<noteq> j"
      then consider "i < j" | "j < i" by linarith
      then show "slice lo hi v ! i \<noteq> slice lo hi v ! j"
        using d [unfolded distinct_on_def, rule_format, of "lo + int i" "lo + int j"]
          d [unfolded distinct_on_def, rule_format, of "lo + int j" "lo + int i"] ij le
        by cases (auto simp: nth)
    qed
  next
    assume d: "distinct (slice lo hi v)"
    show "distinct_on lo hi v"
      unfolding distinct_on_def
    proof (intro allI impI)
      fix a b assume ab: "lo \<le> a" "a < b" "b \<le> hi"
      then have "nat (a - lo) < length (slice lo hi v)" "nat (b - lo) < length (slice lo hi v)"
        "nat (a - lo) \<noteq> nat (b - lo)" using len by auto
      with d ab show "aget v a \<noteq> aget v b"
        using nth [of "nat (a - lo)"] nth [of "nat (b - lo)"] by (simp add: distinct_conv_nth) metis
    qed
  qed
qed

lemma distinct_on_perm:
  assumes "distinct_on lo hi v" "perm_on lo hi v w" "0 \<le> lo" "lo \<le> hi + 1" "hi < alen v"
  shows "distinct_on lo hi w"
  using assms perm_on_mset_slice [OF assms(2-5)] perm_on_alen [OF assms(2)]
  by (metis distinct_on_slice distinct_count_atmost_1 mset_eq_imp_distinct_iff)

lemma median3_spec:
  assumes r: "0 \<le> lo" "lo + 1 < hi" "hi < alen v"
  defines "v' \<equiv> snd (median3 v lo hi)"
  shows "fst (median3 v lo hi) = aget v' hi" "perm_on lo hi v v'"
    "lo < (lo + hi) div 2" "(lo + hi) div 2 < hi" "aget v' hi \<le> aget v' ((lo + hi) div 2)"
proof -
  let ?m = "(lo + hi) div 2"
  define k1 where "k1 = (if aget v ?m < aget v lo then ?m else lo)"
  define k where "k = (if aget v hi < aget v k1 then hi else k1)"
  define v1 where "v1 = (if k \<noteq> lo then aswap v k lo else v)"
  show m: "lo < ?m" "?m < hi" using r by auto
  have k: "lo \<le> k" "k \<le> hi" using m by (auto simp: k_def k1_def)
  have v': "v' = (if aget v1 ?m < aget v1 hi then aswap v1 ?m hi else v1)"
    using r m by (simp add: v'_def median3_def Let_def v1_def k_def k1_def)
  show "fst (median3 v lo hi) = aget v' hi" by (simp add: v'_def median3_def Let_def)
  have p1: "perm_on lo hi v v1" using k r by (auto simp: v1_def in_range_def intro!: perm_on_aswap)
  have r1: "in_range v1 ?m" "in_range v1 hi" using m r perm_on_alen [OF p1] by (auto simp: in_range_def)
  have "perm_on lo hi v1 v'" using r1 m by (auto simp: v' intro!: perm_on_aswap)
  with p1 show "perm_on lo hi v v'" by (rule perm_on_trans)
  show "aget v' hi \<le> aget v' ?m" using r1 by (auto simp: v' aget_aswap)
qed

text \<open>What the scans have established around the indices \<open>i\<close> and \<open>j\<close>.\<close>

definition part_ok :: "int \<Rightarrow> int \<Rightarrow> 'k::linorder \<Rightarrow> 'k list \<Rightarrow> int \<Rightarrow> int \<Rightarrow> bool" where
  "part_ok lo hi pivot v i j \<longleftrightarrow> lo \<le> i \<and> i \<le> j \<and> j \<le> hi \<and>
     (\<forall>k. lo \<le> k \<longrightarrow> k \<le> hi \<longrightarrow> aget v k \<noteq> pivot) \<and>
     (\<forall>k. lo \<le> k \<longrightarrow> k < i \<longrightarrow> aget v k < pivot) \<and> (\<forall>k. j < k \<longrightarrow> k \<le> hi \<longrightarrow> pivot < aget v k) \<and>
     (\<exists>k. i \<le> k \<and> k \<le> j \<and> pivot < aget v k)"

lemma part_ok_scans:
  assumes ok: "part_ok lo hi pivot v i j"
  defines "i' \<equiv> scan_up (<) aget v pivot i j"
  defines "j' \<equiv> scan_down (>) aget v pivot i' j"
  shows "part_ok lo hi pivot v i' j'" "i \<le> i'" "j' \<le> j" "pivot < aget v i'"
    "i' < j' \<Longrightarrow> aget v j' < pivot" "i < j \<Longrightarrow> aget v i < pivot \<Longrightarrow> i < i'"
proof -
  have ij: "lo \<le> i" "i \<le> j" "j \<le> hi" using ok by (auto simp: part_ok_def)
  have up: "i \<le> i'" "i' \<le> j" "\<And>k. i \<le> k \<Longrightarrow> k < i' \<Longrightarrow> aget v k < pivot" "i' < j \<Longrightarrow> \<not> aget v i' < pivot"
    using scan_up_spec [of i j "(<)" aget v pivot] ij by (auto simp: i'_def)
  have dn: "i' \<le> j'" "j' \<le> j" "\<And>k. j' < k \<Longrightarrow> k \<le> j \<Longrightarrow> pivot < aget v k" "i' < j' \<Longrightarrow> \<not> pivot < aget v j'"
    using scan_down_spec [of i' j "(>)" aget v pivot] up by (auto simp: j'_def)
  obtain k where k: "i \<le> k" "k \<le> j" "pivot < aget v k" using ok by (auto simp: part_ok_def)
  have ne: "aget v x \<noteq> pivot" if "lo \<le> x" "x \<le> hi" for x using ok that by (simp add: part_ok_def)
  show pi: "pivot < aget v i'"
  proof (cases "i' < j")
    case True
    with up ne [of i'] ij show ?thesis by force
  next
    case False
    with up have "i' = j" by simp
    moreover have "\<not> k < i'" using up(3) [of k] k by auto
    ultimately show ?thesis using k by (metis linorder_not_less order_antisym_conv)
  qed
  have left: "aget v k < pivot" if "lo \<le> k" "k < i'" for k
    using ok up(3) [of k] that by (cases "k < i") (auto simp: part_ok_def)
  have right: "pivot < aget v k" if "j' < k" "k \<le> hi" for k
    using ok dn(3) [of k] that by (cases "j < k") (auto simp: part_ok_def)
  show "part_ok lo hi pivot v i' j'"
    unfolding part_ok_def using up dn ij left right ne pi by (auto intro!: exI [of _ i'])
  show "i \<le> i'" "j' \<le> j" by fact+
  show "aget v j' < pivot" if "i' < j'" using dn(4) [OF that] ne [of j'] that up dn ij by force
  show "i < i'" if "i < j" "aget v i < pivot" using pi that up by (cases "i = i'") auto
qed

lemma part_ok_swap:
  assumes ok: "part_ok lo hi pivot v i j" and lt: "i < j" "pivot < aget v i" "aget v j < pivot"
    and r: "0 \<le> lo" "hi < alen v"
  shows "part_ok lo hi pivot (aswap v i j) i j" "aget (aswap v i j) i < pivot" "perm_on lo hi v (aswap v i j)"
proof -
  have ij: "lo \<le> i" "j \<le> hi" using ok by (auto simp: part_ok_def)
  then have rg: "in_range v i" "in_range v j" using r lt by (auto simp: in_range_def)
  have rd: "aget (aswap v i j) k = (if k = i then aget v j else if k = j then aget v i else aget v k)"
    if "lo \<le> k" "k \<le> hi" for k
    using that r rg by (intro aget_aswap) (auto simp: in_range_def)
  show "aget (aswap v i j) i < pivot" using lt ij by (simp add: rd)
  show "perm_on lo hi v (aswap v i j)" using rg ij lt by (intro perm_on_aswap) auto
  show "part_ok lo hi pivot (aswap v i j) i j"
    using ok lt ij unfolding part_ok_def by (auto simp: rd intro!: exI [of _ j])
qed

lemma partition_loop_spec:
  assumes "part_ok lo hi pivot v i j" "0 \<le> lo" "hi < alen v"
  shows "\<exists>w p. partition_loop pivot v i j = Some (w, p) \<and> perm_on lo hi v w
    \<and> part_ok lo hi pivot w p p \<and> pivot < aget w p"
  using assms
proof (induction "2 * nat (j - i) + (if pivot < aget v i then 1 else 0)" arbitrary: v i j rule: less_induct)
  case less
  define i' where "i' = scan_up (<) aget v pivot i j"
  define j' where "j' = scan_down (>) aget v pivot i' j"
  note sc = part_ok_scans [OF less.prems(1), folded i'_def, folded j'_def]
  have eq: "partition_loop pivot v i j =
      (if i' < j' then partition_loop pivot (aswap v i' j') i' j' else Some (v, i'))"
    by (subst partition_loop.simps) (simp add: i'_def j'_def Let_def)
  show ?case
  proof (cases "i' < j'")
    case False
    with sc(1) have "j' = i'" by (auto simp: part_ok_def)
    with False eq sc show ?thesis by auto
  next
    case True
    note sw = part_ok_swap [OF sc(1) True sc(4) sc(5) [OF True] less.prems(2,3)]
    have "2 * nat (j' - i') < 2 * nat (j - i) + (if pivot < aget v i then 1 else 0)"
      using sc(2,3) sc(6) True less.prems(1) by (cases "pivot < aget v i") (force simp: part_ok_def)+
    then obtain w p where "partition_loop pivot (aswap v i' j') i' j' = Some (w, p)"
        "perm_on lo hi (aswap v i' j') w" "part_ok lo hi pivot w p p" "pivot < aget w p"
      using less.hyps [OF _ sw(1) less.prems(2)] less_not_sym [OF sw(2)] less.prems(3) by auto
    with eq True sw(3) show ?thesis by (auto intro: perm_on_trans)
  qed
qed

lemma partition_range_spec:
  assumes r: "0 \<le> lo" "lo + 1 < hi" "hi < alen v" and d: "distinct_on lo hi v"
  shows "\<exists>w p. partition_range v lo hi = Some (w, p) \<and> perm_on lo hi v w \<and> lo \<le> p \<and> p < hi
    \<and> (\<forall>k. lo \<le> k \<longrightarrow> k < p \<longrightarrow> aget w k < aget w p) \<and> (\<forall>k. p < k \<longrightarrow> k \<le> hi \<longrightarrow> aget w p < aget w k)"
proof -
  obtain pivot v1 where m3: "median3 v lo hi = (pivot, v1)" by fastforce
  note ms = median3_spec [OF r, unfolded m3, simplified]
  have len1: "alen v1 = alen v" using ms(2) by (rule perm_on_alen)
  have "distinct_on lo hi v1" using distinct_on_perm [OF d ms(2)] r by auto
  then have ne: "aget v1 k \<noteq> pivot" if "lo \<le> k" "k \<le> hi - 1" for k
    using that ms(1) by (auto simp: distinct_on_def)
  have "pivot < aget v1 ((lo + hi) div 2)"
    using ne [of "(lo + hi) div 2"] ms by (simp add: less_le)
  then have "part_ok lo (hi - 1) pivot v1 lo (hi - 1)"
    unfolding part_ok_def using ne ms r
    by (auto intro!: exI [of _ "(lo + hi) div 2"])
  from partition_loop_spec [OF this r(1)] r(3) len1 obtain v2 p where
    v2: "partition_loop pivot v1 lo (hi - 1) = Some (v2, p)" "perm_on lo (hi - 1) v1 v2"
      "part_ok lo (hi - 1) pivot v2 p p" "pivot < aget v2 p" by auto
  have len2: "alen v2 = alen v" using perm_on_alen [OF v2(2)] len1 by simp
  have p: "lo \<le> p" "p < hi" using v2(3) by (auto simp: part_ok_def)
  have rg: "in_range v2 p" "in_range v2 hi" using p r len2 by (auto simp: in_range_def)
  have end2: "aget v2 hi = pivot" using perm_on_outside [OF v2(2), of hi] ms(1) r len1 by (auto simp: in_range_def)
  let ?w = "aset (aset v2 hi (aget v2 p)) p pivot"
  have w: "?w = aswap v2 p hi" using hole_exchange [OF rg, of pivot] p end2 by (metis aset_aget_same less_irrefl)
  have rd: "aget ?w k = (if k = p then pivot else if k = hi then aget v2 p else aget v2 k)" if "lo \<le> k" "k \<le> hi" for k
    using that rg r len2 unfolding w by (subst aget_aswap) (auto simp: in_range_def end2)
  have "perm_on lo hi v2 ?w" unfolding w using rg p by (intro perm_on_aswap) auto
  moreover have "perm_on lo hi v1 v2" using v2(2) by (rule perm_on_mono) auto
  ultimately have "perm_on lo hi v ?w" using ms(2) by (blast intro: perm_on_trans)
  moreover have "partition_range v lo hi = Some (?w, p)"
    using r m3 v2(1,4) by (simp add: partition_range_def)
  moreover have "aget ?w k < aget ?w p" if "lo \<le> k" "k < p" for k
    using that p v2(3) by (auto simp: rd part_ok_def)
  moreover have "aget ?w p < aget ?w k" if "p < k" "k \<le> hi" for k
    using that p v2(3,4) by (auto simp: rd part_ok_def)
  ultimately show ?thesis using p by blast
qed

lemma distinct_on_sub: "distinct_on lo hi v \<Longrightarrow> lo \<le> a \<Longrightarrow> b \<le> hi \<Longrightarrow> distinct_on a b v"
  by (auto simp: distinct_on_def)

lemma Q_Quick_Sort_spec:
  "0 \<le> lo \<Longrightarrow> hi < alen v \<Longrightarrow> distinct_on lo hi v \<Longrightarrow>
   \<exists>w. Q_Quick_Sort v lo hi = Some w \<and> perm_on lo hi v w \<and> sorted_on id lo hi w"
proof (induction "nat (hi - lo)" arbitrary: lo hi v rule: less_induct)
  case less
  show ?case
  proof (cases "hi - lo \<le> 20")
    case True
    then show ?thesis
      using insert.perm [OF less.prems(1,2)] insert.ordered [OF less.prems(1,2)] by (subst Q_Quick_Sort.simps) auto
  next
    case False
    obtain v1 p where v1: "partition_range v lo hi = Some (v1, p)" "perm_on lo hi v v1" "lo \<le> p" "p < hi"
        "\<And>k. lo \<le> k \<Longrightarrow> k < p \<Longrightarrow> aget v1 k < aget v1 p" "\<And>k. p < k \<Longrightarrow> k \<le> hi \<Longrightarrow> aget v1 p < aget v1 k"
      using partition_range_spec [of lo hi v] less.prems False by auto
    have len1: "alen v1 = alen v" and d1: "distinct_on lo hi v1"
      using distinct_on_perm [OF less.prems(3) v1(2)] less.prems False perm_on_alen [OF v1(2)] by auto
    obtain v2 where v2: "Q_Quick_Sort v1 lo (p - 1) = Some v2" "perm_on lo (p - 1) v1 v2" "sorted_on id lo (p - 1) v2"
      using less.hyps [of "p - 1" lo v1] less.prems v1 len1 distinct_on_sub [OF d1] False by auto
    have len2: "alen v2 = alen v" using perm_on_alen [OF v2(2)] len1 by simp
    have p2: "perm_on lo hi v1 v2" using v2(2) by (rule perm_on_mono) (use v1 in auto)
    have d2: "distinct_on lo hi v2" using distinct_on_perm [OF d1 p2] less.prems False len1 by auto
    obtain v3 where v3: "Q_Quick_Sort v2 (p + 1) hi = Some v3" "perm_on (p + 1) hi v2 v3" "sorted_on id (p + 1) hi v3"
      using less.hyps [of hi "p + 1" v2] less.prems v1 len2 distinct_on_sub [OF d2] False by auto
    have out: "aget v2 k = aget v1 k" if "p \<le> k" "k \<le> hi" for k
      using perm_on_outside [OF v2(2), of k] that less.prems v1 len1 by (auto simp: in_range_def)
    have below: "aget v2 k \<le> aget v1 p" if "lo \<le> k" "k \<le> p - 1" for k
      by (rule perm_on_all [OF v2(2), of "\<lambda>x. x \<le> aget v1 p"])
        (use that v1 less.prems len1 in \<open>auto intro: less_imp_le\<close>)
    have s2: "sorted_on id lo p v2"
    proof
      fix a b assume "lo \<le> a" "a < b" "b \<le> p"
      then show "id (aget v2 a) \<le> id (aget v2 b)"
        using below [of a] out [of p] v1(4) sorted_onD [OF v2(3), of a b] by (cases "b = p") auto
    qed
    have "perm_on lo p v1 v2" using v2(2) by (rule perm_on_mono) auto
    from sorted_on_join [OF this s2 v3(2,3), where c = "aget v1 p"] have
      "sorted_on id lo hi v3" "perm_on lo hi v1 v3"
      using less.prems v1 len1 by (auto simp: order.order_iff_strict)
    moreover have "Q_Quick_Sort v lo hi = Some v3"
      using False v1(1) v2(1) v3(1) by (subst Q_Quick_Sort.simps) simp
    ultimately show ?thesis using v1(2) by (auto intro: perm_on_trans)
  qed
qed

section \<open>Properties\<close>

text \<open>
  Heap sort of the first \<open>sz\<close> cells puts them in ascending order and leaves the others alone.
\<close>

lemma Q_Heap_Sort_computes:
  assumes "0 \<le> sz" "sz \<le> alen v"
  shows "Q_Heap_Sort v sz = sort_range v 0 (sz - 1)"
  using Q_Heap_Sort_spec [OF assms] assms by (intro sort_range_unique) auto

text \<open>
  Quick sort returns on every range whose keys are pairwise distinct, and sorts it.
\<close>

lemma Q_Quick_Sort_distinct:
  assumes "0 \<le> lBegin" "lEnd < alen v"
    and "\<forall>a b. lBegin \<le> a \<and> a < b \<and> b \<le> lEnd \<longrightarrow> aget v a \<noteq> aget v b"
  shows "Q_Quick_Sort v lBegin lEnd = Some (sort_range v lBegin lEnd)"
proof -
  have "distinct_on lBegin lEnd v" using assms(3) by (auto simp: distinct_on_def)
  from Q_Quick_Sort_spec [OF assms(1,2) this] show ?thesis
    using sort_range_unique [OF _ _ assms(1,2)] by auto
qed

text \<open>
  C29. Quick sort does not return on more than 21 equal keys: the partition loop exchanges two cells
  that hold the pivot over and over.
\<close>

theorem Q_Quick_Sort_diverges:
  assumes "0 \<le> lBegin" "lEnd < alen v" "20 < lEnd - lBegin"
    and "\<forall>k. lBegin \<le> k \<and> k \<le> lEnd \<longrightarrow> aget v k = x"
  shows "Q_Quick_Sort v lBegin lEnd = None"
  using assms(4) by (intro Q_Quick_Sort_equal_keys [OF assms(1-3)]) auto

theorem Q_Quick_Sort_diverges_witness:
  "Q_Quick_Sort (replicate 22 (7 :: int)) 0 21 = None"
  by (rule Q_Quick_Sort_diverges [where x = 7]) (auto simp: alen_def aget_def)

end
