(* ===== verification/SearchPool.thy ===== *)
theory SearchPool
  imports Queue
begin

text \<open>
  The pool of search objects that master and worker share: \<open>initServer\<close> fills the queue
  \<open>client_search_queue\<close> of \<open>maxclients\<close> cells with \<open>maxclients - 1\<close> objects, and every
  \<open>ns__imSearch\<close> pops an object, works on it and pushes it back
  (\<^verbatim>\<open>src/master/src/pir.cpp\<close>, \<^verbatim>\<open>src/master/src/recgservice.cpp\<close> and the same in the worker).
  The requests run in the threads of the server, so they interleave at these two operations.
\<close>

text \<open>The objects are their \<open>objId\<close>.  \<open>None\<close>: the loop that fills the pool blocks.\<close>

definition fill_pool :: "int \<Rightarrow> int list \<Rightarrow> int QQueue option" where
  "fill_pool maxclients cells =
     push_all QQueue_push (map int [0..<nat (maxclients - 1)]) (snd (QQueue_init maxclients (Some cells) QQueue_new))"

record pool_state =
  ps_pool :: "int QQueue"
  ps_busy :: "(nat \<times> int) list"

text \<open>
  A request \<open>c\<close> starts with the object that \<open>pop\<close> returns and ends by pushing it back.  A request
  whose \<open>pop\<close> or \<open>push\<close> has to wait does not step.
\<close>

inductive pool_step :: "pool_state \<Rightarrow> pool_state \<Rightarrow> bool" where
  search_begin: "QQueue_pop (ps_pool s) = Some (ob, q') \<Longrightarrow>
     pool_step s \<lparr>ps_pool = q', ps_busy = (c, ob) # ps_busy s\<rparr>"
| search_end: "(c, ob) \<in> set (ps_busy s) \<Longrightarrow> QQueue_push (ps_pool s) ob = Some q' \<Longrightarrow>
     pool_step s \<lparr>ps_pool = q', ps_busy = remove1 (c, ob) (ps_busy s)\<rparr>"

inductive_cases pool_stepE: "pool_step s s'"

inductive pool_reachable :: "int \<Rightarrow> int list \<Rightarrow> pool_state \<Rightarrow> bool" for maxclients cells where
  start: "fill_pool maxclients cells = Some q \<Longrightarrow> pool_reachable maxclients cells \<lparr>ps_pool = q, ps_busy = []\<rparr>"
| step: "pool_reachable maxclients cells s \<Longrightarrow> pool_step s s' \<Longrightarrow> pool_reachable maxclients cells s'"

definition pool_inv :: "int \<Rightarrow> pool_state \<Rightarrow> bool" where
  "pool_inv n s \<longleftrightarrow> QQueue_inv (ps_pool s) \<and> QQueue_capacity (ps_pool s) = nat (n - 1) \<and>
     mset (QQueue_contents (ps_pool s)) + mset (map snd (ps_busy s)) = mset (map int [0..<nat (n - 1)])"

lemma fill_pool_ok:
  assumes "0 < n" "length cells = nat n"
  shows "\<exists>q. fill_pool n cells = Some q \<and> pool_inv n \<lparr>ps_pool = q, ps_busy = []\<rparr>"
proof -
  note i = QQueue_init_ok [OF assms, of QQueue_new]
  from ring.push_all_Some [OF i(2), of "map int [0..<nat (n - 1)]"] i(3,4) show ?thesis
    by (auto simp: fill_pool_def pool_inv_def)
qed

lemma pool_inv_step: "pool_inv n s \<Longrightarrow> pool_step s s' \<Longrightarrow> pool_inv n s'"
proof (elim pool_stepE)
  fix ob q' c
  assume inv: "pool_inv n s" and p: "QQueue_pop (ps_pool s) = Some (ob, q')"
    and s': "s' = \<lparr>ps_pool = q', ps_busy = (c, ob) # ps_busy s\<rparr>"
  have "QQueue_inv (ps_pool s)" using inv by (simp add: pool_inv_def)
  from ring.pop_Some [OF this p] inv show "pool_inv n s'" by (auto simp: pool_inv_def s')
next
  fix c ob q'
  assume inv: "pool_inv n s" and m: "(c, ob) \<in> set (ps_busy s)" and p: "QQueue_push (ps_pool s) ob = Some q'"
    and s': "s' = \<lparr>ps_pool = q', ps_busy = remove1 (c, ob) (ps_busy s)\<rparr>"
  have "mset (ps_busy s) = add_mset (c, ob) (mset (remove1 (c, ob) (ps_busy s)))" using m by simp
  then have "mset (map snd (ps_busy s)) = add_mset ob (mset (map snd (remove1 (c, ob) (ps_busy s))))"
    by (metis image_mset_add_mset mset_map snd_conv)
  moreover have "QQueue_inv (ps_pool s)" using inv by (simp add: pool_inv_def)
  ultimately show "pool_inv n s'" using ring.push_Some [OF _ p] inv by (auto simp: pool_inv_def s')
qed

lemma pool_reachable_inv:
  "pool_reachable n cells s \<Longrightarrow> 0 < n \<Longrightarrow> length cells = nat n \<Longrightarrow> pool_inv n s"
proof (induction rule: pool_reachable.induct)
  case (start q)
  with fill_pool_ok [of n cells] show ?case by auto
next
  case (step s s')
  then show ?case using pool_inv_step by blast
qed

lemma pool_inv_facts:
  assumes inv: "pool_inv n s" and n: "0 < n"
  shows "distinct (map snd (ps_busy s))" "set (map snd (ps_busy s)) \<subseteq> {0..<n - 1}"
    and "length (QQueue_contents (ps_pool s)) + length (ps_busy s) = nat (n - 1)"
proof -
  have m: "mset (QQueue_contents (ps_pool s) @ map snd (ps_busy s)) = mset (map int [0..<nat (n - 1)])"
    using inv by (simp add: pool_inv_def)
  have "distinct (map int [0..<nat (n - 1)])" by (simp add: distinct_map)
  then have "distinct (QQueue_contents (ps_pool s) @ map snd (ps_busy s))" using mset_eq_imp_distinct_iff [OF m] by simp
  then show "distinct (map snd (ps_busy s))" by simp
  have "set (QQueue_contents (ps_pool s) @ map snd (ps_busy s)) = int ` {0..<nat (n - 1)}"
    using mset_eq_setD [OF m] by simp
  moreover have "int ` {0..<nat (n - 1)} = {0..<n - 1}" using n by (simp add: image_int_atLeastLessThan)
  ultimately show "set (map snd (ps_busy s)) \<subseteq> {0..<n - 1}" by auto
  show "length (QQueue_contents (ps_pool s)) + length (ps_busy s) = nat (n - 1)"
    using mset_eq_length [OF m] by simp
qed

section \<open>Properties\<close>

text \<open>
  C4. Filling the pool never blocks, and in every state that the interleaved searches can reach, no
  two running searches share an object, every object has an id below \<open>maxclients - 1\<close>, and a search
  that is done can push its object back at once.
\<close>

theorem search_pool_safe:
  assumes "0 < maxclients" "length cells = nat maxclients"
  shows "(\<exists>q. fill_pool maxclients cells = Some q) \<and>
    (\<forall>s. pool_reachable maxclients cells s \<longrightarrow>
       distinct (map snd (ps_busy s)) \<and> (\<forall>(c, ob) \<in> set (ps_busy s). 0 \<le> ob \<and> ob < maxclients - 1
         \<and> QQueue_push (ps_pool s) ob \<noteq> None))"
proof (intro conjI allI impI)
  show "\<exists>q. fill_pool maxclients cells = Some q" using fill_pool_ok [OF assms] by blast
  fix s assume "pool_reachable maxclients cells s"
  then have inv: "pool_inv maxclients s" using assms by (intro pool_reachable_inv) auto
  note f = pool_inv_facts [OF inv assms(1)]
  show "distinct (map snd (ps_busy s))" by (rule f)
  have "QQueue_push (ps_pool s) ob \<noteq> None" if "(c, ob) \<in> set (ps_busy s)" for c ob
  proof -
    have "0 < length (ps_busy s)" using that by (cases "ps_busy s") auto
    moreover have "QQueue_capacity (ps_pool s) = nat (maxclients - 1)" using inv by (simp add: pool_inv_def)
    ultimately have "length (QQueue_contents (ps_pool s)) \<noteq> QQueue_capacity (ps_pool s)"
      using f(3) by linarith
    then show ?thesis using ring.push_None [of "ps_pool s" ob] inv by (simp add: pool_inv_def)
  qed
  moreover have "0 \<le> ob \<and> ob < maxclients - 1" if "(c, ob) \<in> set (ps_busy s)" for c ob
  proof -
    have "ob \<in> set (map snd (ps_busy s))" using that by force
    then show ?thesis using f(2) by auto
  qed
  ultimately show "\<forall>(c, ob) \<in> set (ps_busy s). 0 \<le> ob \<and> ob < maxclients - 1 \<and> QQueue_push (ps_pool s) ob \<noteq> None"
    by blast
qed

theorem search_pool_safe_witness:
  "\<exists>q. fill_pool 3 [0, 0, 0] = Some q"
  using search_pool_safe [of 3 "[0, 0, 0]"] by simp

text \<open>
  A new search waits for an object exactly when \<open>maxclients - 1\<close> searches are running, and the
  pool is never lost: with no search running it holds all objects again.
\<close>

lemma search_pool_waits:
  assumes "0 < maxclients" "length cells = nat maxclients" "pool_reachable maxclients cells s"
  shows "(QQueue_pop (ps_pool s) = None \<longleftrightarrow> int (length (ps_busy s)) = maxclients - 1)
    \<and> (ps_busy s = [] \<longrightarrow> mset (QQueue_contents (ps_pool s)) = mset (map int [0..<nat (maxclients - 1)]))"
proof -
  have inv: "pool_inv maxclients s" using assms by (intro pool_reachable_inv) auto
  have "QQueue_pop (ps_pool s) = None \<longleftrightarrow> length (QQueue_contents (ps_pool s)) = 0"
    using ring.pop_None [of "ps_pool s"] inv by (simp add: pool_inv_def del: length_QQueue_contents)
  moreover have "length (QQueue_contents (ps_pool s)) = 0 \<longleftrightarrow> int (length (ps_busy s)) = maxclients - 1"
    using pool_inv_facts(3) [OF inv assms(1)] assms(1) by linarith
  ultimately show ?thesis using inv by (auto simp: pool_inv_def)
qed

end
