(* ===== verification/CLib.thy ===== *)
theory CLib
  imports Prelude "HOL-Library.Word"
begin

text \<open>
  The functions of the C library that the configuration reader and the servers use, on strings
  as lists of characters without their terminator: case-insensitive comparison, the integer
  conversions \<open>atoi\<close>, \<open>atol\<close> and \<open>strtoul\<close> (with the saturation of glibc on a 64-bit machine
  followed by the truncation of the cast), \<open>fgets\<close>, and the formats \<^verbatim>\<open>%d\<close> and \<^verbatim>\<open>%02d\<close>.
\<close>

section \<open>Characters\<close>

definition NUL :: char where "NUL = CHR 0x00"
definition CR :: char where "CR = CHR 0x0D"
definition LF :: char where "LF = CHR 0x0A"

definition code :: "char \<Rightarrow> nat" where
  "code c = of_char c"

text \<open>\<open>tolower\<close> in the C locale; the servers only set the collation locale.\<close>

definition tolower :: "char \<Rightarrow> char" where
  "tolower c = (if 65 \<le> code c \<and> code c \<le> 90 then char_of (code c + 32) else c)"

definition isdigit :: "char \<Rightarrow> bool" where
  "isdigit c \<longleftrightarrow> 48 \<le> code c \<and> code c \<le> 57"

definition isspace :: "char \<Rightarrow> bool" where
  "isspace c \<longleftrightarrow> code c = 32 \<or> 9 \<le> code c \<and> code c \<le> 13"

definition digit_val :: "char \<Rightarrow> int" where
  "digit_val c = int (code c) - 48"

definition digit_char :: "nat \<Rightarrow> char" where
  "digit_char d = char_of (48 + d)"

lemma code_char_of [simp]: "n < 256 \<Longrightarrow> code (char_of n) = n"
  by (simp add: code_def)

lemma digit_char_props:
  assumes "d < 10"
  shows "isdigit (digit_char d)" "digit_val (digit_char d) = int d" "\<not> isspace (digit_char d)"
    "code (digit_char d) = 48 + d"
  using assms by (simp_all add: digit_char_def isdigit_def digit_val_def isspace_def)

section \<open>Comparison\<close>

text \<open>The byte at the head of a string, \<open>0\<close> at its end.\<close>

definition head_code :: "string \<Rightarrow> int" where
  "head_code s = (case s of [] \<Rightarrow> 0 | c # _ \<Rightarrow> int (code (tolower c)))"

fun q_strncasecmp :: "string \<Rightarrow> string \<Rightarrow> nat \<Rightarrow> int" where
  "q_strncasecmp a b 0 = 0"
| "q_strncasecmp a b (Suc n) =
     (if head_code a \<noteq> head_code b then head_code a - head_code b
      else if head_code a = 0 then 0
      else q_strncasecmp (tl a) (tl b) n)"

definition q_strcasecmp :: "string \<Rightarrow> string \<Rightarrow> int" where
  "q_strcasecmp a b = q_strncasecmp a b (Suc (max (length a) (length b)))"

definition lower :: "string \<Rightarrow> string" where
  "lower s = map tolower s"

lemma code_eq_iff [simp]: "code a = code b \<longleftrightarrow> a = b"
  by (simp add: code_def)

lemma code_NUL [simp]: "code NUL = 0"
  by (simp add: code_def NUL_def)

lemma code_tolower_0: "code (tolower c) = 0 \<longleftrightarrow> c = NUL"
  using code_eq_iff [of c NUL] by (auto simp add: tolower_def simp del: code_eq_iff)

lemma q_strncasecmp_prefix:
  "NUL \<notin> set k \<Longrightarrow> NUL \<notin> set s \<Longrightarrow>
   q_strncasecmp s k (length k) = 0 \<longleftrightarrow> lower (take (length k) s) = lower k"
proof (induction k arbitrary: s)
  case Nil
  then show ?case by (simp add: lower_def)
next
  case (Cons c k)
  show ?case
  proof (cases s)
    case Nil
    with Cons.prems show ?thesis by (auto simp: head_code_def lower_def code_tolower_0)
  next
    case (Cons d s')
    with Cons.IH [of s'] Cons.prems show ?thesis
      by (auto simp: head_code_def lower_def code_tolower_0)
  qed
qed

section \<open>Conversions\<close>

definition s8 :: "int \<Rightarrow> int" where "s8 x = signed_take_bit 7 x"
definition s16 :: "int \<Rightarrow> int" where "s16 x = signed_take_bit 15 x"
definition s32 :: "int \<Rightarrow> int" where "s32 x = signed_take_bit 31 x"
definition s64 :: "int \<Rightarrow> int" where "s64 x = signed_take_bit 63 x"
definition u8 :: "int \<Rightarrow> int" where "u8 x = take_bit 8 x"
definition u16 :: "int \<Rightarrow> int" where "u16 x = take_bit 16 x"
definition u32 :: "int \<Rightarrow> int" where "u32 x = take_bit 32 x"
definition u64 :: "int \<Rightarrow> int" where "u64 x = take_bit 64 x"

lemma s32_id [simp]: "fits32 x \<Longrightarrow> s32 x = x"
  by (simp add: s32_def fits32_def MIN_INT32_def MAX_INT32_def signed_take_bit_int_eq_self)

lemma s32_fits: "fits32 (s32 x)"
  using signed_take_bit_int_less_exp [of 31 x] signed_take_bit_int_greater_eq_minus_exp [of 31 x]
  by (simp add: s32_def fits32_def MIN_INT32_def MAX_INT32_def)

fun digits_val :: "int \<Rightarrow> string \<Rightarrow> int" where
  "digits_val acc [] = acc"
| "digits_val acc (c # s) = (if isdigit c then digits_val (10 * acc + digit_val c) s else acc)"

text \<open>The number a string denotes: optional blanks, an optional sign, digits up to the first other character.\<close>

definition parse_sign :: "string \<Rightarrow> bool \<times> string" where
  "parse_sign s = (case s of [] \<Rightarrow> (False, s)
     | c # s' \<Rightarrow> if c = CHR ''-'' then (True, s') else if c = CHR ''+'' then (False, s') else (False, s))"

definition parse_int :: "string \<Rightarrow> bool \<times> int" where
  "parse_int s = (let (neg, t) = parse_sign (dropWhile isspace s) in (neg, digits_val 0 t))"

definition strtol :: "string \<Rightarrow> int" where
  "strtol s = (let (neg, n) = parse_int s in max (- (2 ^ 63)) (min (2 ^ 63 - 1) (if neg then - n else n)))"

definition strtoul :: "string \<Rightarrow> int" where
  "strtoul s = (let (neg, n) = parse_int s in
     if n \<ge> 2 ^ 64 then 2 ^ 64 - 1 else if neg then u64 (- n) else n)"

definition atol :: "string \<Rightarrow> int" where
  "atol s = strtol s"

definition atoi :: "string \<Rightarrow> int" where
  "atoi s = s32 (strtol s)"

section \<open>Formats\<close>

fun dec :: "nat \<Rightarrow> string" where
  "dec n = (if n < 10 then [digit_char n] else dec (n div 10) @ [digit_char (n mod 10)])"

declare dec.simps [simp del]

text \<open>\<^verbatim>\<open>%02d\<close> on a number that is not negative.\<close>

definition dec02 :: "nat \<Rightarrow> string" where
  "dec02 n = (if n < 10 then CHR ''0'' # dec n else dec n)"

lemma dec_digits: "\<forall>c\<in>set (dec n). isdigit c"
proof (induction n rule: dec.induct)
  case (1 n)
  then show ?case by (cases "n < 10") (auto simp: dec.simps [of n] digit_char_props)
qed

lemma dec_not_Nil [simp]: "dec n \<noteq> []"
  by (subst dec.simps) simp

lemma digits_val_append:
  "\<forall>c\<in>set s. isdigit c \<Longrightarrow> digits_val acc (s @ t) = digits_val (digits_val acc s) t"
  by (induction s arbitrary: acc) auto

lemma digits_val_dec: "digits_val 0 (dec n) = int n"
proof (induction n rule: dec.induct)
  case (1 n)
  show ?case
  proof (cases "n < 10")
    case True
    then show ?thesis by (subst dec.simps) (simp add: digit_char_props)
  next
    case False
    then have "digits_val 0 (dec n) = digits_val (digits_val 0 (dec (n div 10))) [digit_char (n mod 10)]"
      by (subst dec.simps) (simp add: digits_val_append dec_digits)
    also have "\<dots> = 10 * int (n div 10) + int (n mod 10)" using 1 False by (simp add: digit_char_props)
    also have "\<dots> = int n" by (simp add: zdiv_int zmod_int)
    finally show ?thesis .
  qed
qed

lemma digit_not_special: "isdigit c \<Longrightarrow> \<not> isspace c \<and> c \<noteq> CHR ''-'' \<and> c \<noteq> CHR ''+''"
  by (auto simp: isdigit_def isspace_def code_def)

lemma parse_int_digits:
  assumes "\<forall>c\<in>set s. isdigit c" "s \<noteq> []"
  shows "parse_int s = (False, digits_val 0 s)"
proof -
  obtain c t where s: "s = c # t" using assms(2) by (cases s) auto
  then have "isdigit c" using assms(1) by simp
  with s digit_not_special [of c] show ?thesis by (simp add: parse_int_def parse_sign_def)
qed

lemma atoi_dec [simp]: "int n \<le> MAX_INT32 \<Longrightarrow> atoi (dec n) = int n"
  by (simp add: atoi_def strtol_def parse_int_digits dec_digits digits_val_dec fits32_def
      MIN_INT32_def MAX_INT32_def)

lemma dec02_digits: "\<forall>c\<in>set (dec02 n). isdigit c"
  using dec_digits [of n] by (auto simp: dec02_def isdigit_def code_def)

lemma digits_val_dec02: "digits_val 0 (dec02 n) = int n"
  by (simp add: dec02_def digits_val_dec isdigit_def code_def digit_val_def)

lemma dec02_inj: "dec02 m = dec02 n \<Longrightarrow> m = n"
  by (metis digits_val_dec02 of_nat_eq_iff)

lemma dec_length: "n < 10 ^ Suc k \<Longrightarrow> length (dec n) \<le> Suc k"
proof (induction k arbitrary: n)
  case 0
  then show ?case by (subst dec.simps) simp
next
  case (Suc k)
  show ?case
  proof (cases "n < 10")
    case True
    then show ?thesis by (subst dec.simps) simp
  next
    case False
    have "n div 10 < 10 ^ Suc k" using Suc.prems by (simp add: less_mult_imp_div_less)
    with Suc.IH [of "n div 10"] False show ?thesis by (subst dec.simps) simp
  qed
qed

lemma dec_int32_length: "int n \<le> MAX_INT32 \<Longrightarrow> length (dec n) \<le> 10"
  using dec_length [of n 9] by (simp add: MAX_INT32_def)

section \<open>Reading lines\<close>

fun fgets_line :: "nat \<Rightarrow> string \<Rightarrow> string \<times> string" where
  "fgets_line 0 s = ([], s)"
| "fgets_line (Suc n) [] = ([], [])"
| "fgets_line (Suc n) (c # s) = (if c = LF then ([c], s)
     else (let (l, r) = fgets_line n s in (c # l, r)))"

text \<open>\<open>fgets\<close> with a buffer of \<open>n\<close> bytes: at most \<open>n - 1\<close> characters, up to and with a newline.\<close>

definition fgets :: "nat \<Rightarrow> string \<Rightarrow> (string \<times> string) option" where
  "fgets n s = (if s = [] then None else Some (fgets_line (n - 1) s))"

text \<open>What the string functions see of a buffer: the bytes before the first terminator.\<close>

definition cstr :: "string \<Rightarrow> string" where
  "cstr s = takeWhile (\<lambda>c. c \<noteq> NUL) s"

lemma fgets_line_length: "fgets_line n s = (l, r) \<Longrightarrow> length l \<le> n \<and> s = l @ r"
  by (induction n s arbitrary: l r rule: fgets_line.induct) (auto split: if_splits prod.splits)

lemma fgets_line_shrinks: "0 < n \<Longrightarrow> s \<noteq> [] \<Longrightarrow> fgets_line n s = (l, r) \<Longrightarrow> length r < length s"
  by (cases n; cases s) (auto split: if_splits prod.splits dest: fgets_line_length)

lemma fgets_line_append:
  "LF \<notin> set l \<Longrightarrow> length l < n \<Longrightarrow> fgets_line n (l @ LF # s) = (l @ [LF], s)"
proof (induction l arbitrary: n)
  case Nil
  then show ?case by (cases n) auto
next
  case (Cons c l)
  then show ?case by (cases n) auto
qed

lemma cstr_id [simp]: "NUL \<notin> set s \<Longrightarrow> cstr s = s"
  by (auto simp: cstr_def takeWhile_eq_all_conv)

lemma NUL_cstr [simp]: "NUL \<notin> set (cstr s)"
  by (auto simp: cstr_def dest: set_takeWhileD)

end
