(* ===== verification/ConfigReader.thy ===== *)
theory ConfigReader
  imports CLib
begin

text \<open>
  \<open>QConfigReader\<close> of \<^verbatim>\<open>src/common/qconfigreader.h\<close>: fields of the form \<^verbatim>\<open>name = value\<close>, one per
  line, found by name without regard to case.  The open file is its contents, \<open>None\<close> when \<open>fp\<close> is
  null; every lookup starts at the beginning of the file.  Reading past the 1024 bytes that a
  caller provides is the error \<open>BufferOverflow\<close>.
\<close>

section \<open>The reader\<close>

type_synonym config_file = "string option"

datatype cfg_error = BufferOverflow

definition BUFSIZ_1K :: nat where
  "BUFSIZ_1K = 1024"

definition QConfigReader_init :: "(string \<Rightarrow> string option) \<Rightarrow> string option \<Rightarrow> int \<times> config_file" where
  "QConfigReader_init fopen path =
     (case path of None \<Rightarrow> (- 1, None)
      | Some p \<Rightarrow> (case fopen p of None \<Rightarrow> (- 1, None) | Some contents \<Rightarrow> (0, Some contents)))"

definition cancelEnter :: "string \<Rightarrow> string" where
  "cancelEnter s = rev (dropWhile (\<lambda>c. c = CHR '' '' \<or> c = CR \<or> c = LF) (rev s))"

text \<open>One round of the loop of \<open>getFieldString\<close>: \<open>None\<close> is \<^verbatim>\<open>continue\<close>, else the value at \<open>p1\<close>.\<close>

definition field_of_line :: "string \<Rightarrow> string \<Rightarrow> string option" where
  "field_of_line name buf =
     (let readBuf = cstr buf in
      if q_strncasecmp readBuf name (length name) \<noteq> 0 then None
      else let b = cancelEnter readBuf in
        if length b = 0 then None
        else (case dropWhile (\<lambda>c. c = CHR '' '') (drop (length name) b) of
                [] \<Rightarrow> None
              | c # p1 \<Rightarrow> if c = CHR ''='' then Some (dropWhile (\<lambda>c. c = CHR '' '') p1) else None))"

function find_field :: "string \<Rightarrow> string \<Rightarrow> string option" where
  "find_field name inp =
     (case fgets BUFSIZ_1K inp of
        None \<Rightarrow> None
      | Some (line, rest) \<Rightarrow>
          (case field_of_line name line of Some v \<Rightarrow> Some v | None \<Rightarrow> find_field name rest))"
  by pat_completeness auto
termination
  by (relation "measure (\<lambda>(_, inp). length inp)")
    (auto simp: fgets_def BUFSIZ_1K_def split: if_splits intro: fgets_line_shrinks [of 1023])

declare find_field.simps [simp del]

text \<open>
  The version with a buffer: the return code and the buffer afterwards, which had the contents
  \<open>old\<close>.  The terminator is written at the index \<open>currentLength\<close>.
\<close>

definition getFieldString :: "config_file \<Rightarrow> string \<Rightarrow> int \<Rightarrow> string \<Rightarrow> cfg_error + int \<times> string" where
  "getFieldString fp name fieldValueSize old =
     (case fp of
        None \<Rightarrow> Inr (- 1, old)
      | Some file \<Rightarrow>
          if fieldValueSize \<le> 0 then Inr (- 1, old)
          else if length name = 0 then Inr (- 1, [])
          else (case find_field name file of
                  None \<Rightarrow> Inr (- 1, [])
                | Some v \<Rightarrow>
                    if int (length v) > fieldValueSize then Inr (- 1, [])
                    else if int (length v) = fieldValueSize then Inl BufferOverflow
                    else Inr (int (length v), v)))"

text \<open>The version that duplicates the value (\<open>q_strdup\<close> succeeds, or \<open>q_malloc\<close> has ended the program).\<close>

definition getFieldString_dup :: "config_file \<Rightarrow> string \<Rightarrow> string option \<Rightarrow> int \<times> string option" where
  "getFieldString_dup fp name old =
     (case fp of
        None \<Rightarrow> (- 1, old)
      | Some file \<Rightarrow>
          if length name = 0 then (- 1, old)
          else (case find_field name file of
                  None \<Rightarrow> (- 1, old)
                | Some v \<Rightarrow> (int (length v), Some v)))"

text \<open>The typed readers share their first lines: read into a local buffer and fail unless it is non-empty.\<close>

definition getField :: "config_file \<Rightarrow> string \<Rightarrow> (string \<Rightarrow> (int \<times> 'v)) \<Rightarrow> 'v \<Rightarrow> cfg_error + int \<times> 'v" where
  "getField fp name conv old =
     (case getFieldString fp name (int BUFSIZ_1K) [] of
        Inl e \<Rightarrow> Inl e
      | Inr (n, s) \<Rightarrow> if n \<le> 0 then Inr (- 1, old) else Inr (conv s))"

definition getFieldInt8 :: "config_file \<Rightarrow> string \<Rightarrow> int \<Rightarrow> cfg_error + int \<times> int" where
  "getFieldInt8 fp name = getField fp name (\<lambda>s. (0, s8 (atoi s)))"

definition getFieldUint8 :: "config_file \<Rightarrow> string \<Rightarrow> int \<Rightarrow> cfg_error + int \<times> int" where
  "getFieldUint8 fp name = getField fp name (\<lambda>s. (0, u8 (atoi s)))"

definition getFieldInt16 :: "config_file \<Rightarrow> string \<Rightarrow> int \<Rightarrow> cfg_error + int \<times> int" where
  "getFieldInt16 fp name = getField fp name (\<lambda>s. (0, s16 (atoi s)))"

definition getFieldUint16 :: "config_file \<Rightarrow> string \<Rightarrow> int \<Rightarrow> cfg_error + int \<times> int" where
  "getFieldUint16 fp name = getField fp name (\<lambda>s. (0, u16 (atoi s)))"

definition getFieldInt32 :: "config_file \<Rightarrow> string \<Rightarrow> int \<Rightarrow> cfg_error + int \<times> int" where
  "getFieldInt32 fp name = getField fp name (\<lambda>s. (0, atoi s))"

definition getFieldUint32 :: "config_file \<Rightarrow> string \<Rightarrow> int \<Rightarrow> cfg_error + int \<times> int" where
  "getFieldUint32 fp name = getField fp name (\<lambda>s. (0, u32 (atol s)))"

definition getFieldInt64 :: "config_file \<Rightarrow> string \<Rightarrow> int \<Rightarrow> cfg_error + int \<times> int" where
  "getFieldInt64 fp name = getField fp name (\<lambda>s. (0, s64 (strtoul s)))"

definition getFieldUint64 :: "config_file \<Rightarrow> string \<Rightarrow> int \<Rightarrow> cfg_error + int \<times> int" where
  "getFieldUint64 fp name = getField fp name (\<lambda>s. (0, strtoul s))"

definition getFieldYesNo :: "config_file \<Rightarrow> string \<Rightarrow> int \<Rightarrow> cfg_error + int \<times> int" where
  "getFieldYesNo fp name old =
     getField fp name (\<lambda>s. if q_strcasecmp s ''yes'' = 0 then (0, 1)
       else if q_strcasecmp s ''no'' = 0 then (0, 0) else (- 1, old)) old"

text \<open>The text after the first colon; the seconds are read from the same place as the minutes.\<close>

definition after_colon :: "string \<Rightarrow> string option" where
  "after_colon s = (case dropWhile (\<lambda>c. c \<noteq> CHR '':'') s of [] \<Rightarrow> None | _ # p \<Rightarrow> Some p)"

definition getFieldTime :: "config_file \<Rightarrow> string \<Rightarrow> int \<times> int \<times> int \<Rightarrow> cfg_error + int \<times> int \<times> int \<times> int" where
  "getFieldTime fp name old =
     getField fp name (\<lambda>s.
       let (h, m, sec) = old; hour = s32 (atol s) in
       case after_colon s of
         None \<Rightarrow> (- 1, hour, m, sec)
       | Some p \<Rightarrow>
           let minute = s32 (atol p); second = s32 (atol p)
           in (s32 (hour * 3600 + minute * 60 + second), hour, minute, second)) old"

definition getFieldString_std :: "config_file \<Rightarrow> string \<Rightarrow> string \<Rightarrow> cfg_error + int \<times> string" where
  "getFieldString_std fp name = getField fp name (\<lambda>s. (0, s))"

section \<open>Bounds\<close>

lemma cancelEnter_length: "length (cancelEnter s) \<le> length s"
  by (simp add: cancelEnter_def) (metis length_dropWhile_le length_rev)

lemma cstr_length: "length (cstr s) \<le> length s"
  by (simp add: cstr_def length_takeWhile_le)

lemma field_of_line_length:
  assumes "field_of_line name buf = Some v"
  shows "length name + 1 + length v \<le> length buf"
proof -
  let ?b = "cancelEnter (cstr buf)"
  obtain c p where p: "dropWhile (\<lambda>c. c = CHR '' '') (drop (length name) ?b) = c # p"
      "v = dropWhile (\<lambda>c. c = CHR '' '') p"
    using assms by (auto simp: field_of_line_def Let_def split: if_splits list.splits)
  have "length v \<le> length p" using p(2) by (simp add: length_dropWhile_le)
  moreover have "length (c # p) \<le> length (drop (length name) ?b)" using p(1) by (metis length_dropWhile_le)
  moreover have "length ?b \<le> length buf" using cancelEnter_length cstr_length le_trans by blast
  ultimately show ?thesis by simp
qed

lemma find_field_length: "find_field name inp = Some v \<Longrightarrow> length name + 1 + length v < BUFSIZ_1K"
proof (induction name inp rule: find_field.induct)
  case (1 name inp)
  show ?case
  proof (cases "fgets BUFSIZ_1K inp")
    case None
    with "1.prems" show ?thesis by (simp add: find_field.simps)
  next
    case (Some lr)
    obtain line rest where lr: "fgets BUFSIZ_1K inp = Some (line, rest)" using Some by (cases lr) auto
    have "length line \<le> BUFSIZ_1K - 1"
      using lr fgets_line_length [of "BUFSIZ_1K - 1" inp line rest] by (auto simp: fgets_def split: if_splits)
    then have len: "length line < BUFSIZ_1K" by (simp add: BUFSIZ_1K_def)
    show ?thesis
    proof (cases "field_of_line name line")
      case None
      with "1.prems" lr have "find_field name rest = Some v" by (subst (asm) find_field.simps) simp
      with "1.IH" [OF lr _ None] show ?thesis by simp
    next
      case (Some w)
      with "1.prems" lr have "w = v" by (subst (asm) find_field.simps) simp
      with field_of_line_length [OF Some] len show ?thesis by simp
    qed
  qed
qed

lemma getField_no_overflow: "getField fp name conv old \<noteq> Inl e"
  using find_field_length [of name]
  by (fastforce simp: getField_def getFieldString_def split: option.splits if_splits sum.splits)

section \<open>Rendered files\<close>

text \<open>
  Files as the servers write them: blank lines, comments and fields.  A field name has no
  blank, no \<^verbatim>\<open>=\<close> and does not start with \<^verbatim>\<open>#\<close>; a value has no newline and no blank at its ends;
  every line fits the read buffer.
\<close>

datatype cfg_line = Blank | Remark string | Field string string

definition ok_chars :: "string \<Rightarrow> bool" where
  "ok_chars s \<longleftrightarrow> NUL \<notin> set s \<and> LF \<notin> set s"

definition ok_name :: "string \<Rightarrow> bool" where
  "ok_name n \<longleftrightarrow> n \<noteq> [] \<and> hd n \<noteq> CHR ''#'' \<and> CHR '' '' \<notin> set n \<and> CHR ''='' \<notin> set n \<and> CR \<notin> set n \<and> ok_chars n"

definition ok_value :: "string \<Rightarrow> bool" where
  "ok_value v \<longleftrightarrow> ok_chars v \<and> (v \<noteq> [] \<longrightarrow> hd v \<noteq> CHR '' '' \<and> last v \<noteq> CHR '' '' \<and> last v \<noteq> CR)"

fun line_text :: "cfg_line \<Rightarrow> string" where
  "line_text Blank = []"
| "line_text (Remark r) = CHR ''#'' # r"
| "line_text (Field n v) = n @ '' = '' @ v"

fun ok_line :: "cfg_line \<Rightarrow> bool" where
  "ok_line Blank = True"
| "ok_line (Remark r) = (ok_chars r \<and> length r + 2 < BUFSIZ_1K)"
| "ok_line (Field n v) = (ok_name n \<and> ok_value v \<and> length n + length v + 4 < BUFSIZ_1K)"

definition render :: "cfg_line list \<Rightarrow> string" where
  "render ls = concat (map (\<lambda>l. line_text l @ [LF]) ls)"

fun lookup :: "string \<Rightarrow> cfg_line list \<Rightarrow> string option" where
  "lookup k [] = None"
| "lookup k (Field n v # ls) = (if lower n = lower k then Some v else lookup k ls)"
| "lookup k (_ # ls) = lookup k ls"

lemma special_chars [simp]:
  "LF \<noteq> CHR '' ''" "LF \<noteq> CHR ''=''" "NUL \<noteq> CHR '' ''" "NUL \<noteq> CHR ''=''" "LF \<noteq> NUL" "NUL \<noteq> LF"
  "LF \<noteq> CHR ''#''" "NUL \<noteq> CHR ''#''" "CR \<noteq> CHR ''=''" "CR \<noteq> CHR '' ''"
  "CHR '' '' \<noteq> LF" "CHR ''='' \<noteq> LF" "CHR ''='' \<noteq> CR"
  by (simp_all add: LF_def NUL_def CR_def)

lemma tolower_special:
  "tolower c = CHR '' '' \<longleftrightarrow> c = CHR '' ''" "tolower c = CHR ''#'' \<longleftrightarrow> c = CHR ''#''" "tolower c = LF \<longleftrightarrow> c = LF"
  using code_eq_iff [of "tolower c" "CHR '' ''"] code_eq_iff [of "tolower c" "CHR ''#''"] code_eq_iff [of "tolower c" LF]
  by (auto simp: tolower_def code_def LF_def split: if_splits)

lemma cancelEnter_append:
  assumes "\<forall>c\<in>set t. c = CHR '' '' \<or> c = CR \<or> c = LF"
    and "s \<noteq> [] \<Longrightarrow> last s \<noteq> CHR '' '' \<and> last s \<noteq> CR \<and> last s \<noteq> LF"
  shows "cancelEnter (s @ t) = s"
  using assms by (cases s rule: rev_cases) (auto simp: cancelEnter_def dropWhile_append3 dropWhile_append2)

lemma field_of_line_ok:
  assumes "ok_name k" "NUL \<notin> set line"
  shows "field_of_line k line =
    (if lower (take (length k) line) = lower k
     then (case dropWhile (\<lambda>c. c = CHR '' '') (drop (length k) (cancelEnter line)) of
             [] \<Rightarrow> None | c # p \<Rightarrow> if c = CHR ''='' then Some (dropWhile (\<lambda>c. c = CHR '' '') p) else None)
     else None)"
  using assms q_strncasecmp_prefix [of k line]
  by (auto simp: field_of_line_def ok_name_def ok_chars_def Let_def split: list.splits)

lemma cancelEnter_field:
  assumes "ok_value v"
  shows "cancelEnter (n @ '' = '' @ v @ [LF]) = (if v = [] then n @ '' ='' else n @ '' = '' @ v)"
proof -
  have "last v \<noteq> LF" if "v \<noteq> []" using assms last_in_set [OF that] by (auto simp: ok_value_def ok_chars_def)
  then show ?thesis
    using assms cancelEnter_append [of "'' '' @ [LF]" "n @ '' =''"] cancelEnter_append [of "[LF]" "n @ '' = '' @ v"]
    by (auto simp: ok_value_def ok_chars_def)
qed

lemma field_of_line_Field:
  assumes k: "ok_name k" and n: "ok_name n" and v: "ok_value v"
  shows "field_of_line k (line_text (Field n v) @ [LF]) = (if lower n = lower k then Some v else None)"
proof -
  let ?line = "n @ '' = '' @ v @ [LF]"
  have nul: "NUL \<notin> set ?line" using n v by (auto simp: ok_name_def ok_value_def ok_chars_def)
  have lenl: "lower a = lower b \<Longrightarrow> length a = length b" for a b by (auto simp: lower_def dest: map_eq_imp_length_eq)
  have pre: "lower (take (length k) ?line) = lower k \<longleftrightarrow> length k \<le> length n \<and> lower (take (length k) n) = lower k"
  proof (cases "length k \<le> length n")
    case True
    then show ?thesis by simp
  next
    case False
    have "lower (take (length k) ?line) \<noteq> lower k"
    proof
      assume e: "lower (take (length k) ?line) = lower k"
      from False e have "lower (take (length k) ?line) ! length n = lower k ! length n" by simp
      moreover have "length n < length (take (length k) ?line)" using False by simp
      ultimately have "tolower (k ! length n) = tolower (CHR '' '')"
        using False by (simp add: lower_def nth_append)
      then have "k ! length n = CHR '' ''" using tolower_special(1) by (metis (full_types))
      then show False using k False by (metis linorder_not_le nth_mem ok_name_def)
    qed
    with False show ?thesis by simp
  qed
  note f = field_of_line_ok [OF k nul, unfolded pre cancelEnter_field [OF v]]
  have "field_of_line k ?line = (if lower n = lower k then Some v else None)"
  proof (cases "lower n = lower k")
    case True
    then have len: "length k = length n" by (metis lenl)
    have hv: "dropWhile (\<lambda>c. c = CHR '' '') v = v" using v by (cases v) (auto simp: ok_value_def)
    show ?thesis unfolding f using True len hv by simp
  next
    case False
    show ?thesis
    proof (cases "length k \<le> length n \<and> lower (take (length k) n) = lower k")
      case True
      with False have "length k < length n" by (cases "length k = length n") auto
      then obtain c r where cr: "drop (length k) n = c # r" by (metis Cons_nth_drop_Suc)
      then have "c \<in> set n" by (metis list.set_intros(1) in_set_dropD)
      then have "c \<noteq> CHR '' ''" "c \<noteq> CHR ''=''" using n by (auto simp: ok_name_def)
      with cr False True show ?thesis unfolding f by simp
    next
      case no: False
      with False show ?thesis unfolding f by auto
    qed
  qed
  then show ?thesis by simp
qed

lemma field_of_line_other:
  assumes "ok_name k" "ok_line l" "\<And>n v. l \<noteq> Field n v"
  shows "field_of_line k (line_text l @ [LF]) = None"
proof -
  obtain c k' where k: "k = c # k'" using assms(1) by (cases k) (auto simp: ok_name_def)
  have c: "tolower c \<noteq> tolower (CHR ''#'')" "tolower c \<noteq> tolower LF"
    using assms(1) tolower_special(2,3) [of c] tolower_special(2) [of "CHR ''#''"] tolower_special(3) [of LF]
    unfolding k by (auto simp: ok_name_def ok_chars_def)
  show ?thesis
  proof (cases l)
    case Blank
    with c show ?thesis by (subst field_of_line_ok [OF assms(1)]) (simp_all add: k lower_def)
  next
    case (Remark r)
    with assms(2) c show ?thesis
      by (subst field_of_line_ok [OF assms(1)]) (simp_all add: k lower_def ok_chars_def)
  qed (use assms(3) in simp)
qed

lemma find_field_render:
  "ok_name k \<Longrightarrow> \<forall>l\<in>set ls. ok_line l \<Longrightarrow> find_field k (render ls) = lookup k ls"
proof (induction ls)
  case Nil
  then show ?case by (subst find_field.simps) (simp add: render_def fgets_def)
next
  case (Cons l ls)
  have ok: "ok_line l" using Cons.prems by simp
  have line: "LF \<notin> set (line_text l)" "length (line_text l) < 1023"
    using ok by (cases l; auto simp: ok_chars_def ok_name_def ok_value_def BUFSIZ_1K_def)+
  have "render (l # ls) = line_text l @ LF # render ls" by (simp add: render_def)
  then have "fgets BUFSIZ_1K (render (l # ls)) = Some (line_text l @ [LF], render ls)"
    using fgets_line_append [OF line, of "render ls"] by (simp add: fgets_def BUFSIZ_1K_def)
  then have step: "find_field k (render (l # ls)) =
      (case field_of_line k (line_text l @ [LF]) of Some v \<Rightarrow> Some v | None \<Rightarrow> find_field k (render ls))"
    by (subst find_field.simps) simp
  show ?case
  proof (cases l)
    case (Field n v)
    with ok have nv: "ok_name n" "ok_value v" by auto
    show ?thesis unfolding step
      using Cons field_of_line_Field [OF Cons.prems(1) nv] Field by simp
  qed (use step Cons field_of_line_other [OF Cons.prems(1) ok] in auto)
qed

lemma q_strcasecmp_refl [simp]: "q_strcasecmp s s = 0"
proof -
  have "q_strncasecmp s s n = 0" for n and s by (induction n arbitrary: s) auto
  then show ?thesis by (simp add: q_strcasecmp_def)
qed

lemma getField_lookup:
  assumes "ok_name k" "\<forall>l\<in>set ls. ok_line l"
  shows "getField (Some (render ls)) k conv old =
    (case lookup k ls of None \<Rightarrow> Inr (- 1, old) | Some v \<Rightarrow> if v = [] then Inr (- 1, old) else Inr (conv v))"
proof -
  have "length v < BUFSIZ_1K" if "lookup k ls = Some v" for v
    using find_field_length [of k "render ls" v] that find_field_render [OF assms] by simp
  then show ?thesis
    using assms(1) by (auto simp: getField_def getFieldString_def find_field_render [OF assms] ok_name_def
        split: option.splits)
qed

section \<open>Properties\<close>

text \<open>
  C28. None of the typed readers ever writes outside its buffer of 1024 bytes, whatever the file
  contains: the value of a field is at most 1021 characters long, because the line is read into a
  buffer of the same size and holds the name and an equals sign too.
\<close>

theorem getFieldString_1K_in_bounds:
  "getFieldString (Some inp) name (int BUFSIZ_1K) old \<noteq> Inl BufferOverflow
   \<and> (\<forall>v. find_field name inp = Some v \<longrightarrow> length name + 1 + length v < BUFSIZ_1K)"
  using find_field_length [of name inp]
  by (cases "find_field name inp") (auto simp: getFieldString_def)

theorem getFieldString_1K_in_bounds_witness:
  "find_field ''Port'' (''port = 80'' @ [LF]) = Some ''80'' \<and> length ''Port'' + 1 + length ''80'' < BUFSIZ_1K"
proof -
  have "lower ''port'' = lower ''Port''" by code_simp
  then have "find_field ''Port'' (render [Field ''port'' ''80'']) = Some ''80''"
    by (subst find_field_render)
      (auto simp: ok_name_def ok_value_def ok_chars_def NUL_def LF_def CR_def BUFSIZ_1K_def)
  then have "find_field ''Port'' (''port = 80'' @ [LF]) = Some ''80''" by (simp add: render_def)
  then show ?thesis using getFieldString_1K_in_bounds [of "''port = 80'' @ [LF]" "''Port''"] by simp
qed

text \<open>
  A smaller buffer is not safe: a value of exactly \<open>fieldValueSize\<close> characters passes the
  length check and its terminator is written one byte past the end of the caller's buffer.
\<close>

lemma getFieldString_overflows:
  assumes "find_field name inp = Some v" "name \<noteq> []" "v \<noteq> []"
  shows "getFieldString (Some inp) name (int (length v)) old = Inl BufferOverflow"
  using assms by (simp add: getFieldString_def)



end
