(* ===== verification/WorkerInfo.thy ===== *)
theory WorkerInfo
  imports ConfigReader
begin

text \<open>
  The worker table of the master, \<^verbatim>\<open>src/master/src/pir.cpp\<close>: splitting the four parameters of
  \<open>serviceInit\<close> (\<open>getData\<close>, \<open>initWorkerInfo\<close>), and the snapshot file from which a master recovers
  (\<open>writeWorkerInfo\<close>, \<open>loadWorkerInfo\<close>).
\<close>

definition PIR_OK :: int where "PIR_OK = 0"
definition PIR_ERR :: int where "PIR_ERR = - 1"

record workerInfo =
  workspace :: string
  tpldir :: string
  wmethod :: string
  option :: string
  wstate :: int

section \<open>Parameters of serviceInit\<close>

text \<open>\<open>std::string::find\<close> from a position, with \<open>npos\<close> stored in an \<open>int32_t\<close> as \<open>-1\<close>.\<close>

definition find_from :: "char \<Rightarrow> string \<Rightarrow> int \<Rightarrow> int" where
  "find_from c s beg =
     (let r = drop (nat beg) s; i = length (takeWhile (\<lambda>d. d \<noteq> c) r)
      in if i < length r then beg + int i else - 1)"

text \<open>\<open>std::string::substr\<close>; a negative count is converted to a huge one, so it takes the rest.\<close>

definition substr :: "string \<Rightarrow> int \<Rightarrow> int \<Rightarrow> string" where
  "substr s pos n = (if n < 0 then drop (nat pos) s else take (nat n) (drop (nat pos) s))"

fun get_fields :: "string \<Rightarrow> int \<Rightarrow> nat \<Rightarrow> string list" where
  "get_fields s beg 0 = []"
| "get_fields s beg (Suc k) =
     (let e = find_from (CHR ''|'') s beg in substr s beg (e - beg) # get_fields s (e + 1) k)"

text \<open>The result: return code, \<open>bucketSize\<close>, and the vector with the fields appended.\<close>

definition getData :: "string \<Rightarrow> string list \<Rightarrow> int \<times> int \<times> string list" where
  "getData s vec =
     (let e = find_from (CHR ''|'') s 0; head = substr s 0 e; bucketSize = atoi head
      in if bucketSize \<le> 0 then (PIR_ERR, bucketSize, vec)
         else (PIR_OK, bucketSize, vec @ get_fields s (e + 1) (nat bucketSize)))"

definition PIR_STATE_NONE :: int where "PIR_STATE_NONE = 0"

definition initWorkerInfo :: "string \<Rightarrow> string \<Rightarrow> string \<Rightarrow> string \<Rightarrow> workerInfo list \<Rightarrow> int \<times> workerInfo list" where
  "initWorkerInfo ws tp me op vec =
     (case getData ws [] of (r1, b1, wsv) \<Rightarrow> if r1 = PIR_ERR then (PIR_ERR, vec) else
      case getData tp [] of (r2, b2, tpv) \<Rightarrow> if r2 = PIR_ERR then (PIR_ERR, vec) else
      case getData me [] of (r3, b3, mev) \<Rightarrow> if r3 = PIR_ERR then (PIR_ERR, vec) else
      case getData op [] of (r4, b4, opv) \<Rightarrow> if r4 = PIR_ERR then (PIR_ERR, vec) else
      if int (length wsv) \<noteq> b4 \<or> int (length tpv) \<noteq> b4 \<or> int (length mev) \<noteq> b4 \<or> int (length opv) \<noteq> b4
      then (PIR_ERR, vec)
      else (PIR_OK, vec @ map (\<lambda>i. \<lparr>workspace = wsv ! i, tpldir = tpv ! i, wmethod = mev ! i,
              option = opv ! i, wstate = PIR_STATE_NONE\<rparr>) [0..<nat b4]))"

lemmas pir_codes = PIR_OK_def PIR_ERR_def

lemma length_get_fields [simp]: "length (get_fields s beg k) = k"
  by (induction k arbitrary: beg) (auto simp: Let_def)

text \<open>The number a parameter announces.\<close>

definition announced :: "string \<Rightarrow> int" where
  "announced s = atoi (substr s 0 (find_from (CHR ''|'') s 0))"

lemma getData_eq:
  "getData s vec = (if announced s \<le> 0 then (PIR_ERR, announced s, vec)
     else (PIR_OK, announced s, vec @ get_fields s (find_from (CHR ''|'') s 0 + 1) (nat (announced s))))"
  by (simp add: getData_def announced_def Let_def)

text \<open>A parameter as a client writes it: the number of fields, then each field after a bar.\<close>

definition bars :: "string list \<Rightarrow> string" where
  "bars fs = concat (map (\<lambda>f. CHR ''|'' # f) fs)"

definition encode :: "string list \<Rightarrow> string" where
  "encode fs = dec (length fs) @ bars fs"

lemma find_from_at:
  assumes "CHR ''|'' \<notin> set a"
  shows "find_from (CHR ''|'') (p @ a @ CHR ''|'' # b) (int (length p)) = int (length p) + int (length a)"
    and "find_from (CHR ''|'') (p @ a) (int (length p)) = - 1"
proof -
  have t: "takeWhile (\<lambda>d. d \<noteq> CHR ''|'') a = a" using assms by (auto simp: takeWhile_eq_all_conv)
  have "takeWhile (\<lambda>d. d \<noteq> CHR ''|'') (a @ CHR ''|'' # b) = a" using assms by (subst takeWhile_append2) auto
  then show "find_from (CHR ''|'') (p @ a @ CHR ''|'' # b) (int (length p)) = int (length p) + int (length a)"
    by (simp add: find_from_def Let_def)
  show "find_from (CHR ''|'') (p @ a) (int (length p)) = - 1"
    unfolding find_from_def Let_def nat_int by (simp only: drop_append drop_all diff_self_eq_0 drop_0 order.refl append_Nil t) simp
qed

lemma substr_at: "substr (q @ r) (int (length q)) n = (if n < 0 then r else take (nat n) r)"
  by (simp add: substr_def)

lemma get_fields_bars:
  assumes "\<forall>f\<in>set fs. CHR ''|'' \<notin> set f" "tl0 = [] \<or> hd tl0 = CHR ''|''"
  shows "get_fields (p @ bars fs @ tl0) (int (Suc (length p))) (length fs) = fs"
  using assms(1)
proof (induction fs arbitrary: p)
  case Nil
  then show ?case by simp
next
  case (Cons f fs)
  let ?q = "p @ [CHR ''|'']"
  have q: "int (Suc (length p)) = int (length ?q)" by simp
  have s: "p @ bars (f # fs) @ tl0 = ?q @ f @ (bars fs @ tl0)" by (simp add: bars_def)
  show ?case
  proof (cases "bars fs @ tl0")
    case Nil
    then have "fs = []" by (cases fs) (auto simp: bars_def)
    then show ?thesis unfolding s q
      using Nil Cons.prems find_from_at(2) [of f ?q] substr_at [of ?q f] by (simp add: Let_def del: length_append)
  next
    case (Cons c more)
    then have b: "bars fs @ tl0 = CHR ''|'' # more"
      using assms(2) by (cases fs) (auto simp: bars_def)
    have e: "find_from (CHR ''|'') (?q @ f @ (bars fs @ tl0)) (int (length ?q)) = int (length ?q) + int (length f)"
      unfolding b by (rule find_from_at(1)) (use Cons.prems in auto)
    have "get_fields ((?q @ f) @ bars fs @ tl0) (int (Suc (length (?q @ f)))) (length fs) = fs"
      by (rule Cons.IH) (use Cons.prems in auto)
    then have ih: "get_fields (?q @ f @ (bars fs @ tl0)) (int (length ?q) + int (length f) + 1) (length fs) = fs"
      by (simp add: algebra_simps)
    show ?thesis unfolding s q get_fields.simps list.size(4) add_Suc_right add_0_right Let_def e ih substr_at
      by simp
  qed
qed

lemma digit_not_bar: "isdigit c \<Longrightarrow> c \<noteq> CHR ''|''"
  by (auto simp: isdigit_def code_def)

lemma encode_announces:
  assumes "int (length fs) \<le> MAX_INT32" "tl0 = [] \<or> hd tl0 = CHR ''|''" "fs \<noteq> []"
  shows "find_from (CHR ''|'') (encode fs @ tl0) 0 = int (length (dec (length fs)))"
    and "announced (encode fs @ tl0) = int (length fs)"
proof -
  let ?d = "dec (length fs)"
  obtain r where r: "bars fs @ tl0 = CHR ''|'' # r" using assms(3) by (cases fs) (auto simp: bars_def)
  have nb: "CHR ''|'' \<notin> set ?d" using dec_digits digit_not_bar by blast
  show e: "find_from (CHR ''|'') (encode fs @ tl0) 0 = int (length ?d)"
    using find_from_at(1) [OF nb, of "[]" r] r by (simp add: encode_def)
  have "substr (encode fs @ tl0) 0 (int (length ?d)) = ?d"
    using substr_at [of "[]" "?d @ bars fs @ tl0" "int (length ?d)"] by (simp add: encode_def)
  then show "announced (encode fs @ tl0) = int (length fs)"
    unfolding announced_def e using assms(1) by simp
qed

lemma getData_splits:
  assumes "fs \<noteq> []" "int (length fs) \<le> MAX_INT32" "\<forall>f\<in>set fs. CHR ''|'' \<notin> set f"
    and "tl0 = [] \<or> hd tl0 = CHR ''|''"
  shows "getData (encode fs @ tl0) vec = (PIR_OK, int (length fs), vec @ fs)"
proof -
  have "get_fields (dec (length fs) @ bars fs @ tl0) (int (Suc (length (dec (length fs))))) (length fs) = fs"
    using assms(3,4) by (rule get_fields_bars)
  then have "get_fields (encode fs @ tl0) (int (length (dec (length fs))) + 1) (length fs) = fs"
    by (simp add: encode_def add.commute)
  then show ?thesis
    using assms(1) encode_announces [OF assms(2,4,1)] by (simp add: getData_eq)
qed

text \<open>The workers that four lists of strings describe.\<close>

definition worker_table :: "string list \<Rightarrow> string list \<Rightarrow> string list \<Rightarrow> string list \<Rightarrow> workerInfo list" where
  "worker_table wsv tpv mev opv = map (\<lambda>i. \<lparr>workspace = wsv ! i, tpldir = tpv ! i, wmethod = mev ! i,
     option = opv ! i, wstate = PIR_STATE_NONE\<rparr>) [0..<length wsv]"

definition fields_ok :: "nat \<Rightarrow> string list \<Rightarrow> bool" where
  "fields_ok n fs \<longleftrightarrow> 0 < n \<and> int n \<le> MAX_INT32 \<and> length fs = n \<and> (\<forall>f\<in>set fs. CHR ''|'' \<notin> set f)"

lemma getData_fields_ok: "fields_ok n fs \<Longrightarrow> getData (encode fs) [] = (PIR_OK, int n, fs)"
  using getData_splits [of fs "[]" "[]"] by (auto simp: fields_ok_def)

lemma initWorkerInfo_encode:
  assumes "fields_ok n wsv" "fields_ok n tpv" "fields_ok n mev" "fields_ok n opv"
  shows "initWorkerInfo (encode wsv) (encode tpv) (encode mev) (encode opv) vec
    = (PIR_OK, vec @ worker_table wsv tpv mev opv)"
proof -
  have "length wsv = n" "length tpv = n" "length mev = n" "length opv = n"
    using assms by (auto simp: fields_ok_def)
  then show ?thesis
    by (simp add: initWorkerInfo_def worker_table_def pir_codes getData_fields_ok [OF assms(1), unfolded pir_codes]
        getData_fields_ok [OF assms(2), unfolded pir_codes] getData_fields_ok [OF assms(3), unfolded pir_codes]
        getData_fields_ok [OF assms(4), unfolded pir_codes])
qed

section \<open>The snapshot file\<close>

definition worker_text :: "nat \<Rightarrow> workerInfo \<Rightarrow> string" where
  "worker_text i w =
     ''# Worker: '' @ dec02 i @ [LF]
     @ ''workspace-'' @ dec02 i @ '' = '' @ cstr (workspace w) @ [LF]
     @ ''tpldir-'' @ dec02 i @ '' = '' @ cstr (tpldir w) @ [LF]
     @ ''method-'' @ dec02 i @ '' = '' @ cstr (wmethod w) @ [LF]
     @ ''option-'' @ dec02 i @ '' = '' @ cstr (option w) @ [LF]
     @ ''enable-'' @ dec02 i @ '' = yes'' @ [LF] @ [LF]"

text \<open>\<open>fopen_ok\<close> says whether the snapshot file could be opened; the file is then what is written.\<close>

definition writeWorkerInfo :: "workerInfo list \<Rightarrow> bool \<Rightarrow> int \<times> string option" where
  "writeWorkerInfo vec fopen_ok =
     (if fopen_ok then
        (PIR_OK, Some (''# Server:'' @ [LF] @ ''worker-num = '' @ dec (length vec) @ [LF] @ [LF]
           @ concat (map (\<lambda>i. worker_text i (vec ! i)) [0..<length vec])))
      else (PIR_ERR, None))"

text \<open>
  One round of the loop of \<open>loadWorkerInfo\<close>.  The field \<open>state\<close> of the local \<open>wi\<close> is not set: its
  value is the argument \<open>junk\<close>.
\<close>

definition load_worker :: "string \<Rightarrow> int \<Rightarrow> nat \<Rightarrow> cfg_error + (int \<times> workerInfo option)" where
  "load_worker inp junk i =
     (case getFieldString_std (Some inp) (''workspace-'' @ dec02 i) [] of Inl e \<Rightarrow> Inl e | Inr (r1, ws) \<Rightarrow>
      if r1 < 0 then Inr (PIR_ERR, None) else
      case getFieldString_std (Some inp) (''tpldir-'' @ dec02 i) [] of Inl e \<Rightarrow> Inl e | Inr (r2, tp) \<Rightarrow>
      if r2 < 0 then Inr (PIR_ERR, None) else
      case getFieldString_std (Some inp) (''method-'' @ dec02 i) [] of Inl e \<Rightarrow> Inl e | Inr (r3, me) \<Rightarrow>
      if r3 < 0 then Inr (PIR_ERR, None) else
      case getFieldString_std (Some inp) (''option-'' @ dec02 i) [] of Inl e \<Rightarrow> Inl e | Inr (r4, op) \<Rightarrow>
      if r4 < 0 then Inr (PIR_ERR, None) else
      case getFieldYesNo (Some inp) (''enable-'' @ dec02 i) 0 of Inl e \<Rightarrow> Inl e | Inr (r5, flag) \<Rightarrow>
      if r5 < 0 then Inr (PIR_ERR, None) else
      Inr (PIR_OK, if flag \<noteq> 0 then Some \<lparr>workspace = ws, tpldir = tp, wmethod = me, option = op, wstate = junk\<rparr>
                   else None))"

fun load_loop :: "string \<Rightarrow> int \<Rightarrow> nat list \<Rightarrow> workerInfo list \<Rightarrow> cfg_error + (int \<times> workerInfo list)" where
  "load_loop inp junk [] vec = Inr (PIR_OK, vec)"
| "load_loop inp junk (i # is) vec =
     (case load_worker inp junk i of
        Inl e \<Rightarrow> Inl e
      | Inr (r, wi) \<Rightarrow>
          if r = PIR_ERR then Inr (PIR_ERR, vec)
          else load_loop inp junk is (case wi of None \<Rightarrow> vec | Some w \<Rightarrow> vec @ [w]))"

text \<open>\<open>inp\<close> is the contents of the snapshot file, \<open>None\<close> when it cannot be opened.\<close>

definition loadWorkerInfo :: "string option \<Rightarrow> int \<Rightarrow> workerInfo list \<Rightarrow> cfg_error + (int \<times> workerInfo list)" where
  "loadWorkerInfo inp junk vec =
     (case inp of
        None \<Rightarrow> Inr (PIR_ERR, vec)
      | Some s \<Rightarrow>
          (case getFieldInt32 (Some s) ''worker-num'' 0 of
             Inl e \<Rightarrow> Inl e
           | Inr (r, worker_num) \<Rightarrow>
               if r < 0 then Inr (PIR_ERR, vec) else load_loop s junk [0..<nat worker_num] vec))"

subsection \<open>The snapshot as fields\<close>

definition worker_lines :: "nat \<Rightarrow> workerInfo \<Rightarrow> cfg_line list" where
  "worker_lines i w =
     [Remark ('' Worker: '' @ dec02 i), Field (''workspace-'' @ dec02 i) (workspace w),
      Field (''tpldir-'' @ dec02 i) (tpldir w), Field (''method-'' @ dec02 i) (wmethod w),
      Field (''option-'' @ dec02 i) (option w), Field (''enable-'' @ dec02 i) ''yes'', Blank]"

fun table_lines :: "nat \<Rightarrow> workerInfo list \<Rightarrow> cfg_line list" where
  "table_lines i [] = []"
| "table_lines i (w # ws) = worker_lines i w @ table_lines (Suc i) ws"

definition snapshot_lines :: "workerInfo list \<Rightarrow> cfg_line list" where
  "snapshot_lines vec = [Remark '' Server:'', Field ''worker-num'' (dec (length vec)), Blank] @ table_lines 0 vec"

text \<open>Values that survive the file: no newline or terminator, no blank at the ends, and short enough for a line.\<close>

definition storable :: "string \<Rightarrow> bool" where
  "storable v \<longleftrightarrow> v \<noteq> [] \<and> ok_value v \<and> length v \<le> 900"

definition storable_worker :: "workerInfo \<Rightarrow> bool" where
  "storable_worker w \<longleftrightarrow> storable (workspace w) \<and> storable (tpldir w) \<and> storable (wmethod w) \<and> storable (option w)"

lemma lower_append [simp]: "lower (a @ b) = lower a @ lower b"
  by (simp add: lower_def)

lemma lower_digits: "\<forall>c\<in>set s. isdigit c \<Longrightarrow> lower s = s"
  by (auto simp: lower_def tolower_def isdigit_def intro!: map_idI)

lemma lower_key [simp]: "lower (dec02 i) = dec02 i"
  using dec02_digits by (rule lower_digits)

lemma lower_prefixes [simp]:
  "lower ''workspace-'' = ''workspace-''" "lower ''tpldir-'' = ''tpldir-''" "lower ''method-'' = ''method-''"
  "lower ''option-'' = ''option-''" "lower ''enable-'' = ''enable-''" "lower ''worker-num'' = ''worker-num''"
  by code_simp+

lemma digits_special:
  assumes "\<forall>c\<in>set s. isdigit c"
  shows "CHR '' '' \<notin> set s" "CHR ''='' \<notin> set s" "CR \<notin> set s" "ok_chars s"
  using assms by (auto simp: isdigit_def code_def CR_def LF_def NUL_def ok_chars_def)

lemma ok_name_key: "ok_name p \<Longrightarrow> ok_name (p @ dec02 i)"
  using digits_special [OF dec02_digits [of i]] by (simp add: ok_name_def ok_chars_def)

lemma ok_prefixes [simp]:
  "ok_name ''workspace-''" "ok_name ''tpldir-''" "ok_name ''method-''" "ok_name ''option-''" "ok_name ''enable-''"
  "ok_name ''worker-num''"
  by (simp_all add: ok_name_def ok_chars_def NUL_def LF_def CR_def)

lemma lookup_append: "lookup k (xs @ ys) = (case lookup k xs of None \<Rightarrow> lookup k ys | Some v \<Rightarrow> Some v)"
  by (induction k xs rule: lookup.induct) auto

lemma dec02_eq_iff [simp]: "dec02 m = dec02 n \<longleftrightarrow> m = n"
  using dec02_inj by blast

lemma lookup_worker_lines [simp]:
  "lookup (''workspace-'' @ dec02 j) (worker_lines i w) = (if i = j then Some (workspace w) else None)"
  "lookup (''tpldir-'' @ dec02 j) (worker_lines i w) = (if i = j then Some (tpldir w) else None)"
  "lookup (''method-'' @ dec02 j) (worker_lines i w) = (if i = j then Some (wmethod w) else None)"
  "lookup (''option-'' @ dec02 j) (worker_lines i w) = (if i = j then Some (option w) else None)"
  "lookup (''enable-'' @ dec02 j) (worker_lines i w) = (if i = j then Some ''yes'' else None)"
  by (simp_all add: worker_lines_def del: append.append_Cons) auto

lemma lookup_table:
  assumes "\<And>i j w. lookup (p @ dec02 j) (worker_lines i w) = (if i = j then Some (g w) else None)"
    and "j < length ws"
  shows "lookup (p @ dec02 (i + j)) (table_lines i ws) = Some (g (ws ! j))"
  using assms(2)
proof (induction ws arbitrary: i j)
  case Nil
  then show ?case by simp
next
  case (Cons w ws)
  show ?case
  proof (cases j)
    case 0
    then show ?thesis by (simp add: lookup_append assms(1))
  next
    case (Suc k)
    with Cons.IH [of k "Suc i"] Cons.prems show ?thesis by (simp add: lookup_append assms(1))
  qed
qed

lemma lookup_snapshot_num: "lookup ''worker-num'' (snapshot_lines vec) = Some (dec (length vec))"
  by (simp add: snapshot_lines_def)

lemma lookup_snapshot:
  assumes "j < length vec"
  shows "lookup (''workspace-'' @ dec02 j) (snapshot_lines vec) = Some (workspace (vec ! j))"
    and "lookup (''tpldir-'' @ dec02 j) (snapshot_lines vec) = Some (tpldir (vec ! j))"
    and "lookup (''method-'' @ dec02 j) (snapshot_lines vec) = Some (wmethod (vec ! j))"
    and "lookup (''option-'' @ dec02 j) (snapshot_lines vec) = Some (option (vec ! j))"
    and "lookup (''enable-'' @ dec02 j) (snapshot_lines vec) = Some ''yes''"
proof -
  have t: "lookup (''workspace-'' @ dec02 j) (table_lines 0 vec) = Some (workspace (vec ! j))"
    "lookup (''tpldir-'' @ dec02 j) (table_lines 0 vec) = Some (tpldir (vec ! j))"
    "lookup (''method-'' @ dec02 j) (table_lines 0 vec) = Some (wmethod (vec ! j))"
    "lookup (''option-'' @ dec02 j) (table_lines 0 vec) = Some (option (vec ! j))"
    "lookup (''enable-'' @ dec02 j) (table_lines 0 vec) = Some ''yes''"
    using lookup_table [OF lookup_worker_lines(1) assms, of 0] lookup_table [OF lookup_worker_lines(2) assms, of 0]
      lookup_table [OF lookup_worker_lines(3) assms, of 0] lookup_table [OF lookup_worker_lines(4) assms, of 0]
      lookup_table [OF lookup_worker_lines(5) assms, of 0] by simp_all
  have skip: "lookup (p @ dec02 j) (snapshot_lines vec) = lookup (p @ dec02 j) (table_lines 0 vec)"
    if "''worker-num'' \<noteq> lower p @ dec02 j" for p
    using that by (simp add: snapshot_lines_def)
  have n: "''worker-num'' \<noteq> lower ''workspace-'' @ x" "''worker-num'' \<noteq> lower ''tpldir-'' @ x"
    "''worker-num'' \<noteq> lower ''method-'' @ x" "''worker-num'' \<noteq> lower ''option-'' @ x"
    "''worker-num'' \<noteq> lower ''enable-'' @ x" for x by simp_all
  show "lookup (''workspace-'' @ dec02 j) (snapshot_lines vec) = Some (workspace (vec ! j))"
    "lookup (''tpldir-'' @ dec02 j) (snapshot_lines vec) = Some (tpldir (vec ! j))"
    "lookup (''method-'' @ dec02 j) (snapshot_lines vec) = Some (wmethod (vec ! j))"
    "lookup (''option-'' @ dec02 j) (snapshot_lines vec) = Some (option (vec ! j))"
    "lookup (''enable-'' @ dec02 j) (snapshot_lines vec) = Some ''yes''"
    by (simp_all only: skip [OF n(1)] skip [OF n(2)] skip [OF n(3)] skip [OF n(4)] skip [OF n(5)] t)
qed

text \<open>Which lines are well formed; the values may be empty here.\<close>

definition writable :: "string \<Rightarrow> bool" where
  "writable v \<longleftrightarrow> ok_value v \<and> length v \<le> 900"

definition writable_worker :: "workerInfo \<Rightarrow> bool" where
  "writable_worker w \<longleftrightarrow> writable (workspace w) \<and> writable (tpldir w) \<and> writable (wmethod w) \<and> writable (option w)"

lemma dec02_length: "int i \<le> MAX_INT32 \<Longrightarrow> length (dec02 i) \<le> 11"
  using dec_int32_length [of i] by (simp add: dec02_def)

lemma digits_ok_value: "\<forall>c\<in>set s. isdigit c \<Longrightarrow> s \<noteq> [] \<Longrightarrow> ok_value s"
  unfolding ok_value_def using digits_special [of s] by (metis hd_in_set last_in_set)

lemma ok_worker_lines:
  assumes "writable_worker w" "int i \<le> MAX_INT32"
  shows "\<forall>l\<in>set (worker_lines i w). ok_line l"
  using assms dec02_length [OF assms(2)] digits_special(4) [OF dec02_digits [of i]]
  by (auto simp: worker_lines_def writable_worker_def writable_def ok_name_key BUFSIZ_1K_def ok_chars_def
      ok_value_def NUL_def LF_def CR_def simp del: append.append_Cons)

lemma ok_table_lines:
  "\<forall>w\<in>set ws. writable_worker w \<Longrightarrow> int (i + length ws) \<le> MAX_INT32 \<Longrightarrow> \<forall>l\<in>set (table_lines i ws). ok_line l"
proof (induction ws arbitrary: i)
  case Nil
  then show ?case by simp
next
  case (Cons w ws)
  have "\<forall>l\<in>set (worker_lines i w). ok_line l" using Cons.prems by (intro ok_worker_lines) auto
  moreover have "\<forall>l\<in>set (table_lines (Suc i) ws). ok_line l" using Cons.prems by (intro Cons.IH) auto
  ultimately show ?case by auto
qed

lemma ok_snapshot_lines:
  assumes "\<forall>w\<in>set vec. writable_worker w" "int (length vec) \<le> MAX_INT32"
  shows "\<forall>l\<in>set (snapshot_lines vec). ok_line l"
proof -
  have "ok_line (Remark '' Server:'')" by (simp add: ok_chars_def NUL_def LF_def BUFSIZ_1K_def)
  moreover have "ok_line (Field ''worker-num'' (dec (length vec)))"
    using dec_int32_length [OF assms(2)] digits_ok_value [OF dec_digits] by (simp add: BUFSIZ_1K_def)
  moreover have "\<forall>l\<in>set (table_lines 0 vec). ok_line l" using assms by (intro ok_table_lines) auto
  ultimately show ?thesis by (auto simp: snapshot_lines_def)
qed

lemma render_append [simp]: "render (a @ b) = render a @ render b" "render [] = []"
  "render (l # ls) = line_text l @ LF # render ls"
  by (simp_all add: render_def)

lemma worker_text_render: "writable_worker w \<Longrightarrow> worker_text i w = render (worker_lines i w)"
  by (simp add: worker_text_def worker_lines_def writable_worker_def writable_def ok_value_def ok_chars_def)

lemma table_text_render:
  "\<forall>w\<in>set ws. writable_worker w \<Longrightarrow>
   concat (map (\<lambda>j. worker_text (i + j) (ws ! j)) [0..<length ws]) = render (table_lines i ws)"
proof (induction ws arbitrary: i)
  case Nil
  then show ?case by simp
next
  case (Cons w ws)
  have "[0..<length (w # ws)] = 0 # map Suc [0..<length ws]" by (simp add: upt_conv_Cons map_Suc_upt del: upt_Suc)
  with Cons.IH [of "Suc i"] Cons.prems show ?case by (simp add: worker_text_render comp_def)
qed

lemma writeWorkerInfo_render:
  assumes "\<forall>w\<in>set vec. writable_worker w"
  shows "writeWorkerInfo vec True = (PIR_OK, Some (render (snapshot_lines vec)))"
  using table_text_render [OF assms, of 0] by (simp add: writeWorkerInfo_def snapshot_lines_def)

lemma storable_writable: "storable_worker w \<Longrightarrow> writable_worker w"
  by (simp add: storable_worker_def storable_def writable_worker_def writable_def)

lemma load_worker_snapshot:
  assumes "\<forall>w\<in>set vec. writable_worker w" "int (length vec) \<le> MAX_INT32" "j < length vec"
  shows "load_worker (render (snapshot_lines vec)) junk j =
    (if workspace (vec ! j) = [] \<or> tpldir (vec ! j) = [] \<or> wmethod (vec ! j) = [] \<or> option (vec ! j) = []
     then Inr (PIR_ERR, None) else Inr (PIR_OK, Some ((vec ! j)\<lparr>wstate := junk\<rparr>)))"
proof -
  let ?w = "vec ! j"
  have std: "getFieldString_std (Some (render (snapshot_lines vec))) (p @ dec02 j) [] =
      (if v = [] then Inr (- 1, []) else Inr (0, v))"
    if "ok_name p" "lookup (p @ dec02 j) (snapshot_lines vec) = Some v" for p v
    using that(2)
    by (simp add: getFieldString_std_def getField_lookup [OF ok_name_key [OF that(1)] ok_snapshot_lines [OF assms(1,2)]])
  have yes: "getFieldYesNo (Some (render (snapshot_lines vec))) (''enable-'' @ dec02 j) 0 = Inr (0, 1)"
    using lookup_snapshot(5) [OF assms(3)]
    by (simp add: getFieldYesNo_def getField_lookup [OF ok_name_key [OF ok_prefixes(5)] ok_snapshot_lines [OF assms(1,2)]]
        del: append.append_Cons)
  show ?thesis
    unfolding load_worker_def std [OF ok_prefixes(1) lookup_snapshot(1) [OF assms(3)]]
      std [OF ok_prefixes(2) lookup_snapshot(2) [OF assms(3)]] std [OF ok_prefixes(3) lookup_snapshot(3) [OF assms(3)]]
      std [OF ok_prefixes(4) lookup_snapshot(4) [OF assms(3)]] yes
    by (auto simp: pir_codes)
qed

lemma load_loop_ok:
  "\<forall>i\<in>set is. load_worker inp junk i = Inr (PIR_OK, Some (f i)) \<Longrightarrow> load_loop inp junk is vec = Inr (PIR_OK, vec @ map f is)"
  by (induction "is" arbitrary: vec) (auto simp: pir_codes)

lemma load_loop_err:
  "\<forall>i\<in>set is. load_worker inp junk i = Inr (PIR_ERR, None) \<or> (\<exists>w. load_worker inp junk i = Inr (PIR_OK, Some w)) \<Longrightarrow>
   \<exists>i\<in>set is. load_worker inp junk i = Inr (PIR_ERR, None) \<Longrightarrow> \<exists>vec'. load_loop inp junk is vec = Inr (PIR_ERR, vec')"
proof (induction "is" arbitrary: vec)
  case Nil
  then show ?case by simp
next
  case (Cons i "is")
  show ?case
  proof (cases "load_worker inp junk i = Inr (PIR_ERR, None)")
    case True
    then show ?thesis by simp
  next
    case False
    then obtain w where w: "load_worker inp junk i = Inr (PIR_OK, Some w)" using Cons.prems(1) by auto
    have "\<exists>vec'. load_loop inp junk is (vec @ [w]) = Inr (PIR_ERR, vec')"
      using Cons.prems False by (intro Cons.IH) auto
    with w show ?thesis by (simp add: pir_codes)
  qed
qed

lemma loadWorkerInfo_snapshot:
  assumes "\<forall>w\<in>set vec. writable_worker w" "int (length vec) \<le> MAX_INT32"
  shows "loadWorkerInfo (snd (writeWorkerInfo vec True)) junk acc =
    load_loop (render (snapshot_lines vec)) junk [0..<length vec] acc"
proof -
  have "getFieldInt32 (Some (render (snapshot_lines vec))) ''worker-num'' 0 = Inr (0, int (length vec))"
    using assms(2)
    by (simp add: getFieldInt32_def getField_lookup [OF ok_prefixes(6) ok_snapshot_lines [OF assms]] lookup_snapshot_num)
  then show ?thesis using writeWorkerInfo_render [OF assms(1)] by (simp add: loadWorkerInfo_def)
qed

lemma loadWorkerInfo_restores:
  assumes "\<forall>w\<in>set vec. storable_worker w" "int (length vec) \<le> MAX_INT32"
  shows "loadWorkerInfo (snd (writeWorkerInfo vec True)) junk acc =
    Inr (PIR_OK, acc @ map (\<lambda>w. w\<lparr>wstate := junk\<rparr>) vec)"
proof -
  have wr: "\<forall>w\<in>set vec. writable_worker w" using assms(1) storable_writable by blast
  have "load_worker (render (snapshot_lines vec)) junk j = Inr (PIR_OK, Some ((vec ! j)\<lparr>wstate := junk\<rparr>))"
    if "j < length vec" for j
    using load_worker_snapshot [OF wr assms(2) that] nth_mem [OF that] assms(1)
    by (auto simp: storable_worker_def storable_def)
  then have "load_loop (render (snapshot_lines vec)) junk [0..<length vec] acc
      = Inr (PIR_OK, acc @ map (\<lambda>j. (vec ! j)\<lparr>wstate := junk\<rparr>) [0..<length vec])"
    by (intro load_loop_ok) auto
  also have "map (\<lambda>j. (vec ! j)\<lparr>wstate := junk\<rparr>) [0..<length vec] = map (\<lambda>w. w\<lparr>wstate := junk\<rparr>) vec"
    by (metis (no_types, lifting) map_nth map_map comp_apply map_eq_conv)
  finally show ?thesis by (simp add: loadWorkerInfo_snapshot [OF wr assms(2)])
qed

section \<open>Properties\<close>

text \<open>
  \<open>initWorkerInfo\<close> succeeds exactly when the four parameters announce the same positive number;
  it then appends that many workers.  The number of fields that are really present does not
  matter: the vectors always have the announced length, so the size test only compares the
  announcements, and a field that is missing is filled with text from the start of the parameter.
\<close>

lemma initWorkerInfo_accepts:
  "initWorkerInfo ws tp me op vec =
     (if 0 < announced ws \<and> announced ws = announced op \<and> announced tp = announced op \<and> announced me = announced op
      then (PIR_OK, snd (initWorkerInfo ws tp me op vec)) else (PIR_ERR, vec))
   \<and> (0 < announced ws \<and> announced ws = announced op \<and> announced tp = announced op \<and> announced me = announced op
      \<longrightarrow> int (length (snd (initWorkerInfo ws tp me op vec))) = int (length vec) + announced ws)
   \<and> snd (snd (getData ''2|a'' [])) = [''a'', ''2'']"
proof -
  have "snd (snd (getData ''2|a'' [])) = [''a'', ''2'']" by code_simp
  then show ?thesis by (auto simp: initWorkerInfo_def getData_eq pir_codes)
qed

text \<open>
  A table in which some worker has an empty string is written without complaint, but the
  snapshot can never be loaded again: the reader rejects empty values.
\<close>

lemma snapshot_empty_field:
  assumes "\<forall>w\<in>set vec. writable_worker w" "int (length vec) \<le> MAX_INT32"
    and "\<exists>w\<in>set vec. option w = []"
  shows "fst (writeWorkerInfo vec True) = PIR_OK
    \<and> (\<exists>vec'. loadWorkerInfo (snd (writeWorkerInfo vec True)) junk acc = Inr (PIR_ERR, vec'))"
proof -
  obtain j where j: "j < length vec" "option (vec ! j) = []" using assms(3) by (auto simp: in_set_conv_nth)
  have "\<exists>vec'. load_loop (render (snapshot_lines vec)) junk [0..<length vec] acc = Inr (PIR_ERR, vec')"
    using load_worker_snapshot [OF assms(1,2)] j by (intro load_loop_err) (auto intro!: bexI [of _ j])
  then show ?thesis using loadWorkerInfo_snapshot [OF assms(1,2)] by (simp add: writeWorkerInfo_def)
qed

end
