(* ===== verification/Master.thy ===== *)
theory Master
  imports WorkerInfo
begin

text \<open>
  The service handlers of the master, \<^verbatim>\<open>src/master/src/recgservice.cpp\<close>, and the parts of
  \<^verbatim>\<open>struct pirServer\<close> they use.  What a worker answers to a SOAP call is an argument: \<open>None\<close> is
  \<^verbatim>\<open>soap.error\<close>, \<open>Some r\<close> the response.  Scores are \<^verbatim>\<open>float\<close>s that are not NaN, of which only
  the order matters: any linearly ordered type.  \<open>std::sort\<close> is an argument too, because it may
  order equal scores in any way; \<open>sorts\<close> is what the language promises of it.
\<close>

section \<open>State\<close>

definition PIR_STATE_INITING :: int where "PIR_STATE_INITING = 1"
definition PIR_STATE_INITED :: int where "PIR_STATE_INITED = 2"
definition PIR_STATE_TRAINING :: int where "PIR_STATE_TRAINING = 3"
definition PIR_STATE_TRAINED :: int where "PIR_STATE_TRAINED = 4"
definition PIR_STATE_STARTING :: int where "PIR_STATE_STARTING = 5"
definition PIR_STATE_READY :: int where "PIR_STATE_READY = 6"
definition PIR_STATE_ERROR :: int where "PIR_STATE_ERROR = 127"

definition PIR_SOAP_TAG_OK :: int where "PIR_SOAP_TAG_OK = 1"
definition PIR_SOAP_TAG_ERR :: int where "PIR_SOAP_TAG_ERR = - 1"

lemmas pir_states = PIR_STATE_NONE_def PIR_STATE_INITING_def PIR_STATE_INITED_def PIR_STATE_TRAINING_def
  PIR_STATE_TRAINED_def PIR_STATE_STARTING_def PIR_STATE_READY_def PIR_STATE_ERROR_def

lemmas pir_tags = PIR_SOAP_TAG_OK_def PIR_SOAP_TAG_ERR_def

datatype ranking_t = NoSort | AscendingSort | DescendingSort

text \<open>\<open>serverstate\<close> is a bit field of 8 bits, \<open>autostart\<close> and \<open>shutdown_asap\<close> of one bit.\<close>

record pirServer =
  serverstate :: int
  autostart :: int
  shutdown_asap :: int
  bucketSize :: int
  workerInfoVec :: "workerInfo list"
  ranking :: ranking_t
  query_num :: int
  ocr_enabled :: int
  watchdog_mtime :: int
  stat_search_conn :: int
  stat_failed_conn :: int

record 'f searchResponse =
  tag :: int
  matches :: "(string \<times> 'f) list"
  resp_ocr :: string

section \<open>Search\<close>

definition compareKeyAscending :: "string \<times> 'f::linorder \<Rightarrow> string \<times> 'f \<Rightarrow> bool" where
  "compareKeyAscending key1 key2 \<longleftrightarrow> snd key1 < snd key2"

definition compareKeyDescending :: "string \<times> 'f::linorder \<Rightarrow> string \<times> 'f \<Rightarrow> bool" where
  "compareKeyDescending key1 key2 \<longleftrightarrow> snd key1 > snd key2"

text \<open>
  \<open>search_thread\<close> of worker \<open>i\<close>: with the mutex of the search object held it appends the matches
  of the response; after an error it appends nothing.
\<close>

definition search_thread :: "(nat \<Rightarrow> (string \<times> 'f) list option) \<Rightarrow> nat \<Rightarrow> (string \<times> 'f) list \<Rightarrow> (string \<times> 'f) list" where
  "search_thread reply i search_res = (case reply i of None \<Rightarrow> search_res | Some ms \<Rightarrow> search_res @ ms)"

text \<open>
  \<open>arrival\<close> is the order in which the threads get the mutex.  The field \<open>index\<close> of
  \<open>searchThreadInfo\<close> is a \<open>uint8_t\<close>, so the thread created for worker \<open>i\<close> asks worker \<open>i mod 256\<close>.
\<close>

definition thread_index :: "nat \<Rightarrow> nat" where
  "thread_index i = nat (u8 (int i))"

definition gather :: "(nat \<Rightarrow> (string \<times> 'f) list option) \<Rightarrow> nat list \<Rightarrow> (string \<times> 'f) list" where
  "gather reply arrival = fold (\<lambda>i. search_thread reply (thread_index i)) arrival []"

text \<open>
  \<^verbatim>\<open>(server.query_num<=search_res.size())?server.query_num:search_res.size()\<close>: the comparison is one
  of unsigned 64-bit integers, so a negative number of results is larger than every size; the result
  is stored in an \<open>int32_t\<close>, up to which the loop that copies the matches counts.
\<close>

definition result_count :: "int \<Rightarrow> nat \<Rightarrow> nat" where
  "result_count qn n = nat (s32 (if u64 qn \<le> int n then u64 qn else int n))"

definition ns__imSearch :: "((string \<times> 'f::linorder \<Rightarrow> string \<times> 'f \<Rightarrow> bool) \<Rightarrow> (string \<times> 'f) list \<Rightarrow> (string \<times> 'f) list)
    \<Rightarrow> (nat \<Rightarrow> (string \<times> 'f) list option) \<Rightarrow> nat list \<Rightarrow> string \<Rightarrow> pirServer \<Rightarrow> 'f searchResponse \<times> pirServer" where
  "ns__imSearch std_sort reply arrival ocr server =
     (if serverstate server = PIR_STATE_READY then
        let search_res = gather reply arrival;
            search_res = (if search_res \<noteq> [] then
                (case ranking server of
                   AscendingSort \<Rightarrow> std_sort compareKeyAscending search_res
                 | DescendingSort \<Rightarrow> std_sort compareKeyDescending search_res
                 | NoSort \<Rightarrow> std_sort compareKeyDescending search_res)
              else search_res);
            k = result_count (query_num server) (length search_res)
        in (\<lparr>tag = PIR_SOAP_TAG_OK, matches = take k search_res,
             resp_ocr = (if ocr_enabled server \<noteq> 0 then ocr else [])\<rparr>,
            server\<lparr>stat_search_conn := u64 (stat_search_conn server + 1)\<rparr>)
      else (\<lparr>tag = PIR_STATE_ERROR, matches = [], resp_ocr = []\<rparr>,
            server\<lparr>stat_failed_conn := u64 (stat_failed_conn server + 1)\<rparr>))"

text \<open>What \<open>std::sort\<close> promises for a strict weak order.\<close>

definition sorts :: "(('a \<Rightarrow> 'a \<Rightarrow> bool) \<Rightarrow> 'a list \<Rightarrow> 'a list) \<Rightarrow> ('a \<Rightarrow> 'a \<Rightarrow> bool) \<Rightarrow> bool" where
  "sorts std_sort lt \<longleftrightarrow> (\<forall>xs. mset (std_sort lt xs) = mset xs \<and> sorted_wrt (\<lambda>a b. \<not> lt b a) (std_sort lt xs))"

section \<open>Initialisation\<close>

text \<open>
  The loop of \<open>ns__serviceInit\<close> over the workers, from the value \<open>ret\<close>: the result is \<open>ret\<close>
  afterwards and whether the loop was left early.
\<close>

fun init_workers :: "(nat \<Rightarrow> int option) \<Rightarrow> nat list \<Rightarrow> int \<Rightarrow> int \<times> bool" where
  "init_workers reply [] ret = (ret, False)"
| "init_workers reply (i # is) ret =
     (let ret' = (case reply i of None \<Rightarrow> PIR_SOAP_TAG_ERR | Some t \<Rightarrow> t)
      in if ret' = PIR_SOAP_TAG_ERR then (ret', True) else init_workers reply is ret')"

text \<open>The result is the tag, the server, and the snapshot file when one was written.\<close>

definition ns__serviceInit :: "(nat \<Rightarrow> int option) \<Rightarrow> bool \<Rightarrow> string \<Rightarrow> string \<Rightarrow> string \<Rightarrow> string
    \<Rightarrow> pirServer \<Rightarrow> int \<times> pirServer \<times> string option" where
  "ns__serviceInit reply fopen_ok ws tp me op server =
     (let s1 = server\<lparr>serverstate := PIR_STATE_INITING\<rparr>;
          (r, vec) = initWorkerInfo ws tp me op (workerInfoVec s1);
          s2 = s1\<lparr>workerInfoVec := vec\<rparr>
      in if r = PIR_ERR then (PIR_SOAP_TAG_OK, s2, None)
         else
           let s3 = s2\<lparr>bucketSize := int (length vec)\<rparr>;
               (ret, stop) = init_workers reply [0..<length vec] PIR_SOAP_TAG_OK
           in if stop then (ret, s3, None)
              else (ret, s3\<lparr>serverstate := PIR_STATE_INITED\<rparr>, snd (writeWorkerInfo vec fopen_ok)))"

section \<open>Status\<close>

text \<open>The loop of \<open>updateServerStatus\<close>: the workers, the least state so far, and whether a call failed.\<close>

fun poll_workers :: "(nat \<Rightarrow> int option) \<Rightarrow> nat list \<Rightarrow> int \<Rightarrow> workerInfo list \<Rightarrow> workerInfo list \<times> int \<times> bool" where
  "poll_workers reply [] st vec = (vec, st, False)"
| "poll_workers reply (i # is) st vec =
     (case reply i of
        None \<Rightarrow> (vec, st, True)
      | Some t \<Rightarrow> poll_workers reply is (if t < st then t else st) (vec[i := (vec ! i)\<lparr>wstate := t\<rparr>]))"

datatype master_exit = Exit int

text \<open>
  \<open>mtime\<close> is the result of \<open>stat\<close> on the snapshot file, \<open>inp\<close> its contents.  \<open>Inl (Exit 0)\<close>: the
  server process ends because the snapshot cannot be loaded.
\<close>

definition poll_status :: "(nat \<Rightarrow> int option) \<Rightarrow> pirServer \<Rightarrow> pirServer" where
  "poll_status reply server =
     (let (vec, st, failed) = poll_workers reply [0..<nat (bucketSize server)] 0x7fffffff (workerInfoVec server);
          s = server\<lparr>workerInfoVec := vec\<rparr>
      in if failed then s\<lparr>serverstate := PIR_STATE_ERROR\<rparr>
         else if st = 0x7fffffff then s\<lparr>serverstate := PIR_STATE_ERROR\<rparr>
         else s\<lparr>serverstate := u8 st\<rparr>)"

definition updateServerStatus :: "int option \<Rightarrow> string option \<Rightarrow> int \<Rightarrow> (nat \<Rightarrow> int option) \<Rightarrow> pirServer
    \<Rightarrow> master_exit + pirServer" where
  "updateServerStatus mtime inp junk reply server =
     (case mtime of
        None \<Rightarrow> Inr server
      | Some t \<Rightarrow>
          if t > watchdog_mtime server then
            (case loadWorkerInfo inp junk [] of
               Inl _ \<Rightarrow> Inl (Exit 0)
             | Inr (r, vec) \<Rightarrow>
                 if r < 0 then Inl (Exit 0)
                 else Inr (poll_status reply (server\<lparr>watchdog_mtime := t, workerInfoVec := vec, bucketSize := int (length vec)\<rparr>)))
          else Inr (poll_status reply server))"

section \<open>The other handlers\<close>

text \<open>
  The calls a handler or a thread of the master makes to its workers, in order, by the URL of the
  worker, and the threads it creates.  These handlers ignore what the workers answer.
\<close>

datatype soap_call = Call_train string int | Call_serviceStart string | Call_serviceStop string | Call_quit string

datatype master_thread = Train_Thread | ServiceStart_Thread

definition call_all :: "(string \<Rightarrow> soap_call) \<Rightarrow> pirServer \<Rightarrow> soap_call list" where
  "call_all f server = map (\<lambda>i. f (wmethod (workerInfoVec server ! i))) [0..<nat (bucketSize server)]"

definition ns__train :: "int \<Rightarrow> pirServer \<Rightarrow> int \<times> pirServer \<times> master_thread list" where
  "ns__train auto server = (PIR_SOAP_TAG_OK, server\<lparr>autostart := take_bit 1 auto\<rparr>, [Train_Thread])"

definition serviceStart_thread :: "pirServer \<Rightarrow> soap_call list" where
  "serviceStart_thread server = call_all Call_serviceStart server"

definition ns__serviceStart :: "pirServer \<Rightarrow> int \<times> master_thread list" where
  "ns__serviceStart server = (PIR_SOAP_TAG_OK, [ServiceStart_Thread])"

definition clear :: "pirServer \<Rightarrow> soap_call list" where
  "clear server = call_all Call_serviceStop server"

definition ns__serviceStop :: "pirServer \<Rightarrow> int \<times> pirServer \<times> soap_call list" where
  "ns__serviceStop server = (PIR_SOAP_TAG_OK, server\<lparr>serverstate := PIR_STATE_TRAINED\<rparr>, clear server)"

definition ns__serviceRestart :: "pirServer \<Rightarrow> int \<times> pirServer \<times> soap_call list \<times> master_thread list" where
  "ns__serviceRestart server =
     (PIR_SOAP_TAG_OK, server\<lparr>serverstate := PIR_STATE_TRAINED\<rparr>, clear server, [ServiceStart_Thread])"

definition ns__clear :: "pirServer \<Rightarrow> int \<times> pirServer \<times> soap_call list" where
  "ns__clear server = (PIR_SOAP_TAG_OK, server\<lparr>serverstate := PIR_STATE_INITED\<rparr>, clear server)"

text \<open>\<open>ns__quit\<close> ends the process after the calls.\<close>

definition ns__quit :: "pirServer \<Rightarrow> master_exit \<times> soap_call list" where
  "ns__quit server = (Exit 0, call_all Call_quit server)"

definition ns__state :: "pirServer \<Rightarrow> int" where
  "ns__state server = serverstate server"

definition SIGINT :: int where "SIGINT = 2"

definition sigShutdownHandler :: "int \<Rightarrow> pirServer \<Rightarrow> master_exit + pirServer" where
  "sigShutdownHandler sig server =
     (if shutdown_asap server \<noteq> 0 \<and> sig = SIGINT then Inl (Exit 1)
      else Inr (server\<lparr>shutdown_asap := 1\<rparr>))"

section \<open>Lemmas\<close>

lemma search_thread_fold:
  "fold (search_thread reply) is acc = acc @ concat (map (\<lambda>i. case reply i of None \<Rightarrow> [] | Some ms \<Rightarrow> ms) is)"
  by (induction "is" arbitrary: acc) (auto simp: search_thread_def split: option.splits)

definition all_matches :: "(nat \<Rightarrow> (string \<times> 'f) list option) \<Rightarrow> nat \<Rightarrow> (string \<times> 'f) list" where
  "all_matches reply n = concat (map (\<lambda>i. case reply i of None \<Rightarrow> [] | Some ms \<Rightarrow> ms) [0..<n])"

lemma mset_concat_map: "mset (concat (map f is)) = \<Sum>\<^sub># (image_mset (mset \<circ> f) (mset is))"
  by (induction "is") auto

lemma thread_index_small: "i < 256 \<Longrightarrow> thread_index i = i"
  by (simp add: thread_index_def u8_def take_bit_eq_mod)

lemma mset_gather:
  assumes "mset arrival = mset [0..<n]" "n \<le> 256"
  shows "mset (gather reply arrival) = mset (all_matches reply n)"
proof -
  have "set arrival = {0..<n}" using assms(1) by (metis set_mset_mset set_upt)
  then have "gather reply arrival = fold (search_thread reply) arrival []"
    unfolding gather_def using assms(2) by (intro fold_cong) (auto simp: thread_index_small)
  then have "mset (gather reply arrival) = \<Sum>\<^sub># (image_mset (mset \<circ> (\<lambda>i. case reply i of None \<Rightarrow> [] | Some ms \<Rightarrow> ms)) (mset arrival))"
    by (simp add: search_thread_fold mset_concat_map)
  then show ?thesis unfolding all_matches_def mset_concat_map assms(1) .
qed

text \<open>With more than 256 workers one of them is never asked.\<close>

lemma worker_256_never_asked: "256 \<notin> thread_index ` {0..<n}"
  by (auto simp: thread_index_def u8_def take_bit_eq_mod)

lemma sorts_scores_ascending:
  assumes "sorts std_sort compareKeyAscending"
  shows "map snd (std_sort compareKeyAscending xs) = sort (map snd xs)"
proof (rule properties_for_sort [symmetric])
  have m: "mset (std_sort compareKeyAscending xs) = mset xs"
    and w: "sorted_wrt (\<lambda>a b. \<not> compareKeyAscending b a) (std_sort compareKeyAscending xs)"
    using assms by (auto simp: sorts_def)
  from m show "mset (map snd (std_sort compareKeyAscending xs)) = mset (map snd xs)" by (metis mset_map)
  from w show "sorted (map snd (std_sort compareKeyAscending xs))"
    by (simp add: sorted_wrt_map compareKeyAscending_def not_less)
qed

lemma sorts_scores_descending:
  assumes "sorts std_sort compareKeyDescending"
  shows "map snd (std_sort compareKeyDescending xs) = rev (sort (map snd xs))"
proof -
  have m: "mset (std_sort compareKeyDescending xs) = mset xs"
    and w: "sorted_wrt (\<lambda>a b. \<not> compareKeyDescending b a) (std_sort compareKeyDescending xs)"
    using assms by (auto simp: sorts_def)
  have "sort (map snd xs) = rev (map snd (std_sort compareKeyDescending xs))"
  proof (rule properties_for_sort)
    from m show "mset (rev (map snd (std_sort compareKeyDescending xs))) = mset (map snd xs)" by (metis mset_map mset_rev)
    from w show "sorted (rev (map snd (std_sort compareKeyDescending xs)))"
      by (simp add: sorted_wrt_rev sorted_wrt_map compareKeyDescending_def not_less)
  qed
  then show ?thesis by simp
qed

lemma s32_small: "0 \<le> x \<Longrightarrow> x \<le> MAX_INT32 \<Longrightarrow> s32 x = x"
  by (simp add: s32_def MAX_INT32_def signed_take_bit_int_eq_self)

lemma result_count_int32:
  assumes "fits32 qn" "int n \<le> MAX_INT32"
  shows "result_count qn n = (if qn < 0 then n else min (nat qn) n)"
proof (cases "qn < 0")
  case True
  have "u64 qn = qn + 2 ^ 64"
    using True assms(1) by (simp add: u64_def take_bit_eq_mod fits32_def MIN_INT32_def MAX_INT32_def) (smt (verit) mod_add_self2 mod_pos_pos_trivial)
  with True assms show ?thesis by (simp add: result_count_def fits32_def MIN_INT32_def MAX_INT32_def s32_small)
next
  case False
  then have "u64 qn = qn"
    using assms(1) by (simp add: u64_def take_bit_eq_mod fits32_def MAX_INT32_def)
  with False assms show ?thesis by (auto simp: result_count_def min_def fits32_def s32_small)
qed

lemma poll_workers_spec:
  "poll_workers reply is st vec = (vec', st', failed) \<Longrightarrow>
   (failed \<longleftrightarrow> (\<exists>i\<in>set is. reply i = None)) \<and> length vec' = length vec \<and>
   (\<not> failed \<longrightarrow> st' = fold min (map (\<lambda>i. the (reply i)) is) st)"
proof (induction reply "is" st vec arbitrary: vec' st' failed rule: poll_workers.induct)
  case (1 reply st vec)
  then show ?case by simp
next
  case (2 reply i "is" st vec)
  show ?case
  proof (cases "reply i")
    case None
    with 2 show ?thesis by auto
  next
    case (Some t)
    have m: "(if t < st then t else st) = min t st" by (simp add: min_def)
    from 2(1) [OF Some, of vec' st' failed] 2(2) Some m show ?thesis by (auto simp: min.commute)
  qed
qed

lemma fold_min_least:
  fixes xs :: "int list"
  shows "fold min xs a \<le> a \<and> (\<forall>x\<in>set xs. fold min xs a \<le> x) \<and> (fold min xs a = a \<or> fold min xs a \<in> set xs)"
  by (induction xs arbitrary: a) (auto simp: min_def, (smt (verit))+)

definition ranked :: "((string \<times> 'f::linorder \<Rightarrow> string \<times> 'f \<Rightarrow> bool) \<Rightarrow> (string \<times> 'f) list \<Rightarrow> (string \<times> 'f) list)
    \<Rightarrow> ranking_t \<Rightarrow> (string \<times> 'f) list \<Rightarrow> (string \<times> 'f) list" where
  "ranked std_sort r = (case r of AscendingSort \<Rightarrow> std_sort compareKeyAscending | _ \<Rightarrow> std_sort compareKeyDescending)"

lemma imSearch_ready:
  assumes "serverstate server = PIR_STATE_READY"
    and "std_sort compareKeyAscending [] = []" "std_sort compareKeyDescending [] = []"
  shows "matches (fst (ns__imSearch std_sort reply arrival ocr server)) =
      take (result_count (query_num server) (length (ranked std_sort (ranking server) (gather reply arrival))))
        (ranked std_sort (ranking server) (gather reply arrival))"
  using assms by (auto simp: ns__imSearch_def ranked_def Let_def split: ranking_t.splits)

lemma sorts_Nil: "sorts std_sort lt \<Longrightarrow> std_sort lt [] = []"
  unfolding sorts_def by (metis mset_zero_iff_right mset.simps(1))

lemma imSearch_scores:
  assumes "serverstate server = PIR_STATE_READY"
    and "sorts std_sort compareKeyAscending" "sorts std_sort compareKeyDescending"
    and "mset arrival = mset [0..<n]" "n \<le> 256" "fits32 (query_num server)" "int (length (all_matches reply n)) \<le> MAX_INT32"
  defines "k \<equiv> (if query_num server < 0 then length (all_matches reply n)
     else min (nat (query_num server)) (length (all_matches reply n)))"
  shows "map snd (matches (fst (ns__imSearch std_sort reply arrival ocr server))) =
      take k (if ranking server = AscendingSort then sort (map snd (all_matches reply n))
              else rev (sort (map snd (all_matches reply n))))"
    and "mset (matches (fst (ns__imSearch std_sort reply arrival ocr server))) \<subseteq># mset (all_matches reply n)"
proof -
  note nil = sorts_Nil [OF assms(2)] sorts_Nil [OF assms(3)]
  note g = mset_gather [OF assms(4,5), of reply]
  let ?res = "ranked std_sort (ranking server) (gather reply arrival)"
  note ready = imSearch_ready [where std_sort = std_sort and reply = reply and arrival = arrival, OF assms(1) nil]
  have m: "mset ?res = mset (all_matches reply n)"
    using assms(2,3) g by (auto simp: sorts_def ranked_def split: ranking_t.splits)
  have len: "length ?res = length (all_matches reply n)" using m by (rule mset_eq_length)
  have k: "result_count (query_num server) (length ?res) = k"
    unfolding len k_def using assms(6,7) by (rule result_count_int32)
  have sg: "sort (map snd (gather reply arrival)) = sort (map snd (all_matches reply n))"
    by (metis g mset_map sorted_list_of_multiset_mset)
  have "map snd ?res = (if ranking server = AscendingSort then sort (map snd (all_matches reply n))
      else rev (sort (map snd (all_matches reply n))))"
    using sorts_scores_ascending [OF assms(2)] sorts_scores_descending [OF assms(3)] sg
    by (cases "ranking server") (auto simp: ranked_def)
  then have "map snd (take k ?res) = take k (if ranking server = AscendingSort then sort (map snd (all_matches reply n))
      else rev (sort (map snd (all_matches reply n))))"
    unfolding take_map [symmetric] by (rule arg_cong)
  then show "map snd (matches (fst (ns__imSearch std_sort reply arrival ocr server))) =
      take k (if ranking server = AscendingSort then sort (map snd (all_matches reply n))
              else rev (sort (map snd (all_matches reply n))))"
    unfolding ready k .
  show "mset (matches (fst (ns__imSearch std_sort reply arrival ocr server))) \<subseteq># mset (all_matches reply n)"
    unfolding ready k m [symmetric] by (metis append_take_drop_id mset_append mset_subset_eq_add_left)
qed

lemma init_workers_spec:
  "init_workers reply is ret = (ret', stop) \<Longrightarrow>
   (stop \<longleftrightarrow> (\<exists>i\<in>set is. reply i = None \<or> reply i = Some PIR_SOAP_TAG_ERR)) \<and> (stop \<longrightarrow> ret' = PIR_SOAP_TAG_ERR)"
proof (induction reply "is" ret arbitrary: ret' stop rule: init_workers.induct)
  case (1 reply ret)
  then show ?case by simp
next
  case (2 reply i "is" ret)
  let ?t = "case reply i of None \<Rightarrow> PIR_SOAP_TAG_ERR | Some t \<Rightarrow> t"
  show ?case
  proof (cases "?t = PIR_SOAP_TAG_ERR")
    case True
    with 2(2) show ?thesis by (auto split: option.splits)
  next
    case False
    then have "init_workers reply is ?t = (ret', stop)" using 2(2) by (simp add: Let_def)
    from 2(1) [OF refl False this] False show ?thesis by (auto split: option.splits)
  qed
qed

definition accepts_init :: "(nat \<Rightarrow> int option) \<Rightarrow> nat \<Rightarrow> bool" where
  "accepts_init reply n \<longleftrightarrow> (\<forall>i < n. reply i \<noteq> None \<and> reply i \<noteq> Some PIR_SOAP_TAG_ERR)"

lemma serviceInit_cases:
  assumes "initWorkerInfo ws tp me op (workerInfoVec server) = (PIR_OK, vec)"
  shows "snd (ns__serviceInit reply fopen_ok ws tp me op server) =
    (if accepts_init reply (length vec)
     then (server\<lparr>serverstate := PIR_STATE_INITED, workerInfoVec := vec, bucketSize := int (length vec)\<rparr>,
           snd (writeWorkerInfo vec fopen_ok))
     else (server\<lparr>serverstate := PIR_STATE_INITING, workerInfoVec := vec, bucketSize := int (length vec)\<rparr>, None))"
    and "\<not> accepts_init reply (length vec) \<Longrightarrow> fst (ns__serviceInit reply fopen_ok ws tp me op server) = PIR_SOAP_TAG_ERR"
proof -
  obtain ret stop where p: "init_workers reply [0..<length vec] PIR_SOAP_TAG_OK = (ret, stop)" by fastforce
  note q = init_workers_spec [OF p]
  have s: "stop \<longleftrightarrow> \<not> accepts_init reply (length vec)" using q by (auto simp: accepts_init_def)
  show "snd (ns__serviceInit reply fopen_ok ws tp me op server) =
    (if accepts_init reply (length vec)
     then (server\<lparr>serverstate := PIR_STATE_INITED, workerInfoVec := vec, bucketSize := int (length vec)\<rparr>,
           snd (writeWorkerInfo vec fopen_ok))
     else (server\<lparr>serverstate := PIR_STATE_INITING, workerInfoVec := vec, bucketSize := int (length vec)\<rparr>, None))"
    using assms p s by (simp add: ns__serviceInit_def pir_codes)
  show "\<not> accepts_init reply (length vec) \<Longrightarrow> fst (ns__serviceInit reply fopen_ok ws tp me op server) = PIR_SOAP_TAG_ERR"
    using assms p s q by (simp add: ns__serviceInit_def pir_codes)
qed

lemma poll_status_cases:
  assumes "\<forall>i t. i < nat (bucketSize server) \<and> reply i = Some t \<longrightarrow> PIR_STATE_NONE \<le> t \<and> t \<le> PIR_STATE_READY"
  shows "(serverstate (poll_status reply server) = PIR_STATE_READY \<longleftrightarrow>
      0 < bucketSize server \<and> (\<forall>i < nat (bucketSize server). reply i = Some PIR_STATE_READY))
    \<and> (serverstate (poll_status reply server) = PIR_STATE_ERROR \<longleftrightarrow>
      bucketSize server \<le> 0 \<or> (\<exists>i < nat (bucketSize server). reply i = None))"
proof -
  let ?is = "[0..<nat (bucketSize server)]"
  obtain vec st failed where p: "poll_workers reply ?is 0x7fffffff (workerInfoVec server) = (vec, st, failed)"
    using prod_cases3 by blast
  note f = poll_workers_spec [OF p]
  let ?ts = "map (\<lambda>i. the (reply i)) ?is"
  show ?thesis
  proof (cases failed)
    case True
    then obtain i where "i < nat (bucketSize server)" "reply i = None" using f by auto
    with True p show ?thesis by (auto simp: poll_status_def pir_states intro: exI [of _ i])
  next
    case False
    then have some: "\<exists>t. reply i = Some t \<and> 0 \<le> t \<and> t \<le> 6" if "i < nat (bucketSize server)" for i
      using f that assms by (force simp: pir_states)
    have ts: "\<forall>t\<in>set ?ts. 0 \<le> t \<and> t \<le> 6" using some by fastforce
    have st: "st = fold min ?ts 0x7fffffff" using f False by simp
    note least = fold_min_least [of ?ts "0x7fffffff", folded st]
    show ?thesis
    proof (cases "bucketSize server \<le> 0")
      case True
      with False p st show ?thesis by (simp add: poll_status_def pir_states)
    next
      case pos: False
      then have "the (reply 0) \<in> set ?ts" by auto
      then have st6: "0 \<le> st" "st \<le> 6" using least ts by fastforce+
      then have u: "u8 st = st" by (simp add: u8_def take_bit_eq_mod)
      have ss: "serverstate (poll_status reply server) = st" using p False st6 u by (simp add: poll_status_def)
      have "st = 6 \<longleftrightarrow> (\<forall>i < nat (bucketSize server). reply i = Some 6)"
      proof
        assume "st = 6"
        have "reply i = Some 6" if i: "i < nat (bucketSize server)" for i
        proof -
          obtain t where t: "reply i = Some t" "t \<le> 6" using some [OF i] by auto
          then have "t \<in> set ?ts" using i by force
          with least t \<open>st = 6\<close> show ?thesis by fastforce
        qed
        then show "\<forall>i < nat (bucketSize server). reply i = Some 6" by blast
      next
        assume a: "\<forall>i < nat (bucketSize server). reply i = Some 6"
        have "st \<in> set ?ts" using least st6 by auto
        with a show "st = 6" by auto
      qed
      moreover have "\<not> (\<exists>i < nat (bucketSize server). reply i = None)" using some by fastforce
      ultimately show ?thesis using ss pos st6 by (auto simp: pir_states)
    qed
  qed
qed

section \<open>Properties\<close>

text \<open>
  C1. A search on a ready master returns the best \<open>query_num\<close> of the matches of all workers that
  answered (all of them when \<open>query_num\<close> is negative or too large): the list of scores is the
  sorted list of all scores cut to that length, whatever the order in which the search threads
  deliver and however \<open>std::sort\<close> arranges equal scores, and every match comes from a worker.  There
  are at most 256 workers.
\<close>

theorem imSearch_top:
  assumes "serverstate server = PIR_STATE_READY"
    and "sorts std_sort compareKeyAscending" "sorts std_sort compareKeyDescending"
    and "mset arrival = mset [0..<nat (bucketSize server)]" "nat (bucketSize server) \<le> 256" "fits32 (query_num server)" "int (length (all_matches reply (nat (bucketSize server)))) \<le> MAX_INT32"
  shows "map snd (matches (fst (ns__imSearch std_sort reply arrival ocr server))) =
      take (if query_num server < 0 then length (all_matches reply (nat (bucketSize server))) else nat (query_num server))
        (if ranking server = AscendingSort then sort (map snd (all_matches reply (nat (bucketSize server))))
         else rev (sort (map snd (all_matches reply (nat (bucketSize server))))))
    \<and> mset (matches (fst (ns__imSearch std_sort reply arrival ocr server))) \<subseteq># mset (all_matches reply (nat (bucketSize server)))
    \<and> tag (fst (ns__imSearch std_sort reply arrival ocr server)) = PIR_SOAP_TAG_OK"
proof -
  have "tag (fst (ns__imSearch std_sort reply arrival ocr server)) = PIR_SOAP_TAG_OK"
    using assms(1) by (simp add: ns__imSearch_def Let_def)
  then show ?thesis using imSearch_scores [OF assms, of ocr] by (auto simp: min_def)
qed

definition demo_server :: pirServer where
  "demo_server = \<lparr>serverstate = PIR_STATE_READY, autostart = 0, shutdown_asap = 0, bucketSize = 3, workerInfoVec = [],
     ranking = DescendingSort, query_num = 2, ocr_enabled = 0, watchdog_mtime = 0, stat_search_conn = 0, stat_failed_conn = 0\<rparr>"

definition demo_reply :: "nat \<Rightarrow> (string \<times> int) list option" where
  "demo_reply i = (if i = 0 then Some [(''a'', 5), (''b'', 1)] else if i = 2 then Some [(''c'', 9)] else None)"

definition demo_sort :: "(string \<times> int \<Rightarrow> string \<times> int \<Rightarrow> bool) \<Rightarrow> (string \<times> int) list \<Rightarrow> (string \<times> int) list" where
  "demo_sort lt xs = (if lt ([], 0) ([], 1) then sort_key snd xs else rev (sort_key snd xs))"

lemma demo_sort_ascending: "sorts demo_sort compareKeyAscending"
proof -
  have "sorted_wrt (\<lambda>a b. snd a \<le> snd b) (sort_key snd xs)" for xs :: "(string \<times> int) list"
    using sorted_sort_key [of snd xs] by (simp add: sorted_wrt_map)
  then show ?thesis by (simp add: sorts_def demo_sort_def compareKeyAscending_def not_less)
qed

lemma demo_sort_descending: "sorts demo_sort compareKeyDescending"
proof -
  have "sorted_wrt (\<lambda>a b. snd a \<le> snd b) (sort_key snd xs)" for xs :: "(string \<times> int) list"
    using sorted_sort_key [of snd xs] by (simp add: sorted_wrt_map)
  then show ?thesis by (simp add: sorts_def demo_sort_def compareKeyDescending_def not_less sorted_wrt_rev)
qed

theorem imSearch_top_witness:
  "map snd (matches (fst (ns__imSearch demo_sort demo_reply [2, 0, 1] [] demo_server))) = [9, 5]"
proof -
  have all: "all_matches demo_reply 3 = [(''a'', 5), (''b'', 1), (''c'', 9)]"
    by (simp add: all_matches_def demo_reply_def upt_rec)
  have b: "nat (bucketSize demo_server) = 3" by (simp add: demo_server_def)
  have "mset [2, 0, 1] = mset [0..<nat (bucketSize demo_server)]" by (simp add: b upt_rec)
  from imSearch_top [OF _ demo_sort_ascending demo_sort_descending this, of demo_reply "[]", unfolded b all]
  show ?thesis by (simp add: demo_server_def fits32_def MIN_INT32_def MAX_INT32_def)
qed

text \<open>
  \<open>serviceInit\<close> with parameters that cannot be split answers \<open>PIR_SOAP_TAG_OK\<close> although nothing
  was initialised: no worker is called, the table stays as it was and the master stays in the
  state \<open>INITING\<close>.
\<close>

lemma serviceInit_bad_parameters:
  assumes "fst (initWorkerInfo ws tp me op (workerInfoVec server)) = PIR_ERR"
  shows "ns__serviceInit reply fopen_ok ws tp me op server =
    (PIR_SOAP_TAG_OK, server\<lparr>serverstate := PIR_STATE_INITING\<rparr>, None)"
proof -
  have "initWorkerInfo ws tp me op (workerInfoVec server) = (PIR_ERR, workerInfoVec server)"
    using assms by (auto simp: initWorkerInfo_def pir_codes split: prod.splits if_splits)
  then show ?thesis by (simp add: ns__serviceInit_def)
qed

end
