(* ===== verification/WorkerServer.thy ===== *)
theory WorkerServer
  imports Master Complex_Main "HOL-Library.Word"
begin

text \<open>
  The state of a worker and the handlers that do not start threads, \<^verbatim>\<open>src/worker/src/recgservice.cpp\<close>
  and \<^verbatim>\<open>src/worker/src/pir.cpp\<close>: initialisation with the copy of the settings and the recovery file,
  adding and deleting training images, and search.  The image library is not part of the
  repository: what its functions answer is an argument.  Files are a map from names to contents.
\<close>

section \<open>State\<close>

text \<open>
  The counter of changed images is an unsigned 32-bit integer.  \<open>w_mutex\<close> says whether
  the thread that runs the handler holds \<open>mutex_for_training\<close>.  The values of \<open>progressPCT\<close> are fractions of small integers.
\<close>

record pirWorker =
  w_serverstate :: int
  w_autostart :: int
  w_progressPCT :: rat
  w_port :: int
  w_workspace :: string
  w_tpldir :: string
  w_method :: string
  w_option :: string
  w_setting_xml_path :: string
  w_setting_xml :: string
  w_delta :: "32 word"
  w_delta_peak :: "32 word"
  w_idletime :: int
  w_lastinteraction :: int
  w_mutex :: bool
  w_search_conn :: int
  w_failed_conn :: int

text \<open>The behaviour of the system around the worker.\<close>

record sysenv =
  can_write :: "string \<Rightarrow> bool"
  malloc_ok :: bool
  written :: nat
  logger_ok :: "string \<Rightarrow> bool"

type_synonym files = "string \<rightharpoonup> string"

section \<open>Initialisation\<close>

text \<open>
  The file size is an \<open>uint32_t\<close>; \<open>fread\<close> and \<open>fwrite\<close> of one item of that size answer 1 exactly when
  the size is not 0 and the item was transferred.
\<close>

definition copysetting :: "sysenv \<Rightarrow> pirWorker \<Rightarrow> string \<Rightarrow> files \<Rightarrow> int \<times> files" where
  "copysetting env server opt fs =
     (case fs (w_setting_xml_path server @ opt) of
        None \<Rightarrow> (- 1, fs)
      | Some contents \<Rightarrow>
          let file_size = nat (u32 (int (length contents))); buf = take file_size contents;
              out = w_workspace server @ w_setting_xml server in
          if \<not> malloc_ok env then (- 2, fs)
          else if file_size = 0 then (- 3, fs)
          else if \<not> can_write env out then (- 4, fs)
          else if written env < file_size then (- 5, fs(out \<mapsto> take (written env) buf))
          else (0, fs(out \<mapsto> buf)))"

definition switchLoggingDirectory :: "sysenv \<Rightarrow> pirWorker \<Rightarrow> int" where
  "switchLoggingDirectory env server = (if logger_ok env (w_workspace server) then PIR_OK else PIR_ERR)"

definition decz :: "int \<Rightarrow> string" where
  "decz n = (if n < 0 then CHR ''-'' # dec (nat (- n)) else dec (nat n))"

definition rdb_file :: "pirWorker \<Rightarrow> string" where
  "rdb_file server = ''__'' @ decz (w_port server) @ ''.rdb''"

definition writeWorkerInfo_w :: "sysenv \<Rightarrow> pirWorker \<Rightarrow> files \<Rightarrow> int \<times> files" where
  "writeWorkerInfo_w env server fs =
     (if \<not> can_write env (rdb_file server) then (PIR_ERR, fs)
      else (PIR_OK, fs(rdb_file server \<mapsto>
        ''port = '' @ decz (w_port server) @ [LF]
        @ ''workspace = '' @ cstr (w_workspace server) @ [LF]
        @ ''tpldir = '' @ cstr (w_tpldir server) @ [LF]
        @ ''method = '' @ cstr (w_method server) @ [LF]
        @ ''option = '' @ cstr (w_option server) @ [LF] @ [LF])))"

text \<open>Each field is assigned as it is read, so a failure leaves the earlier fields assigned.\<close>

definition loadWorkerInfo_w :: "files \<Rightarrow> pirWorker \<Rightarrow> cfg_error + int \<times> pirWorker" where
  "loadWorkerInfo_w fs s0 =
     (let (r0, fp) = QConfigReader_init fs (Some (rdb_file s0)) in
      if r0 < 0 then Inr (PIR_ERR, s0) else
      case getFieldString_std fp ''workspace'' (w_workspace s0) of Inl e \<Rightarrow> Inl e | Inr (r1, v1) \<Rightarrow>
      if r1 < 0 then Inr (PIR_ERR, s0) else let s1 = s0\<lparr>w_workspace := v1\<rparr> in
      case getFieldString_std fp ''tpldir'' (w_tpldir s1) of Inl e \<Rightarrow> Inl e | Inr (r2, v2) \<Rightarrow>
      if r2 < 0 then Inr (PIR_ERR, s1) else let s2 = s1\<lparr>w_tpldir := v2\<rparr> in
      case getFieldString_std fp ''method'' (w_method s2) of Inl e \<Rightarrow> Inl e | Inr (r3, v3) \<Rightarrow>
      if r3 < 0 then Inr (PIR_ERR, s2) else let s3 = s2\<lparr>w_method := v3\<rparr> in
      case getFieldString_std fp ''option'' (w_option s3) of Inl e \<Rightarrow> Inl e | Inr (r4, v4) \<Rightarrow>
      if r4 < 0 then Inr (PIR_ERR, s3) else Inr (PIR_OK, s3\<lparr>w_option := v4\<rparr>))"

definition ns__serviceInit_w :: "sysenv \<Rightarrow> string \<Rightarrow> string \<Rightarrow> string \<Rightarrow> string \<Rightarrow> pirWorker \<Rightarrow> files
    \<Rightarrow> int \<times> pirWorker \<times> files" where
  "ns__serviceInit_w env ws tp me op server fs =
     (let s1 = server\<lparr>w_serverstate := PIR_STATE_INITING, w_workspace := ws, w_tpldir := tp, w_method := me, w_option := op\<rparr> in
      if switchLoggingDirectory env s1 = PIR_ERR then (PIR_SOAP_TAG_ERR, s1, fs)
      else
        let (ret, fs1) = copysetting env s1 (w_option s1) fs in
        if ret < 0 then (PIR_SOAP_TAG_ERR, s1, fs1)
        else
          let s2 = s1\<lparr>w_serverstate := PIR_STATE_INITED\<rparr>; (r, fs2) = writeWorkerInfo_w env s2 fs1 in
          if r = PIR_ERR then (PIR_SOAP_TAG_ERR, s2, fs2)
          else (if ret = 0 then PIR_SOAP_TAG_OK else ret, s2, fs2))"

section \<open>Search\<close>

text \<open>\<open>search_image\<close> is the function of the image library; search objects come from the pool of the worker.\<close>

definition ns__imSearch_w :: "(string \<Rightarrow> (string \<times> 'f) list) \<Rightarrow> string \<Rightarrow> pirWorker \<Rightarrow> 'f searchResponse \<times> pirWorker" where
  "ns__imSearch_w search_image imgPath server =
     (let s1 = server\<lparr>w_search_conn := u64 (w_search_conn server + 1)\<rparr> in
      if w_serverstate s1 = PIR_STATE_READY
      then (\<lparr>tag = PIR_SOAP_TAG_OK, matches = search_image (cstr imgPath), resp_ocr = []\<rparr>, s1)
      else (\<lparr>tag = PIR_STATE_ERROR, matches = [], resp_ocr = []\<rparr>, s1\<lparr>w_failed_conn := u64 (w_failed_conn s1 + 1)\<rparr>))"

section \<open>Changing the training set\<close>

text \<open>
  Unlocking a mutex that the thread does not hold is undefined behaviour of \<open>pthread_mutex_unlock\<close>.
  The code after the label \<open>end\<close> of both handlers unlocks.  The result is the tag, whether a
  training thread was created, and the state.
\<close>

datatype mutex_error = Unlock_Not_Owned

definition finish :: "int \<Rightarrow> bool \<Rightarrow> pirWorker \<Rightarrow> mutex_error + int \<times> bool \<times> pirWorker" where
  "finish ret spawned server =
     (if w_mutex server then Inr (ret, spawned, server\<lparr>w_mutex := False\<rparr>) else Inl Unlock_Not_Owned)"

text \<open>
  \<open>enough\<close> is the floating-point comparison \<^verbatim>\<open>delta_for_training>=delta_peak*delta_ratio\<close>, \<open>now\<close> the
  time \<open>updateCachedTime\<close> stores.
\<close>

definition retrain_due :: "(32 word \<Rightarrow> bool) \<Rightarrow> int \<Rightarrow> pirWorker \<Rightarrow> bool" where
  "retrain_due enough now server \<longleftrightarrow>
     (enough (w_delta server) \<and> (now - w_lastinteraction server) * 1000 > w_idletime server)
     \<or> w_delta server \<ge> w_delta_peak server"

definition ns__trainAdd_w :: "(string \<Rightarrow> bool) \<Rightarrow> bool \<Rightarrow> (32 word \<Rightarrow> bool) \<Rightarrow> int \<Rightarrow> string \<Rightarrow> pirWorker
    \<Rightarrow> mutex_error + int \<times> bool \<times> pirWorker" where
  "ns__trainAdd_w add_train_image update_train_file enough now imgPath server =
     (if imgPath = [] \<or> w_serverstate server \<noteq> PIR_STATE_READY then finish PIR_SOAP_TAG_ERR False server
      else
        let s1 = server\<lparr>w_mutex := True\<rparr> in
        if \<not> add_train_image (cstr imgPath) then finish PIR_SOAP_TAG_ERR False s1
        else if \<not> update_train_file then finish PIR_SOAP_TAG_ERR False s1
        else
          let s2 = s1\<lparr>w_delta := w_delta s1 + 1\<rparr> in
          if retrain_due enough now s2 then finish PIR_SOAP_TAG_OK True (s2\<lparr>w_autostart := 1\<rparr>)
          else finish PIR_SOAP_TAG_OK False s2)"

definition ns__trainDelete_w :: "(string \<Rightarrow> bool) \<Rightarrow> bool \<Rightarrow> string \<Rightarrow> pirWorker \<Rightarrow> mutex_error + int \<times> bool \<times> pirWorker" where
  "ns__trainDelete_w delete_train_image update_train_file imgPath server =
     (if imgPath = [] \<or> w_serverstate server \<noteq> PIR_STATE_READY then finish PIR_SOAP_TAG_ERR False server
      else
        let s1 = server\<lparr>w_mutex := True\<rparr> in
        if \<not> delete_train_image (cstr imgPath) then finish PIR_SOAP_TAG_ERR False s1
        else if \<not> update_train_file then finish PIR_SOAP_TAG_ERR False s1
        else finish PIR_SOAP_TAG_OK False (s1\<lparr>w_delta := w_delta s1 - 1\<rparr>))"

section \<open>Lemmas\<close>

definition rdb_lines :: "pirWorker \<Rightarrow> cfg_line list" where
  "rdb_lines w = [Field ''port'' (decz (w_port w)), Field ''workspace'' (w_workspace w), Field ''tpldir'' (w_tpldir w),
     Field ''method'' (w_method w), Field ''option'' (w_option w), Blank]"

definition storable_config :: "pirWorker \<Rightarrow> bool" where
  "storable_config w \<longleftrightarrow> fits32 (w_port w) \<and> storable (w_workspace w) \<and> storable (w_tpldir w)
     \<and> storable (w_method w) \<and> storable (w_option w)"

lemma lower_rdb_keys [simp]:
  "lower ''port'' = ''port''" "lower ''workspace'' = ''workspace''" "lower ''tpldir'' = ''tpldir''"
  "lower ''method'' = ''method''" "lower ''option'' = ''option''"
  by code_simp+

lemma ok_rdb_keys [simp]:
  "ok_name ''port''" "ok_name ''workspace''" "ok_name ''tpldir''" "ok_name ''method''" "ok_name ''option''"
  by (simp_all add: ok_name_def ok_chars_def NUL_def LF_def CR_def)

lemma decz_ok:
  assumes "fits32 n"
  shows "ok_value (decz n)" "length (decz n) \<le> 12"
proof -
  have d: "ok_value (dec m)" for m using digits_ok_value [OF dec_digits, of m] by simp
  have ne: "dec m \<noteq> []" for m by simp
  show "ok_value (decz n)"
    using d [of "nat (- n)"] d [of "nat n"] ne [of "nat (- n)"]
    by (auto simp: decz_def ok_value_def ok_chars_def NUL_def LF_def)
  have "length (dec (nat \<bar>n\<bar>)) \<le> 10"
    using assms by (intro dec_length [of _ 9, simplified]) (auto simp: fits32_def MIN_INT32_def MAX_INT32_def)
  then show "length (decz n) \<le> 12" by (auto simp: decz_def)
qed

lemma ok_rdb_lines: "storable_config w \<Longrightarrow> \<forall>l\<in>set (rdb_lines w). ok_line l"
  using decz_ok [of "w_port w"]
  by (auto simp: rdb_lines_def storable_config_def storable_def BUFSIZ_1K_def)

lemma lookup_rdb [simp]:
  "lookup ''workspace'' (rdb_lines w) = Some (w_workspace w)" "lookup ''tpldir'' (rdb_lines w) = Some (w_tpldir w)"
  "lookup ''method'' (rdb_lines w) = Some (w_method w)" "lookup ''option'' (rdb_lines w) = Some (w_option w)"
  by (simp_all add: rdb_lines_def)

lemma writeWorkerInfo_w_render:
  "storable_config w \<Longrightarrow> can_write env (rdb_file w) \<Longrightarrow>
   writeWorkerInfo_w env w fs = (PIR_OK, fs(rdb_file w \<mapsto> render (rdb_lines w)))"
  by (simp add: writeWorkerInfo_w_def rdb_lines_def storable_config_def storable_def ok_value_def ok_chars_def)

lemma loadWorkerInfo_w_render:
  assumes "storable_config w" "fs (rdb_file s0) = Some (render (rdb_lines w))"
  shows "loadWorkerInfo_w fs s0 = Inr (PIR_OK, s0\<lparr>w_workspace := w_workspace w, w_tpldir := w_tpldir w,
     w_method := w_method w, w_option := w_option w\<rparr>)"
proof -
  have std: "getFieldString_std (Some (render (rdb_lines w))) k old = Inr (0, v)"
    if "ok_name k" "lookup k (rdb_lines w) = Some v" "v \<noteq> []" for k v old
    using that by (simp add: getFieldString_std_def getField_lookup [OF that(1) ok_rdb_lines [OF assms(1)]])
  have ne: "w_workspace w \<noteq> []" "w_tpldir w \<noteq> []" "w_method w \<noteq> []" "w_option w \<noteq> []"
    using assms(1) by (auto simp: storable_config_def storable_def)
  show ?thesis
    using assms(2)
    by (simp add: loadWorkerInfo_w_def QConfigReader_init_def std [OF _ lookup_rdb(1) ne(1)] std [OF _ lookup_rdb(2) ne(2)]
        std [OF _ lookup_rdb(3) ne(3)] std [OF _ lookup_rdb(4) ne(4)])
qed

text \<open>When the whole of the settings file is copied.\<close>

definition copies :: "sysenv \<Rightarrow> string \<Rightarrow> string \<Rightarrow> files \<Rightarrow> bool" where
  "copies env src dst fs \<longleftrightarrow> malloc_ok env \<and> can_write env dst
     \<and> (case fs src of None \<Rightarrow> False
        | Some c \<Rightarrow> u32 (int (length c)) \<noteq> 0 \<and> u32 (int (length c)) \<le> int (written env))"

lemma u32_nonneg: "0 \<le> u32 x"
  by (simp add: u32_def)

lemma copysetting_ok:
  "fst (copysetting env w op fs) = 0 \<longleftrightarrow> copies env (w_setting_xml_path w @ op) (w_workspace w @ w_setting_xml w) fs"
  "fst (copysetting env w op fs) \<le> 0"
  using u32_nonneg by (auto simp: copysetting_def copies_def Let_def split: option.splits if_splits) (metis order.antisym)

lemma copysetting_small:
  assumes "fs (w_setting_xml_path w @ op) = Some c" "length c < 2 ^ 32"
    and "copies env (w_setting_xml_path w @ op) (w_workspace w @ w_setting_xml w) fs"
  shows "copysetting env w op fs = (0, fs(w_workspace w @ w_setting_xml w \<mapsto> c))"
proof -
  have "int (length c) < 2 ^ 32" using assms(2) by simp
  then have "u32 (int (length c)) = int (length c)" by (simp add: u32_def take_bit_int_eq_self)
  with assms(1,3) show ?thesis by (auto simp: copysetting_def copies_def Let_def)
qed

definition configured :: "pirWorker \<Rightarrow> string \<Rightarrow> string \<Rightarrow> string \<Rightarrow> string \<Rightarrow> pirWorker" where
  "configured server ws tp me op = server\<lparr>w_workspace := ws, w_tpldir := tp, w_method := me, w_option := op\<rparr>"

lemma configured_sel [simp]:
  "w_workspace (configured s ws tp me op) = ws" "w_tpldir (configured s ws tp me op) = tp"
  "w_method (configured s ws tp me op) = me" "w_option (configured s ws tp me op) = op"
  "w_port (configured s ws tp me op) = w_port s" "w_setting_xml (configured s ws tp me op) = w_setting_xml s"
  "w_setting_xml_path (configured s ws tp me op) = w_setting_xml_path s"
  "rdb_file (configured s ws tp me op) = rdb_file s" "rdb_file (s\<lparr>w_serverstate := st\<rparr>) = rdb_file s"
  "copysetting env (s\<lparr>w_serverstate := st\<rparr>) = copysetting env s"
  "storable_config (s\<lparr>w_serverstate := st\<rparr>) = storable_config s" "rdb_lines (s\<lparr>w_serverstate := st\<rparr>) = rdb_lines s"
  by (auto simp: configured_def rdb_file_def copysetting_def storable_config_def rdb_lines_def fun_eq_iff split: option.splits)

lemma serviceInit_w_unfold:
  "ns__serviceInit_w env ws tp me op server fs =
     (let c = configured server ws tp me op; (ret, fs1) = copysetting env c op fs in
      if \<not> logger_ok env ws then (PIR_SOAP_TAG_ERR, c\<lparr>w_serverstate := PIR_STATE_INITING\<rparr>, fs)
      else if ret < 0 then (PIR_SOAP_TAG_ERR, c\<lparr>w_serverstate := PIR_STATE_INITING\<rparr>, fs1)
      else if \<not> can_write env (rdb_file server) then (PIR_SOAP_TAG_ERR, c\<lparr>w_serverstate := PIR_STATE_INITED\<rparr>, fs1)
      else (PIR_SOAP_TAG_OK, c\<lparr>w_serverstate := PIR_STATE_INITED\<rparr>,
            snd (writeWorkerInfo_w env (c\<lparr>w_serverstate := PIR_STATE_INITED\<rparr>) fs1)))"
proof -
  have st: "server\<lparr>w_serverstate := st, w_workspace := ws, w_tpldir := tp, w_method := me, w_option := op\<rparr>
      = (configured server ws tp me op)\<lparr>w_serverstate := st\<rparr>" for st
    by (simp add: configured_def)
  obtain ret fs1 where c: "copysetting env (configured server ws tp me op) op fs = (ret, fs1)" by fastforce
  have "ret \<le> 0" using copysetting_ok(2) [of env "configured server ws tp me op" op fs] c by simp
  then show ?thesis
    unfolding ns__serviceInit_w_def st
    by (auto simp: c switchLoggingDirectory_def pir_codes writeWorkerInfo_w_def Let_def split: prod.splits)
qed

lemma succ_word: "word_of_int ((uint (d :: 32 word) + 1) mod 2 ^ 32) = d + 1"
  by transfer (simp add: take_bit_eq_mod mod_simps)

lemma pred_word: "word_of_int ((uint (d :: 32 word) - 1) mod 2 ^ 32) = d - 1"
  by transfer (simp add: take_bit_eq_mod mod_simps)

section \<open>Properties\<close>

text \<open>
  C15. \<open>serviceInit\<close> of a worker answers \<open>PIR_SOAP_TAG_OK\<close> exactly when the log directory can be used,
  the settings file exists, is not empty and is copied in full, and the recovery file can be
  written; it answers \<open>PIR_SOAP_TAG_ERR\<close> otherwise.  After \<open>PIR_SOAP_TAG_OK\<close> the state is \<open>INITED\<close>; after
  an error it is \<open>INITING\<close>, except that a failure of the last step leaves \<open>INITED\<close>.
\<close>

theorem serviceInit_w_result:
  "(case ns__serviceInit_w env ws tp me op server fs of (t, server', fs') \<Rightarrow>
      let copied = logger_ok env ws \<and> copies env (w_setting_xml_path server @ op) (ws @ w_setting_xml server) fs in
      t = (if copied \<and> can_write env (rdb_file server) then PIR_SOAP_TAG_OK else PIR_SOAP_TAG_ERR)
      \<and> w_serverstate server' = (if copied then PIR_STATE_INITED else PIR_STATE_INITING))"
proof -
  let ?c = "configured server ws tp me op"
  obtain ret fs1 where c: "copysetting env ?c op fs = (ret, fs1)" by fastforce
  have "ret = 0 \<longleftrightarrow> copies env (w_setting_xml_path server @ op) (ws @ w_setting_xml server) fs" "ret \<le> 0"
    using copysetting_ok [of env ?c op fs] c by simp_all
  then show ?thesis by (auto simp: serviceInit_w_unfold c Let_def)
qed


definition demo_worker :: pirWorker where
  "demo_worker = \<lparr>w_serverstate = PIR_STATE_READY, w_autostart = 0, w_progressPCT = 0, w_port = 81, w_workspace = ''/o/'',
     w_tpldir = ''/p/'', w_method = ''m'', w_option = ''x'', w_setting_xml_path = ''set/'', w_setting_xml = ''setting.xml'',
     w_delta = 0, w_delta_peak = 1000, w_idletime = 60000, w_lastinteraction = 0, w_mutex = False,
     w_search_conn = 0, w_failed_conn = 0\<rparr>"

definition demo_env :: sysenv where
  "demo_env = \<lparr>can_write = (\<lambda>_. True), malloc_ok = True, written = 100, logger_ok = (\<lambda>_. True)\<rparr>"




text \<open>
  The counter of changed images wraps below zero: on a ready worker that has retrained and
  counted nothing since, deleting two images and adding one starts a full retraining at once,
  whatever threshold is configured.
\<close>

lemma deletes_trigger_training:
  assumes "\<not> w_mutex server" "w_serverstate server = PIR_STATE_READY" "w_delta server = 0"
    and "p \<noteq> []" "q \<noteq> []" "r \<noteq> []"
    and "ns__trainDelete_w (\<lambda>_. True) True p server = Inr (t1, b1, s1)"
    and "ns__trainDelete_w (\<lambda>_. True) True q s1 = Inr (t2, b2, s2)"
  shows "\<exists>s3. ns__trainAdd_w (\<lambda>_. True) True enough now r s2 = Inr (PIR_SOAP_TAG_OK, True, s3) \<and> w_autostart s3 = 1"
proof -
  have s1: "s1 = server\<lparr>w_delta := - 1\<rparr>"
    using assms(1-4,7) by (cases server) (auto simp: ns__trainDelete_w_def finish_def)
  have s2: "s2 = server\<lparr>w_delta := - 2\<rparr>"
    using assms(1,2,5,8) unfolding s1 by (cases server) (auto simp: ns__trainDelete_w_def finish_def)
  have "w_delta_peak server \<le> - 1" by (rule word_order.extremum)
  then show ?thesis using assms(1,2,6) unfolding s2 by (simp add: ns__trainAdd_w_def finish_def retrain_due_def Let_def)
qed

end
