(* ===== verification/WorkerThreads.thy ===== *)
theory WorkerThreads
  imports WorkerServer "HOL-Library.Sublist"
begin

text \<open>
  The life cycle of a worker, \<^verbatim>\<open>src/worker/src/recgservice.cpp\<close>: the handlers and the two kinds of
  threads that change \<open>serverstate\<close> and call the image library.  Nothing in the code orders them,
  so each is a list of instructions, one for every access to the shared server and every library
  call, and the steps of all threads interleave.  The image library is seen through the calls
  that are made to it.
\<close>

unbundle bit_operations_syntax

section \<open>Instructions\<close>

datatype lib_call = L_clear | L_init_lib string | L_import_image string | L_cast_feature_bySave | L_cast_feature_byLoad
  | L_compute_word_byLoad | L_build_index_bySave | L_build_index_byLoad | L_cluster_feature2word_bySave
  | L_cluster_feature2word_byLoad | L_search_image_init

text \<open>
  \<open>I_init_lib\<close> and \<open>I_import_image\<close> pass a field of the server, read when the call is made.  \<open>I_if_start\<close>
  is the test of \<open>ns__serviceStart\<close>, which leaves the handler when it fails, \<open>I_if_autostart\<close> the test
  at the end of \<open>train_thread\<close>, which runs the body of \<open>serviceStart_thread\<close> in the same thread.
\<close>

datatype instr = I_state int | I_or_state int | I_progress rat | I_autostart int | I_config string string string string
  | I_init_lib | I_import_image | I_lib lib_call | I_if_start | I_if_autostart | I_spawn_start | I_spawn_train

definition serviceStart_body :: "instr list" where
  "serviceStart_body =
     [I_state PIR_STATE_STARTING, I_lib L_clear, I_progress (0 / 6),
      I_init_lib, I_progress (1 / 6), I_lib L_cast_feature_byLoad, I_progress (2 / 6),
      I_lib L_compute_word_byLoad, I_progress (3 / 6), I_lib L_build_index_byLoad, I_progress (4 / 6),
      I_lib L_cluster_feature2word_byLoad, I_progress (5 / 6), I_lib L_search_image_init, I_progress (6 / 6),
      I_state PIR_STATE_READY]"

definition train_body :: "instr list" where
  "train_body =
     [I_state PIR_STATE_TRAINING, I_lib L_clear, I_progress (0 / 7),
      I_init_lib, I_progress (1 / 7), I_import_image, I_progress (2 / 7),
      I_lib L_cast_feature_bySave, I_progress (3 / 7), I_lib L_compute_word_byLoad, I_progress (4 / 7),
      I_lib L_build_index_bySave, I_progress (5 / 7), I_lib L_cluster_feature2word_bySave, I_progress (6 / 7),
      I_lib L_clear, I_progress (7 / 7), I_state PIR_STATE_TRAINED, I_if_autostart]"

section \<open>Requests\<close>

text \<open>
  \<open>R_init ok\<close>: \<open>serviceInit\<close>, \<open>ok\<close> when its log directory and settings are in order.  \<open>R_retrain\<close>: the
  part of \<open>trainAdd\<close> that starts a training.  \<open>R_recover\<close> and \<open>R_recover2\<close>: the functions
  \<open>serviceStart\<close> and \<open>serviceTrain\<close> that \<open>main\<close> calls after a restart.
\<close>

datatype request = R_init bool string string string string | R_train int | R_retrain | R_serviceStart | R_serviceStop
  | R_serviceRestart | R_clear | R_recover | R_recover2

definition serviceInit_prog :: "bool \<Rightarrow> string \<Rightarrow> string \<Rightarrow> string \<Rightarrow> string \<Rightarrow> instr list" where
  [simp]: "serviceInit_prog ok ws tp me op =
     [I_state PIR_STATE_INITING, I_config ws tp me op] @ (if ok then [I_state PIR_STATE_INITED] else [])"

definition train_prog :: "int \<Rightarrow> instr list" where
  [simp]: "train_prog auto = [I_state PIR_STATE_TRAINING, I_progress 0, I_autostart auto, I_spawn_train]"

definition retrain_prog :: "instr list" where
  [simp]: "retrain_prog = [I_autostart 1, I_spawn_train]"

definition serviceStart_prog :: "instr list" where
  [simp]: "serviceStart_prog = [I_if_start, I_state PIR_STATE_STARTING, I_progress 0, I_spawn_start]"

definition serviceStop_prog :: "instr list" where
  [simp]: "serviceStop_prog = [I_state PIR_STATE_TRAINED, I_lib L_clear]"

definition serviceRestart_prog :: "instr list" where
  [simp]: "serviceRestart_prog =
     [I_state PIR_STATE_TRAINED, I_lib L_clear, I_if_start, I_or_state PIR_STATE_STARTING, I_progress 0, I_spawn_start]"

definition clear_prog :: "instr list" where
  [simp]: "clear_prog = [I_state PIR_STATE_INITED, I_lib L_clear]"

definition recover_start_prog :: "instr list" where
  [simp]: "recover_start_prog = [I_state PIR_STATE_STARTING, I_progress 0, I_spawn_start]"

definition recover_train_prog :: "instr list" where
  [simp]: "recover_train_prog = [I_state PIR_STATE_TRAINING, I_progress 0, I_spawn_train]"

fun handler :: "request \<Rightarrow> instr list" where
  "handler (R_init ok ws tp me op) = serviceInit_prog ok ws tp me op"
| "handler (R_train auto) = train_prog auto"
| "handler R_retrain = retrain_prog"
| "handler R_serviceStart = serviceStart_prog"
| "handler R_serviceStop = serviceStop_prog"
| "handler R_serviceRestart = serviceRestart_prog"
| "handler R_clear = clear_prog"
| "handler R_recover = recover_start_prog"
| "handler R_recover2 = recover_train_prog"

section \<open>Execution\<close>

record wsys = pirWorker +
  calls :: "lib_call list"
  threads :: "instr list list"

text \<open>One instruction followed by \<open>rest\<close>: the new state, what is left of the thread, the new threads.\<close>

fun exec :: "instr \<Rightarrow> instr list \<Rightarrow> wsys \<Rightarrow> wsys \<times> instr list \<times> instr list list" where
  "exec (I_state n) rest s = (s\<lparr>w_serverstate := u8 n\<rparr>, rest, [])"
| "exec (I_or_state n) rest s = (s\<lparr>w_serverstate := u8 (w_serverstate s OR n)\<rparr>, rest, [])"
| "exec (I_progress p) rest s = (s\<lparr>w_progressPCT := p\<rparr>, rest, [])"
| "exec (I_autostart a) rest s = (s\<lparr>w_autostart := take_bit 1 a\<rparr>, rest, [])"
| "exec (I_config ws tp me op) rest s = (s\<lparr>w_workspace := ws, w_tpldir := tp, w_method := me, w_option := op\<rparr>, rest, [])"
| "exec I_init_lib rest s = (s\<lparr>calls := calls s @ [L_init_lib (w_workspace s)]\<rparr>, rest, [])"
| "exec I_import_image rest s = (s\<lparr>calls := calls s @ [L_import_image (w_tpldir s)]\<rparr>, rest, [])"
| "exec (I_lib c) rest s = (s\<lparr>calls := calls s @ [c]\<rparr>, rest, [])"
| "exec I_if_start rest s =
     (s, if w_serverstate s = PIR_STATE_INITED \<or> w_serverstate s = PIR_STATE_TRAINED \<or> w_serverstate s = PIR_STATE_READY
         then rest else [], [])"
| "exec I_if_autostart rest s = (s, if w_autostart s = 1 then serviceStart_body @ rest else rest, [])"
| "exec I_spawn_start rest s = (s, rest, [serviceStart_body])"
| "exec I_spawn_train rest s = (s, rest, [train_body])"

text \<open>Thread \<open>k\<close> makes its next step.\<close>

definition step_thread :: "nat \<Rightarrow> wsys \<Rightarrow> wsys" where
  "step_thread k s =
     (case threads s ! k of
        [] \<Rightarrow> s
      | i # rest \<Rightarrow> let (s', rest', new) = exec i rest s in s'\<lparr>threads := (threads s)[k := rest'] @ new\<rparr>)"

definition accept :: "request \<Rightarrow> wsys \<Rightarrow> wsys" where
  "accept r s = s\<lparr>threads := threads s @ [handler r]\<rparr>"

text \<open>The reachable states when the requests of \<open>R\<close> may arrive, in any number and at any time.\<close>

inductive wreach :: "request set \<Rightarrow> wsys \<Rightarrow> wsys \<Rightarrow> bool" for R and s0 where
  start: "wreach R s0 s0"
| request: "wreach R s0 s \<Longrightarrow> r \<in> R \<Longrightarrow> wreach R s0 (accept r s)"
| step: "wreach R s0 s \<Longrightarrow> k < length (threads s) \<Longrightarrow> wreach R s0 (step_thread k s)"

section \<open>One request at a time\<close>

definition weight :: "instr list \<Rightarrow> nat" where
  "weight p = length p + 100 * count_list p I_if_autostart"

lemma exec_weight: "exec i rest s = (s', rest', new) \<Longrightarrow> weight rest' < weight (i # rest)"
  by (cases i) (auto simp: weight_def serviceStart_body_def split: if_splits)

text \<open>
  \<open>run\<close> executes a thread to its end and gives the threads it created; \<open>serve\<close> handles a request
  when nothing else runs: the handler, then the threads it created.
\<close>

function run :: "instr list \<Rightarrow> wsys \<Rightarrow> wsys \<times> instr list list" where
  "run [] s = (s, [])"
| "run (i # rest) s = (let (s', rest', new) = exec i rest s; (s'', new') = run rest' s' in (s'', new @ new'))"
  by pat_completeness auto
termination
  by (relation "measure (\<lambda>(p, s). weight p)") (auto dest: exec_weight [OF sym])

definition run_all :: "instr list list \<Rightarrow> wsys \<Rightarrow> wsys" where
  "run_all ps s = fold (\<lambda>p s. fst (run p s)) ps s"

definition serve :: "request \<Rightarrow> wsys \<Rightarrow> wsys" where
  "serve r s = (let (s', new) = run (handler r) s in run_all new s')"

section \<open>Lemmas\<close>

lemma exec_keeps_threads: "exec i rest s = (s', rest', new) \<Longrightarrow> threads s' = threads s"
  by (cases i) (auto split: if_splits)

lemma exec_threads_irrelevant:
  "exec i rest (s\<lparr>threads := ts\<rparr>) = (case exec i rest s of (s', rest', new) \<Rightarrow> (s'\<lparr>threads := ts\<rparr>, rest', new))"
  by (cases i) simp_all

text \<open>
  A property of the shared state that every instruction of the admitted kind keeps holds in every
  interleaving, because all threads consist of such instructions.
\<close>

locale thread_invariant =
  fixes P :: "wsys \<Rightarrow> bool" and Q :: "instr \<Rightarrow> bool" and R :: "request set"
  assumes exec_keeps: "P s \<Longrightarrow> Q i \<Longrightarrow> exec i rest s = (s', rest', new) \<Longrightarrow> P s'"
    and threads_irrelevant: "P (s\<lparr>threads := ts\<rparr>) = P s"
    and bodies: "i \<in> set serviceStart_body \<union> set train_body \<Longrightarrow> Q i"
    and handlers: "r \<in> R \<Longrightarrow> i \<in> set (handler r) \<Longrightarrow> Q i"
begin

definition admitted :: "wsys \<Rightarrow> bool" where
  "admitted s \<longleftrightarrow> (\<forall>t\<in>set (threads s). \<forall>i\<in>set t. Q i)"

lemma exec_admitted:
  assumes "exec i rest s = (s', rest', new)" "\<forall>i\<in>set rest. Q i"
  shows "\<forall>i\<in>set rest'. Q i" "\<forall>t\<in>set new. \<forall>i\<in>set t. Q i"
  using assms bodies by (cases i; auto split: if_splits)+

lemma step_keeps:
  assumes "P s" "admitted s" "k < length (threads s)"
  shows "P (step_thread k s) \<and> admitted (step_thread k s)"
proof (cases "threads s ! k")
  case Nil
  with assms show ?thesis by (simp add: step_thread_def)
next
  case (Cons i rest)
  obtain s' rest' new where e: "exec i rest s = (s', rest', new)" by (cases "exec i rest s")
  have q: "Q i" "\<forall>i\<in>set rest. Q i" using assms(2,3) Cons nth_mem [OF assms(3)] by (auto simp: admitted_def)
  have "P s'" using exec_keeps [OF assms(1) q(1) e] .
  moreover have "\<forall>t\<in>set ((threads s)[k := rest'] @ new). \<forall>i\<in>set t. Q i"
    using exec_admitted [OF e q(2)] assms(2) by (auto simp: admitted_def dest!: set_update_subset_insert [THEN subsetD])
  ultimately show ?thesis using Cons e by (simp add: step_thread_def admitted_def threads_irrelevant)
qed

lemma invariant:
  assumes "wreach R s0 s" "P s0" "threads s0 = []"
  shows "P s \<and> admitted s"
  using assms(1)
proof (induction rule: wreach.induct)
  case start
  then show ?case using assms by (simp add: admitted_def)
next
  case (request s r)
  then show ?case using handlers [of r] by (auto simp: accept_def admitted_def threads_irrelevant)
next
  case (step s k)
  then show ?case using step_keeps by blast
qed

end

text \<open>A bound on the state that every instruction keeps.\<close>

fun instr_in :: "int set \<Rightarrow> bool \<Rightarrow> instr \<Rightarrow> bool" where
  "instr_in S allow_or (I_state n) = (n \<in> S)"
| "instr_in S allow_or (I_or_state n) = (allow_or \<and> n = PIR_STATE_STARTING)"
| "instr_in S allow_or _ = True"

lemma bodies_in: "\<forall>i\<in>set serviceStart_body. instr_in {0..6} b i" "\<forall>i\<in>set train_body. instr_in {0..6} b i"
  by (simp_all add: serviceStart_body_def train_body_def pir_states)

lemma handler_in: "b \<or> r \<noteq> R_serviceRestart \<Longrightarrow> \<forall>i\<in>set (handler r). instr_in {0..6} b i"
  by (cases r) (simp_all add: pir_states)

lemma or_starting: "0 \<le> x \<Longrightarrow> x \<le> 7 \<Longrightarrow> 0 \<le> x OR 5 \<and> x OR 5 \<le> (7 :: int)"
proof -
  assume "0 \<le> x" "x \<le> 7"
  then have "x = 0 \<or> x = 1 \<or> x = 2 \<or> x = 3 \<or> x = 4 \<or> x = 5 \<or> x = 6 \<or> x = 7" by linarith
  then show ?thesis by (elim disjE) simp_all
qed

lemma u8_small: "0 \<le> x \<Longrightarrow> x < 256 \<Longrightarrow> u8 x = x"
  by (simp add: u8_def take_bit_int_eq_self)

lemma exec_state_range:
  assumes "0 \<le> w_serverstate s" "w_serverstate s \<le> m" "m = 7 \<or> m = 6" "instr_in {0..6} (m = 7) i"
    and "exec i rest s = (s', rest', new)"
  shows "0 \<le> w_serverstate s' \<and> w_serverstate s' \<le> m"
  using assms or_starting [of "w_serverstate s"]
  by (cases i) (auto simp: u8_small pir_states split: if_splits)

interpretation any_requests: thread_invariant "\<lambda>s. 0 \<le> w_serverstate s \<and> w_serverstate s \<le> 7" "instr_in {0..6} True" UNIV
proof
  fix s i rest s' rest' new
  assume "0 \<le> w_serverstate s \<and> w_serverstate s \<le> 7" "instr_in {0..6} True i" "exec i rest s = (s', rest', new)"
  then show "0 \<le> w_serverstate s' \<and> w_serverstate s' \<le> 7" using exec_state_range [of s 7 i rest s' rest' new] by simp
next
  fix r i
  assume "i \<in> set (handler r)"
  then show "instr_in {0..6} True i" using handler_in [of True r] by blast
next
  fix i
  assume "i \<in> set serviceStart_body \<union> set train_body"
  then show "instr_in {0..6} True i" using bodies_in by blast
qed simp

interpretation no_restart: thread_invariant "\<lambda>s. 0 \<le> w_serverstate s \<and> w_serverstate s \<le> 6" "instr_in {0..6} False"
  "UNIV - {R_serviceRestart}"
proof
  fix s i rest s' rest' new
  assume "0 \<le> w_serverstate s \<and> w_serverstate s \<le> 6" "instr_in {0..6} False i" "exec i rest s = (s', rest', new)"
  then show "0 \<le> w_serverstate s' \<and> w_serverstate s' \<le> 6" using exec_state_range [of s 6 i rest s' rest' new] by simp
next
  fix r i
  assume "r \<in> UNIV - {R_serviceRestart}" "i \<in> set (handler r)"
  then show "instr_in {0..6} False i" using handler_in [of False r] by blast
next
  fix i
  assume "i \<in> set serviceStart_body \<union> set train_body"
  then show "instr_in {0..6} False i" using bodies_in by blast
qed simp

fun progress_ok :: "instr \<Rightarrow> bool" where
  "progress_ok (I_progress p) = (0 \<le> p \<and> p \<le> 1)"
| "progress_ok _ = True"

interpretation progress: thread_invariant "\<lambda>s. 0 \<le> w_progressPCT s \<and> w_progressPCT s \<le> 1" progress_ok UNIV
proof
  fix s i rest s' rest' new
  assume "0 \<le> w_progressPCT s \<and> w_progressPCT s \<le> 1" "progress_ok i" "exec i rest s = (s', rest', new)"
  then show "0 \<le> w_progressPCT s' \<and> w_progressPCT s' \<le> 1" by (cases i) (auto split: if_splits)
next
  fix i
  assume "i \<in> set serviceStart_body \<union> set train_body"
  then show "progress_ok i" by (auto simp: serviceStart_body_def train_body_def)
next
  fix r i
  assume "i \<in> set (handler r)"
  then show "progress_ok i" by (cases r) (auto split: if_splits)
qed simp

subsection \<open>Runs without interference\<close>

definition load_calls :: "string \<Rightarrow> lib_call list" where
  "load_calls ws = [L_clear, L_init_lib ws, L_cast_feature_byLoad, L_compute_word_byLoad, L_build_index_byLoad,
     L_cluster_feature2word_byLoad, L_search_image_init]"

definition train_calls :: "string \<Rightarrow> string \<Rightarrow> lib_call list" where
  "train_calls ws tp = [L_clear, L_init_lib ws, L_import_image tp, L_cast_feature_bySave, L_compute_word_byLoad,
     L_build_index_bySave, L_cluster_feature2word_bySave, L_clear]"

definition started :: "wsys \<Rightarrow> wsys" where
  "started s = s\<lparr>calls := calls s @ load_calls (w_workspace s), w_progressPCT := 1, w_serverstate := PIR_STATE_READY\<rparr>"

definition trained :: "wsys \<Rightarrow> wsys" where
  "trained s = s\<lparr>calls := calls s @ train_calls (w_workspace s) (w_tpldir s),
     w_progressPCT := 1, w_serverstate := PIR_STATE_TRAINED\<rparr>"

lemma u8_states [simp]:
  "u8 PIR_STATE_INITING = PIR_STATE_INITING" "u8 PIR_STATE_INITED = PIR_STATE_INITED" "u8 PIR_STATE_TRAINING = PIR_STATE_TRAINING"
  "u8 PIR_STATE_TRAINED = PIR_STATE_TRAINED" "u8 PIR_STATE_STARTING = PIR_STATE_STARTING" "u8 PIR_STATE_READY = PIR_STATE_READY"
  by (simp_all add: pir_states u8_small)

lemma run_start: "run serviceStart_body s = (started s, [])"
  by (simp add: serviceStart_body_def started_def load_calls_def)

lemma run_train: "run train_body s = (if w_autostart s = 1 then started (trained s) else trained s, [])"
proof (cases "w_autostart s = 1")
  case True
  have "run train_body s = run serviceStart_body (trained s)"
    using True by (simp add: train_body_def trained_def train_calls_def split: prod.split)
  with True show ?thesis by (simp add: run_start)
next
  case False
  then show ?thesis by (simp add: train_body_def trained_def train_calls_def)
qed

definition startable :: "wsys \<Rightarrow> bool" where
  "startable s \<longleftrightarrow> w_serverstate s = PIR_STATE_INITED \<or> w_serverstate s = PIR_STATE_TRAINED \<or> w_serverstate s = PIR_STATE_READY"

lemma serve_eqs:
  "serve (R_train a) s = (let s' = s\<lparr>w_autostart := take_bit 1 a\<rparr> in if take_bit 1 a = 1 then started (trained s') else trained s')"
  "serve R_retrain s = started (trained (s\<lparr>w_autostart := 1\<rparr>))"
  "serve R_serviceStart s = (if startable s then started s else s)"
  "serve R_serviceStop s = s\<lparr>w_serverstate := PIR_STATE_TRAINED, calls := calls s @ [L_clear]\<rparr>"
  "serve R_serviceRestart s = started (s\<lparr>calls := calls s @ [L_clear]\<rparr>)"
  "serve R_clear s = s\<lparr>w_serverstate := PIR_STATE_INITED, calls := calls s @ [L_clear]\<rparr>"
  "serve R_recover s = started s"
  "serve R_recover2 s = (if w_autostart s = 1 then started (trained s) else trained s)"
  "serve (R_init ok ws tp me op) s = s\<lparr>w_serverstate := (if ok then PIR_STATE_INITED else PIR_STATE_INITING),
     w_workspace := ws, w_tpldir := tp, w_method := me, w_option := op\<rparr>"
  by (auto simp: serve_def run_all_def run_start run_train startable_def started_def trained_def)

subsection \<open>Serial runs are interleavings\<close>

lemma run_reach:
  "wreach R s0 (s\<lparr>threads := ts\<rparr>) \<Longrightarrow> k < length ts \<Longrightarrow> ts ! k = p \<Longrightarrow> run p s = (t, new) \<Longrightarrow>
   wreach R s0 (t\<lparr>threads := ts[k := []] @ new\<rparr>)"
proof (induction p s arbitrary: ts t new rule: run.induct)
  case (1 s)
  then have "ts[k := []] = ts" by (metis list_update_id)
  with 1 show ?case by auto
next
  case (2 i rest s)
  obtain s' rest' new1 where e: "exec i rest s = (s', rest', new1)" by (cases "exec i rest s")
  obtain t' new2 where r: "run rest' s' = (t', new2)" by fastforce
  have t: "t' = t" "new = new1 @ new2" using 2(5) e r by auto
  let ?ts = "ts[k := rest'] @ new1"
  have "step_thread k (s\<lparr>threads := ts\<rparr>) = s'\<lparr>threads := ?ts\<rparr>"
    using 2(4) e by (simp add: step_thread_def exec_threads_irrelevant)
  then have "wreach R s0 (s'\<lparr>threads := ?ts\<rparr>)" using wreach.step [OF 2(2), of k] 2(3) by simp
  then have "wreach R s0 (t'\<lparr>threads := ?ts[k := []] @ new2\<rparr>)"
    by (rule 2(1) [OF e [symmetric] refl refl]) (use 2(3) r in \<open>simp_all add: nth_append\<close>)
  then show ?case using 2(3) by (simp add: t list_update_append)
qed

lemma run_handler_new: "snd (run (handler r) s) \<in> {[], [serviceStart_body], [train_body]}"
  by (cases r) (auto split: if_splits)

lemma serve_reach:
  assumes "wreach R s0 (s\<lparr>threads := ts\<rparr>)" "r \<in> R"
  shows "\<exists>n. wreach R s0 ((serve r s)\<lparr>threads := ts @ replicate n []\<rparr>)"
proof -
  obtain t new where h: "run (handler r) s = (t, new)" by fastforce
  have "accept r (s\<lparr>threads := ts\<rparr>) = s\<lparr>threads := ts @ [handler r]\<rparr>" by (simp add: accept_def)
  then have "wreach R s0 (s\<lparr>threads := ts @ [handler r]\<rparr>)" using wreach.request [OF assms] by simp
  from run_reach [OF this, of "length ts"] h
  have a: "wreach R s0 (t\<lparr>threads := (ts @ [[]]) @ new\<rparr>)" by simp
  show ?thesis
  proof (cases new)
    case Nil
    with a h have "wreach R s0 ((serve r s)\<lparr>threads := ts @ replicate 1 []\<rparr>)" by (simp add: serve_def run_all_def)
    then show ?thesis by blast
  next
    case (Cons b bs)
    then have b: "new = [b]" "b = serviceStart_body \<or> b = train_body" using run_handler_new [of r s] h by auto
    then have rb: "run b t = (fst (run b t), [])" by (auto simp: run_start run_train)
    from run_reach [OF a, of "Suc (length ts)" b, OF _ _ rb] b
    have "wreach R s0 ((fst (run b t))\<lparr>threads := ts @ replicate 2 []\<rparr>)" by (simp add: nth_append numeral_2_eq_2 list_update_append)
    then have "wreach R s0 ((serve r s)\<lparr>threads := ts @ replicate 2 []\<rparr>)" using h b by (simp add: serve_def run_all_def)
    then show ?thesis by blast
  qed
qed

lemma serves_reach:
  assumes "wreach R s0 (s\<lparr>threads := replicate m []\<rparr>)" "set rs \<subseteq> R"
  shows "\<exists>n. wreach R s0 ((fold serve rs s)\<lparr>threads := replicate n []\<rparr>)"
  using assms
proof (induction rs arbitrary: s m)
  case (Cons r rs)
  then obtain n where "wreach R s0 ((serve r s)\<lparr>threads := replicate m [] @ replicate n []\<rparr>)" using serve_reach by fastforce
  then have "wreach R s0 ((serve r s)\<lparr>threads := replicate (m + n) []\<rparr>)" by (simp add: replicate_add)
  with Cons show ?case by simp
qed auto

subsection \<open>Schedules\<close>

datatype event = Arrive request | Step nat

fun schedule :: "event list \<Rightarrow> wsys \<Rightarrow> wsys" where
  "schedule [] s = s"
| "schedule (Arrive r # es) s = schedule es (accept r s)"
| "schedule (Step k # es) s = schedule es (step_thread k s)"

fun admissible :: "request set \<Rightarrow> event list \<Rightarrow> wsys \<Rightarrow> bool" where
  "admissible R [] s = True"
| "admissible R (Arrive r # es) s = (r \<in> R \<and> admissible R es (accept r s))"
| "admissible R (Step k # es) s = (k < length (threads s) \<and> admissible R es (step_thread k s))"

lemma schedule_reach: "wreach R s0 s \<Longrightarrow> admissible R es s \<Longrightarrow> wreach R s0 (schedule es s)"
  by (induction R es s rule: admissible.induct) (auto intro: wreach.intros)

lemma wreach_mono: "wreach R s0 s \<Longrightarrow> R \<subseteq> R' \<Longrightarrow> wreach R' s0 s"
  by (induction rule: wreach.induct) (auto intro: wreach.intros)

definition loaded :: "wsys \<Rightarrow> bool" where
  "loaded s \<longleftrightarrow> (w_serverstate s = PIR_STATE_READY \<longrightarrow> suffix (load_calls (w_workspace s)) (calls s))"

lemma loaded_started: "loaded (started s)"
  by (simp add: loaded_def started_def suffix_def)

lemma loaded_serve: "loaded s \<Longrightarrow> loaded (serve r s)"
  using loaded_started by (cases r) (auto simp: serve_eqs Let_def, auto simp: loaded_def trained_def pir_states)

lemma loaded_fold: "loaded s \<Longrightarrow> loaded (fold serve rs s)"
  by (induction rs arbitrary: s) (auto simp: loaded_serve)

definition demo_wsys :: wsys where
  "demo_wsys = \<lparr>w_serverstate = PIR_STATE_NONE, w_autostart = 0, w_progressPCT = 0, w_port = 81, w_workspace = [],
     w_tpldir = [], w_method = [], w_option = [], w_setting_xml_path = ''set/'', w_setting_xml = ''setting.xml'',
     w_delta = 0, w_delta_peak = 1000, w_idletime = 60000, w_lastinteraction = 0, w_mutex = False,
     w_search_conn = 0, w_failed_conn = 0, calls = [], threads = []\<rparr>"

section \<open>Properties\<close>

text \<open>
  C6. Whatever requests arrive and however the handlers and threads interleave, the state a worker
  reports stays between 0 and 7 and its progress between 0 and 1; without \<open>serviceRestart\<close>
  requests the state is one of the seven defined states.
\<close>

theorem worker_state_range:
  assumes "wreach R s0 s" "threads s0 = []" "w_serverstate s0 = PIR_STATE_NONE" "w_progressPCT s0 = 0"
  shows "PIR_STATE_NONE \<le> w_serverstate s \<and> w_serverstate s \<le> (if R_serviceRestart \<in> R then 7 else PIR_STATE_READY)
    \<and> 0 \<le> w_progressPCT s \<and> w_progressPCT s \<le> 1"
proof -
  have u: "wreach UNIV s0 s" using assms(1) by (rule wreach_mono) simp
  have "0 \<le> w_progressPCT s \<and> w_progressPCT s \<le> 1" using progress.invariant [OF u] assms by simp
  moreover have "0 \<le> w_serverstate s \<and> w_serverstate s \<le> 7"
    using any_requests.invariant [OF u] assms by (simp add: pir_states)
  moreover have "w_serverstate s \<le> 6" if "R_serviceRestart \<notin> R"
  proof -
    have "wreach (UNIV - {R_serviceRestart}) s0 s" using assms(1) by (rule wreach_mono) (use that in blast)
    then show ?thesis using no_restart.invariant assms by (simp add: pir_states)
  qed
  ultimately show ?thesis by (simp add: pir_states)
qed

theorem worker_state_range_witness:
  "w_serverstate (schedule [Arrive R_clear, Step 0] demo_wsys) \<le> PIR_STATE_READY"
proof -
  have "wreach {R_clear} demo_wsys (schedule [Arrive R_clear, Step 0] demo_wsys)"
    by (intro schedule_reach wreach.start) (simp add: accept_def)
  from worker_state_range [OF this] show ?thesis by (simp add: demo_wsys_def)
qed

text \<open>
  The bound 7 is reached: a \<open>clear\<close> request between the test and the update of \<open>serviceRestart\<close>
  makes \<^verbatim>\<open>serverstate|=PIR_STATE_STARTING\<close> produce 7, which is no state at all.
\<close>

lemma restart_undefined_state:
  assumes "threads s0 = []"
  shows "\<exists>s. wreach {R_serviceRestart, R_clear} s0 s \<and> w_serverstate s = 7"
proof -
  define es where "es = [Arrive R_serviceRestart, Step 0, Step 0, Step 0, Arrive R_clear, Step 1, Step 0]"
  have "admissible {R_serviceRestart, R_clear} es s0" using assms by (simp add: es_def accept_def step_thread_def)
  then have "wreach {R_serviceRestart, R_clear} s0 (schedule es s0)" by (intro schedule_reach wreach.start)
  moreover have "w_serverstate (schedule es s0) = 7"
    using assms by (simp add: es_def accept_def step_thread_def pir_states u8_small)
  ultimately show ?thesis by blast
qed

text \<open>
  C7. Handled alone, \<open>serviceStart\<close> brings an initialised, trained or ready worker to \<open>READY\<close> with
  progress 1 after loading the library, and changes nothing in any other state; \<open>train\<close> ends in
  \<open>TRAINED\<close> with progress 1 and the library cleared, or, when the lowest bit of its argument is
  set, goes on to \<open>READY\<close>.
\<close>

theorem serve_start_train:
  "serve R_serviceStart s =
      (if w_serverstate s \<in> {PIR_STATE_INITED, PIR_STATE_TRAINED, PIR_STATE_READY}
       then s\<lparr>w_serverstate := PIR_STATE_READY, w_progressPCT := 1, calls := calls s @ load_calls (w_workspace s)\<rparr> else s)
   \<and> w_serverstate (serve (R_train a) s) = (if odd a then PIR_STATE_READY else PIR_STATE_TRAINED)
   \<and> w_progressPCT (serve (R_train a) s) = 1
   \<and> calls (serve (R_train a) s) =
      calls s @ train_calls (w_workspace s) (w_tpldir s) @ (if odd a then load_calls (w_workspace s) else [])"
proof -
  have "take_bit 1 a = 1 \<longleftrightarrow> odd a" by (simp add: take_bit_eq_mod odd_iff_mod_2_eq_one)
  then show ?thesis by (auto simp: serve_eqs startable_def started_def trained_def Let_def)
qed

text \<open>
  C5. One request at a time, a worker in the state \<open>READY\<close> has its library loaded for its workspace:
  the last calls to the library are those that clear it and load it, in order.  Such a serial run
  is one of the interleavings.
\<close>

theorem serial_ready_loaded:
  assumes "threads s0 = []" "w_serverstate s0 = PIR_STATE_NONE"
  shows "(w_serverstate (fold serve rs s0) = PIR_STATE_READY \<longrightarrow>
      suffix (load_calls (w_workspace (fold serve rs s0))) (calls (fold serve rs s0)))
    \<and> (\<exists>n. wreach (set rs) s0 ((fold serve rs s0)\<lparr>threads := replicate n []\<rparr>))"
proof
  have "s0\<lparr>threads := replicate 0 []\<rparr> = s0" using assms(1) by simp
  then show "\<exists>n. wreach (set rs) s0 ((fold serve rs s0)\<lparr>threads := replicate n []\<rparr>)"
    using serves_reach [where R = "set rs" and s = s0 and m = 0 and rs = rs] wreach.start [of "set rs" s0] by simp
  show "w_serverstate (fold serve rs s0) = PIR_STATE_READY \<longrightarrow>
      suffix (load_calls (w_workspace (fold serve rs s0))) (calls (fold serve rs s0))"
    using loaded_fold [of s0 rs] assms(2) by (simp add: loaded_def pir_states)
qed

theorem serial_ready_loaded_witness:
  "suffix (load_calls ''/w'') (calls (fold serve [R_init True ''/w'' ''/t'' ''m'' ''x'', R_train 1] demo_wsys))"
  using serial_ready_loaded [of demo_wsys "[R_init True ''/w'' ''/t'' ''m'' ''x'', R_train 1]"]
  by (simp add: demo_wsys_def serve_eqs started_def trained_def)

text \<open>
  C8. A stop request that arrives while the service is starting is lost, and worse: there is an
  interleaving of one \<open>serviceStart\<close> and one \<open>serviceStop\<close> after which nothing runs any more, the
  worker reports \<open>READY\<close> and answers searches, but the last call to the library was \<open>clear\<close>.
\<close>

theorem stop_while_starting:
  assumes "threads s0 = []" "w_serverstate s0 = PIR_STATE_TRAINED"
  shows "\<exists>s. wreach {R_serviceStart, R_serviceStop} s0 s \<and> (\<forall>t\<in>set (threads s). t = [])
    \<and> w_serverstate s = PIR_STATE_READY \<and> calls s = calls s0 @ load_calls (w_workspace s0) @ [L_clear]"
proof -
  define es where "es = [Arrive R_serviceStart, Step 0, Step 0, Step 0, Step 0, Step 1, Step 1, Step 1, Step 1, Step 1, Step 1,
    Step 1, Step 1, Step 1, Step 1, Step 1, Step 1, Step 1, Step 1, Step 1, Arrive R_serviceStop, Step 2, Step 2, Step 1]"
  have "admissible {R_serviceStart, R_serviceStop} es s0"
    using assms by (simp add: es_def accept_def step_thread_def serviceStart_body_def)
  then have "wreach {R_serviceStart, R_serviceStop} s0 (schedule es s0)" by (intro schedule_reach wreach.start)
  moreover have "threads (schedule es s0) = [[], [], []]" "w_serverstate (schedule es s0) = PIR_STATE_READY"
    "calls (schedule es s0) = calls s0 @ load_calls (w_workspace s0) @ [L_clear]"
    using assms by (simp_all add: es_def accept_def step_thread_def serviceStart_body_def load_calls_def)
  ultimately show ?thesis by (intro exI [of _ "schedule es s0"]) simp
qed

theorem stop_while_starting_witness:
  "\<exists>s. wreach {R_serviceStart, R_serviceStop} (demo_wsys\<lparr>w_serverstate := PIR_STATE_TRAINED\<rparr>) s
     \<and> w_serverstate s = PIR_STATE_READY \<and> last (calls s) = L_clear"
  using stop_while_starting [of "demo_wsys\<lparr>w_serverstate := PIR_STATE_TRAINED\<rparr>"] by (auto simp: demo_wsys_def)

end
