(* ===== verification/Monitor.thy ===== *)
theory Monitor
  imports Master Complex_Main
begin

text \<open>
  The monitoring side of the servers: the thread state, the status page, the log query and
  \<open>http_get\<close>, which dispatches between them (\<^verbatim>\<open>src/master/src/pir.cpp\<close>, \<^verbatim>\<open>src/master/src/recgservice.cpp\<close>),
  and the training thread of the master, which watches the progress of its workers.
\<close>

section \<open>Threads\<close>

record threadInfo =
  t_status :: int
  t_timeout :: int
  t_elapsed :: int

definition PIR_THREAD_STATUS_BUSY :: int where "PIR_THREAD_STATUS_BUSY = 1"

text \<open>\<open>!status&BUSY\<close> is \<open>(!status)&BUSY\<close>; \<open>status\<close> is a field of one bit.\<close>

fun getThreadState :: "threadInfo list \<Rightarrow> int" where
  "getThreadState [] = 0"
| "getThreadState (t # ts) =
     (if and (if t_status t = 0 then 1 else 0) PIR_THREAD_STATUS_BUSY \<noteq> 0 then getThreadState ts
      else (if t_elapsed t > t_timeout t then 1 else 0) + getThreadState ts)"

section \<open>The status page\<close>

definition state_summaries :: "string list" where
  "state_summaries =
    [''The server is waiting for initialization.'', ''The server is initializing configuration parameters.'',
     ''The server is successfully inited.'', ''The server is trainning template images.'',
     ''The server is successfully trained.'', ''The server is statring up.'', ''The server is ready for retrieval.'']"

text \<open>
  How a request can go wrong: \<open>fclose\<close> of a null pointer, a file name longer than its buffer, a write
  past the end of the log buffer, a read outside the table of states.
\<close>

datatype http_error = Null_Close | Name_Overflow | Log_Overrun | State_Overrun

definition server_state :: "int \<Rightarrow> http_error + string" where
  "server_state st = (if 0 \<le> st \<and> st < int (length state_summaries) then Inr (state_summaries ! nat st) else Inl State_Overrun)"

definition dec_int :: "int \<Rightarrow> string" where
  "dec_int x = (if x < 0 then CHR ''-'' # dec (nat (- x)) else dec (nat x))"

abbreviation CRLF :: string where "CRLF \<equiv> [CR, LF]"

definition worker_section :: "string \<Rightarrow> nat \<Rightarrow> workerInfo \<Rightarrow> string" where
  "worker_section summary i w =
     ''# Worker: '' @ dec i @ CRLF @ ''workspace: '' @ cstr (workspace w) @ CRLF @ ''tpldir: '' @ cstr (tpldir w) @ CRLF @
     ''method: '' @ cstr (wmethod w) @ CRLF @ ''option: '' @ cstr (option w) @ CRLF @
     ''state: '' @ dec_int (wstate w) @ ''('' @ summary @ '')'' @ CRLF @ CRLF"

definition ocr_section :: "int \<Rightarrow> string \<Rightarrow> string" where
  "ocr_section ocr ocr_server =
     ''# OCR'' @ CRLF @ ''ocr_enabled: '' @ (if ocr = 1 then ''yes'' else ''no'') @ CRLF @
     ''ocr_server: '' @ cstr ocr_server @ CRLF @ CRLF"

text \<open>
  Consecutive calls of \<open>snprintf\<close> into a buffer of \<open>n\<close> characters that holds \<open>acc\<close>; a section that does
  not fit is cut off and ends the function with an error.
\<close>

fun print_sections :: "nat \<Rightarrow> string \<Rightarrow> string list \<Rightarrow> int \<times> string" where
  "print_sections n acc [] = (PIR_OK, acc)"
| "print_sections n acc (t # ts) =
     (let acc' = acc @ take (n - length acc - 1) t in
      if n \<le> length acc + length t then (PIR_ERR, acc') else print_sections n acc' ts)"

text \<open>
  \<open>sys\<close> renders the section on the host and the process, with the description of the state in it;
  \<open>None\<close> when the kernel, the disk or the memory cannot be queried.
\<close>

definition info_sections :: "(string \<Rightarrow> string) \<Rightarrow> string \<Rightarrow> string \<Rightarrow> pirServer \<Rightarrow> string list" where
  "info_sections sys ocr_server summary server =
     cstr (sys summary) # map (\<lambda>i. worker_section summary i (workerInfoVec server ! i)) [0..<nat (bucketSize server)]
       @ [ocr_section (ocr_enabled server) ocr_server]"

definition getServerInfo :: "(string \<Rightarrow> string) option \<Rightarrow> string \<Rightarrow> pirServer \<Rightarrow> int \<Rightarrow> http_error + int \<times> string" where
  "getServerInfo sys ocr_server server server_info_size =
     (if server_info_size \<le> 0 then Inr (PIR_ERR, [])
      else case sys of
        None \<Rightarrow> Inr (PIR_ERR, [])
      | Some f \<Rightarrow> (case server_state (serverstate server) of
            Inl e \<Rightarrow> Inl e
          | Inr summary \<Rightarrow> Inr (print_sections (nat server_info_size) [] (info_sections f ocr_server summary server))))"

section \<open>The log query\<close>

definition log_name :: "string \<Rightarrow> string \<Rightarrow> string" where
  "log_name log_path day_str = cstr log_path @ ''/'' @ cstr day_str @ ''.log''"

text \<open>
  \<open>fopen\<close> gives the contents of a file.  \<open>fread\<close> of one record of the length of the file fails on an
  empty file.  The terminator goes one cell behind the one after the text.
\<close>

definition getServerLog :: "(string \<Rightarrow> string option) \<Rightarrow> string \<Rightarrow> string \<Rightarrow> string \<Rightarrow> int
    \<Rightarrow> http_error + int \<times> int \<times> string" where
  "getServerLog fopen log_path day_str log_buf log_size =
     (if log_size \<le> 0 then Inr (PIR_ERR, 0, log_buf)
      else if 256 \<le> length (log_name log_path day_str) then Inl Name_Overflow
      else case fopen (log_name log_path day_str) of
        None \<Rightarrow> Inr (PIR_ERR, 0, log_buf)
      | Some inp \<Rightarrow>
          let log_len = int (length inp) in
          if log_size \<le> log_len then Inr (PIR_ERR, log_len, log_buf)
          else if inp = [] then Inr (PIR_ERR, log_len, log_buf)
          else if log_size \<le> log_len + 1 then Inl Log_Overrun
          else Inr (PIR_OK, log_len, (inp @ drop (length inp) log_buf)[length inp + 1 := NUL]))"

section \<open>Requests\<close>

definition SOAP_OK :: int where "SOAP_OK = 0"

text \<open>Sending a file in pieces of the size of \<open>tmpbuf\<close>; \<open>send k piece\<close> is the result of the \<open>k\<close>-th \<open>soap_send_raw\<close>.\<close>

function send_file :: "(nat \<Rightarrow> string \<Rightarrow> int) \<Rightarrow> nat \<Rightarrow> nat \<Rightarrow> string \<Rightarrow> string list" where
  "send_file send tmplen k inp =
     (let piece = take tmplen inp in
      if piece = [] then []
      else piece # (if send k piece \<noteq> 0 then [] else send_file send tmplen (Suc k) (drop tmplen inp)))"
  by pat_completeness auto
termination by (relation "measure (\<lambda>(_, _, _, inp). length inp)") (auto simp: Let_def)

declare send_file.simps [simp del]

text \<open>The result: the status, the pieces passed to \<open>soap_send_raw\<close> and the number of files left open.\<close>

definition http_get :: "(string \<Rightarrow> string option) \<Rightarrow> (nat \<Rightarrow> string \<Rightarrow> int) \<Rightarrow> nat \<Rightarrow> string \<Rightarrow> string \<Rightarrow> int \<Rightarrow> string
    \<Rightarrow> (string \<Rightarrow> string) option \<Rightarrow> string \<Rightarrow> pirServer \<Rightarrow> string \<Rightarrow> http_error + int \<times> string list \<times> nat" where
  "http_get fopen send tmplen wsdl_path log_path cache_size log_buf sys ocr_server server path =
     (let ptr = dropWhile (\<lambda>c. c \<noteq> CHR ''?'') (cstr path) in
      if ptr = ''?wsdl'' then
        (case fopen wsdl_path of
           None \<Rightarrow> Inl Null_Close
         | Some inp \<Rightarrow> Inr (SOAP_OK, send_file send tmplen 0 inp, 1))
      else if ptr \<noteq> [] \<and> take 5 ptr = ''?log='' then
        (case getServerLog fopen log_path (drop 5 ptr) log_buf cache_size of
           Inl e \<Rightarrow> Inl e
         | Inr (ret, log_len, buf) \<Rightarrow> Inr (SOAP_OK, if ret < 0 then [] else [take (nat log_len) buf], 0))
      else
        (case getServerInfo sys ocr_server server (10 * 1024) of
           Inl e \<Rightarrow> Inl e
         | Inr (_, buf) \<Rightarrow> Inr (SOAP_OK, [cstr buf], 0)))"

section \<open>Training\<close>

text \<open>\<open>reply k\<close> is the answer to the \<open>k\<close>-th query for the progress; no answer counts as complete.\<close>

definition getMYprogressPCT :: "(nat \<Rightarrow> rat option) \<Rightarrow> nat \<Rightarrow> rat" where
  "getMYprogressPCT reply k = (case reply k of None \<Rightarrow> 1 | Some p \<Rightarrow> p)"

partial_function (option) wait_progress :: "(nat \<Rightarrow> rat option) \<Rightarrow> nat \<Rightarrow> nat option" where
  "wait_progress reply k = (if getMYprogressPCT reply k < 1 then wait_progress reply (Suc k) else Some k)"

text \<open>The calls of \<open>train_thread\<close> and the number of workers that were trained; \<open>None\<close> when it never ends.\<close>

fun train_loop :: "(nat \<Rightarrow> nat \<Rightarrow> rat option) \<Rightarrow> (nat \<Rightarrow> int option) \<Rightarrow> workerInfo list \<Rightarrow> nat list \<Rightarrow> int
    \<Rightarrow> (soap_call list \<times> int) option" where
  "train_loop progress state vec [] completeTrainNum = Some ([], completeTrainNum)"
| "train_loop progress state vec (i # is) completeTrainNum =
     (case wait_progress (progress i) 0 of
        None \<Rightarrow> None
      | Some _ \<Rightarrow>
          let call = Call_train (wmethod (vec ! i)) 0 in
          if state i = None \<or> state i \<noteq> Some PIR_STATE_TRAINED then Some ([call], completeTrainNum)
          else map_option (map_prod (Cons call) id) (train_loop progress state vec is (completeTrainNum + 1)))"

definition train_thread :: "(nat \<Rightarrow> nat \<Rightarrow> rat option) \<Rightarrow> (nat \<Rightarrow> int option) \<Rightarrow> pirServer \<Rightarrow> (soap_call list \<times> int) option" where
  "train_thread progress state server = train_loop progress state (workerInfoVec server) [0..<nat (bucketSize server)] 0"

text \<open>The mean of the answers, a quotient by zero without workers.\<close>

definition ns__progressPCT :: "(nat \<Rightarrow> rat option) \<Rightarrow> pirServer \<Rightarrow> rat option" where
  "ns__progressPCT reply server =
     (let ret = (\<Sum>i\<leftarrow>[0..<nat (bucketSize server)]. case reply i of None \<Rightarrow> 0 | Some resp \<Rightarrow> resp) in
      if bucketSize server = 0 then None else Some (ret / of_int (bucketSize server)))"

section \<open>Lemmas\<close>

lemma getThreadState_count:
  assumes "\<forall>t\<in>set ts. t_status t = 0 \<or> t_status t = 1"
  shows "getThreadState ts = int (length (filter (\<lambda>t. t_status t = 1 \<and> t_timeout t < t_elapsed t) ts))"
  using assms by (induction ts) (auto simp: PIR_THREAD_STATUS_BUSY_def)

lemma print_sections_prefix:
  "length acc < n \<Longrightarrow> print_sections n acc ts =
     (if length (acc @ concat ts) < n then PIR_OK else PIR_ERR, take (n - 1) (acc @ concat ts))"
proof (induction ts arbitrary: acc)
  case Nil
  then show ?case by simp
next
  case (Cons t ts)
  show ?case
  proof (cases "n \<le> length acc + length t")
    case True
    with Cons.prems show ?thesis by (simp add: Let_def)
  next
    case False
    then have "take (n - length acc - 1) t = t" by simp
    with False Cons.IH [of "acc @ t"] show ?thesis by (simp add: Let_def)
  qed
qed

lemma send_file_concat:
  assumes "0 < tmplen" "\<forall>k piece. send k piece = 0"
  shows "concat (send_file send tmplen k inp) = inp"
proof (induction "length inp" arbitrary: inp k rule: less_induct)
  case less
  show ?case
  proof (cases "inp = []")
    case True
    then show ?thesis by (subst send_file.simps) simp
  next
    case False
    then have "length (drop tmplen inp) < length inp" using assms(1) by simp
    from less [OF this, of "Suc k"] False assms show ?thesis by (subst send_file.simps) (simp add: Let_def)
  qed
qed

lemma http_get_wsdl:
  assumes "cstr path = p @ ''?wsdl''" "CHR ''?'' \<notin> set p" "fopen wsdl_path = Some inp" "0 < tmplen" "\<forall>k piece. send k piece = 0"
  shows "\<exists>pieces. http_get fopen send tmplen wsdl_path log_path cache_size log_buf sys ocr_server server path = Inr (SOAP_OK, pieces, 1)
    \<and> concat pieces = inp"
proof -
  have "dropWhile (\<lambda>c. c \<noteq> CHR ''?'') (cstr path) = ''?wsdl''"
    using assms(1,2) by (subst assms(1), subst dropWhile_append2) auto
  then show ?thesis using assms(3) send_file_concat [OF assms(4,5)] by (simp add: http_get_def)
qed

lemma cstr_cstr [simp]: "cstr (cstr s) = cstr s"
  by (simp add: cstr_def takeWhile_idem)

lemma digit_not_NUL: "isdigit c \<Longrightarrow> c \<noteq> NUL"
  by (auto simp: isdigit_def code_def NUL_def)

lemma NUL_not_in_cstr [simp]: "NUL \<notin> set (cstr s)"
  by (auto simp: cstr_def dest: set_takeWhileD)

lemma NUL_not_in_dec [simp]: "NUL \<notin> set (dec n)" "NUL \<notin> set (dec_int x)"
  using dec_digits digit_not_NUL by (auto simp: dec_int_def NUL_def; fastforce)+

lemma info_no_NUL:
  assumes "NUL \<notin> set summary"
  shows "NUL \<notin> set (concat (info_sections f ocr_server summary server))"
  using assms by (auto simp: info_sections_def worker_section_def ocr_section_def NUL_def [symmetric] CR_def LF_def)
    (auto simp: NUL_def)

lemma summary_no_NUL: "server_state st = Inr summary \<Longrightarrow> NUL \<notin> set summary"
proof -
  assume "server_state st = Inr summary"
  then have "summary \<in> set state_summaries" by (auto simp: server_state_def split: if_splits)
  moreover have "list_all (\<lambda>s. NUL \<notin> set s) state_summaries" by code_simp
  ultimately show ?thesis by (auto simp: list_all_iff)
qed

lemma wait_progress_sound: "wait_progress reply k = Some r \<Longrightarrow> \<not> getMYprogressPCT reply r < 1"
  by (rule wait_progress.raw_induct [where P = "\<lambda>reply k r. \<not> getMYprogressPCT reply r < 1"]) (auto split: if_splits)

lemma wait_progress_complete:
  "\<not> getMYprogressPCT reply (k + n) < 1 \<Longrightarrow> \<exists>r. wait_progress reply k = Some r"
proof (induction n arbitrary: k)
  case 0
  then show ?case by (subst wait_progress.simps) simp
next
  case (Suc n)
  from Suc.IH [of "Suc k"] Suc.prems show ?case by (subst wait_progress.simps) simp
qed

lemma wait_progress_iff: "wait_progress reply 0 = None \<longleftrightarrow> (\<forall>k. getMYprogressPCT reply k < 1)"
  using wait_progress_complete [of reply 0] wait_progress_sound [of reply 0] by (metis add_0 not_None_eq)

lemma train_loop_spec:
  "train_loop progress state vec is n =
     (let done = takeWhile (\<lambda>i. state i = Some PIR_STATE_TRAINED) is; asked = take (Suc (length done)) is in
      if \<exists>i\<in>set asked. wait_progress (progress i) 0 = None then None
      else Some (map (\<lambda>i. Call_train (wmethod (vec ! i)) 0) asked, n + int (length done)))"
proof (induction "is" arbitrary: n)
  case Nil
  then show ?case by simp
next
  case (Cons i "is")
  show ?case
  proof (cases "state i = Some PIR_STATE_TRAINED")
    case True
    then show ?thesis using Cons [of "n + 1"]
      by (cases "wait_progress (progress i) 0"; cases "is") (auto simp: Let_def)
  next
    case False
    then show ?thesis by (auto simp: Let_def split: option.splits)
  qed
qed

lemma http_get_page:
  assumes "\<not> (\<exists>p day. cstr path = p @ ''?log='' @ day \<and> CHR ''?'' \<notin> set p)"
    and "\<not> (\<exists>p. cstr path = p @ ''?wsdl'' \<and> CHR ''?'' \<notin> set p)"
  shows "http_get fopen send tmplen wsdl_path log_path cache_size log_buf (Some f) ocr_server server path =
    (case server_state (serverstate server) of
       Inl e \<Rightarrow> Inl e
     | Inr summary \<Rightarrow> Inr (SOAP_OK, [take 10239 (concat (info_sections f ocr_server summary server))], 0))"
proof -
  let ?t = "takeWhile (\<lambda>c. c \<noteq> CHR ''?'') (cstr path)" and ?d = "dropWhile (\<lambda>c. c \<noteq> CHR ''?'') (cstr path)"
  have p: "cstr path = ?t @ ?d" "CHR ''?'' \<notin> set ?t" by (auto dest: set_takeWhileD)
  have w: "?d \<noteq> ''?wsdl''" using assms(2) p by metis
  have l: "take 5 ?d \<noteq> ''?log=''" using assms(1) p append_take_drop_id [of 5 ?d] by metis
  have cut: "cstr (take 10239 (concat (info_sections f ocr_server summary server))) =
      take 10239 (concat (info_sections f ocr_server summary server))"
    if "server_state (serverstate server) = Inr summary" for summary
    using info_no_NUL [OF summary_no_NUL [OF that]] by (intro cstr_id) (meson in_set_takeD)
  show ?thesis using w l cut print_sections_prefix [of "[]" 10240]
    by (simp add: http_get_def getServerInfo_def Let_def split: sum.split)
qed

lemma poll_unreachable:
  assumes "i < nat (bucketSize server)" "reply i = None"
  shows "serverstate (poll_status reply server) = PIR_STATE_ERROR"
proof -
  obtain vec st failed where p: "poll_workers reply [0..<nat (bucketSize server)] 0x7fffffff (workerInfoVec server) = (vec, st, failed)"
    using prod_cases3 by blast
  with poll_workers_spec [OF p] assms have "failed" by auto
  with p show ?thesis by (simp add: poll_status_def)
qed

section \<open>Properties\<close>

text \<open>
  C12. An unreachable worker.  As soon as one worker does not answer the watchdog, the next request for
  the status page of the master reads the table of states at index 127, past its seven entries.
\<close>

theorem unreachable_worker_status:
  assumes "i < nat (bucketSize server)" "reply i = None" "CHR ''?'' \<notin> set path"
  shows "http_get fopen send tmplen wsdl_path log_path cache_size log_buf (Some f) ocr_server (poll_status reply server) path
    = Inl State_Overrun"
proof -
  have "CHR ''?'' \<notin> set (cstr path)" using assms(3) by (auto simp: cstr_def dest: set_takeWhileD)
  then have "\<not> (\<exists>p day. cstr path = p @ ''?log='' @ day \<and> CHR ''?'' \<notin> set p)"
    "\<not> (\<exists>p. cstr path = p @ ''?wsdl'' \<and> CHR ''?'' \<notin> set p)" by auto
  from http_get_page [OF this] poll_unreachable [of i server reply, OF assms(1,2)] show ?thesis
    by (simp add: server_state_def state_summaries_def PIR_STATE_ERROR_def)
qed

theorem unreachable_worker_status_witness:
  "http_get (\<lambda>_. None) (\<lambda>_ _. 0) 1024 ''w'' ''/log'' 100 [] (Some (\<lambda>_. ''host'')) ''ocr''
     (poll_status (\<lambda>_. None) (demo_server\<lparr>bucketSize := 1\<rparr>)) ''/'' = Inl State_Overrun"
  by (rule unreachable_worker_status [of 0]) simp_all

text \<open>
  C13. A log query.  A request for the log of a day sends exactly the contents of that log file, as
  long as the file is not empty and leaves two cells of the query buffer free.  An empty or missing
  log, and one that does not fit, send nothing; a log that leaves just one cell makes the server
  write past the end of the buffer.
\<close>

theorem http_get_log:
  assumes "cstr path = p @ ''?log='' @ day" "CHR ''?'' \<notin> set p" "length (log_name log_path day) < 256" "0 < cache_size"
  shows "http_get fopen send tmplen wsdl_path log_path cache_size log_buf sys ocr_server server path =
    (case fopen (log_name log_path day) of
       None \<Rightarrow> Inr (SOAP_OK, [], 0)
     | Some inp \<Rightarrow>
         if inp \<noteq> [] \<and> int (length inp) + 1 < cache_size then Inr (SOAP_OK, [inp], 0)
         else if inp \<noteq> [] \<and> int (length inp) + 1 = cache_size then Inl Log_Overrun
         else Inr (SOAP_OK, [], 0))"
proof -
  have d: "dropWhile (\<lambda>c. c \<noteq> CHR ''?'') (cstr path) = ''?log='' @ day"
    using assms(1,2) by (subst assms(1), subst dropWhile_append2) auto
  show ?thesis using assms(3,4) unfolding http_get_def d
    by (auto simp: getServerLog_def Let_def pir_codes split: option.split)
qed

theorem http_get_log_witness:
  "http_get (\<lambda>n. if n = ''/log/20240101.log'' then Some ''hello'' else None) (\<lambda>_ _. 0) 1024 ''w'' ''/log'' 100 (replicate 100 NUL)
     None ''ocr'' demo_server ''/?log=20240101'' = Inr (SOAP_OK, [''hello''], 0)"
proof -
  have "cstr ''/?log=20240101'' = ''/'' @ ''?log='' @ ''20240101''" "log_name ''/log'' ''20240101'' = ''/log/20240101.log''"
    by code_simp+
  with http_get_log [of "''/?log=20240101''" "''/''" "''20240101''" "''/log''" 100] show ?thesis by simp
qed

text \<open>
  C14. Training all workers.  The training thread of the master asks the workers one after the other
  and stops after the first that does not end \<open>TRAINED\<close>.  It ends exactly when each worker that it
  asks reports a progress of 1 or becomes unreachable at some time; otherwise it waits for ever.
\<close>

theorem train_thread_waits:
  "let ws = [0..<nat (bucketSize server)]; done = takeWhile (\<lambda>i. state i = Some PIR_STATE_TRAINED) ws;
       asked = take (Suc (length done)) ws in
   train_thread progress state server =
     (if \<exists>i\<in>set asked. \<forall>k. getMYprogressPCT (progress i) k < 1 then None
      else Some (map (\<lambda>i. Call_train (wmethod (workerInfoVec server ! i)) 0) asked, int (length done)))"
  unfolding train_thread_def train_loop_spec wait_progress_iff Let_def by simp

end
