(* ===== verification/Dispatch.thy ===== *)
theory Dispatch
  imports Queue
begin

text \<open>
  The event loop that master and worker share: \<open>serverMain\<close> accepts connections and pushes their
  sockets into \<open>client_queue\<close>, the threads of \<open>process_queue\<close> take them out and serve them, and a
  \<open>QTrigger\<close> wakes a thread (\<^verbatim>\<open>src/master/src/pir.cpp\<close>, the same in \<^verbatim>\<open>src/worker/src/pir.cpp\<close>;
  \<^verbatim>\<open>src/common/qglobal.h\<close> for the trigger).  Each access to the shared queue, the trigger or the
  flag \<open>shutdown_asap\<close> is one step; \<open>None\<close> is a step that has to wait.
\<close>

section \<open>State\<close>

text \<open>Where a thread of \<open>process_queue\<close> stands: the loop test, the wait, the inner loop, serving, the end.\<close>

datatype thread_pc = P_test | P_wait | P_drain | P_serve int | P_stopped

text \<open>Where \<open>serverMain\<close> stands.\<close>

datatype main_pc = M_test | M_accept | M_push int | M_signal | M_join nat | M_return

record dispatch =
  d_queue :: "int QQueue"
  d_trigger :: bool
  d_shutdown :: bool
  d_main :: main_pc
  d_threads :: "thread_pc list"
  d_accepted :: "int list"
  d_served :: "int list"
  d_failed :: "int list"

section \<open>The trigger\<close>

text \<open>\<open>signal\<close> and \<open>wait\<close> of a trigger with automatic reset, the default.\<close>

definition QTrigger_signal :: "bool \<Rightarrow> bool" where
  "QTrigger_signal m_state = True"

definition QTrigger_wait :: "bool \<Rightarrow> bool option" where
  "QTrigger_wait m_state = (if m_state then Some False else None)"

section \<open>Steps\<close>

text \<open>
  What \<open>soap_accept\<close> returns: a socket, an invalid one with an error number, after which the loop
  goes on, or one without, after which it ends.
\<close>

datatype accept_result = Client int | Retry | Timeout

fun serverMain_step :: "accept_result \<Rightarrow> dispatch \<Rightarrow> dispatch option" where
  "serverMain_step a s =
     (case d_main s of
        M_test \<Rightarrow> Some (s\<lparr>d_main := (if d_shutdown s then M_join 0 else M_accept)\<rparr>)
      | M_accept \<Rightarrow> (case a of
            Client sock \<Rightarrow> Some (s\<lparr>d_main := M_push sock\<rparr>)
          | Retry \<Rightarrow> Some (s\<lparr>d_main := M_test\<rparr>)
          | Timeout \<Rightarrow> Some (s\<lparr>d_main := M_join 0\<rparr>))
      | M_push sock \<Rightarrow> (case QQueue_push (d_queue s) sock of
            None \<Rightarrow> None
          | Some q \<Rightarrow> Some (s\<lparr>d_queue := q, d_main := M_signal, d_accepted := d_accepted s @ [sock]\<rparr>))
      | M_signal \<Rightarrow> Some (s\<lparr>d_trigger := QTrigger_signal (d_trigger s), d_main := M_test\<rparr>)
      | M_join i \<Rightarrow>
          if i < length (d_threads s)
          then if d_threads s ! i = P_stopped then Some (s\<lparr>d_main := M_join (Suc i)\<rparr>) else None
          else Some (s\<lparr>d_main := M_return\<rparr>)
      | M_return \<Rightarrow> None)"

text \<open>\<open>valid\<close> is \<open>soap_valid_socket\<close>.\<close>

fun process_queue_step :: "(int \<Rightarrow> bool) \<Rightarrow> nat \<Rightarrow> dispatch \<Rightarrow> dispatch option" where
  "process_queue_step valid k s =
     (let go = (\<lambda>s pc. Some (s\<lparr>d_threads := (d_threads s)[k := pc]\<rparr>)) in
      case d_threads s ! k of
        P_test \<Rightarrow> go s (if d_shutdown s then P_stopped else P_wait)
      | P_wait \<Rightarrow> (case QTrigger_wait (d_trigger s) of
            None \<Rightarrow> None
          | Some m \<Rightarrow> go (s\<lparr>d_trigger := m\<rparr>) P_drain)
      | P_drain \<Rightarrow> (case QQueue_pop_non_blocking (d_queue s) 0 of (r, sock, q) \<Rightarrow>
            if r = 0 then
              if valid sock then go (s\<lparr>d_queue := q\<rparr>) (P_serve sock)
              else go (s\<lparr>d_queue := q, d_failed := d_failed s @ [sock]\<rparr>) P_drain
            else go s P_test)
      | P_serve sock \<Rightarrow> go (s\<lparr>d_served := d_served s @ [sock]\<rparr>) P_drain
      | P_stopped \<Rightarrow> None)"

text \<open>The signal handler sets the flag at any time.\<close>

inductive dstep :: "(int \<Rightarrow> bool) \<Rightarrow> dispatch \<Rightarrow> dispatch \<Rightarrow> bool" for valid where
  main: "serverMain_step a s = Some s' \<Longrightarrow> dstep valid s s'"
| thread: "k < length (d_threads s) \<Longrightarrow> process_queue_step valid k s = Some s' \<Longrightarrow> dstep valid s s'"
| signal: "dstep valid s (s\<lparr>d_shutdown := True\<rparr>)"

definition dispatch_init :: "int \<Rightarrow> int list \<Rightarrow> nat \<Rightarrow> dispatch" where
  "dispatch_init maxclients cells thread_num =
     \<lparr>d_queue = snd (QQueue_init maxclients (Some cells) QQueue_new), d_trigger = False, d_shutdown = False,
      d_main = M_test, d_threads = replicate thread_num P_test, d_accepted = [], d_served = [], d_failed = []\<rparr>"

definition dreach :: "(int \<Rightarrow> bool) \<Rightarrow> dispatch \<Rightarrow> dispatch \<Rightarrow> bool" where
  "dreach valid = (dstep valid)\<^sup>*\<^sup>*"

section \<open>Invariants\<close>

fun in_service :: "thread_pc \<Rightarrow> int list" where
  "in_service (P_serve sock) = [sock]"
| "in_service _ = []"

definition serving :: "thread_pc list \<Rightarrow> int multiset" where
  "serving ts = mset (concat (map in_service ts))"

definition draining :: "thread_pc \<Rightarrow> bool" where
  "draining pc \<longleftrightarrow> pc = P_drain \<or> in_service pc \<noteq> []"

text \<open>
  No connection is lost or served twice; a queued connection is never forgotten: the trigger is
  set, or about to be set, or a thread is in its inner loop; threads stop only after a shutdown.
\<close>

definition dinv :: "dispatch \<Rightarrow> bool" where
  "dinv s \<longleftrightarrow> QQueue_inv (d_queue s)
     \<and> mset (d_accepted s) = mset (QQueue_contents (d_queue s)) + serving (d_threads s) + mset (d_served s) + mset (d_failed s)
     \<and> (QQueue_contents (d_queue s) \<noteq> [] \<longrightarrow> d_trigger s \<or> d_main s = M_signal \<or> (\<exists>pc\<in>set (d_threads s). draining pc))
     \<and> (P_stopped \<in> set (d_threads s) \<longrightarrow> d_shutdown s)"

lemma serving_update:
  assumes "k < length ts"
  shows "serving (ts[k := pc]) + mset (in_service (ts ! k)) = serving ts + mset (in_service pc)"
proof -
  have "ts = take k ts @ ts ! k # drop (Suc k) ts" using assms by (rule id_take_nth_drop)
  then have "serving ts = serving (take k ts @ ts ! k # drop (Suc k) ts)" by simp
  moreover have "ts[k := pc] = take k ts @ pc # drop (Suc k) ts" using assms by (rule upd_conv_take_nth_drop)
  ultimately show ?thesis by (simp add: serving_def)
qed

lemma draining_simps [simp]:
  "draining P_drain" "draining (P_serve x)" "\<not> draining P_test" "\<not> draining P_wait" "\<not> draining P_stopped"
  by (simp_all add: draining_def)

lemma draining_update:
  assumes "\<exists>pc\<in>set ts. draining pc" "k < length ts" "draining pc' \<or> \<not> draining (ts ! k)"
  shows "\<exists>pc\<in>set (ts[k := pc']). draining pc"
proof (cases "draining pc'")
  case True
  then show ?thesis using assms(2) set_update_memI by fastforce
next
  case False
  obtain j where j: "j < length ts" "draining (ts ! j)" using assms(1) by (auto simp: in_set_conv_nth)
  with False assms(3) have "j \<noteq> k" by auto
  then have "ts[k := pc'] ! j = ts ! j" by simp
  with j show ?thesis by (metis length_list_update nth_mem)
qed

lemma stopped_update: "P_stopped \<in> set (ts[k := pc]) \<Longrightarrow> pc = P_stopped \<or> P_stopped \<in> set ts"
  using set_update_subset_insert by fastforce

lemma pop_non_blocking_cases:
  assumes "QQueue_inv q"
  obtains "QQueue_contents q = []" "QQueue_pop_non_blocking q y = (- 1, y, q)"
  | x q' where "QQueue_inv q'" "QQueue_contents q = x # QQueue_contents q'" "QQueue_pop_non_blocking q y = (0, x, q')"
proof (cases "QQueue_pop q")
  case None
  then show ?thesis using that(1) QQueue_non_blocking [of q y y] ring.pop_None [OF assms] by simp
next
  case (Some r)
  then obtain x q' where "QQueue_pop q = Some (x, q')" by (cases r) auto
  then show ?thesis using that(2) [of q' x] QQueue_non_blocking [of q y y] ring.pop_Some [OF assms] by simp
qed

lemma dinv_thread:
  assumes inv: "dinv s" and k: "k < length (d_threads s)" and st: "process_queue_step valid k s = Some s'"
  shows "dinv s'"
proof -
  have q: "QQueue_inv (d_queue s)" using inv by (simp add: dinv_def)
  note upd = serving_update [OF k] and dr = draining_update [OF _ k]
  have new: "\<exists>pc\<in>set ((d_threads s)[k := pc']). draining pc" if "draining pc'" for pc'
    using that set_update_memI [OF k] by blast
  show ?thesis
  proof (cases "d_threads s ! k")
    case P_test
    let ?pc = "if d_shutdown s then P_stopped else P_wait"
    have s': "s' = s\<lparr>d_threads := (d_threads s)[k := ?pc]\<rparr>" using st P_test by simp
    show ?thesis unfolding s' using inv upd [of ?pc] dr [of ?pc] P_test
      by (auto simp: dinv_def dest!: stopped_update split: if_splits)
  next
    case P_wait
    then have s': "s' = s\<lparr>d_trigger := False, d_threads := (d_threads s)[k := P_drain]\<rparr>"
      using st by (auto simp: QTrigger_wait_def split: if_splits)
    show ?thesis unfolding s' using inv upd [of P_drain] new [of P_drain] P_wait
      by (auto simp: dinv_def dest!: stopped_update)
  next
    case P_drain
    show ?thesis
    proof (rule pop_non_blocking_cases [OF q, of 0])
      assume p: "QQueue_contents (d_queue s) = []" "QQueue_pop_non_blocking (d_queue s) 0 = (- 1, 0, d_queue s)"
      then have s': "s' = s\<lparr>d_threads := (d_threads s)[k := P_test]\<rparr>" using st P_drain by simp
      show ?thesis unfolding s' using inv upd [of P_test] P_drain p(1) by (auto simp: dinv_def dest!: stopped_update)
    next
      fix x q'
      assume p: "QQueue_inv q'" "QQueue_contents (d_queue s) = x # QQueue_contents q'"
        "QQueue_pop_non_blocking (d_queue s) 0 = (0, x, q')"
      then have "s' = s\<lparr>d_queue := q', d_threads := (d_threads s)[k := P_serve x]\<rparr>
          \<or> s' = s\<lparr>d_queue := q', d_failed := d_failed s @ [x], d_threads := (d_threads s)[k := P_drain]\<rparr>"
        using st P_drain by (auto split: if_splits)
      then show ?thesis using inv upd [of "P_serve x"] upd [of P_drain] new [of "P_serve x"] new [of P_drain] P_drain p(1,2)
        by (auto simp: dinv_def dest!: stopped_update)
    qed
  next
    case (P_serve x)
    then have s': "s' = s\<lparr>d_served := d_served s @ [x], d_threads := (d_threads s)[k := P_drain]\<rparr>" using st by simp
    show ?thesis unfolding s' using inv upd [of P_drain] new [of P_drain] P_serve
      by (auto simp: dinv_def dest!: stopped_update)
  next
    case P_stopped
    with st show ?thesis by simp
  qed
qed

lemma dinv_main:
  assumes inv: "dinv s" and st: "serverMain_step a s = Some s'"
  shows "dinv s'"
proof (cases "d_main s")
  case (M_push sock)
  then obtain q where p: "QQueue_push (d_queue s) sock = Some q"
    and s': "s' = s\<lparr>d_queue := q, d_main := M_signal, d_accepted := d_accepted s @ [sock]\<rparr>"
    using st by (auto split: option.splits)
  have "QQueue_inv (d_queue s)" using inv by (simp add: dinv_def)
  from ring.push_Some [OF this p] inv s' show ?thesis by (auto simp: dinv_def)
qed (use inv st in \<open>auto simp: dinv_def QTrigger_signal_def split: accept_result.splits if_splits\<close>)

lemma dinv_step: "dstep valid s s' \<Longrightarrow> dinv s \<Longrightarrow> dinv s'"
  by (induction rule: dstep.induct) (auto intro: dinv_main dinv_thread, auto simp: dinv_def)

lemma dinv_init: "0 < n \<Longrightarrow> length cells = nat n \<Longrightarrow> dinv (dispatch_init n cells t)"
  using QQueue_init_ok [of n cells QQueue_new]
  by (auto simp: dinv_def dispatch_init_def serving_def map_replicate_const)

lemma dreach_inv:
  assumes "dreach valid s s'" "dinv s"
  shows "dinv s'"
  using assms(1) unfolding dreach_def
  by (induction rule: rtranclp_induct) (use assms(2) in \<open>auto intro: dinv_step\<close>)

lemma threads_length_step: "dstep valid s s' \<Longrightarrow> length (d_threads s') = length (d_threads s)"
  by (induction rule: dstep.induct)
    (auto simp: Let_def split: main_pc.splits thread_pc.splits option.splits accept_result.splits if_splits prod.splits)

lemma threads_length: "dreach valid s s' \<Longrightarrow> length (d_threads s') = length (d_threads s)"
  unfolding dreach_def by (induction rule: rtranclp_induct) (auto dest: threads_length_step)

text \<open>A thread that cannot step waits for the trigger or has stopped.\<close>

lemma thread_blocked:
  "process_queue_step valid k s = None \<longleftrightarrow> (d_threads s ! k = P_wait \<and> \<not> d_trigger s) \<or> d_threads s ! k = P_stopped"
  by (auto simp: Let_def QTrigger_wait_def split: thread_pc.splits if_splits prod.splits)

lemma serving_none: "\<forall>pc\<in>set ts. \<not> draining pc \<Longrightarrow> serving ts = {#}"
  by (auto simp: serving_def draining_def)

text \<open>The threads never wake again once \<open>serverMain\<close> has left its loop with the trigger reset.\<close>

definition hung :: "nat \<Rightarrow> dispatch \<Rightarrow> bool" where
  "hung k s \<longleftrightarrow> k < length (d_threads s) \<and> d_threads s ! k = P_wait \<and> \<not> d_trigger s \<and> (\<exists>i\<le>k. d_main s = M_join i)"

lemma hung_step: "dstep valid s s' \<Longrightarrow> hung k s \<Longrightarrow> hung k s'"
proof (induction rule: dstep.induct)
  case (main a s s')
  then obtain i where i: "i \<le> k" "d_main s = M_join i" by (auto simp: hung_def)
  then have "d_threads s ! i = P_stopped" "s' = s\<lparr>d_main := M_join (Suc i)\<rparr>"
    using main by (auto simp: hung_def split: if_splits)
  moreover from this have "i \<noteq> k" using main by (auto simp: hung_def)
  ultimately show ?case using main i by (auto simp: hung_def intro!: exI [of _ "Suc i"])
next
  case (thread j s s')
  then have "j \<noteq> k" by (auto simp: hung_def QTrigger_wait_def)
  with thread show ?case
    by (auto simp: hung_def Let_def QTrigger_wait_def split: thread_pc.splits if_splits prod.splits)
next
  case (signal s)
  then show ?case by (simp add: hung_def)
qed

lemma hung_forever: "dreach valid s s' \<Longrightarrow> hung k s \<Longrightarrow> hung k s'"
  unfolding dreach_def by (induction rule: rtranclp_induct) (auto dest: hung_step)

text \<open>Schedules, to compute a reachable state.\<close>

datatype devent = Main accept_result | Thread nat

fun drun :: "(int \<Rightarrow> bool) \<Rightarrow> devent list \<Rightarrow> dispatch \<Rightarrow> dispatch option" where
  "drun valid [] s = Some s"
| "drun valid (Main a # es) s = (case serverMain_step a s of None \<Rightarrow> None | Some s' \<Rightarrow> drun valid es s')"
| "drun valid (Thread k # es) s =
     (if k < length (d_threads s) then case process_queue_step valid k s of None \<Rightarrow> None | Some s' \<Rightarrow> drun valid es s' else None)"

lemma drun_reach: "drun valid es s = Some s' \<Longrightarrow> dreach valid s s'"
proof (induction valid es s rule: drun.induct)
  case (2 valid a es s)
  then obtain s1 where "serverMain_step a s = Some s1" "drun valid es s1 = Some s'" by (auto split: option.splits simp del: serverMain_step.simps)
  then show ?case using 2(1) unfolding dreach_def by (meson converse_rtranclp_into_rtranclp dstep.main)
next
  case (3 valid k es s)
  then obtain s1 where "k < length (d_threads s)" "process_queue_step valid k s = Some s1" "drun valid es s1 = Some s'"
    by (auto split: option.splits if_splits simp del: process_queue_step.simps)
  then show ?case using 3(1) unfolding dreach_def by (meson converse_rtranclp_into_rtranclp dstep.thread)
qed (simp add: dreach_def)

section \<open>Properties\<close>

text \<open>
  C10. Dispatching.  In every interleaving of the accept loop and the threads, each accepted
  connection is queued, being served, served or rejected as invalid, and is so exactly once.  As
  long as there is no shutdown, no connection is forgotten: when no thread can move and the accept
  loop is not about to signal, every accepted connection has been served or rejected.
\<close>

theorem dispatch_complete:
  assumes "0 < maxclients" "length cells = nat maxclients" "0 < thread_num"
    and "dreach valid (dispatch_init maxclients cells thread_num) s"
  shows "mset (d_accepted s) = mset (QQueue_contents (d_queue s)) + serving (d_threads s) + mset (d_served s) + mset (d_failed s)
    \<and> (\<not> d_shutdown s \<and> d_main s \<noteq> M_signal \<and> (\<forall>k < thread_num. process_queue_step valid k s = None) \<longrightarrow>
       mset (d_accepted s) = mset (d_served s) + mset (d_failed s))"
proof -
  have inv: "dinv s" using dreach_inv [OF assms(4) dinv_init [OF assms(1,2)]] .
  have len: "length (d_threads s) = thread_num" using threads_length [OF assms(4)] by (simp add: dispatch_init_def)
  have "mset (d_accepted s) = mset (d_served s) + mset (d_failed s)"
    if q: "\<not> d_shutdown s" "d_main s \<noteq> M_signal" "\<forall>k < thread_num. process_queue_step valid k s = None"
  proof -
    have w: "d_threads s ! k = P_wait \<and> \<not> d_trigger s" if "k < thread_num" for k
    proof -
      have "process_queue_step valid k s = None" using q(3) that by blast
      then have "(d_threads s ! k = P_wait \<and> \<not> d_trigger s) \<or> d_threads s ! k = P_stopped" by (rule iffD1 [OF thread_blocked])
      moreover have "d_threads s ! k \<in> set (d_threads s)" using that len by simp
      ultimately show ?thesis using q(1) inv by (auto simp: dinv_def)
    qed
    then have nd: "\<forall>pc\<in>set (d_threads s). \<not> draining pc" using len by (metis draining_simps(4) in_set_conv_nth)
    moreover have "\<not> d_trigger s" using w assms(3) by blast
    ultimately have "QQueue_contents (d_queue s) = []" using inv q(2) by (auto simp: dinv_def)
    then show ?thesis using inv serving_none [OF nd] by (simp add: dinv_def)
  qed
  then show ?thesis using inv by (auto simp: dinv_def)
qed

definition demo_events :: "devent list" where
  "demo_events = [Thread 0, Main Retry, Main (Client 7), Main Retry, Main Retry, Thread 0, Thread 0, Thread 0, Thread 0, Thread 0]"

theorem dispatch_complete_witness:
  "\<exists>s. drun (\<lambda>_. True) demo_events (dispatch_init 4 [0, 0, 0, 0] 1) = Some s
     \<and> d_accepted s = [7] \<and> mset (d_accepted s) = mset (d_served s) + mset (d_failed s)"
proof -
  obtain s where s: "drun (\<lambda>_. True) demo_events (dispatch_init 4 [0, 0, 0, 0] 1) = Some s"
    and e: "d_accepted s = [7]" "\<not> d_shutdown s" "d_main s = M_test" "d_threads s = [P_wait]" "\<not> d_trigger s"
    by (simp add: demo_events_def dispatch_init_def QQueue_init_def QQueue_new_def QQueue_push_def QQueue_full_def
        QQueue_pop_non_blocking_def QQueue_empty_def aset_def aget_def QTrigger_wait_def QTrigger_signal_def Let_def)
  have "\<forall>k < 1. process_queue_step (\<lambda>_. True) k s = None" using e by (simp add: QTrigger_wait_def)
  then have "mset (d_accepted s) = mset (d_served s) + mset (d_failed s)"
    using e by (intro mp [OF conjunct2 [OF dispatch_complete [OF _ _ _ drun_reach [OF s]]]]) simp_all
  with s e show ?thesis by blast
qed

text \<open>
  C11. Shutdown.  An idle server that is told to shut down does not end: the threads wait for a
  trigger that nobody sets any more, and \<open>serverMain\<close> waits for the threads, so there is a reachable
  state after a shutdown signal from which \<open>serverMain\<close> never returns.
\<close>

theorem shutdown_hangs:
  assumes "0 < thread_num"
  shows "\<exists>s. dreach valid (dispatch_init maxclients cells thread_num) s \<and> d_shutdown s
    \<and> (\<forall>s'. dreach valid s s' \<longrightarrow> d_main s' \<noteq> M_return)"
proof -
  let ?s0 = "dispatch_init maxclients cells thread_num"
  let ?s1 = "?s0\<lparr>d_threads := (d_threads ?s0)[0 := P_wait]\<rparr>"
  let ?s2 = "?s1\<lparr>d_shutdown := True\<rparr>" let ?s3 = "?s2\<lparr>d_main := M_join 0\<rparr>"
  have "dstep valid ?s0 ?s1" using assms by (intro dstep.thread [of 0]) (simp_all add: dispatch_init_def)
  moreover have "dstep valid ?s1 ?s2" by (rule dstep.signal)
  moreover have "dstep valid ?s2 ?s3" by (rule dstep.main) (simp add: dispatch_init_def)
  ultimately have r: "dreach valid ?s0 ?s3" unfolding dreach_def by (meson rtranclp.rtrancl_into_rtrancl rtranclp.rtrancl_refl)
  have h: "hung 0 ?s3" using assms by (simp add: hung_def dispatch_init_def)
  have "d_main s' \<noteq> M_return" if "dreach valid ?s3 s'" for s' using hung_forever [OF that h] by (auto simp: hung_def)
  then show ?thesis using r by (intro exI [of _ ?s3]) simp
qed

theorem shutdown_hangs_witness:
  "\<exists>s. dreach (\<lambda>_. True) (dispatch_init 64 (replicate 64 0) 8) s \<and> d_shutdown s \<and> d_main s \<noteq> M_return"
  using shutdown_hangs [of 8 "\<lambda>_. True" 64 "replicate 64 0"] by (auto simp: dreach_def)

end
