(* ===== verification/Startup.thy ===== *)
theory Startup
  imports Dispatch WorkerServer
begin

text \<open>
  Starting the servers: the defaults of \<open>initServerConfig\<close>, the options of the command line and the
  configuration file (\<^verbatim>\<open>loadServerConfig\<close> of \<^verbatim>\<open>src/master/src/pir.cpp\<close> and \<^verbatim>\<open>src/worker/src/pir.cpp\<close>,
  \<^verbatim>\<open>main\<close> of both \<^verbatim>\<open>recgservice.cpp\<close>).  A configuration is read field by field; the first field that
  cannot be read ends it with \<open>PIR_ERR\<close>.
\<close>

section \<open>Reading fields into a configuration\<close>

text \<open>One call of a reader: its key, the variable it assigns, and what the assignment does.\<close>

datatype 'c cfg_item =
    C_text string "'c \<Rightarrow> string option" "string option \<Rightarrow> 'c \<Rightarrow> 'c"
  | C_int32 string "'c \<Rightarrow> int" "int \<Rightarrow> 'c \<Rightarrow> 'c"
  | C_uint32 string "'c \<Rightarrow> int" "int \<Rightarrow> 'c \<Rightarrow> 'c"
  | C_uint8 string "'c \<Rightarrow> int" "int \<Rightarrow> 'c \<Rightarrow> 'c"
  | C_int64 string "'c \<Rightarrow> int" "int \<Rightarrow> 'c \<Rightarrow> 'c"
  | C_float string "string \<Rightarrow> 'c \<Rightarrow> 'c"
  | C_yesno string "'c \<Rightarrow> int" "int \<Rightarrow> 'c \<Rightarrow> 'c"

definition assign :: "('v \<Rightarrow> 'c \<Rightarrow> 'c) \<Rightarrow> 'c \<Rightarrow> cfg_error + int \<times> 'v \<Rightarrow> cfg_error + int \<times> 'c" where
  "assign upd c res = (case res of Inl e \<Rightarrow> Inl e | Inr (r, v) \<Rightarrow> Inr (r, upd v c))"

text \<open>
  \<open>getFieldFloat\<close> reads like the other typed readers; the conversion of the text is left to the
  item.  A reader that fails leaves its variable alone.
\<close>

fun run_item :: "config_file \<Rightarrow> 'c cfg_item \<Rightarrow> 'c \<Rightarrow> cfg_error + int \<times> 'c" where
  "run_item fp (C_text k get upd) c = (case getFieldString_dup fp k (get c) of (r, v) \<Rightarrow> Inr (r, upd v c))"
| "run_item fp (C_int32 k get upd) c = assign upd c (getFieldInt32 fp k (get c))"
| "run_item fp (C_uint32 k get upd) c = assign upd c (getFieldUint32 fp k (get c))"
| "run_item fp (C_uint8 k get upd) c = assign upd c (getFieldUint8 fp k (get c))"
| "run_item fp (C_int64 k get upd) c = assign upd c (getFieldInt64 fp k (get c))"
| "run_item fp (C_float k upd) c = getField fp k (\<lambda>s. (0, upd s c)) c"
| "run_item fp (C_yesno k get upd) c = assign upd c (getFieldYesNo fp k (get c))"

fun run_items :: "config_file \<Rightarrow> 'c cfg_item list \<Rightarrow> 'c \<Rightarrow> cfg_error + int \<times> 'c" where
  "run_items fp [] c = Inr (PIR_OK, c)"
| "run_items fp (it # its) c =
     (case run_item fp it c of
        Inl e \<Rightarrow> Inl e
      | Inr (ret, c') \<Rightarrow> if ret < 0 then Inr (PIR_ERR, c') else run_items fp its c')"

section \<open>The master\<close>

record masterConfig =
  c_daemonize :: int
  c_failover_policy :: int
  c_pidfile :: "string option"
  c_tcp_backlog :: int
  c_maxclients :: int
  c_thread_num :: int
  c_thread_timeout :: int
  c_conn_timeout :: int
  c_recv_timeout :: int
  c_send_timeout :: int
  c_query_num :: int
  c_ocr_enabled :: int
  c_ocr_server :: "string option"
  c_watchdog_now :: int
  c_watchdog_interval :: int
  c_monitor_enabled :: int
  c_monitor_port :: int
  c_log_path :: "string option"
  c_log_screen :: int
  c_log_size :: int
  c_log_query_cache_size :: int
  c_port :: int

definition initServerConfig :: masterConfig where
  "initServerConfig = \<lparr>c_daemonize = 0, c_failover_policy = 0, c_pidfile = None, c_tcp_backlog = 511, c_maxclients = 64,
     c_thread_num = 8, c_thread_timeout = 60000, c_conn_timeout = 8000, c_recv_timeout = 15000, c_send_timeout = 15000,
     c_query_num = 10, c_ocr_enabled = 0, c_ocr_server = None, c_watchdog_now = 1000, c_watchdog_interval = 10000,
     c_monitor_enabled = 0, c_monitor_port = 28888, c_log_path = None, c_log_screen = 1, c_log_size = 1024,
     c_log_query_cache_size = 5242880, c_port = - 1\<rparr>"

definition checkForDaemonizeMode :: "string list \<Rightarrow> int" where
  "checkForDaemonizeMode argv = (if \<exists>a\<in>set argv. a = ''-d'' \<or> a = ''--daemon'' then 1 else 0)"

definition checkForRecoveryMode :: "string list \<Rightarrow> int" where
  "checkForRecoveryMode argv = (if \<exists>a\<in>set argv. a = ''-r'' \<or> a = ''--recovery'' then 1 else 0)"

definition initServerOptions :: "string list \<Rightarrow> masterConfig \<Rightarrow> masterConfig" where
  "initServerOptions argv c =
     c\<lparr>c_daemonize := checkForDaemonizeMode argv, c_failover_policy := checkForRecoveryMode argv\<rparr>"

definition master_items :: "masterConfig cfg_item list" where
  "master_items =
    [C_yesno ''daemonize'' (\<lambda>_. 0) (\<lambda>flag c. if flag \<noteq> 0 then c\<lparr>c_daemonize := 1\<rparr> else c),
     C_text ''pidfile'' c_pidfile (\<lambda>v. c_pidfile_update (\<lambda>_. v)),
     C_int32 ''tcp-backlog'' c_tcp_backlog (\<lambda>v. c_tcp_backlog_update (\<lambda>_. v)),
     C_uint32 ''max-clients'' c_maxclients (\<lambda>v. c_maxclients_update (\<lambda>_. v)),
     C_uint8 ''thread-num'' c_thread_num (\<lambda>v. c_thread_num_update (\<lambda>_. v)),
     C_int32 ''thread-timeout'' c_thread_timeout (\<lambda>v. c_thread_timeout_update (\<lambda>_. v)),
     C_int32 ''conn-timeout'' c_conn_timeout (\<lambda>v. c_conn_timeout_update (\<lambda>_. v)),
     C_int32 ''recv-timeout'' c_recv_timeout (\<lambda>v. c_recv_timeout_update (\<lambda>_. v)),
     C_int32 ''send-timeout'' c_send_timeout (\<lambda>v. c_send_timeout_update (\<lambda>_. v)),
     C_int32 ''query-num'' c_query_num (\<lambda>v. c_query_num_update (\<lambda>_. v)),
     C_yesno ''ocr-enabled'' c_ocr_enabled (\<lambda>v. c_ocr_enabled_update (\<lambda>_. v)),
     C_text ''ocr-server'' c_ocr_server (\<lambda>v. c_ocr_server_update (\<lambda>_. v)),
     C_int32 ''watchdog-now'' c_watchdog_now (\<lambda>v. c_watchdog_now_update (\<lambda>_. v)),
     C_int32 ''watchdog-interval'' c_watchdog_interval (\<lambda>v. c_watchdog_interval_update (\<lambda>_. v)),
     C_yesno ''monitor-enabled'' c_monitor_enabled (\<lambda>v. c_monitor_enabled_update (\<lambda>_. v)),
     C_int32 ''monitor-port'' c_monitor_port (\<lambda>v. c_monitor_port_update (\<lambda>_. v)),
     C_text ''log-path'' c_log_path (\<lambda>v. c_log_path_update (\<lambda>_. v)),
     C_yesno ''log-screen'' c_log_screen (\<lambda>v. c_log_screen_update (\<lambda>_. v)),
     C_int32 ''log-size'' c_log_size (\<lambda>v. c_log_size_update (\<lambda>_. v)),
     C_int32 ''log-query-cache-size'' c_log_query_cache_size (\<lambda>v. c_log_query_cache_size_update (\<lambda>_. v))]"

definition loadServerConfig :: "(string \<Rightarrow> string option) \<Rightarrow> string \<Rightarrow> masterConfig \<Rightarrow> cfg_error + int \<times> masterConfig" where
  "loadServerConfig fopen configfile c =
     (case QConfigReader_init fopen (Some configfile) of (r, fp) \<Rightarrow>
        if r < 0 then Inr (PIR_ERR, c) else run_items fp master_items c)"

text \<open>
  The start of \<open>main\<close>, up to \<open>initServer\<close>; \<open>argv\<close> includes the name of the program.  \<open>Inl\<close>: the process
  ends with this status before it serves.
\<close>

definition master_main :: "(string \<Rightarrow> string option) \<Rightarrow> string \<Rightarrow> string list \<Rightarrow> cfg_error + master_exit + masterConfig" where
  "master_main fopen configfile argv =
     (case loadServerConfig fopen configfile (initServerOptions argv initServerConfig) of
        Inl e \<Rightarrow> Inl e
      | Inr (r, c) \<Rightarrow>
          if r = PIR_ERR then Inr (Inl (Exit 0))
          else if 2 \<le> length argv \<and> (argv ! 1 = ''-p'' \<or> argv ! 1 = ''--port'') \<and> 2 < length argv
          then Inr (Inr (c\<lparr>c_port := atoi (argv ! 2)\<rparr>))
          else Inr (Inl (Exit 0)))"

section \<open>The worker\<close>

record workerConfig =
  k_daemonize :: int
  k_failover_policy :: int
  k_pidfile :: "string option"
  k_tcp_backlog :: int
  k_setting_xml_path :: "string option"
  k_setting_xml :: "string option"
  k_delta_peak :: int
  k_delta_ratio :: string
  k_idletime :: int
  k_maxclients :: int
  k_thread_num :: int
  k_thread_timeout :: int
  k_conn_timeout :: int
  k_recv_timeout :: int
  k_send_timeout :: int
  k_log_path :: "string option"
  k_log_size :: int
  k_log_query_cache_size :: int

text \<open>The first option that asks for recovery decides between the two modes.\<close>

fun checkForRecoveryMode_w :: "string list \<Rightarrow> int" where
  "checkForRecoveryMode_w [] = 0"
| "checkForRecoveryMode_w (a # argv) =
     (if a = ''-r'' \<or> a = ''--recovery'' then 1
      else if a = ''-r2'' \<or> a = ''--recovery2'' then 2
      else checkForRecoveryMode_w argv)"

text \<open>\<open>k_delta_ratio\<close> holds the text that \<open>strtod\<close> converts.\<close>

definition worker_items :: "workerConfig cfg_item list" where
  "worker_items =
    [C_yesno ''daemonize'' (\<lambda>_. 0) (\<lambda>flag c. if flag = 1 then c\<lparr>k_daemonize := 1\<rparr> else c),
     C_text ''pidfile'' k_pidfile (\<lambda>v. k_pidfile_update (\<lambda>_. v)),
     C_int32 ''tcp-backlog'' k_tcp_backlog (\<lambda>v. k_tcp_backlog_update (\<lambda>_. v)),
     C_text ''setting-xml-path'' k_setting_xml_path (\<lambda>v. k_setting_xml_path_update (\<lambda>_. v)),
     C_text ''setting-xml'' k_setting_xml (\<lambda>v. k_setting_xml_update (\<lambda>_. v)),
     C_uint32 ''delta-peak'' k_delta_peak (\<lambda>v. k_delta_peak_update (\<lambda>_. v)),
     C_float ''delta-ratio'' (\<lambda>v. k_delta_ratio_update (\<lambda>_. v)),
     C_int64 ''idletime-for-training'' k_idletime (\<lambda>v. k_idletime_update (\<lambda>_. v)),
     C_uint32 ''max-clients'' k_maxclients (\<lambda>v. k_maxclients_update (\<lambda>_. v)),
     C_uint8 ''thread-num'' k_thread_num (\<lambda>v. k_thread_num_update (\<lambda>_. v)),
     C_int32 ''thread-timeout'' k_thread_timeout (\<lambda>v. k_thread_timeout_update (\<lambda>_. v)),
     C_int32 ''conn-timeout'' k_conn_timeout (\<lambda>v. k_conn_timeout_update (\<lambda>_. v)),
     C_int32 ''recv-timeout'' k_recv_timeout (\<lambda>v. k_recv_timeout_update (\<lambda>_. v)),
     C_int32 ''send-timeout'' k_send_timeout (\<lambda>v. k_send_timeout_update (\<lambda>_. v)),
     C_text ''log-path'' k_log_path (\<lambda>v. k_log_path_update (\<lambda>_. v)),
     C_int32 ''log-size'' k_log_size (\<lambda>v. k_log_size_update (\<lambda>_. v)),
     C_int32 ''log-query-cache-size'' k_log_query_cache_size (\<lambda>v. k_log_query_cache_size_update (\<lambda>_. v))]"

definition loadServerConfig_w :: "(string \<Rightarrow> string option) \<Rightarrow> string \<Rightarrow> workerConfig \<Rightarrow> cfg_error + int \<times> workerConfig" where
  "loadServerConfig_w fopen configfile c =
     (case QConfigReader_init fopen (Some configfile) of (r, fp) \<Rightarrow>
        if r < 0 then Inr (PIR_ERR, c) else run_items fp worker_items c)"

section \<open>What a configuration file means\<close>

text \<open>The key of an item, which values it accepts, and what a value does to the configuration.\<close>

fun item_key :: "'c cfg_item \<Rightarrow> string" where
  "item_key (C_text k _ _) = k"
| "item_key (C_int32 k _ _) = k"
| "item_key (C_uint32 k _ _) = k"
| "item_key (C_uint8 k _ _) = k"
| "item_key (C_int64 k _ _) = k"
| "item_key (C_float k _) = k"
| "item_key (C_yesno k _ _) = k"

fun item_accepts :: "'c cfg_item \<Rightarrow> string \<Rightarrow> bool" where
  "item_accepts (C_text _ _ _) v = True"
| "item_accepts (C_yesno _ _ _) v = (q_strcasecmp v ''yes'' = 0 \<or> q_strcasecmp v ''no'' = 0)"
| "item_accepts _ v = (v \<noteq> [])"

fun item_apply :: "'c cfg_item \<Rightarrow> string \<Rightarrow> 'c \<Rightarrow> 'c" where
  "item_apply (C_text _ _ upd) v = upd (Some v)"
| "item_apply (C_int32 _ _ upd) v = upd (atoi v)"
| "item_apply (C_uint32 _ _ upd) v = upd (u32 (atol v))"
| "item_apply (C_uint8 _ _ upd) v = upd (u8 (atoi v))"
| "item_apply (C_int64 _ _ upd) v = upd (s64 (strtoul v))"
| "item_apply (C_float _ upd) v = upd v"
| "item_apply (C_yesno _ _ upd) v = upd (if q_strcasecmp v ''yes'' = 0 then 1 else 0)"

definition item_found :: "cfg_line list \<Rightarrow> 'c cfg_item \<Rightarrow> bool" where
  "item_found ls it \<longleftrightarrow> (case lookup (item_key it) ls of None \<Rightarrow> False | Some v \<Rightarrow> item_accepts it v)"

definition item_set :: "cfg_line list \<Rightarrow> 'c cfg_item \<Rightarrow> 'c \<Rightarrow> 'c" where
  "item_set ls it = item_apply it (the (lookup (item_key it) ls))"

lemma strcasecmp_Nil: "q_strcasecmp [] ''yes'' \<noteq> 0" "q_strcasecmp [] ''no'' \<noteq> 0"
  by code_simp+

lemma run_item_lookup:
  assumes "ok_name (item_key it)" "\<forall>l\<in>set ls. ok_line l"
  shows "(item_found ls it \<longrightarrow> (\<exists>r. 0 \<le> r \<and> run_item (Some (render ls)) it c = Inr (r, item_set ls it c)))
    \<and> (\<not> item_found ls it \<longrightarrow> (\<exists>c'. run_item (Some (render ls)) it c = Inr (- 1, c')))"
proof (cases it)
  case (C_text k get upd)
  have "k \<noteq> []" using assms(1) C_text by (auto simp: ok_name_def)
  with C_text find_field_render [OF assms] show ?thesis
    by (auto simp: item_found_def item_set_def getFieldString_dup_def split: option.splits)
qed (use assms strcasecmp_Nil in
    \<open>auto simp: getField_lookup item_found_def item_set_def assign_def getFieldInt32_def getFieldUint32_def getFieldUint8_def
      getFieldInt64_def getFieldYesNo_def split: option.splits\<close>)

lemma run_items_lookup:
  assumes "\<forall>it\<in>set its. ok_name (item_key it)" "\<forall>l\<in>set ls. ok_line l"
  shows "(\<forall>it\<in>set its. item_found ls it) \<Longrightarrow> run_items (Some (render ls)) its c = Inr (PIR_OK, fold (item_set ls) its c)"
    and "\<not> (\<forall>it\<in>set its. item_found ls it) \<Longrightarrow> \<exists>c'. run_items (Some (render ls)) its c = Inr (PIR_ERR, c')"
  using assms(1)
proof (induction its arbitrary: c)
  case (Cons it its)
  note item = run_item_lookup [of it, OF _ assms(2)]
  {
    case 1
    then have "\<exists>r. 0 \<le> r \<and> run_item (Some (render ls)) it c = Inr (r, item_set ls it c)" using item [of c] by auto
    then obtain r where "0 \<le> r" "run_item (Some (render ls)) it c = Inr (r, item_set ls it c)" by blast
    with 1 Cons.IH(1) show ?case by auto
  next
    case 2
    show ?case
    proof (cases "item_found ls it")
      case True
      then have "\<exists>r. 0 \<le> r \<and> run_item (Some (render ls)) it c = Inr (r, item_set ls it c)" using item [of c] 2 by auto
      then obtain r where "0 \<le> r" "run_item (Some (render ls)) it c = Inr (r, item_set ls it c)" by blast
      with 2 True Cons.IH(2) [of "item_set ls it c"] show ?thesis by auto
    next
      case False
      then show ?thesis using item [of c] 2 by auto
    qed
  }
qed auto

lemma keys_ok: "\<forall>it\<in>set master_items. ok_name (item_key it)" "\<forall>it\<in>set worker_items. ok_name (item_key it)"
  by (simp_all add: master_items_def worker_items_def ok_name_def ok_chars_def NUL_def LF_def CR_def)

section \<open>Properties\<close>


definition master_conf :: "cfg_line list" where
  "master_conf = [Remark '' Kalava master configuration file'', Blank, Field ''daemonize'' ''no'',
     Field ''pidfile'' ''/var/run/kalava-master.pid'', Field ''tcp-backlog'' ''511'', Field ''max-clients'' ''64'',
     Field ''thread-num'' ''8'', Field ''thread-timeout'' ''60000'', Field ''conn-timeout'' ''6000'',
     Field ''recv-timeout'' ''6000'', Field ''send-timeout'' ''6000'', Field ''query-num'' ''5'', Field ''ocr-enabled'' ''no'',
     Field ''ocr-server'' ''http://192.168.1.38:8888'', Field ''watchdog-now'' ''5000'', Field ''watchdog-interval'' ''300000'',
     Field ''monitor-enabled'' ''no'', Field ''monitor-port'' ''28888'', Field ''log-path'' ''../log'',
     Field ''log-screen'' ''no'', Field ''log-size'' ''1024'', Field ''log-query-cache-size'' ''5242880'']"

lemma master_conf_ok: "\<forall>l\<in>set master_conf. ok_line l"
  by (simp add: master_conf_def ok_name_def ok_value_def ok_chars_def NUL_def LF_def CR_def BUFSIZ_1K_def)

lemma lower_master_keys:
  "lower ''daemonize'' = ''daemonize''" "lower ''pidfile'' = ''pidfile''" "lower ''tcp-backlog'' = ''tcp-backlog''"
  "lower ''max-clients'' = ''max-clients''" "lower ''thread-num'' = ''thread-num''" "lower ''thread-timeout'' = ''thread-timeout''"
  "lower ''conn-timeout'' = ''conn-timeout''" "lower ''recv-timeout'' = ''recv-timeout''" "lower ''send-timeout'' = ''send-timeout''"
  "lower ''query-num'' = ''query-num''" "lower ''ocr-enabled'' = ''ocr-enabled''" "lower ''ocr-server'' = ''ocr-server''"
  "lower ''watchdog-now'' = ''watchdog-now''" "lower ''watchdog-interval'' = ''watchdog-interval''"
  "lower ''monitor-enabled'' = ''monitor-enabled''" "lower ''monitor-port'' = ''monitor-port''" "lower ''log-path'' = ''log-path''"
  "lower ''log-screen'' = ''log-screen''" "lower ''log-size'' = ''log-size''"
  "lower ''log-query-cache-size'' = ''log-query-cache-size''"
  by code_simp+

lemma master_conf_values:
  "q_strcasecmp ''no'' ''yes'' \<noteq> 0" "atoi ''8'' = 8" "atoi ''5'' = 5" "atol ''64'' = 64"
  by code_simp+


end
