(* ===== verification/Sentinel.thy ===== *)
theory Sentinel
  imports Startup
begin

text \<open>
  The sentinel, \<^verbatim>\<open>src/sentinel/src/serlaunch.cpp\<close>, which starts masters and workers on a machine: its
  configuration and \<open>ns__launch\<close>, with the directory functions it uses from \<^verbatim>\<open>src/common/qdir.cc\<close>.
  The system calls \<open>mkdir\<close>, \<open>chmod\<close> and \<open>system\<close> are arguments; \<open>'s\<close> is the state of the file system.
\<close>

section \<open>Directories\<close>

datatype dir_error = Path_Overflow

definition DIR_DEFAULT_PATH_SIZE :: nat where
  "DIR_DEFAULT_PATH_SIZE = 256"

definition EEXIST :: int where "EEXIST = 17"
definition EROFS :: int where "EROFS = 30"

text \<open>The constructor copies the path into a buffer of 256 characters with \<open>strcpy\<close>.\<close>

definition QDir_new :: "string \<Rightarrow> dir_error + string" where
  "QDir_new path = (if length (cstr path) < DIR_DEFAULT_PATH_SIZE then Inr (cstr path) else Inl Path_Overflow)"

definition is_sep :: "char \<Rightarrow> bool" where
  "is_sep c \<longleftrightarrow> c = CHR 0x5C \<or> c = CHR ''/''"

text \<open>
  The loop of \<open>QDir::mkdir\<close>: \<open>acc\<close> is what \<open>dir_name\<close> holds, \<open>rest\<close> the text from \<open>ptr\<close> on.  A system call
  returns 0 or the error number.  The result: the return value, \<open>errno\<close> and the file system.
\<close>

function mkdir_loop :: "(string \<Rightarrow> 's \<Rightarrow> int \<times> 's) \<Rightarrow> string \<Rightarrow> string \<Rightarrow> int \<Rightarrow> 's \<Rightarrow> bool \<times> int \<times> 's" where
  "mkdir_loop sys_mkdir acc rest errno s =
     (let dir = acc @ takeWhile (\<lambda>c. \<not> is_sep c) rest; (e, s') = sys_mkdir dir s;
          errno' = (if e = 0 then errno else e) in
      if e \<noteq> 0 \<and> errno' \<noteq> EEXIST then (False, errno', s')
      else (case dropWhile (\<lambda>c. \<not> is_sep c) rest of
              [] \<Rightarrow> (True, errno', s')
            | c # r \<Rightarrow> if r = [] then (True, errno', s') else mkdir_loop sys_mkdir (dir @ [c]) r errno' s'))"
  by pat_completeness auto
termination
proof (relation "measure (\<lambda>(_, _, rest, _, _). length rest)", goal_cases)
  case (2 sys_mkdir acc rest errno s dir x e s' errno' c r)
  then have "length (c # r) \<le> length rest" by (metis length_dropWhile_le)
  then show ?case by simp
qed simp

definition QDir_mkdir :: "(string \<Rightarrow> 's \<Rightarrow> int \<times> 's) \<Rightarrow> string \<Rightarrow> int \<Rightarrow> 's \<Rightarrow> dir_error + bool \<times> int \<times> 's" where
  "QDir_mkdir sys_mkdir path errno s =
     (case QDir_new path of
        Inl e \<Rightarrow> Inl e
      | Inr p \<Rightarrow> Inr (case p of
            [] \<Rightarrow> (False, errno, s)
          | c # r \<Rightarrow>
              if is_sep c then (if r = [] then (False, errno, s) else mkdir_loop sys_mkdir [c] r errno s)
              else mkdir_loop sys_mkdir [] p errno s))"

definition QDir_chmod777 :: "(string \<Rightarrow> 's \<Rightarrow> int \<times> 's) \<Rightarrow> string \<Rightarrow> int \<Rightarrow> 's \<Rightarrow> dir_error + bool \<times> int \<times> 's" where
  "QDir_chmod777 sys_chmod path errno s =
     (case QDir_new path of
        Inl e \<Rightarrow> Inl e
      | Inr p \<Rightarrow> Inr (case sys_chmod p s of (e, s') \<Rightarrow> (e = 0, if e = 0 then errno else e, s')))"

section \<open>Launching\<close>

definition PIR_DEFAULT_CMD_SIZE :: nat where
  "PIR_DEFAULT_CMD_SIZE = 256"

definition master_version :: string where "master_version = ''split2.0''"
definition worker_version :: string where "worker_version = ''server3.0''"

text \<open>The command as \<open>snprintf\<close> leaves it in a buffer of 256 characters.\<close>

definition launch_cmd :: "string \<Rightarrow> string \<Rightarrow> string" where
  "launch_cmd role port =
     take (PIR_DEFAULT_CMD_SIZE - 1)
       (''cd ../../../'' @ role @ ''/build/bin/; ./recgservice -p '' @ cstr port @ '' -d'')"

text \<open>
  One guarded step of the \<open>try\<close> block: \<open>ok\<close> decides from the result of the call and \<open>errno\<close>; otherwise
  \<open>err\<close> is thrown.
\<close>

definition guard :: "(bool \<Rightarrow> int \<Rightarrow> bool) \<Rightarrow> int \<Rightarrow> (int \<Rightarrow> 's \<Rightarrow> dir_error + bool \<times> int \<times> 's)
    \<Rightarrow> (int \<Rightarrow> 's \<Rightarrow> dir_error + int \<times> string option \<times> 's) \<Rightarrow> int \<Rightarrow> 's \<Rightarrow> dir_error + int \<times> string option \<times> 's" where
  "guard ok err call next errno s =
     (case call errno s of
        Inl e \<Rightarrow> Inl e
      | Inr (b, errno', s') \<Rightarrow> if ok b errno' then next errno' s' else Inr (err, None, s'))"

text \<open>The result: the status, the command that was run, and the file system.\<close>

definition ns__launch :: "(string \<Rightarrow> 's \<Rightarrow> int \<times> 's) \<Rightarrow> (string \<Rightarrow> 's \<Rightarrow> int \<times> 's) \<Rightarrow> (string \<Rightarrow> int) \<Rightarrow> string \<Rightarrow> string
    \<Rightarrow> string \<Rightarrow> string \<Rightarrow> string \<Rightarrow> int \<Rightarrow> 's \<Rightarrow> dir_error + int \<times> string option \<times> 's" where
  "ns__launch sys_mkdir sys_chmod sys_system ws tp port version recgdir =
     (let always = (\<lambda>b errno. b); or_rofs = (\<lambda>b errno. b \<or> errno = EROFS) in
      guard always (- 1) (QDir_mkdir sys_mkdir ws) (
      guard always (- 2) (QDir_chmod777 sys_chmod ws) (
      guard or_rofs (- 3) (QDir_mkdir sys_mkdir tp) (
      guard or_rofs (- 4) (QDir_chmod777 sys_chmod tp) (
      guard always (- 5) (QDir_mkdir sys_mkdir recgdir) (
      guard always (- 6) (QDir_chmod777 sys_chmod recgdir) (\<lambda>errno s.
        if cstr version = master_version then
          (let cmd = launch_cmd ''master'' port in Inr (if sys_system cmd \<noteq> 0 then - 7 else 0, Some cmd, s))
        else if cstr version = worker_version then
          (let cmd = launch_cmd ''worker'' port in Inr (if sys_system cmd \<noteq> 0 then - 8 else 0, Some cmd, s))
        else Inr (- 9, None, s))))))))"

section \<open>Configuration\<close>

text \<open>\<open>pidfile\<close> is an array of 256 characters; the other fields are integers.\<close>

record config_t =
  cf_pidfile :: string
  cf_daemonize :: int
  cf_port :: int
  cf_tcp_backlog :: int

definition initConfig :: "(string \<Rightarrow> string option) \<Rightarrow> string \<Rightarrow> config_t \<Rightarrow> cfg_error + int \<times> config_t" where
  "initConfig fopen path c0 =
     (case QConfigReader_init fopen (Some path) of (r0, fp) \<Rightarrow>
      if r0 < 0 then Inr (PIR_ERR, c0) else
      case getFieldString fp ''pidfile'' 256 (cf_pidfile c0) of Inl e \<Rightarrow> Inl e | Inr (r1, v1) \<Rightarrow>
      if r1 < 0 then Inr (PIR_ERR, c0\<lparr>cf_pidfile := v1\<rparr>) else
      case getFieldYesNo fp ''daemonize'' (cf_daemonize c0) of Inl e \<Rightarrow> Inl e | Inr (r2, v2) \<Rightarrow>
      if r2 < 0 then Inr (PIR_ERR, c0\<lparr>cf_pidfile := v1\<rparr>) else
      case getFieldInt32 fp ''port'' (cf_port c0) of Inl e \<Rightarrow> Inl e | Inr (r3, v3) \<Rightarrow>
      if r3 < 0 then Inr (PIR_ERR, c0\<lparr>cf_pidfile := v1, cf_daemonize := v2\<rparr>) else
      case getFieldInt32 fp ''tcp-backlog'' (cf_tcp_backlog c0) of Inl e \<Rightarrow> Inl e | Inr (r4, v4) \<Rightarrow>
      if r4 < 0 then Inr (PIR_ERR, c0\<lparr>cf_pidfile := v1, cf_daemonize := v2, cf_port := v3\<rparr>)
      else Inr (PIR_OK, c0\<lparr>cf_pidfile := v1, cf_daemonize := v2, cf_port := v3, cf_tcp_backlog := v4\<rparr>))"

section \<open>Lemmas\<close>

text \<open>What POSIX says of \<open>mkdir\<close>: after success, or \<open>EEXIST\<close>, the name exists, and no name disappears.\<close>

definition posix_mkdir :: "(string \<Rightarrow> 's \<Rightarrow> int \<times> 's) \<Rightarrow> (string \<Rightarrow> 's \<Rightarrow> bool) \<Rightarrow> bool" where
  "posix_mkdir sys_mkdir ex \<longleftrightarrow> (\<forall>p s e s'. sys_mkdir p s = (e, s') \<longrightarrow>
     (e = 0 \<or> e = EEXIST \<longrightarrow> ex p s') \<and> (\<forall>q. ex q s \<longrightarrow> ex q s'))"

text \<open>Position \<open>i\<close> of a path ends a component.\<close>

definition component_end :: "string \<Rightarrow> nat \<Rightarrow> bool" where
  "component_end p i \<longleftrightarrow> 0 < i \<and> i \<le> length p \<and> \<not> is_sep (p ! (i - 1)) \<and> (i = length p \<or> is_sep (p ! i))"

lemma component_end_first:
  assumes "component_end (acc @ rest) i" "length acc < i"
  shows "length acc + length (takeWhile (\<lambda>c. \<not> is_sep c) rest) \<le> i"
proof (rule ccontr)
  assume "\<not> ?thesis"
  then have j: "i - length acc < length (takeWhile (\<lambda>c. \<not> is_sep c) rest)" using assms(2) by simp
  then have "\<not> is_sep (rest ! (i - length acc))" by (metis nth_mem set_takeWhileD takeWhile_nth)
  moreover have "i - length acc < length rest" using j length_takeWhile_le [of "\<lambda>c. \<not> is_sep c" rest] by linarith
  ultimately show False using assms by (auto simp: component_end_def nth_append)
qed

lemma mkdir_loop_creates:
  assumes px: "posix_mkdir sys_mkdir ex"
  shows "mkdir_loop sys_mkdir acc rest errno s = (True, errno', s') \<Longrightarrow>
    (\<forall>q. ex q s \<longrightarrow> ex q s') \<and>
    (\<forall>i. length acc < i \<and> component_end (acc @ rest) i \<longrightarrow> ex (take i (acc @ rest)) s')"
proof (induction "length rest" arbitrary: acc rest errno s rule: less_induct)
  case less
  let ?w = "takeWhile (\<lambda>c. \<not> is_sep c) rest" and ?d = "dropWhile (\<lambda>c. \<not> is_sep c) rest"
  let ?dir = "acc @ ?w" and ?p = "acc @ rest"
  obtain e s1 where m: "sys_mkdir ?dir s = (e, s1)" by fastforce
  let ?errno = "if e = 0 then errno else e"
  have e: "e = 0 \<or> e = EEXIST" using less.prems m by (subst (asm) mkdir_loop.simps) (auto split: if_splits)
  then have unf: "mkdir_loop sys_mkdir acc rest errno s = (case ?d of [] \<Rightarrow> (True, ?errno, s1)
      | c # r \<Rightarrow> if r = [] then (True, ?errno, s1) else mkdir_loop sys_mkdir (?dir @ [c]) r ?errno s1)"
    using m by (subst mkdir_loop.simps) (auto simp: Let_def)
  from e have dir: "ex ?dir s1" and mono: "\<And>q. ex q s \<Longrightarrow> ex q s1" using px m unfolding posix_mkdir_def by blast+
  have rest: "rest = ?w @ ?d" by simp
  have dirp: "take (length acc + length ?w) ?p = ?dir" by (metis append.assoc append_eq_conv_conj length_append rest)
  show ?case
  proof (cases ?d)
    case Nil
    then have s': "s' = s1" using less.prems unfolding unf by (simp only: list.case prod.inject)
    have "i = length acc + length ?w" if "length acc < i" "component_end ?p i" for i
      using component_end_first [OF that(2,1)] that(2) rest Nil by (auto simp: component_end_def)
    with dir dirp mono s' show ?thesis by metis
  next
    case (Cons c r)
    have c: "is_sep c" using Cons by (metis dropWhile_eq_Cons_conv)
    have len: "length rest = length ?w + Suc (length r)" by (metis Cons length_Cons length_append rest)
    have pc: "?p ! (length acc + length ?w) = c"
      by (metis (no_types, lifting) Cons append.assoc length_append nth_append_length rest)
    have skip: "i = length acc + length ?w \<or> Suc (length acc + length ?w) < i"
      if "length acc < i" "component_end ?p i" for i
      using component_end_first [OF that(2,1)] that(2) c pc
      by (metis Suc_leI component_end_def diff_Suc_1 le_neq_implies_less)
    show ?thesis
    proof (cases "r = []")
      case True
      then have s': "s' = s1" using less.prems unfolding unf Cons by (simp only: list.case prod.inject if_True simp_thms)
      have "i = length acc + length ?w" if "length acc < i" "component_end ?p i" for i
        using skip [OF that] that(2) len True by (auto simp: component_end_def)
      with dir dirp mono s' show ?thesis by metis
    next
      case False
      have step: "mkdir_loop sys_mkdir (?dir @ [c]) r ?errno s1 = (True, errno', s')"
        using less.prems False unfolding unf Cons by (simp only: list.case if_False)
      have p: "(?dir @ [c]) @ r = ?p" by (metis Cons append.assoc append_Cons append_Nil rest)
      have "length r < length rest" using len by simp
      from less.hyps [OF this step, unfolded p]
      have ih: "\<And>q. ex q s1 \<Longrightarrow> ex q s'"
        "\<And>i. length (?dir @ [c]) < i \<Longrightarrow> component_end ?p i \<Longrightarrow> ex (take i ?p) s'" by blast+
      have "ex (take i ?p) s'" if "length acc < i" "component_end ?p i" for i
        using skip [OF that] dir dirp ih that(2) by (metis Suc_eq_plus1 length_append length_Cons list.size(3) add.assoc One_nat_def)
      with ih mono show ?thesis by blast
    qed
  qed
qed

lemma guard_cases:
  assumes "guard ok err call next errno s = Inr r"
  obtains b errno' s' where "call errno s = Inr (b, errno', s')" "ok b errno'" "next errno' s' = Inr r"
  | s' where "r = (err, None, s')"
  using assms that by (auto simp: guard_def split: sum.splits prod.splits if_splits)

text \<open>A value of exactly 256 characters for the pid file runs over the array of that size.\<close>

lemma initConfig_overflows:
  assumes "fopen path = Some inp" "find_field ''pidfile'' inp = Some v" "length v = 256"
  shows "initConfig fopen path c = Inl BufferOverflow"
  using assms by (simp add: initConfig_def QConfigReader_init_def getFieldString_def)

section \<open>Properties\<close>

text \<open>
  \<open>QDir::mkdir\<close> returns true only when every component of the path exists afterwards, on any file
  system whose \<open>mkdir\<close> behaves as POSIX says; names that existed before still exist.
\<close>

lemma mkdir_creates:
  assumes "posix_mkdir sys_mkdir ex" "QDir_mkdir sys_mkdir path errno s = Inr (True, errno', s')"
  shows "(\<forall>i. component_end (cstr path) i \<longrightarrow> ex (take i (cstr path)) s') \<and> (\<forall>q. ex q s \<longrightarrow> ex q s')"
proof -
  have "QDir_new path = Inr (cstr path)" using assms(2) by (auto simp: QDir_mkdir_def QDir_new_def split: if_splits)
  then obtain acc rest where l: "mkdir_loop sys_mkdir acc rest errno s = (True, errno', s')" "cstr path = acc @ rest"
    and acc: "acc = [] \<or> (\<exists>c. acc = [c] \<and> is_sep c)"
    using assms(2) that by (auto simp: QDir_mkdir_def simp del: mkdir_loop.simps split: list.splits if_splits)
  have "length acc < i" if "component_end (cstr path) i" for i
    using that acc l(2) by (cases i) (auto simp: component_end_def nth_Cons' split: if_splits)
  with mkdir_loop_creates [OF assms(1) l(1)] show ?thesis unfolding l(2) by blast
qed

text \<open>A file system that is a set of names.\<close>

definition demo_mkdir :: "string \<Rightarrow> string list \<Rightarrow> int \<times> string list" where
  "demo_mkdir p s = (if p \<in> set s then (EEXIST, s) else (0, p # s))"

text \<open>
  \<open>ns__launch\<close> runs at most one command, only after all six directory steps succeeded and for one
  of the two known versions.  The status is 0 exactly when that command was run and succeeded;
  otherwise it is the code of the step that failed.
\<close>

lemma launch_result:
  assumes "ns__launch sys_mkdir sys_chmod sys_system ws tp port version recgdir errno s = Inr (status, cmd, s')"
  shows "case cmd of
      None \<Rightarrow> status \<in> {- 6..- 1} \<or> (status = - 9 \<and> cstr version \<noteq> master_version \<and> cstr version \<noteq> worker_version)
    | Some c \<Rightarrow>
        if cstr version = master_version
        then c = launch_cmd ''master'' port \<and> status = (if sys_system c = 0 then 0 else - 7)
        else cstr version = worker_version \<and> c = launch_cmd ''worker'' port \<and> status = (if sys_system c = 0 then 0 else - 8)"
  using assms unfolding ns__launch_def Let_def
  by (elim guard_cases) (auto split: if_splits)

end
