(* ===== verification/StringFind.thy ===== *)
theory StringFind
  imports CLib
begin

text \<open>
  Searching in strings, \<^verbatim>\<open>src/common/qfunc.h\<close>: the character and substring searches, the search of
  Knuth, Morris and Pratt with its table, and the functions that split and replace with them.
  A position is an \<open>int\<close>, \<open>- 1\<close> for none.
\<close>

section \<open>Characters\<close>

text \<open>The loop of \<open>q_find_first_of\<close>, \<open>q_strchr\<close>: from \<open>n\<close> on; of \<open>q_find_last_of\<close>: from \<open>n\<close> down.\<close>

function scan_char :: "string \<Rightarrow> int \<Rightarrow> char \<Rightarrow> int \<Rightarrow> int" where
  "scan_char src srclen c n = (if n < srclen \<and> aget src n \<noteq> c then scan_char src srclen c (n + 1) else n)"
  by pat_completeness auto
termination by (relation "measure (\<lambda>(_, srclen, _, n). nat (srclen - n))") auto

definition q_find_first_of :: "string \<Rightarrow> int \<Rightarrow> char \<Rightarrow> int" where
  "q_find_first_of src srclen c = (let n = scan_char src srclen c 0 in if n \<noteq> srclen then n else - 1)"

function q_find_last_loop :: "string \<Rightarrow> char \<Rightarrow> int \<Rightarrow> int" where
  "q_find_last_loop src c n = (if 0 \<le> n \<and> aget src n \<noteq> c then q_find_last_loop src c (n - 1) else n)"
  by pat_completeness auto
termination by (relation "measure (\<lambda>(_, _, n). nat (n + 1))") auto

definition q_find_last_of :: "string \<Rightarrow> int \<Rightarrow> char \<Rightarrow> int" where
  "q_find_last_of src srclen c = q_find_last_loop src c (srclen - 1)"

declare scan_char.simps [simp del] q_find_last_loop.simps [simp del]

section \<open>Substrings\<close>

text \<open>The inner loop of \<open>q_find\<close> compares from \<open>j\<close> on; the outer one tries every start from \<open>i\<close> on.\<close>

function match_loop :: "string \<Rightarrow> string \<Rightarrow> int \<Rightarrow> int \<Rightarrow> int \<Rightarrow> int" where
  "match_loop src pat patlen i j =
     (if j < patlen \<and> aget src (i + j) = aget pat j then match_loop src pat patlen i (j + 1) else j)"
  by pat_completeness auto
termination by (relation "measure (\<lambda>(_, _, patlen, _, j). nat (patlen - j))") auto

declare match_loop.simps [simp del]

function find_loop :: "string \<Rightarrow> int \<Rightarrow> string \<Rightarrow> int \<Rightarrow> int \<Rightarrow> int" where
  "find_loop src srclen pat patlen i =
     (if i \<le> srclen - patlen
      then if match_loop src pat patlen i 0 = patlen then i else find_loop src srclen pat patlen (i + 1)
      else - 1)"
  by pat_completeness auto
termination by (relation "measure (\<lambda>(_, srclen, _, patlen, i). nat (srclen - patlen - i + 1))") auto

declare find_loop.simps [simp del]

definition q_find :: "string \<Rightarrow> int \<Rightarrow> string \<Rightarrow> int \<Rightarrow> int" where
  "q_find src srclen pat patlen = find_loop src srclen pat patlen 0"

text \<open>\<open>q_strstr\<close> compares whole blocks of memory where the first characters agree.\<close>

definition memcmp_eq :: "string \<Rightarrow> int \<Rightarrow> string \<Rightarrow> int \<Rightarrow> bool" where
  "memcmp_eq src p pat patlen \<longleftrightarrow> list_all (\<lambda>q. aget src (p + int q) = aget pat (int q)) [0..<nat patlen]"

function strstr_loop :: "string \<Rightarrow> int \<Rightarrow> string \<Rightarrow> int \<Rightarrow> int \<Rightarrow> int" where
  "strstr_loop src srclen pat patlen p =
     (if p \<le> srclen - patlen
      then if aget src p = aget pat 0 \<and> memcmp_eq src p pat patlen then p else strstr_loop src srclen pat patlen (p + 1)
      else - 1)"
  by pat_completeness auto
termination by (relation "measure (\<lambda>(_, srclen, _, patlen, p). nat (srclen - patlen - p + 1))") auto

declare strstr_loop.simps [simp del]

definition q_strstr :: "string \<Rightarrow> int \<Rightarrow> string \<Rightarrow> int \<Rightarrow> int" where
  "q_strstr src srclen pat patlen =
     (if srclen \<le> 0 \<or> patlen \<le> 0 then - 1 else strstr_loop src srclen pat patlen 0)"

section \<open>Knuth, Morris and Pratt\<close>

partial_function (option) next_loop :: "string \<Rightarrow> int \<Rightarrow> int \<Rightarrow> int \<Rightarrow> int list \<Rightarrow> int list option" where
  "next_loop src srclen i j next =
     (if i < srclen then
        if j = - 1 \<or> aget src i = aget src j then next_loop src srclen (i + 1) (j + 1) (aset next (i + 1) (j + 1))
        else next_loop src srclen i (aget next j) next
      else Some next)"

definition q_next_KMP :: "string \<Rightarrow> int \<Rightarrow> int list \<Rightarrow> int list option" where
  "q_next_KMP src srclen next = next_loop src srclen 0 (- 1) (aset next 0 (- 1))"

partial_function (option) kmp_loop :: "string \<Rightarrow> int \<Rightarrow> string \<Rightarrow> int \<Rightarrow> int list \<Rightarrow> int \<Rightarrow> int \<Rightarrow> (int \<times> int) option" where
  "kmp_loop src srclen pat patlen next posP posS =
     (if posP < patlen \<and> posS < srclen then
        if posP = - 1 \<or> aget pat posP = aget src posS then kmp_loop src srclen pat patlen next (posP + 1) (posS + 1)
        else kmp_loop src srclen pat patlen next (aget next posP) posS
      else Some (posP, posS))"

definition q_find_KMP :: "string \<Rightarrow> int \<Rightarrow> string \<Rightarrow> int \<Rightarrow> int list \<Rightarrow> int \<Rightarrow> int option" where
  "q_find_KMP src srclen pat patlen next k =
     map_option (\<lambda>(posP, posS). if posP < patlen then - 1 else posS - patlen) (kmp_loop src srclen pat patlen next 0 k)"

section \<open>Splitting and replacing\<close>

text \<open>\<open>q_split\<close> with an array of \<open>pos_size\<close> positions: the result and the pairs it has written.\<close>

function split_loop :: "string \<Rightarrow> string \<Rightarrow> int \<Rightarrow> int \<Rightarrow> int \<Rightarrow> (int \<times> int) list \<Rightarrow> int \<times> (int \<times> int) list" where
  "split_loop src sep p1 n pos_size pos =
     (let p2 = q_strstr (drop (nat p1) src) (alen src - p1) sep (alen sep) in
      if pos_size < (n + 1) * 2 then (- 1, pos)
      else if p2 \<noteq> - 1 then split_loop src sep (p1 + p2 + alen sep) (n + 1) pos_size (pos @ [(p1, p1 + p2)])
      else (n + 1, pos @ [(p1, alen src)]))"
  by pat_completeness auto
termination by (relation "measure (\<lambda>(_, _, _, n, pos_size, _). nat (pos_size - 2 * n))") auto

declare split_loop.simps [simp del]

definition q_split :: "string \<Rightarrow> string \<Rightarrow> int \<Rightarrow> int \<times> (int \<times> int) list" where
  "q_split src sep pos_size = (if src = [] \<or> sep = [] then (0, []) else split_loop src sep 0 0 pos_size [])"

lemma strstr_loop_range:
  "strstr_loop src srclen pat patlen p \<noteq> - 1 \<Longrightarrow>
   p \<le> strstr_loop src srclen pat patlen p \<and> strstr_loop src srclen pat patlen p \<le> srclen - patlen"
  by (induction src srclen pat patlen p rule: strstr_loop.induct) (subst (asm) (2) strstr_loop.simps, subst strstr_loop.simps, subst strstr_loop.simps, auto split: if_splits)

lemma q_strstr_range:
  "q_strstr src srclen pat patlen \<noteq> - 1 \<Longrightarrow> 0 < patlen \<and> 0 < srclen
     \<and> 0 \<le> q_strstr src srclen pat patlen \<and> q_strstr src srclen pat patlen \<le> srclen - patlen"
  using strstr_loop_range [of src srclen pat patlen 0] by (simp add: q_strstr_def split: if_splits)

text \<open>\<open>q_strrep\<close>: \<open>p1\<close> is the rest of the source, \<open>dest\<close> what has been written.\<close>

function strrep_loop :: "string \<Rightarrow> string \<Rightarrow> string \<Rightarrow> int \<Rightarrow> string \<Rightarrow> int \<times> string" where
  "strrep_loop p1 from to max_size dest =
     (let p = q_strstr p1 (alen p1) from (alen from) in
      if p = - 1 then
        if alen dest + alen p1 > max_size then (- 2, dest) else (alen dest + alen p1, dest @ p1)
      else if alen dest + p + alen to > max_size then (- 2, dest)
      else strrep_loop (drop (nat (p + alen from)) p1) from to max_size (dest @ take (nat p) p1 @ to))"
  by pat_completeness auto
termination
proof (relation "measure (\<lambda>(p1, _). length p1)", goal_cases)
  case (2 p1 "from" to max_size dest p)
  then have "0 < alen from \<and> 0 < alen p1 \<and> 0 \<le> p" using q_strstr_range [of p1 "alen p1" "from" "alen from"] by simp
  then have "0 < nat (p + alen from)" "p1 \<noteq> []" by (linarith, auto simp: alen_def)
  then show ?case by simp
qed simp

declare strrep_loop.simps [simp del]

definition q_strrep :: "string \<Rightarrow> string \<Rightarrow> string \<Rightarrow> int \<Rightarrow> int \<times> string" where
  "q_strrep src from to max_size =
     (if src = [] \<or> from = [] \<or> to = [] \<or> max_size \<le> 0 then (- 1, []) else strrep_loop src from to max_size [])"

section \<open>What a search returns\<close>

definition occurs :: "string \<Rightarrow> string \<Rightarrow> int \<Rightarrow> bool" where
  "occurs src pat s \<longleftrightarrow> 0 \<le> s \<and> s + alen pat \<le> alen src
     \<and> (\<forall>q. 0 \<le> q \<and> q < alen pat \<longrightarrow> aget src (s + q) = aget pat q)"

definition first_from :: "string \<Rightarrow> string \<Rightarrow> int \<Rightarrow> int \<Rightarrow> bool" where
  "first_from src pat k r \<longleftrightarrow>
     (if r = - 1 then \<forall>s\<ge>k. \<not> occurs src pat s
      else k \<le> r \<and> occurs src pat r \<and> (\<forall>s. k \<le> s \<and> s < r \<longrightarrow> \<not> occurs src pat s))"

lemma occurs_take: "0 \<le> s \<Longrightarrow> occurs src pat s \<longleftrightarrow> take (length pat) (drop (nat s) src) = pat \<and> s \<le> alen src"
proof
  assume s: "0 \<le> s" and o: "occurs src pat s"
  show "take (length pat) (drop (nat s) src) = pat \<and> s \<le> alen src"
  proof (intro conjI nth_equalityI)
    show "length (take (length pat) (drop (nat s) src)) = length pat" using o by (auto simp: occurs_def alen_def)
    fix i assume "i < length (take (length pat) (drop (nat s) src))"
    then have i: "i < length pat" "nat s + i < length src" by auto
    with o have "aget src (s + int i) = aget pat (int i)" by (simp add: occurs_def alen_def)
    with i s show "take (length pat) (drop (nat s) src) ! i = pat ! i" by (simp add: aget_def nat_add_distrib)
  next
    show "s \<le> alen src" using o alen_nonneg [of pat] unfolding occurs_def by linarith
  qed
next
  assume s: "0 \<le> s" and t: "take (length pat) (drop (nat s) src) = pat \<and> s \<le> alen src"
  have "length pat = min (length pat) (length src - nat s)" using t by (metis length_drop length_take min.commute)
  then have len: "s + alen pat \<le> alen src" using s t unfolding alen_def by linarith
  have "aget src (s + q) = aget pat q" if "0 \<le> q" "q < alen pat" for q
  proof -
    have "aget pat q = take (length pat) (drop (nat s) src) ! nat q" using t by (simp add: aget_def)
    also have "\<dots> = src ! (nat s + nat q)" using that s t by (subst nth_take) (auto simp: alen_def)
    finally show ?thesis using that s by (simp add: aget_def nat_add_distrib)
  qed
  with s len show "occurs src pat s" by (simp add: occurs_def)
qed

lemma first_from_unique: "first_from src pat k r \<Longrightarrow> first_from src pat k r' \<Longrightarrow> 0 \<le> k \<Longrightarrow> r = r'"
  unfolding first_from_def by (smt (verit))

lemma match_loop_spec:
  assumes "0 \<le> j" "j \<le> patlen"
  shows "match_loop src pat patlen i j = patlen \<longleftrightarrow> (\<forall>q. j \<le> q \<and> q < patlen \<longrightarrow> aget src (i + q) = aget pat q)"
  using assms
proof (induction "nat (patlen - j)" arbitrary: j rule: less_induct)
  case less
  show ?case
  proof (cases "j < patlen \<and> aget src (i + j) = aget pat j")
    case True
    then have "match_loop src pat patlen i j = match_loop src pat patlen i (j + 1)" by (subst match_loop.simps) simp
    moreover have "(\<forall>q. j \<le> q \<and> q < patlen \<longrightarrow> aget src (i + q) = aget pat q)
        \<longleftrightarrow> (\<forall>q. j + 1 \<le> q \<and> q < patlen \<longrightarrow> aget src (i + q) = aget pat q)"
      using True by (metis add1_zle_eq order_le_less)
    ultimately show ?thesis using less.hyps [of "j + 1"] less.prems True by simp
  next
    case False
    then have "match_loop src pat patlen i j = j" by (subst match_loop.simps) auto
    with False less.prems show ?thesis by auto
  qed
qed

text \<open>A search that tries every start in order, with any correct comparison.\<close>

lemma first_from_step:
  "\<not> occurs src pat i \<Longrightarrow> first_from src pat (i + 1) r \<Longrightarrow> first_from src pat i r"
  unfolding first_from_def by (smt (verit))

lemma first_from_here: "occurs src pat i \<Longrightarrow> first_from src pat i i"
  by (auto simp: first_from_def occurs_def)

lemma first_from_end: "alen src - alen pat < i \<Longrightarrow> first_from src pat i (- 1)"
  by (auto simp: first_from_def occurs_def)

lemma find_loop_first: "0 \<le> i \<Longrightarrow> first_from src pat i (find_loop src (alen src) pat (alen pat) i)"
proof (induction "nat (alen src - alen pat - i + 1)" arbitrary: i rule: less_induct)
  case less
  have m: "match_loop src pat (alen pat) i 0 = alen pat \<longleftrightarrow> occurs src pat i" if "i \<le> alen src - alen pat"
    using match_loop_spec [of 0 "alen pat" src pat i] less.prems that by (simp add: occurs_def)
  show ?case
  proof (cases "i \<le> alen src - alen pat")
    case True
    have "first_from src pat (i + 1) (find_loop src (alen src) pat (alen pat) (i + 1))"
      using less.hyps [of "i + 1"] less.prems True by simp
    then show ?thesis using True m by (subst find_loop.simps) (auto intro: first_from_here first_from_step)
  next
    case False
    then show ?thesis by (subst find_loop.simps) (simp add: first_from_end)
  qed
qed

lemma q_find_first: "first_from src pat 0 (q_find src (alen src) pat (alen pat))"
  by (simp add: q_find_def find_loop_first)

lemma memcmp_eq_iff: "memcmp_eq src p pat (alen pat) \<longleftrightarrow> (\<forall>q. 0 \<le> q \<and> q < alen pat \<longrightarrow> aget src (p + q) = aget pat q)"
proof
  assume m: "memcmp_eq src p pat (alen pat)"
  show "\<forall>q. 0 \<le> q \<and> q < alen pat \<longrightarrow> aget src (p + q) = aget pat q"
  proof (intro allI impI)
    fix q assume "0 \<le> q \<and> q < alen pat"
    then have "nat q \<in> set [0..<nat (alen pat)]" "int (nat q) = q" by auto
    with m show "aget src (p + q) = aget pat q" unfolding memcmp_eq_def list_all_iff by metis
  qed
qed (auto simp: memcmp_eq_def list_all_iff)

lemma strstr_loop_first:
  "pat \<noteq> [] \<Longrightarrow> 0 \<le> i \<Longrightarrow> first_from src pat i (strstr_loop src (alen src) pat (alen pat) i)"
proof (induction "nat (alen src - alen pat - i + 1)" arbitrary: i rule: less_induct)
  case less
  have pos: "0 < alen pat" using less.prems(1) by (simp add: alen_def)
  have "aget src i = aget pat 0" if "memcmp_eq src i pat (alen pat)"
    using that pos unfolding memcmp_eq_iff by (metis add.right_neutral order_refl)
  then have m: "aget src i = aget pat 0 \<and> memcmp_eq src i pat (alen pat) \<longleftrightarrow> occurs src pat i" if "i \<le> alen src - alen pat"
    using less.prems that by (auto simp: memcmp_eq_iff occurs_def)
  show ?case
  proof (cases "i \<le> alen src - alen pat")
    case True
    have "first_from src pat (i + 1) (strstr_loop src (alen src) pat (alen pat) (i + 1))"
      using less.hyps [of "i + 1"] less.prems True by simp
    then show ?thesis using True m by (subst strstr_loop.simps) (auto intro: first_from_here first_from_step)
  next
    case False
    then show ?thesis by (subst strstr_loop.simps) (simp add: first_from_end)
  qed
qed

lemma q_strstr_first: "pat \<noteq> [] \<Longrightarrow> first_from src pat 0 (q_strstr src (alen src) pat (alen pat))"
  using strstr_loop_first [of pat 0 src] first_from_end [of src pat 0]
  by (auto simp: q_strstr_def alen_def)

section \<open>The table of Knuth, Morris and Pratt\<close>

text \<open>The first \<open>k\<close> of the first \<open>i\<close> characters are also the last of these.\<close>

definition border :: "(int \<Rightarrow> 'a) \<Rightarrow> int \<Rightarrow> int \<Rightarrow> bool" where
  "border p i k \<longleftrightarrow> 0 \<le> k \<and> k < i \<and> (\<forall>q. 0 \<le> q \<and> q < k \<longrightarrow> p (i - k + q) = p q)"

text \<open>What the table holds: the longest border of each prefix, and \<open>- 1\<close> for the empty one.\<close>

definition table_entry :: "(int \<Rightarrow> 'a) \<Rightarrow> int \<Rightarrow> int \<Rightarrow> bool" where
  "table_entry p i k \<longleftrightarrow> (if i = 0 then k = - 1 else border p i k \<and> (\<forall>k'. border p i k' \<longrightarrow> k' \<le> k))"

lemma border_zero: "0 < i \<Longrightarrow> border p i 0"
  unfolding border_def by linarith

lemma border_extend: "border p i j \<Longrightarrow> p i = p j \<Longrightarrow> border p (i + 1) (j + 1)"
proof -
  assume b: "border p i j" "p i = p j"
  have "p (i + 1 - (j + 1) + q) = p q" if "0 \<le> q" "q < j + 1" for q
    using b that by (cases "q = j") (auto simp: border_def)
  with b show ?thesis by (simp add: border_def)
qed

lemma border_shrink: "border p (i + 1) k \<Longrightarrow> 0 < k \<Longrightarrow> border p i (k - 1) \<and> p i = p (k - 1)"
proof -
  assume b: "border p (i + 1) k" "0 < k"
  have "p (i + 1 - k + (k - 1)) = p (k - 1)" using b unfolding border_def by (smt (verit))
  moreover have "p (i - (k - 1) + q) = p q" if "0 \<le> q" "q < k - 1" for q
  proof -
    have "i - (k - 1) + q = i + 1 - k + q" by simp
    with b that show ?thesis unfolding border_def by (smt (verit))
  qed
  ultimately show ?thesis using b by (simp add: border_def)
qed

lemma border_trans: "border p i j \<Longrightarrow> border p j k \<Longrightarrow> border p i k"
proof -
  assume b: "border p i j" "border p j k"
  have "p (i - k + q) = p q" if "0 \<le> q" "q < k" for q
  proof -
    have "p (i - j + (j - k + q)) = p (j - k + q)" using b that unfolding border_def by (smt (verit))
    moreover have "p (j - k + q) = p q" using b that by (simp add: border_def)
    ultimately show ?thesis by (simp add: algebra_simps)
  qed
  with b show ?thesis by (simp add: border_def)
qed

lemma border_inner: "border p i j \<Longrightarrow> border p i k \<Longrightarrow> k < j \<Longrightarrow> border p j k"
proof -
  assume b: "border p i j" "border p i k" "k < j"
  have "p (j - k + q) = p q" if "0 \<le> q" "q < k" for q
  proof -
    have "p (i - j + (j - k + q)) = p (j - k + q)" using b that unfolding border_def by (smt (verit))
    moreover have "p (i - k + q) = p q" using b that by (simp add: border_def)
    ultimately show ?thesis by (simp add: algebra_simps)
  qed
  with b show ?thesis by (simp add: border_def)
qed

definition next_inv :: "string \<Rightarrow> int \<Rightarrow> int \<Rightarrow> int \<Rightarrow> int list \<Rightarrow> bool" where
  "next_inv src n i j next \<longleftrightarrow> n < alen next \<and> 0 \<le> i \<and> i \<le> n \<and> - 1 \<le> j \<and> (j = - 1 \<or> border (aget src) i j)
     \<and> (\<forall>m. 0 \<le> m \<and> m \<le> i \<longrightarrow> table_entry (aget src) m (aget next m))
     \<and> (\<forall>k. border (aget src) (i + 1) k \<longrightarrow> k \<le> j + 1)"

lemma next_inv_match:
  assumes "next_inv src n i j next" "i < n" "j = - 1 \<or> aget src i = aget src j"
  shows "next_inv src n (i + 1) (j + 1) (aset next (i + 1) (j + 1))"
proof -
  have b: "border (aget src) (i + 1) (j + 1)"
    using assms border_extend [of "aget src" i j] border_zero [of "i + 1" "aget src"] by (auto simp: next_inv_def)
  then have e: "table_entry (aget src) (i + 1) (j + 1)" using assms(1) by (auto simp: table_entry_def next_inv_def)
  have "k \<le> j + 1 + 1" if k: "border (aget src) (i + 1 + 1) k" for k
  proof (cases "0 < k")
    case True
    with border_shrink [OF k] assms(1) have "k - 1 \<le> j + 1" by (simp add: next_inv_def)
    then show ?thesis by simp
  next
    case False
    with assms(1) show ?thesis by (simp add: next_inv_def)
  qed
  moreover have "table_entry (aget src) m (aget (aset next (i + 1) (j + 1)) m)" if "0 \<le> m" "m \<le> i + 1" for m
    using e that assms by (cases "m = i + 1") (auto simp: next_inv_def aget_aset in_range_def)
  ultimately show ?thesis using b assms by (auto simp: next_inv_def)
qed

lemma next_inv_mismatch:
  assumes "next_inv src n i j next" "j \<noteq> - 1" "aget src i \<noteq> aget src j"
  shows "next_inv src n i (aget next j) next \<and> aget next j < j"
proof -
  let ?p = "aget src" and ?j = "aget next j"
  have b: "border ?p i j" using assms by (auto simp: next_inv_def)
  then have j: "0 \<le> j" "j < i" by (auto simp: border_def)
  with assms(1) have e: "table_entry ?p j ?j" by (auto simp: next_inv_def)
  then have lt: "- 1 \<le> ?j" "?j < j" using j by (auto simp: table_entry_def border_def split: if_splits)
  have "?j = - 1 \<or> border ?p i ?j"
    using e border_trans [OF b] by (auto simp: table_entry_def split: if_splits)
  moreover have "k \<le> ?j + 1" if k: "border ?p (i + 1) k" for k
  proof (cases "0 < k")
    case True
    with k border_shrink [of ?p i k] have s: "border ?p i (k - 1)" "?p i = ?p (k - 1)" by auto
    have "k \<le> j + 1" using assms(1) k by (simp add: next_inv_def)
    moreover have "k - 1 \<noteq> j" using s(2) assms(3) by auto
    ultimately have "border ?p j (k - 1)" using border_inner [OF b s(1)] by simp
    then have "k - 1 \<le> ?j" using e by (auto simp: table_entry_def border_def split: if_splits)
    then show ?thesis by simp
  next
    case False
    then show ?thesis using lt(1) by simp
  qed
  ultimately show ?thesis using assms(1) lt by (auto simp: next_inv_def)
qed

lemma next_loop_table:
  "next_inv src n i j next \<Longrightarrow> \<exists>next'. next_loop src n i j next = Some next' \<and> alen next' = alen next
     \<and> (\<forall>m. 0 \<le> m \<and> m \<le> n \<longrightarrow> table_entry (aget src) m (aget next' m))"
proof (induction "nat (2 * (n - i) + j + 1)" arbitrary: i j "next" rule: less_induct)
  case less
  then have r: "i \<le> n" "- 1 \<le> j" by (auto simp: next_inv_def)
  show ?case
  proof (cases "i < n")
    case False
    then show ?thesis using less.prems by (subst next_loop.simps) (auto simp: next_inv_def)
  next
    case i: True
    show ?thesis
    proof (cases "j = - 1 \<or> aget src i = aget src j")
      case True
      have "\<exists>next'. next_loop src n (i + 1) (j + 1) (aset next (i + 1) (j + 1)) = Some next' \<and> alen next' = alen next
          \<and> (\<forall>m. 0 \<le> m \<and> m \<le> n \<longrightarrow> table_entry (aget src) m (aget next' m))"
        using less.hyps [OF _ next_inv_match [OF less.prems i True]] r i by simp
      then show ?thesis using i True by (subst next_loop.simps) simp
    next
      case False
      then have inv: "next_inv src n i (aget next j) next" "aget next j < j"
        using next_inv_mismatch [OF less.prems] by auto
      have "\<exists>next'. next_loop src n i (aget next j) next = Some next' \<and> alen next' = alen next
          \<and> (\<forall>m. 0 \<le> m \<and> m \<le> n \<longrightarrow> table_entry (aget src) m (aget next' m))"
        using less.hyps [OF _ inv(1)] inv(2) r i by simp
      then show ?thesis using i False by (subst next_loop.simps) simp
    qed
  qed
qed

lemma q_next_KMP_table:
  assumes "alen pat < alen next"
  shows "\<exists>next'. q_next_KMP pat (alen pat) next = Some next' \<and> alen next' = alen next
    \<and> (\<forall>m. 0 \<le> m \<and> m \<le> alen pat \<longrightarrow> table_entry (aget pat) m (aget next' m))"
proof -
  have "0 < alen next" using assms alen_nonneg [of pat] by linarith
  then have "next_inv pat (alen pat) 0 (- 1) (aset next 0 (- 1))"
    using assms by (auto simp: next_inv_def table_entry_def border_def aget_aset in_range_def)
  from next_loop_table [OF this] show ?thesis by (simp add: q_next_KMP_def)
qed

section \<open>The search of Knuth, Morris and Pratt\<close>

definition kmp_inv :: "string \<Rightarrow> string \<Rightarrow> int \<Rightarrow> int \<Rightarrow> int \<Rightarrow> bool" where
  "kmp_inv src pat k posP posS \<longleftrightarrow> - 1 \<le> posP \<and> posP \<le> alen pat \<and> 0 \<le> k \<and> k \<le> posS - posP \<and> posS \<le> alen src
     \<and> (\<forall>q. 0 \<le> q \<and> q < posP \<longrightarrow> aget src (posS - posP + q) = aget pat q)
     \<and> (\<forall>s. k \<le> s \<and> s < posS - posP \<longrightarrow> \<not> occurs src pat s)"

lemma kmp_inv_match:
  assumes "kmp_inv src pat k posP posS" "posP < alen pat" "posS < alen src" "posP = - 1 \<or> aget pat posP = aget src posS"
  shows "kmp_inv src pat k (posP + 1) (posS + 1)"
proof -
  have "aget src (posS - posP + q) = aget pat q" if "0 \<le> q" "q < posP + 1" for q
    using assms that by (cases "q = posP") (auto simp: kmp_inv_def)
  then show ?thesis using assms by (auto simp: kmp_inv_def)
qed

lemma kmp_inv_mismatch:
  assumes inv: "kmp_inv src pat k posP posS" and e: "table_entry (aget pat) posP posP'"
    and p: "posP < alen pat" "posP \<noteq> - 1" "aget pat posP \<noteq> aget src posS"
  shows "kmp_inv src pat k posP' posS \<and> posP' < posP"
proof -
  have pos: "0 \<le> posP" using inv p(2) by (simp add: kmp_inv_def)
  then have lt: "- 1 \<le> posP'" "posP' < posP" using e by (auto simp: table_entry_def border_def split: if_splits)
  have prefix: "aget src (posS - posP' + q) = aget pat q" if "0 \<le> q" "q < posP'" for q
  proof -
    have b: "border (aget pat) posP posP'" using e that by (auto simp: table_entry_def border_def split: if_splits)
    have "aget src (posS - posP + (posP - posP' + q)) = aget pat (posP - posP' + q)"
      using inv that lt unfolding kmp_inv_def by (smt (verit))
    moreover have "aget pat (posP - posP' + q) = aget pat q" using b that by (simp add: border_def)
    ultimately show ?thesis by (simp add: algebra_simps)
  qed
  have "\<not> occurs src pat s" if s: "k \<le> s" "s < posS - posP'" for s
  proof
    assume occ: "occurs src pat s"
    have at: "aget src (s + q) = aget pat q" if "0 \<le> q" "q < alen pat" for q using occ that by (simp add: occurs_def)
    have ge: "posS - posP \<le> s" using inv occ s by (force simp: kmp_inv_def)
    have "s \<noteq> posS - posP" using at [of posP] p pos by auto
    with ge have s': "posS - posP < s" by simp
    show False
    proof (cases "s \<le> posS")
      case True
      let ?k = "posS - s"
      have "aget pat (posP - ?k + q) = aget pat q" if "0 \<le> q" "q < ?k" for q
      proof -
        have "aget src (posS - posP + (posP - ?k + q)) = aget pat (posP - ?k + q)"
          using inv that s' unfolding kmp_inv_def by (smt (verit))
        moreover have "aget src (s + q) = aget pat q" using at that s' p(1) by simp
        ultimately show ?thesis by (simp add: algebra_simps)
      qed
      then have "border (aget pat) posP ?k" using True s' by (simp add: border_def)
      then have "?k \<le> posP'" using e by (auto simp: table_entry_def border_def split: if_splits)
      with s(2) show False by simp
    next
      case False
      with s(2) lt(1) show False by simp
    qed
  qed
  with inv lt prefix show ?thesis by (auto simp: kmp_inv_def)
qed

lemma kmp_loop_finds:
  assumes tab: "\<forall>m. 0 \<le> m \<and> m \<le> alen pat \<longrightarrow> table_entry (aget pat) m (aget next m)"
  shows "kmp_inv src pat k posP posS \<Longrightarrow>
    \<exists>posP' posS'. kmp_loop src (alen src) pat (alen pat) next posP posS = Some (posP', posS') \<and> kmp_inv src pat k posP' posS'
      \<and> \<not> (posP' < alen pat \<and> posS' < alen src)"
proof (induction "nat (2 * (alen src - posS) + posP + 1)" arbitrary: posP posS rule: less_induct)
  case less
  let ?go = "kmp_loop src (alen src) pat (alen pat) next"
  have r: "- 1 \<le> posP" "posS \<le> alen src" using less.prems by (auto simp: kmp_inv_def)
  show ?case
  proof (cases "posP < alen pat \<and> posS < alen src")
    case False
    then have "?go posP posS = Some (posP, posS)" by (subst kmp_loop.simps) auto
    with less.prems False show ?thesis by blast
  next
    case go: True
    show ?thesis
    proof (cases "posP = - 1 \<or> aget pat posP = aget src posS")
      case True
      then have "?go posP posS = ?go (posP + 1) (posS + 1)" using go by (subst kmp_loop.simps) auto
      then show ?thesis using less.hyps [OF _ kmp_inv_match [OF less.prems _ _ True]] go r by simp
    next
      case False
      then have "0 \<le> posP" using r by simp
      then have "table_entry (aget pat) posP (aget next posP)" using tab go by simp
      then have "kmp_inv src pat k (aget next posP) posS" "aget next posP < posP"
        using kmp_inv_mismatch [OF less.prems] False go by auto
      moreover have "?go posP posS = ?go (aget next posP) posS" using go False by (subst kmp_loop.simps) auto
      ultimately show ?thesis using less.hyps [of posS "aget next posP"] go r by simp
    qed
  qed
qed

lemma q_find_KMP_first:
  assumes "\<forall>m. 0 \<le> m \<and> m \<le> alen pat \<longrightarrow> table_entry (aget pat) m (aget next m)" "0 \<le> k" "k \<le> alen src"
  shows "\<exists>r. q_find_KMP src (alen src) pat (alen pat) next k = Some r \<and> first_from src pat k r"
proof -
  have "kmp_inv src pat k 0 k" using assms(2,3) by (auto simp: kmp_inv_def)
  from kmp_loop_finds [OF assms(1) this] obtain posP posS where
    l: "kmp_loop src (alen src) pat (alen pat) next 0 k = Some (posP, posS)" "kmp_inv src pat k posP posS"
      "\<not> (posP < alen pat \<and> posS < alen src)" by blast
  show ?thesis
  proof (cases "posP < alen pat")
    case True
    then have "first_from src pat k (- 1)" using l(2,3) unfolding kmp_inv_def first_from_def occurs_def by (smt (verit))
    with True l(1) show ?thesis by (simp add: q_find_KMP_def)
  next
    case False
    then have "posP = alen pat" using l(2) by (simp add: kmp_inv_def)
    with l(2) have "first_from src pat k (posS - alen pat)" by (auto simp: kmp_inv_def first_from_def occurs_def)
    with False l(1) show ?thesis by (simp add: q_find_KMP_def)
  qed
qed

section \<open>Fields\<close>

text \<open>The fields between the separators of a text, read from the left, and putting them together again.\<close>

function split_on :: "string \<Rightarrow> string \<Rightarrow> string \<Rightarrow> string list" where
  "split_on sep acc [] = [rev acc]"
| "split_on sep acc (c # cs) =
     (if sep \<noteq> [] \<and> take (length sep) (c # cs) = sep then rev acc # split_on sep [] (drop (length sep) (c # cs))
      else split_on sep (c # acc) cs)"
  by pat_completeness auto
termination by (relation "measure (\<lambda>(_, _, s). length s)") auto

fun join :: "string \<Rightarrow> string list \<Rightarrow> string" where
  "join sep [] = []"
| "join sep [f] = f"
| "join sep (f # fs) = f @ sep @ join sep fs"

definition contains :: "string \<Rightarrow> string \<Rightarrow> bool" where
  "contains pat s \<longleftrightarrow> (\<exists>u v. s = u @ pat @ v)"

lemma split_on_not_Nil [simp]: "split_on sep acc s \<noteq> []"
  by (induction sep acc s rule: split_on.induct) auto

lemma join_Cons: "fs \<noteq> [] \<Longrightarrow> join sep (f # fs) = f @ sep @ join sep fs"
  by (cases fs) auto

lemma occurs_append: "occurs (u @ pat @ v) pat (alen u)"
  by (simp add: occurs_take alen_def)

lemma contains_iff: "contains pat s \<longleftrightarrow> (\<exists>i. occurs s pat i)"
proof
  assume "contains pat s"
  then show "\<exists>i. occurs s pat i" using occurs_append unfolding contains_def by metis
next
  assume "\<exists>i. occurs s pat i"
  then obtain i where "occurs s pat i" by blast
  then have "take (length pat) (drop (nat i) s) = pat" using occurs_take [of i s pat] by (auto simp: occurs_def)
  then have "s = take (nat i) s @ pat @ drop (length pat) (drop (nat i) s)" by (metis append_take_drop_id)
  then show "contains pat s" unfolding contains_def by blast
qed

lemma occurs_Cons: "0 \<le> s \<Longrightarrow> occurs (c # cs) pat (s + 1) \<longleftrightarrow> occurs cs pat s"
  by (auto simp: occurs_take alen_def nat_add_distrib)

lemma first_from_Cons:
  assumes "\<not> occurs (c # cs) pat 0" "first_from (c # cs) pat 0 r" "r \<noteq> - 1"
  shows "0 < r \<and> first_from cs pat 0 (r - 1)"
proof -
  have r: "0 \<le> r" "occurs (c # cs) pat r" using assms by (auto simp: first_from_def split: if_splits)
  then have "r \<noteq> 0" using assms(1) by auto
  then have "0 < r" using r by simp
  moreover have "occurs cs pat (r - 1)" using occurs_Cons [of "r - 1" c cs pat] calculation r by simp
  moreover have "\<not> occurs cs pat s" if "0 \<le> s" "s < r - 1" for s
    using occurs_Cons [of s c cs pat] assms that by (auto simp: first_from_def split: if_splits)
  ultimately show ?thesis by (auto simp: first_from_def)
qed

lemma split_on_found:
  "sep \<noteq> [] \<Longrightarrow> first_from src sep 0 r \<Longrightarrow> r \<noteq> - 1 \<Longrightarrow>
   split_on sep acc src = (rev acc @ take (nat r) src) # split_on sep [] (drop (nat (r + alen sep)) src)"
proof (induction src arbitrary: acc r)
  case Nil
  then have "occurs [] sep r" "0 \<le> r" by (auto simp: first_from_def)
  moreover have "0 < alen sep" "alen ([] :: string) = 0" using Nil(1) by (simp_all add: alen_def)
  ultimately have False unfolding occurs_def by linarith
  then show ?case ..
next
  case (Cons c cs)
  show ?case
  proof (cases "occurs (c # cs) sep 0")
    case True
    then have "r = 0" using first_from_unique [OF first_from_here [OF True] Cons.prems(2)] by simp
    with True Cons.prems(1) show ?thesis by (simp add: occurs_take alen_def)
  next
    case False
    then have ne: "take (length sep) (c # cs) \<noteq> sep" by (simp add: occurs_take)
    from first_from_Cons [OF False Cons.prems(2,3)] have f: "0 < r" "first_from cs sep 0 (r - 1)" by auto
    have "nat r = Suc (nat (r - 1))" "nat (r + alen sep) = Suc (nat (r - 1 + alen sep))"
      using f(1) by (simp_all add: alen_def nat_diff_distrib' flip: nat_add_distrib)
    with Cons.IH [OF Cons.prems(1) f(2), of "c # acc"] f(1) ne show ?thesis by (simp add: nat_add_distrib)
  qed
qed

lemma split_on_none: "\<not> contains sep src \<Longrightarrow> split_on sep acc src = [rev acc @ src]"
proof (induction src arbitrary: acc)
  case (Cons c cs)
  have "\<not> contains sep cs" using Cons.prems unfolding contains_def by (metis append_Cons)
  moreover have "take (length sep) (c # cs) \<noteq> sep"
    using Cons.prems unfolding contains_def by (metis append_Nil append_take_drop_id)
  ultimately show ?case using Cons.IH by simp
qed simp

lemma not_contains_before:
  assumes "first_from src sep 0 r" "r \<noteq> - 1" "sep \<noteq> []"
  shows "\<not> contains sep (take (nat r) src)"
proof
  assume "contains sep (take (nat r) src)"
  then obtain u v where uv: "take (nat r) src = u @ sep @ v" by (auto simp: contains_def)
  then have "src = u @ sep @ v @ drop (nat r) src" by (metis append.assoc append_take_drop_id)
  then have occ: "occurs src sep (alen u)" using occurs_append [of u sep "v @ drop (nat r) src"] by metis
  have "length u < length (take (nat r) src)" unfolding uv using assms(3) by simp
  then have "alen u < r" unfolding alen_def length_take by linarith
  with occ assms(1,2) show False by (auto simp: first_from_def split: if_splits)
qed

text \<open>A function that finds the first occurrence of a pattern.\<close>

locale substring_search =
  fixes find :: "string \<Rightarrow> string \<Rightarrow> int"
  assumes find_first: "pat \<noteq> [] \<Longrightarrow> first_from src pat 0 (find src pat)"
begin

lemma find_none: "pat \<noteq> [] \<Longrightarrow> find src pat = - 1 \<longleftrightarrow> \<not> contains pat src"
  using find_first [of pat src] by (auto simp: first_from_def contains_iff occurs_def split: if_splits)

lemma find_nonneg: "pat \<noteq> [] \<Longrightarrow> find src pat \<noteq> - 1 \<Longrightarrow> 0 \<le> find src pat \<and> find src pat + alen pat \<le> alen src"
  using find_first [of pat src] by (auto simp: first_from_def occurs_def split: if_splits)

lemma find_unique: "pat \<noteq> [] \<Longrightarrow> first_from src pat 0 r \<Longrightarrow> find src pat = r"
  using find_first first_from_unique by blast

lemma split_on_find:
  "sep \<noteq> [] \<Longrightarrow> split_on sep acc src =
     (if find src sep = - 1 then [rev acc @ src]
      else (rev acc @ take (nat (find src sep)) src) # split_on sep [] (drop (nat (find src sep + alen sep)) src))"
  using split_on_found [OF _ find_first] split_on_none find_none by simp

lemma find_split: "pat \<noteq> [] \<Longrightarrow> find src pat \<noteq> - 1 \<Longrightarrow>
    src = take (nat (find src pat)) src @ pat @ drop (nat (find src pat + alen pat)) src
    \<and> \<not> contains pat (take (nat (find src pat)) src)"
proof -
  assume p: "pat \<noteq> []" "find src pat \<noteq> - 1"
  let ?r = "find src pat"
  have "take (length pat) (drop (nat ?r) src) = pat"
    using find_first [OF p(1), of src] p(2) occurs_take [of ?r src pat] find_nonneg [OF p] by (auto simp: first_from_def split: if_splits)
  moreover have "drop (nat (?r + alen pat)) src = drop (length pat) (drop (nat ?r) src)"
    using find_nonneg [OF p] by (simp add: alen_def nat_add_distrib add.commute)
  ultimately show ?thesis using not_contains_before [OF find_first [OF p(1)] p(2,1)] by (metis append_take_drop_id)
qed

end

interpretation naive: substring_search "\<lambda>src pat. q_find src (alen src) pat (alen pat)"
  by unfold_locales (rule q_find_first)

interpretation strstr: substring_search "\<lambda>src pat. q_strstr src (alen src) pat (alen pat)"
  by unfold_locales (rule q_strstr_first)

text \<open>The search of Knuth, Morris and Pratt with a table of one cell more than the pattern.\<close>

definition kmp_search :: "string \<Rightarrow> string \<Rightarrow> int" where
  "kmp_search src pat =
     (case q_next_KMP pat (alen pat) (replicate (Suc (length pat)) 0) of
        None \<Rightarrow> - 2
      | Some next \<Rightarrow> (case q_find_KMP src (alen src) pat (alen pat) next 0 of None \<Rightarrow> - 2 | Some r \<Rightarrow> r))"

lemma kmp_search_first: "first_from src pat 0 (kmp_search src pat)"
proof -
  have "alen pat < alen (replicate (Suc (length pat)) (0 :: int))" by (simp add: alen_def)
  from q_next_KMP_table [OF this] obtain next' where
    n: "q_next_KMP pat (alen pat) (replicate (Suc (length pat)) 0) = Some next'"
      "\<forall>m. 0 \<le> m \<and> m \<le> alen pat \<longrightarrow> table_entry (aget pat) m (aget next' m)" by blast
  from q_find_KMP_first [OF n(2), of 0 src] n(1) show ?thesis by (auto simp: kmp_search_def)
qed

interpretation kmp: substring_search kmp_search
  by unfold_locales (rule kmp_search_first)

lemma split_on_spec:
  "sep \<noteq> [] \<Longrightarrow> join sep (split_on sep [] src) = src \<and> (\<forall>f\<in>set (split_on sep [] src). \<not> contains sep f)"
proof (induction "length src" arbitrary: src rule: less_induct)
  case less
  let ?r = "q_find src (alen src) sep (alen sep)"
  show ?case
  proof (cases "?r = - 1")
    case True
    then show ?thesis using naive.split_on_find [OF less.prems, of "[]" src] naive.find_none [OF less.prems, of src] by simp
  next
    case False
    note f = naive.find_nonneg [OF less.prems False] naive.find_split [OF less.prems False]
    have "0 < alen sep" using less.prems by (simp add: alen_def)
    then have "0 < nat (?r + alen sep)" "0 < alen src" using f(1) by linarith+
    then have "0 < nat (?r + alen sep)" "src \<noteq> []" by (auto simp: alen_def)
    then have "length (drop (nat (?r + alen sep)) src) < length src" by simp
    from less.hyps [OF this less.prems] f(2) False show ?thesis
      by (simp add: naive.split_on_find [OF less.prems, of "[]" src] join_Cons)
  qed
qed

definition field :: "string \<Rightarrow> int \<times> int \<Rightarrow> string" where
  "field src be = take (nat (snd be - fst be)) (drop (nat (fst be)) src)"

lemma split_loop_fields:
  assumes "sep \<noteq> []" "0 \<le> p1" "p1 \<le> alen src"
  shows "let fs = split_on sep [] (drop (nat p1) src); (r, pos') = split_loop src sep p1 n pos_size pos in
    if 2 * (n + int (length fs)) \<le> pos_size then r = n + int (length fs) \<and> (\<exists>ps. pos' = pos @ ps \<and> map (field src) ps = fs)
    else r = - 1"
  using assms(2,3)
proof (induction "nat (pos_size - 2 * n)" arbitrary: p1 n pos rule: less_induct)
  case less
  let ?rest = "drop (nat p1) src" and ?n = "alen sep"
  let ?r = "q_strstr ?rest (alen ?rest) sep ?n"
  have len: "alen src - p1 = alen ?rest" using less.prems by (simp add: alen_def)
  have pos: "0 < ?n" using assms(1) by (simp add: alen_def)
  note fs = strstr.split_on_find [OF assms(1), of "[]" ?rest]
  have ge: "1 \<le> int (length (split_on sep [] s))" for s by (simp add: Suc_le_eq)
  show ?case
  proof (cases "pos_size < (n + 1) * 2")
    case True
    then have "\<not> 2 * (n + int (length (split_on sep [] ?rest))) \<le> pos_size" using ge [of ?rest] by (simp add: not_le)
    with True show ?thesis by (subst split_loop.simps) (simp add: Let_def)
  next
    case room: False
    show ?thesis
    proof (cases "?r = - 1")
      case True
      then have "split_loop src sep p1 n pos_size pos = (n + 1, pos @ [(p1, alen src)])"
        using room by (subst split_loop.simps) (simp add: Let_def len)
      moreover have "field src (p1, alen src) = ?rest" by (simp add: field_def len) (simp add: alen_def)
      ultimately show ?thesis using True room by (simp add: fs)
    next
      case False
      let ?p = "p1 + ?r + ?n"
      have r: "0 \<le> ?r" "?r + ?n \<le> alen ?rest" using strstr.find_nonneg [OF assms(1) False] by auto
      have step: "split_loop src sep p1 n pos_size pos = split_loop src sep ?p (n + 1) pos_size (pos @ [(p1, p1 + ?r)])"
        using False room by (subst split_loop.simps) (simp add: Let_def len)
      have d: "drop (nat (?r + ?n)) ?rest = drop (nat ?p) src" using r pos less.prems by (simp add: nat_add_distrib ac_simps)
      have fl: "field src (p1, p1 + ?r) = take (nat ?r) ?rest" by (simp add: field_def)
      have fs': "split_on sep [] ?rest = take (nat ?r) ?rest # split_on sep [] (drop (nat ?p) src)"
        unfolding fs d using False by (simp only: if_False rev.simps append_Nil)
      obtain res pos' where l: "split_loop src sep ?p (n + 1) pos_size (pos @ [(p1, p1 + ?r)]) = (res, pos')" by fastforce
      have "nat (pos_size - 2 * (n + 1)) < nat (pos_size - 2 * n)" using room by simp
      moreover have "0 \<le> ?p" "?p \<le> alen src" using r pos len less.prems by linarith+
      ultimately have ih: "if 2 * (n + 1 + int (length (split_on sep [] (drop (nat ?p) src)))) \<le> pos_size
          then res = n + 1 + int (length (split_on sep [] (drop (nat ?p) src)))
            \<and> (\<exists>ps. pos' = (pos @ [(p1, p1 + ?r)]) @ ps \<and> map (field src) ps = split_on sep [] (drop (nat ?p) src))
          else res = - 1" using less.hyps [of "n + 1" ?p "pos @ [(p1, p1 + ?r)]"] unfolding l Let_def by simp
      have "\<exists>ps. pos' = pos @ ps \<and> map (field src) ps = take (nat ?r) ?rest # gs"
        if "pos' = (pos @ [(p1, p1 + ?r)]) @ ps" "map (field src) ps = gs" for ps gs
        using that fl by (intro exI [of _ "(p1, p1 + ?r) # ps"]) simp
      with ih show ?thesis unfolding step l fs' Let_def by (auto simp: algebra_simps)
    qed
  qed
qed

lemma strrep_loop_joins:
  assumes "from \<noteq> []"
  shows "let out = dest @ join to (split_on from [] p1) in
    if alen out \<le> max_size then strrep_loop p1 from to max_size dest = (alen out, out)
    else fst (strrep_loop p1 from to max_size dest) = - 2"
proof (induction "length p1" arbitrary: p1 dest rule: less_induct)
  case less
  let ?r = "q_strstr p1 (alen p1) from (alen from)"
  note fs = strstr.split_on_find [OF assms, of "[]" p1]
  show ?case
  proof (cases "?r = - 1")
    case True
    then have "split_on from [] p1 = [p1]" using fs by simp
    with True show ?thesis by (subst (1 2) strrep_loop.simps) (auto simp: Let_def alen_def)
  next
    case False
    note r = strstr.find_nonneg [OF assms False]
    let ?rest = "drop (nat (?r + alen from)) p1" and ?dest = "dest @ take (nat ?r) p1 @ to"
    let ?out = "dest @ join to (split_on from [] p1)"
    have "0 < alen from" using assms by (simp add: alen_def)
    then have "0 < nat (?r + alen from)" "0 < alen p1" using r by linarith+
    then have sh: "length ?rest < length p1" by (auto simp: alen_def)
    have "split_on from [] p1 = take (nat ?r) p1 # split_on from [] ?rest"
      unfolding fs using False by (simp only: if_False rev.simps append_Nil)
    then have out: "?out = ?dest @ join to (split_on from [] ?rest)" by (simp add: join_Cons)
    have "?r \<le> alen p1" using r \<open>0 < alen from\<close> by linarith
    then have "nat ?r \<le> length p1" by (simp add: alen_def)
    then have tk: "alen (take (nat ?r) p1) = ?r" using r by (simp add: alen_def min_absorb2)
    have len: "alen ?out = alen dest + ?r + alen to + alen (join to (split_on from [] ?rest))"
      using tk unfolding out by (simp add: alen_def)
    show ?thesis
    proof (cases "alen dest + ?r + alen to > max_size")
      case True
      then have "\<not> alen ?out \<le> max_size" using len alen_nonneg [of "join to (split_on from [] ?rest)"] by linarith
      with True False show ?thesis by (subst (1 2) strrep_loop.simps) (simp add: Let_def)
    next
      case fits: False
      have "strrep_loop p1 from to max_size dest = strrep_loop ?rest from to max_size ?dest"
        using False fits by (subst strrep_loop.simps) (simp add: Let_def)
      with less.hyps [OF sh, of ?dest] show ?thesis unfolding Let_def out by simp
    qed
  qed
qed

section \<open>Properties\<close>

text \<open>
  C20. The fast search.  For every pattern and a table of one cell more than the pattern, \<open>q_next_KMP\<close>
  ends and \<open>q_find_KMP\<close> with its table ends with the position that the plain search \<open>q_find\<close> returns: the
  first occurrence of the pattern, or \<open>- 1\<close>.
\<close>

theorem KMP_equals_plain_search:
  assumes "alen next = alen pat + 1"
  shows "\<exists>next'. q_next_KMP pat (alen pat) next = Some next' \<and>
    q_find_KMP src (alen src) pat (alen pat) next' 0 = Some (q_find src (alen src) pat (alen pat)) \<and>
    (q_find src (alen src) pat (alen pat) = - 1 \<longleftrightarrow> \<not> contains pat src)"
proof -
  from assms have "alen pat < alen next" by simp
  from q_next_KMP_table [OF this] obtain next' where n: "q_next_KMP pat (alen pat) next = Some next'"
    "\<forall>m. 0 \<le> m \<and> m \<le> alen pat \<longrightarrow> table_entry (aget pat) m (aget next' m)" by blast
  from q_find_KMP_first [OF n(2), of 0 src] obtain r where
    r: "q_find_KMP src (alen src) pat (alen pat) next' 0 = Some r" "first_from src pat 0 r" by auto
  have "q_find src (alen src) pat (alen pat) = r" using first_from_unique [OF q_find_first r(2)] by simp
  moreover have "r = - 1 \<longleftrightarrow> \<not> contains pat src"
    using r(2) by (auto simp: first_from_def contains_iff occurs_def split: if_splits)
  ultimately show ?thesis using n(1) r(1) by blast
qed

theorem KMP_equals_plain_search_witness:
  "\<exists>next'. q_next_KMP ''abab'' (alen ''abab'') (replicate 5 0) = Some next' \<and>
    q_find_KMP ''xababab'' (alen ''xababab'') ''abab'' (alen ''abab'') next' 0 = Some (q_find ''xababab'' (alen ''xababab'') ''abab'' (alen ''abab''))"
  using KMP_equals_plain_search [of "replicate 5 0" "''abab''" "''xababab''"] by (auto simp: alen_def)

text \<open>
  Splitting.  \<open>q_split\<close> writes the positions of the fields between the separators: joined with the
  separator the fields give the text back, and no field contains the separator.  It returns their
  number, or \<open>- 1\<close> when the array of positions has no room for all of them.
\<close>

lemma q_split_joins:
  assumes "src \<noteq> []" "sep \<noteq> []"
  shows "\<exists>fs. join sep fs = src \<and> (\<forall>f\<in>set fs. \<not> contains sep f) \<and>
    (if 2 * alen fs \<le> pos_size
     then \<exists>pos. q_split src sep pos_size = (alen fs, pos) \<and> map (field src) pos = fs
     else fst (q_split src sep pos_size) = - 1)"
proof (intro exI conjI)
  let ?fs = "split_on sep [] src"
  show "join sep ?fs = src" "\<forall>f\<in>set ?fs. \<not> contains sep f" using split_on_spec [OF assms(2)] by blast+
  show "if 2 * alen ?fs \<le> pos_size
     then \<exists>pos. q_split src sep pos_size = (alen ?fs, pos) \<and> map (field src) pos = ?fs
     else fst (q_split src sep pos_size) = - 1"
    using split_loop_fields [OF assms(2), of 0 src 0 pos_size "[]"] assms
    by (cases "split_loop src sep 0 0 pos_size []") (auto simp: q_split_def alen_def Let_def split: if_splits)
qed

text \<open>
  Replacing.  \<open>q_strrep\<close> writes the text in which every occurrence of \<open>from\<close>, read from the left, is
  replaced by \<open>to\<close>, and returns its length; when that is longer than the buffer it returns \<open>- 2\<close>.
\<close>

lemma q_strrep_replaces:
  assumes "src \<noteq> []" "from \<noteq> []" "to \<noteq> []" "0 < max_size"
  shows "\<exists>fs. join from fs = src \<and> (\<forall>f\<in>set fs. \<not> contains from f) \<and>
    (if alen (join to fs) \<le> max_size then q_strrep src from to max_size = (alen (join to fs), join to fs)
     else fst (q_strrep src from to max_size) = - 2)"
proof (intro exI conjI)
  let ?fs = "split_on from [] src"
  show "join from ?fs = src" "\<forall>f\<in>set ?fs. \<not> contains from f" using split_on_spec [OF assms(2)] by blast+
  show "if alen (join to ?fs) \<le> max_size then q_strrep src from to max_size = (alen (join to ?fs), join to ?fs)
     else fst (q_strrep src from to max_size) = - 2"
    using strrep_loop_joins [OF assms(2), of "[]" to src max_size] assms by (simp add: q_strrep_def Let_def)
qed

end
