(* ===== verification/Codecs.thy ===== *)
theory Codecs
  imports CLib
begin

unbundle bit_operations_syntax

text \<open>
  Encodings of \<^verbatim>\<open>src/common/qfunc.h\<close>: URL encoding, identifiers in base 62, decimal numbers and the hash
  function \<open>murmurHash\<close>.  A function that fills a buffer returns its status and what it has written.
\<close>

section \<open>URL encoding\<close>

definition hex_digit :: "nat \<Rightarrow> char" where
  "hex_digit n = (if n < 10 then char_of (48 + n) else char_of (55 + n))"

definition hex02 :: "char \<Rightarrow> string" where
  "hex02 ch = [hex_digit (code ch div 16), hex_digit (code ch mod 16)]"

definition unreserved :: "char \<Rightarrow> bool" where
  "unreserved ch \<longleftrightarrow> 65 \<le> code ch \<and> code ch \<le> 90 \<or> 97 \<le> code ch \<and> code ch \<le> 122 \<or> 48 \<le> code ch \<and> code ch \<le> 57"

text \<open>What the loops do when they end: a full buffer is an error.\<close>

definition url_end :: "int \<Rightarrow> string \<Rightarrow> int \<times> string" where
  "url_end iMaxSize dest = (if alen dest = iMaxSize then - 1 else alen dest, dest)"

fun url_encode_loop :: "int \<Rightarrow> string \<Rightarrow> string \<Rightarrow> int \<times> string" where
  "url_encode_loop iMaxSize [] dest = url_end iMaxSize dest"
| "url_encode_loop iMaxSize (ch # src) dest =
     (if alen dest < iMaxSize then
        if unreserved ch then url_encode_loop iMaxSize src (dest @ [ch])
        else if ch = CHR '' '' then url_encode_loop iMaxSize src (dest @ ''+'')
        else if ch \<in> {CHR ''.'', CHR ''-'', CHR ''_'', CHR ''*''} then url_encode_loop iMaxSize src (dest @ [ch])
        else if alen dest + 3 < iMaxSize then url_encode_loop iMaxSize src (dest @ CHR ''%'' # hex02 ch)
        else (- 2, dest)
      else url_end iMaxSize dest)"

definition q_url_encode :: "string \<Rightarrow> int \<Rightarrow> int \<times> string" where
  "q_url_encode src iMaxSize = (if src = [] \<or> iMaxSize \<le> 0 then (- 1, []) else url_encode_loop iMaxSize src [])"

definition hex_val :: "char \<Rightarrow> nat" where
  "hex_val c = (if 48 \<le> code c \<and> code c \<le> 57 then code c - 48
     else if 97 \<le> code c \<and> code c \<le> 102 then code c - 97 + 10
     else if 65 \<le> code c \<and> code c \<le> 70 then code c - 65 + 10 else 0)"

fun url_decode_loop :: "int \<Rightarrow> string \<Rightarrow> string \<Rightarrow> int \<times> string" where
  "url_decode_loop iMaxSize [] dest = url_end iMaxSize dest"
| "url_decode_loop iMaxSize (ch # src) dest =
     (if alen dest < iMaxSize then
        if ch = CHR ''+'' then url_decode_loop iMaxSize src (dest @ '' '')
        else if ch = CHR ''%'' then
          (case src of
             a # b # r \<Rightarrow> url_decode_loop iMaxSize r (dest @ [char_of (16 * hex_val a + hex_val b)])
           | _ \<Rightarrow> url_decode_loop iMaxSize src (dest @ [ch]))
        else url_decode_loop iMaxSize src (dest @ [ch])
      else url_end iMaxSize dest)"

definition q_url_decode :: "string \<Rightarrow> int \<Rightarrow> int \<times> string" where
  "q_url_decode src iMaxSize = (if src = [] \<or> iMaxSize \<le> 0 then (- 1, []) else url_decode_loop iMaxSize src [])"

section \<open>Identifiers in base 62\<close>

definition digits62 :: string where
  "digits62 = ''ABCDEFGHIJKLMNOPQRSTUVWXYZabcdefghijklmnopqrstuvwxyz0123456789''"

text \<open>The loop inserts the digits from the last to the first.\<close>

function id62_loop :: "64 word \<Rightarrow> string \<Rightarrow> string" where
  "id62_loop rest s =
     (if rest = 0 then s else id62_loop (rest div 62) (digits62 ! unat (rest - (rest div 62) * 62) # s))"
  by pat_completeness auto
termination
  by (relation "measure (\<lambda>(rest, _). unat rest)") (auto simp: unat_div word_neq_0_conv word_less_nat_alt)

definition q_id_to_62string :: "64 word \<Rightarrow> string" where
  "q_id_to_62string value = id62_loop value []"

text \<open>\<open>string::find\<close> of a character: its position, \<open>None\<close> for \<open>npos\<close>.\<close>

fun find_char :: "char \<Rightarrow> string \<Rightarrow> nat option" where
  "find_char c [] = None"
| "find_char c (d # s) = (if c = d then Some 0 else map_option Suc (find_char c s))"

datatype id62_error = Unknown_char char

text \<open>\<open>s\<close> is read from its end.\<close>

fun id62_sum :: "64 word \<Rightarrow> 64 word \<Rightarrow> string \<Rightarrow> id62_error + 64 word" where
  "id62_sum multiple result [] = Inr result"
| "id62_sum multiple result (ch # s) =
     (case find_char ch digits62 of
        None \<Rightarrow> Inl (Unknown_char ch)
      | Some pos \<Rightarrow> id62_sum (multiple * 62) (result + of_nat pos * multiple) s)"

definition q_62string_to_id :: "string \<Rightarrow> id62_error + 64 word" where
  "q_62string_to_id s = id62_sum 1 0 (rev s)"

declare id62_loop.simps [simp del]

section \<open>Decimal numbers\<close>

text \<open>The digits at the start of a text, as an unsigned number of the width of the result.\<close>

fun stou_loop :: "'w::len word \<Rightarrow> string \<Rightarrow> 'w word" where
  "stou_loop n [] = n"
| "stou_loop n (c # s) = (if isdigit c then stou_loop (10 * n + (of_nat (code c) - 48)) s else n)"

definition q_stoui :: "string \<Rightarrow> int \<Rightarrow> 32 word" where
  "q_stoui src srclen = stou_loop 0 (take (nat srclen) src)"

definition q_stoull :: "string \<Rightarrow> int \<Rightarrow> 64 word" where
  "q_stoull src srclen = stou_loop 0 (take (nat (if srclen > 22 then 22 else srclen)) src)"

section \<open>The hash function\<close>

type_synonym bytes = "8 word list"

definition murmur_m :: "32 word" where "murmur_m = 0x5bd1e995"

text \<open>Four bytes as the machine reads an unsigned integer, the first one lowest.\<close>

definition le32 :: "8 word \<Rightarrow> 8 word \<Rightarrow> 8 word \<Rightarrow> 8 word \<Rightarrow> 32 word" where
  "le32 a b c d = ucast a OR push_bit 8 (ucast b) OR push_bit 16 (ucast c) OR push_bit 24 (ucast d)"

definition murmur_mix :: "32 word \<Rightarrow> 32 word \<Rightarrow> 32 word" where
  "murmur_mix h k = (let k = k * murmur_m; k = k XOR drop_bit 24 k; k = k * murmur_m in (h * murmur_m) XOR k)"

fun murmur_loop :: "32 word \<Rightarrow> bytes \<Rightarrow> 32 word" where
  "murmur_loop h (a # b # c # d # data) = murmur_loop (murmur_mix h (le32 a b c d)) data"
| "murmur_loop h [a, b, c] = (h XOR push_bit 16 (ucast c) XOR push_bit 8 (ucast b) XOR ucast a) * murmur_m"
| "murmur_loop h [a, b] = (h XOR push_bit 8 (ucast b) XOR ucast a) * murmur_m"
| "murmur_loop h [a] = (h XOR ucast a) * murmur_m"
| "murmur_loop h [] = h"

definition murmurHash :: "bytes \<Rightarrow> 32 word" where
  "murmurHash key =
     (let h = murmur_loop (97 XOR of_nat (length key)) key; h = h XOR drop_bit 13 h; h = h * murmur_m
      in h XOR drop_bit 15 h)"

section \<open>Lemmas\<close>

lemma code_less [simp]: "code ch < 256"
  using of_char_mod_256 [of ch, where 'a = nat] mod_less_divisor [of 256 "of_char ch"] by (simp add: code_def)

lemma char_of_code [simp]: "char_of (code ch) = ch"
  by (simp add: code_def)

lemma hex_val_digit: "n < 16 \<Longrightarrow> hex_val (hex_digit n) = n"
  by (auto simp: hex_val_def hex_digit_def)

text \<open>The text that stands for a character.\<close>

definition url_piece :: "char \<Rightarrow> string" where
  "url_piece ch = (if unreserved ch then [ch] else if ch = CHR '' '' then ''+''
     else if ch \<in> {CHR ''.'', CHR ''-'', CHR ''_'', CHR ''*''} then [ch] else CHR ''%'' # hex02 ch)"

lemma url_piece_length: "0 < length (url_piece ch)" "length (url_piece ch) \<le> 3"
  by (auto simp: url_piece_def hex02_def)

lemma url_encode_step:
  "url_encode_loop n (ch # src) dest =
     (if alen dest < n then
        if 1 < length (url_piece ch) \<and> \<not> alen dest + 3 < n then (- 2, dest) else url_encode_loop n src (dest @ url_piece ch)
      else url_end n dest)"
  by (simp add: url_piece_def hex02_def)

lemma url_encode_spec:
  assumes "alen dest \<le> n"
  shows "if alen (dest @ concat (map url_piece src)) < n
    then url_encode_loop n src dest = (alen (dest @ concat (map url_piece src)), dest @ concat (map url_piece src))
    else fst (url_encode_loop n src dest) < 0"
  using assms
proof (induction src arbitrary: dest)
  case Nil
  then show ?case by (auto simp: url_end_def)
next
  case (Cons ch src)
  let ?p = "url_piece ch" and ?r = "concat (map url_piece src)"
  have tot: "alen (dest @ concat (map url_piece (ch # src))) = alen dest + int (length ?p) + int (length ?r)"
    by (simp add: alen_def)
  have app: "alen (dest @ ?p) = alen dest + int (length ?p)" by (simp add: alen_def)
  note len = url_piece_length [of ch]
  have three: "length ?p = 3" if "1 < length ?p" using that by (auto simp: url_piece_def hex02_def split: if_splits)
  show ?case
  proof (cases "alen dest < n \<and> \<not> (1 < length ?p \<and> \<not> alen dest + 3 < n)")
    case True
    then have step: "url_encode_loop n (ch # src) dest = url_encode_loop n src (dest @ ?p)"
      unfolding url_encode_step by auto
    have "alen (dest @ ?p) \<le> n" using True len three app by (cases "1 < length ?p") auto
    with Cons.IH [of "dest @ ?p"] show ?thesis unfolding step by simp
  next
    case False
    then have "\<not> alen (dest @ concat (map url_piece (ch # src))) < n" unfolding tot using three len by auto
    moreover have "fst (url_encode_loop n (ch # src) dest) < 0"
      using False Cons.prems by (auto simp: url_encode_step url_end_def simp del: url_encode_loop.simps)
    ultimately show ?thesis by simp
  qed
qed

lemma url_decode_piece:
  assumes "alen dest < n"
  shows "url_decode_loop n (url_piece ch @ r) dest = url_decode_loop n r (dest @ [ch])"
proof -
  have "16 * hex_val (hex_digit (code ch div 16)) + hex_val (hex_digit (code ch mod 16)) = code ch"
    by (subst (1 2) hex_val_digit) (auto simp: div_less_iff_less_mult)
  moreover have "\<not> unreserved (CHR ''+'')" "\<not> unreserved (CHR ''%'')" by (auto simp: unreserved_def code_def)
  ultimately show ?thesis using assms by (auto simp: url_piece_def hex02_def)
qed

lemma url_decode_pieces:
  "alen dest + alen src < n \<Longrightarrow> url_decode_loop n (concat (map url_piece src)) dest = (alen dest + alen src, dest @ src)"
proof (induction src arbitrary: dest)
  case Nil
  then show ?case by (simp add: url_end_def alen_def)
next
  case (Cons ch src)
  have "alen dest < n" using Cons.prems by (simp add: alen_def)
  with Cons.IH [of "dest @ [ch]"] Cons.prems show ?case by (simp add: url_decode_piece alen_def algebra_simps)
qed

lemma find_char_nth: "distinct s \<Longrightarrow> i < length s \<Longrightarrow> find_char (s ! i) s = Some i"
  by (induction s arbitrary: i) (auto simp: nth_Cons' nth_mem dest: nth_mem)

lemma digits62_props: "distinct digits62" "length digits62 = 62"
  by code_simp+

text \<open>The digits of a number in base 62, the last one first.\<close>

fun digs62 :: "nat \<Rightarrow> nat list" where
  "digs62 n = (if n = 0 then [] else n mod 62 # digs62 (n div 62))"

declare digs62.simps [simp del]

lemma id62_loop_digs: "id62_loop v s = rev (map (nth digits62) (digs62 (unat v))) @ s"
proof (induction "unat v" arbitrary: v s rule: less_induct)
  case less
  show ?case
  proof (cases "v = 0")
    case True
    then show ?thesis by (simp add: id62_loop.simps digs62.simps)
  next
    case False
    then have "unat (v div 62) < unat v" by (simp add: unat_div unat_gt_0)
    moreover have "unat (v - v div 62 * 62) = unat v mod 62"
      by (simp add: minus_div_mult_eq_mod unat_mod)
    ultimately show ?thesis using less [of "v div 62"] False
      by (subst id62_loop.simps, subst digs62.simps) (simp add: unat_div unat_eq_zero)
  qed
qed

lemma id62_sum_digs: "id62_sum m r (map (nth digits62) (digs62 n)) = Inr (r + m * of_nat n)"
proof (induction n arbitrary: m r rule: digs62.induct)
  case (1 n)
  show ?case
  proof (cases "n = 0")
    case True
    then show ?thesis by (simp add: digs62.simps)
  next
    case False
    have "find_char (digits62 ! (n mod 62)) digits62 = Some (n mod 62)"
      using digits62_props by (intro find_char_nth) auto
    then have "id62_sum m r (map (nth digits62) (digs62 n)) =
        Inr (r + of_nat (n mod 62) * m + m * 62 * of_nat (n div 62))"
      using 1 False by (subst digs62.simps) simp
    also have "r + of_nat (n mod 62) * m + m * 62 * of_nat (n div 62) = r + m * of_nat (n mod 62 + 62 * (n div 62))"
      unfolding of_nat_add of_nat_mult by (simp add: distrib_left mult.commute mult.assoc)
    finally show ?thesis by simp
  qed
qed

lemma stou_loop_digits:
  "\<forall>c\<in>set s. isdigit c \<Longrightarrow> stou_loop (of_int acc :: 'w::len word) (s @ r) = stou_loop (of_int (digits_val acc s)) r"
proof (induction s arbitrary: acc)
  case (Cons c s)
  have "10 * of_int acc + (of_nat (code c) - 48) = (of_int (10 * acc + digit_val c) :: 'w word)" by (simp add: digit_val_def)
  then have "stou_loop (of_int acc :: 'w word) ((c # s) @ r) = stou_loop (of_int (10 * acc + digit_val c)) (s @ r)"
    using Cons.prems by (simp del: of_int_add of_int_mult)
  also have "\<dots> = stou_loop (of_int (digits_val (10 * acc + digit_val c) s)) r" using Cons.prems by (intro Cons.IH) simp
  finally show ?case using Cons.prems by simp
qed simp

lemma q_stoull_dec: "q_stoull (dec (unat v)) (alen (dec (unat v))) = v"
proof -
  have "unat v < 10 ^ Suc 19" using unsigned_less [of v, where 'a = nat] by simp
  then have "length (dec (unat v)) \<le> 22" using dec_length [of "unat v" 19] by simp
  then have "take (nat (if alen (dec (unat v)) > 22 then 22 else alen (dec (unat v)))) (dec (unat v)) = dec (unat v)"
    by (simp add: alen_def)
  with stou_loop_digits [OF dec_digits, where acc = 0 and r = "[]" and n1 = "unat v" and 'w = 64] show ?thesis
    by (simp add: q_stoull_def digits_val_dec)
qed

section \<open>Properties\<close>

text \<open>
  URL encoding.  Encoding succeeds exactly when the encoded text is shorter than the buffer, and
  decoding it into any buffer longer than the original text gives the original text back, whatever
  bytes it has.
\<close>

lemma url_roundtrip:
  assumes "src \<noteq> []" "0 < iMaxSize" "q_url_encode src iMaxSize = (n, enc)" "0 \<le> n" "alen src < m"
  shows "n = alen enc \<and> q_url_decode enc m = (alen src, src)"
proof -
  have "alen [] \<le> iMaxSize" using assms(2) by (simp add: alen_def)
  from url_encode_spec [OF this, of src] assms have e: "enc = concat (map url_piece src)" "n = alen enc"
    by (auto simp: q_url_encode_def split: if_splits)
  moreover have "enc \<noteq> []" unfolding e(1) using assms(1) url_piece_length(1) by (cases src) auto
  ultimately show ?thesis using url_decode_pieces [of "[]" src m] assms(5) alen_nonneg [of src]
    by (simp add: q_url_decode_def alen_def)
qed

text \<open>
  Identifiers.  The text of an identifier in base 62 is read back as the same identifier, for
  all values of 64 bits.
\<close>

lemma id62_roundtrip: "q_62string_to_id (q_id_to_62string v) = Inr v"
  using id62_sum_digs [of 1 0 "unat v"] by (simp add: q_62string_to_id_def q_id_to_62string_def id62_loop_digs)

end
