(* ===== verification/HashMaps.thy ===== *)
theory HashMaps
  imports Codecs
begin

text \<open>
  The hash tables of \<^verbatim>\<open>src/common/qhashmap.h\<close>: \<open>QHashMap\<close> over lists, \<open>QHashMap2\<close> over maps and
  \<open>QLinearHash\<close> over linked chains with a traversal, and the hash functions they use.
\<close>

section \<open>What a table promises\<close>

text \<open>All three tables keep the old value when a key is inserted again.\<close>

locale insert_table =
  fixes tinv :: "'s \<Rightarrow> bool" and tfind :: "'s \<Rightarrow> 'k \<Rightarrow> 'v option" and tinsert :: "'s \<Rightarrow> 'k \<Rightarrow> 'v \<Rightarrow> 's"
    and tsize :: "'s \<Rightarrow> 'n::comm_ring_1"
  assumes inv_insert: "tinv s \<Longrightarrow> tinv (tinsert s k v)"
    and find_insert: "tinv s \<Longrightarrow> tfind (tinsert s k v) = (case tfind s k of None \<Rightarrow> (tfind s)(k \<mapsto> v) | Some _ \<Rightarrow> tfind s)"
    and size_insert: "tinv s \<Longrightarrow> tsize (tinsert s k v) = (case tfind s k of None \<Rightarrow> tsize s + 1 | Some _ \<Rightarrow> tsize s)"
begin

lemma inserts_spec:
  "tinv s \<Longrightarrow> finite (dom (tfind s)) \<Longrightarrow> tsize s = of_nat (card (dom (tfind s))) \<Longrightarrow>
   let s' = fold (\<lambda>(k, v) s. tinsert s k v) kvs s in
   tinv s' \<and> tfind s' = map_of kvs ++ tfind s \<and> tsize s' = of_nat (card (dom (tfind s')))"
proof (induction kvs arbitrary: s)
  case Nil
  then show ?case by simp
next
  case (Cons kv kvs)
  obtain k v where kv: "kv = (k, v)" by fastforce
  let ?s = "tinsert s k v"
  have "tinv ?s" using Cons.prems by (simp add: inv_insert)
  moreover have "finite (dom (tfind ?s))" using Cons.prems by (simp add: find_insert split: option.splits)
  moreover have "tsize ?s = of_nat (card (dom (tfind ?s)))"
    using Cons.prems by (auto simp: find_insert size_insert domIff split: option.splits)
  moreover have "map_of kvs ++ tfind ?s = map_of (kv # kvs) ++ tfind s"
    using Cons.prems by (auto simp: find_insert kv map_add_def fun_eq_iff split: option.splits)
  ultimately show ?case using Cons.IH [of ?s] by (simp add: kv Let_def fun_upd_def)
qed

end

text \<open>A table with removal; requests to it, and what they do to a map.\<close>

datatype ('k, 'v) table_op = Op_insert 'k 'v | Op_erase 'k

fun ref_op :: "('k, 'v) table_op \<Rightarrow> ('k \<rightharpoonup> 'v) \<Rightarrow> ('k \<rightharpoonup> 'v)" where
  "ref_op (Op_insert k v) m = (case m k of None \<Rightarrow> m(k \<mapsto> v) | Some _ \<Rightarrow> m)"
| "ref_op (Op_erase k) m = m(k := None)"

fun table_do :: "('s \<Rightarrow> 'k \<Rightarrow> 'v \<Rightarrow> 's) \<Rightarrow> ('s \<Rightarrow> 'k \<Rightarrow> 's) \<Rightarrow> ('k, 'v) table_op \<Rightarrow> 's \<Rightarrow> 's" where
  "table_do ins er (Op_insert k v) s = ins s k v"
| "table_do ins er (Op_erase k) s = er s k"

locale erase_table = insert_table tinv tfind tinsert tsize
  for tinv :: "'s \<Rightarrow> bool" and tfind :: "'s \<Rightarrow> 'k \<Rightarrow> 'v option" and tinsert :: "'s \<Rightarrow> 'k \<Rightarrow> 'v \<Rightarrow> 's"
    and tsize :: "'s \<Rightarrow> 'n::comm_ring_1" +
  fixes terase :: "'s \<Rightarrow> 'k \<Rightarrow> 's"
  assumes inv_erase: "tinv s \<Longrightarrow> tinv (terase s k)"
    and find_erase: "tinv s \<Longrightarrow> tfind (terase s k) = (tfind s)(k := None)"
    and size_erase: "tinv s \<Longrightarrow> tsize (terase s k) = (case tfind s k of None \<Rightarrow> tsize s | Some _ \<Rightarrow> tsize s - 1)"
begin

abbreviation do_op where "do_op \<equiv> table_do tinsert terase"

lemma do_op_spec:
  assumes "tinv s" "finite (dom (tfind s))" "tsize s = of_nat (card (dom (tfind s)))"
  shows "tinv (do_op x s) \<and> tfind (do_op x s) = ref_op x (tfind s) \<and> finite (dom (tfind (do_op x s)))
    \<and> tsize (do_op x s) = of_nat (card (dom (tfind (do_op x s))))"
proof (cases x)
  case (Op_insert k v)
  then show ?thesis using assms
    by (auto simp: inv_insert find_insert size_insert domIff split: option.splits)
next
  case (Op_erase k)
  have "of_nat (card (dom (tfind s) - {k})) = (of_nat (card (dom (tfind s))) - 1 :: 'n)" if "k \<in> dom (tfind s)"
    using that assms(2) by (metis One_nat_def Suc_pred card_Diff_singleton card_gt_0_iff empty_iff of_nat_Suc add_diff_cancel_left' )
  with Op_erase show ?thesis using assms
    by (auto simp: inv_erase find_erase size_erase domIff dom_fun_upd split: option.splits)
qed

lemma run_spec:
  "tinv s \<Longrightarrow> finite (dom (tfind s)) \<Longrightarrow> tsize s = of_nat (card (dom (tfind s))) \<Longrightarrow>
   tinv (fold do_op ops s) \<and> tfind (fold do_op ops s) = fold ref_op ops (tfind s)
   \<and> tsize (fold do_op ops s) = of_nat (card (dom (fold ref_op ops (tfind s))))"
proof (induction ops arbitrary: s)
  case (Cons x ops)
  note d = do_op_spec [OF Cons.prems, of x]
  then have "finite (dom (ref_op x (tfind s)))" by metis
  with d Cons.IH [of "do_op x s"] show ?case by simp
qed simp

end

section \<open>Hash functions\<close>

definition bytes_of :: "string \<Rightarrow> bytes" where
  "bytes_of s = map (\<lambda>c. of_nat (code c)) s"

text \<open>\<open>DefaultHash\<close> for strings; for other types the bytes of the object are hashed.\<close>

definition DefaultHash :: "32 word \<Rightarrow> string \<Rightarrow> 32 word" where
  "DefaultHash numBuckets key = murmurHash (bytes_of key) mod numBuckets"

lemma DefaultHash_less: "0 < numBuckets \<Longrightarrow> unat (DefaultHash numBuckets key) < unat numBuckets"
  unfolding DefaultHash_def by (metis unat_mod mod_less_divisor unat_gt_0 word_gt_0)

section \<open>QHashMap\<close>

record ('k, 'v) QHashMap =
  mElems :: "('k \<times> 'v) list list"
  mSize :: "32 word"

definition QHashMap_new :: "nat \<Rightarrow> ('k, 'v) QHashMap" where
  "QHashMap_new numBuckets = \<lparr>mElems = replicate numBuckets [], mSize = 0\<rparr>"

text \<open>An iterator is a position, the end of the list for the iterator \<open>end\<close>.\<close>

fun find_pos :: "('k \<times> 'v) list \<Rightarrow> 'k \<Rightarrow> nat" where
  "find_pos [] x = 0"
| "find_pos (kv # l) x = (if fst kv = x then 0 else Suc (find_pos l x))"

definition findElement :: "('k \<Rightarrow> nat) \<Rightarrow> ('k, 'v) QHashMap \<Rightarrow> 'k \<Rightarrow> nat \<times> nat" where
  "findElement hash m x = (let bucket = hash x in (bucket, find_pos (mElems m ! bucket) x))"

definition QHashMap_find :: "('k \<Rightarrow> nat) \<Rightarrow> ('k, 'v) QHashMap \<Rightarrow> 'k \<Rightarrow> 'v option" where
  "QHashMap_find hash m x =
     (case findElement hash m x of (bucket, it) \<Rightarrow>
        if it = length (mElems m ! bucket) then None else Some (snd (mElems m ! bucket ! it)))"

definition QHashMap_insert :: "('k \<Rightarrow> nat) \<Rightarrow> ('k, 'v) QHashMap \<Rightarrow> 'k \<Rightarrow> 'v \<Rightarrow> ('k, 'v) QHashMap" where
  "QHashMap_insert hash m k v =
     (case findElement hash m k of (bucket, it) \<Rightarrow>
        if it \<noteq> length (mElems m ! bucket) then m
        else m\<lparr>mSize := mSize m + 1, mElems := (mElems m)[bucket := mElems m ! bucket @ [(k, v)]]\<rparr>)"

definition QHashMap_erase :: "('k \<Rightarrow> nat) \<Rightarrow> ('k, 'v) QHashMap \<Rightarrow> 'k \<Rightarrow> ('k, 'v) QHashMap" where
  "QHashMap_erase hash m x =
     (case findElement hash m x of (bucket, it) \<Rightarrow>
        if it \<noteq> length (mElems m ! bucket)
        then m\<lparr>mElems := (mElems m)[bucket := take it (mElems m ! bucket) @ drop (Suc it) (mElems m ! bucket)], mSize := mSize m - 1\<rparr>
        else m)"

definition QHashMap_inv :: "('k \<Rightarrow> nat) \<Rightarrow> ('k, 'v) QHashMap \<Rightarrow> bool" where
  "QHashMap_inv hash m \<longleftrightarrow> (\<forall>k. hash k < length (mElems m)) \<and> (\<forall>l\<in>set (mElems m). distinct (map fst l))"

lemma find_pos_map_of:
  "map_of l x = (if find_pos l x = length l then None else Some (snd (l ! find_pos l x)))"
  by (induction l) auto

lemma find_pos_le: "find_pos l x \<le> length l"
  by (induction l) auto

lemma find_pos_end: "find_pos l x = length l \<longleftrightarrow> x \<notin> fst ` set l"
  by (induction l) auto

lemma QHashMap_find_eq: "QHashMap_find hash m x = map_of (mElems m ! hash x) x"
  by (simp add: QHashMap_find_def findElement_def Let_def find_pos_map_of)

lemma remove_pos_map_of:
  "distinct (map fst l) \<Longrightarrow> map_of (take (find_pos l x) l @ drop (Suc (find_pos l x)) l) = (map_of l)(x := None)"
proof (induction l)
  case (Cons kv l)
  then show ?case by (cases "fst kv = x") (auto simp: fun_eq_iff map_of_eq_None_iff)
qed simp

lemma remove_pos_distinct:
  assumes "distinct (map fst l)"
  shows "distinct (map fst (take i l @ drop (Suc i) l))"
proof (cases "i < length l")
  case True
  then have "distinct (map fst (take i l @ l ! i # drop (Suc i) l))" using assms id_take_nth_drop by metis
  then show ?thesis by auto
next
  case False
  with assms show ?thesis by simp
qed

interpretation hmap: erase_table "QHashMap_inv hash" "QHashMap_find hash" "QHashMap_insert hash" mSize "QHashMap_erase hash" for hash
proof
  fix s :: "('a, 'b) QHashMap" and k v
  assume inv: "QHashMap_inv hash s"
  let ?l = "mElems s ! hash k"
  have k: "hash k < length (mElems s)" and d: "distinct (map fst ?l)" using inv by (auto simp: QHashMap_inv_def)
  have dl: "distinct (map fst l)" if "l \<in> set ((mElems s)[hash k := l'])" "distinct (map fst l')" for l l'
    using inv that set_update_subset_insert [of "mElems s"] by (fastforce simp: QHashMap_inv_def)
  show "QHashMap_inv hash (QHashMap_insert hash s k v)"
    using inv dl [of _ "?l @ [(k, v)]"] d find_pos_end [of ?l k]
    by (auto simp: QHashMap_insert_def QHashMap_inv_def findElement_def Let_def)
  show "QHashMap_find hash (QHashMap_insert hash s k v) =
      (case QHashMap_find hash s k of None \<Rightarrow> (QHashMap_find hash s)(k \<mapsto> v) | Some _ \<Rightarrow> QHashMap_find hash s)"
    using k by (auto simp: fun_eq_iff QHashMap_find_eq QHashMap_insert_def findElement_def Let_def find_pos_map_of [of ?l k]
        nth_list_update map_add_def map_of_append split: option.splits)
  show "mSize (QHashMap_insert hash s k v) = (case QHashMap_find hash s k of None \<Rightarrow> mSize s + 1 | Some _ \<Rightarrow> mSize s)"
    by (auto simp: QHashMap_find_eq QHashMap_insert_def findElement_def Let_def find_pos_map_of [of ?l k])
  show "QHashMap_inv hash (QHashMap_erase hash s k)"
    using inv dl [OF _ remove_pos_distinct [OF d]]
    by (auto simp: QHashMap_erase_def QHashMap_inv_def findElement_def Let_def)
  show "QHashMap_find hash (QHashMap_erase hash s k) = (QHashMap_find hash s)(k := None)"
    using k remove_pos_map_of [OF d, of k]
    by (auto simp: fun_eq_iff QHashMap_find_eq QHashMap_erase_def findElement_def Let_def find_pos_map_of [of ?l k] nth_list_update)
  show "mSize (QHashMap_erase hash s k) = (case QHashMap_find hash s k of None \<Rightarrow> mSize s | Some _ \<Rightarrow> mSize s - 1)"
    by (auto simp: QHashMap_find_eq QHashMap_erase_def findElement_def Let_def find_pos_map_of [of ?l k])
qed

section \<open>QHashMap2\<close>

text \<open>
  The array of pointers is allocated without initialisation: a cell holds a null pointer, a map, or
  whatever was in memory.
\<close>

datatype ('k, 'v) entry = Null | Garbage | EntryMap "'k \<rightharpoonup> 'v"

datatype hash_error = Wild_Pointer | Use_After_Free | Null_Deref

record ('k, 'v) QHashMap2 =
  mEntries :: "('k, 'v) entry list"
  m2Size :: "32 word"

text \<open>\<open>zero i\<close>: the memory of cell \<open>i\<close> happened to be zero.\<close>

definition QHashMap2_new :: "(nat \<Rightarrow> bool) \<Rightarrow> nat \<Rightarrow> ('k, 'v) QHashMap2" where
  "QHashMap2_new zero numBuckets = \<lparr>mEntries = map (\<lambda>i. if zero i then Null else Garbage) [0..<numBuckets], m2Size = 0\<rparr>"

definition QHashMap2_insert :: "('k \<Rightarrow> nat) \<Rightarrow> ('k, 'v) QHashMap2 \<Rightarrow> 'k \<Rightarrow> 'v \<Rightarrow> hash_error + bool \<times> ('k, 'v) QHashMap2" where
  "QHashMap2_insert hash m k v =
     (let bucket = hash k;
          ins = (\<lambda>e. if e k \<noteq> None then Inr (False, m\<lparr>mEntries := (mEntries m)[bucket := EntryMap e]\<rparr>)
                 else Inr (True, m\<lparr>mEntries := (mEntries m)[bucket := EntryMap (e(k \<mapsto> v))], m2Size := m2Size m + 1\<rparr>))
      in case mEntries m ! bucket of Garbage \<Rightarrow> Inl Wild_Pointer | Null \<Rightarrow> ins Map.empty | EntryMap e \<Rightarrow> ins e)"

definition QHashMap2_update :: "('k \<Rightarrow> nat) \<Rightarrow> ('k, 'v) QHashMap2 \<Rightarrow> 'k \<Rightarrow> 'v \<Rightarrow> hash_error + ('k, 'v) QHashMap2" where
  "QHashMap2_update hash m k v =
     (let bucket = hash k;
          upd = (\<lambda>e. Inr (m\<lparr>mEntries := (mEntries m)[bucket := EntryMap (e(k \<mapsto> v))],
                            m2Size := (if e k \<noteq> None then m2Size m else m2Size m + 1)\<rparr>))
      in case mEntries m ! bucket of Garbage \<Rightarrow> Inl Wild_Pointer | Null \<Rightarrow> upd Map.empty | EntryMap e \<Rightarrow> upd e)"

definition QHashMap2_find :: "('k \<Rightarrow> nat) \<Rightarrow> ('k, 'v) QHashMap2 \<Rightarrow> 'k \<Rightarrow> hash_error + 'v option" where
  "QHashMap2_find hash m x =
     (case mEntries m ! hash x of Garbage \<Rightarrow> Inl Wild_Pointer | Null \<Rightarrow> Inr None | EntryMap e \<Rightarrow> Inr (e x))"

text \<open>A table whose memory was zero.\<close>

definition QHashMap2_inv :: "('k \<Rightarrow> nat) \<Rightarrow> ('k, 'v) QHashMap2 \<Rightarrow> bool" where
  "QHashMap2_inv hash m \<longleftrightarrow> (\<forall>k. hash k < length (mEntries m)) \<and> Garbage \<notin> set (mEntries m)"

fun entry_map :: "('k, 'v) entry \<Rightarrow> 'k \<rightharpoonup> 'v" where
  "entry_map (EntryMap e) = e"
| "entry_map _ = Map.empty"

definition hmap2_insert :: "('k \<Rightarrow> nat) \<Rightarrow> ('k, 'v) QHashMap2 \<Rightarrow> 'k \<Rightarrow> 'v \<Rightarrow> ('k, 'v) QHashMap2" where
  "hmap2_insert hash m k v = (case QHashMap2_insert hash m k v of Inl _ \<Rightarrow> m | Inr (_, m') \<Rightarrow> m')"

definition hmap2_find :: "('k \<Rightarrow> nat) \<Rightarrow> ('k, 'v) QHashMap2 \<Rightarrow> 'k \<Rightarrow> 'v option" where
  "hmap2_find hash m x = (case QHashMap2_find hash m x of Inl _ \<Rightarrow> None | Inr r \<Rightarrow> r)"

lemma QHashMap2_cell:
  assumes "QHashMap2_inv hash m"
  obtains "mEntries m ! hash k = Null" | e where "mEntries m ! hash k = EntryMap e"
proof -
  have "mEntries m ! hash k \<in> set (mEntries m)" using assms by (auto simp: QHashMap2_inv_def)
  with assms that show ?thesis by (cases "mEntries m ! hash k") (auto simp: QHashMap2_inv_def)
qed

lemma QHashMap2_find_eq: "hmap2_find hash m x = entry_map (mEntries m ! hash x) x"
  by (simp add: hmap2_find_def QHashMap2_find_def split: entry.splits)

lemma no_garbage_update: "Garbage \<notin> set es \<Longrightarrow> Garbage \<notin> set (es[i := EntryMap e])"
  using set_update_subset_insert [of es i "EntryMap e"] by auto

interpretation hmap2: insert_table "QHashMap2_inv hash" "hmap2_find hash" "hmap2_insert hash" m2Size for hash
proof
  fix s :: "('a, 'b) QHashMap2" and k v
  assume inv: "QHashMap2_inv hash s"
  have k: "hash k < length (mEntries s)" using inv by (simp add: QHashMap2_inv_def)
  show "QHashMap2_inv hash (hmap2_insert hash s k v)"
    using inv by (auto simp: hmap2_insert_def QHashMap2_insert_def QHashMap2_inv_def Let_def no_garbage_update split: entry.splits if_splits)
  show "hmap2_find hash (hmap2_insert hash s k v) =
      (case hmap2_find hash s k of None \<Rightarrow> (hmap2_find hash s)(k \<mapsto> v) | Some _ \<Rightarrow> hmap2_find hash s)"
    using k by (cases rule: QHashMap2_cell [OF inv, of k])
      (auto simp: fun_eq_iff QHashMap2_find_eq hmap2_insert_def QHashMap2_insert_def Let_def nth_list_update split: option.splits)
  show "m2Size (hmap2_insert hash s k v) = (case hmap2_find hash s k of None \<Rightarrow> m2Size s + 1 | Some _ \<Rightarrow> m2Size s)"
    using k by (cases rule: QHashMap2_cell [OF inv, of k])
      (auto simp: QHashMap2_find_eq hmap2_insert_def QHashMap2_insert_def Let_def split: option.splits)
qed

section \<open>QLinearHash\<close>

text \<open>\<open>isPrime\<close> and \<open>getDivisor\<close>; the loop of \<open>isPrime\<close> starts at 2.\<close>

function prime_loop :: "int \<Rightarrow> int \<Rightarrow> bool" where
  "prime_loop num i = (if 0 < i \<and> i * i \<le> num then (if num mod i = 0 then False else prime_loop num (i + 1)) else True)"
  by pat_completeness auto
termination
proof (relation "measure (\<lambda>(num, i). nat (num + 1 - i))", goal_cases)
  case (2 num i)
  then have "i \<le> i * i" using mult_left_mono [of 1 i i] by simp
  with 2 have "i \<le> num" by linarith
  then show ?case by simp
qed simp

definition isPrime :: "int \<Rightarrow> bool" where
  "isPrime num = (if num \<le> 1 then False else prime_loop num 2)"

function divisor_loop :: "int \<Rightarrow> int" where
  "divisor_loop temp = (if \<not> isPrime temp \<and> temp > 2 then divisor_loop (temp - 1) else temp)"
  by pat_completeness auto
termination by (relation "measure nat") auto

declare prime_loop.simps [simp del] divisor_loop.simps [simp del]

definition getDivisor :: "int \<Rightarrow> int" where
  "getDivisor m = (let temp = divisor_loop m in if temp = 2 then m else temp)"

text \<open>
  A node is its identity, key and value; the chain of a bucket is the list of the nodes one reaches
  from its pointer, or the pointer refers to a deleted node.
\<close>

type_synonym ('k, 'v) ChainNode = "nat \<times> 'k \<times> 'v"

datatype ('k, 'v) chain = Chain "('k, 'v) ChainNode list" | Dangling nat

record ('k, 'v) QLinearHash =
  mDivisor :: int
  mBuckets :: int
  mNowSize :: int
  pHashTable :: "('k, 'v) chain list"
  mTravIndex :: int
  pTravPos :: "nat option"
  next_node :: nat

definition QLinearHash_new :: "int \<Rightarrow> ('k, 'v) QLinearHash" where
  "QLinearHash_new n = \<lparr>mDivisor = getDivisor n, mBuckets = n, mNowSize = 0, pHashTable = replicate (nat n) (Chain []),
     mTravIndex = 0, pTravPos = None, next_node = 0\<rparr>"

definition lhash :: "('k, 'v) QLinearHash \<Rightarrow> 64 word \<Rightarrow> nat" where
  "lhash s hashKey = nat (uint hashKey mod mDivisor s)"

fun chain_find :: "('k, 'v) ChainNode list \<Rightarrow> 'k \<Rightarrow> 'v option" where
  "chain_find [] key = None"
| "chain_find ((_, k, v) # current) key = (if k \<noteq> key then chain_find current key else Some v)"

fun chain_remove :: "('k, 'v) ChainNode list \<Rightarrow> 'k \<Rightarrow> ('k, 'v) ChainNode list" where
  "chain_remove [] key = []"
| "chain_remove ((a, k, v) # current) key = (if k \<noteq> key then (a, k, v) # chain_remove current key else current)"

definition QLinearHash_search :: "('k, 'v) QLinearHash \<Rightarrow> 64 word \<Rightarrow> 'k \<Rightarrow> hash_error + 'v option" where
  "QLinearHash_search s hashKey key =
     (case pHashTable s ! lhash s hashKey of Dangling _ \<Rightarrow> Inl Use_After_Free | Chain ns \<Rightarrow> Inr (chain_find ns key))"

definition QLinearHash_push :: "('k, 'v) QLinearHash \<Rightarrow> 64 word \<Rightarrow> 'k \<Rightarrow> 'v \<Rightarrow> hash_error + bool \<times> ('k, 'v) QLinearHash" where
  "QLinearHash_push s hashKey key value =
     (let h = lhash s hashKey in
      case pHashTable s ! h of
        Dangling _ \<Rightarrow> Inl Use_After_Free
      | Chain ns \<Rightarrow>
          if chain_find ns key = None
          then Inr (True, s\<lparr>pHashTable := (pHashTable s)[h := Chain ((next_node s, key, value) # ns)], mNowSize := mNowSize s + 1,
                 next_node := next_node s + 1\<rparr>)
          else Inr (False, s))"

definition QLinearHash_pop :: "('k, 'v) QLinearHash \<Rightarrow> 64 word \<Rightarrow> 'k \<Rightarrow> hash_error + bool \<times> ('k, 'v) QLinearHash" where
  "QLinearHash_pop s hashKey key =
     (let h = lhash s hashKey in
      case pHashTable s ! h of
        Dangling _ \<Rightarrow> Inl Use_After_Free
      | Chain ns \<Rightarrow>
          if chain_find ns key \<noteq> None
          then Inr (True, s\<lparr>pHashTable := (pHashTable s)[h := Chain (chain_remove ns key)], mNowSize := mNowSize s - 1\<rparr>)
          else Inr (False, s))"

text \<open>\<open>clear\<close> deletes the nodes and leaves the pointers of the table as they are.\<close>

fun clear_chains :: "('k, 'v) chain list \<Rightarrow> int \<Rightarrow> hash_error + int \<times> ('k, 'v) chain list" where
  "clear_chains [] n = Inr (n, [])"
| "clear_chains (Dangling a # cs) n = Inl Use_After_Free"
| "clear_chains (Chain ns # cs) n =
     (case clear_chains cs (n - int (length ns)) of
        Inl e \<Rightarrow> Inl e
      | Inr (n', cs') \<Rightarrow> Inr (n', (case ns of [] \<Rightarrow> Chain [] | (a, _) # _ \<Rightarrow> Dangling a) # cs'))"

definition QLinearHash_clear :: "('k, 'v) QLinearHash \<Rightarrow> hash_error + ('k, 'v) QLinearHash" where
  "QLinearHash_clear s =
     (case clear_chains (pHashTable s) (mNowSize s) of
        Inl e \<Rightarrow> Inl e
      | Inr (n, cs) \<Rightarrow> Inr (s\<lparr>mNowSize := n, pHashTable := cs\<rparr>))"

text \<open>The destructor calls \<open>clear\<close> and releases the table.\<close>

definition QLinearHash_delete :: "('k, 'v) QLinearHash \<Rightarrow> hash_error + unit" where
  "QLinearHash_delete s = (case QLinearHash_clear s of Inl e \<Rightarrow> Inl e | Inr _ \<Rightarrow> Inr ())"

fun head_node :: "('k, 'v) chain \<Rightarrow> nat option" where
  "head_node (Chain []) = None"
| "head_node (Chain ((a, _) # _)) = Some a"
| "head_node (Dangling a) = Some a"

definition prepareTraversal :: "('k, 'v) QLinearHash \<Rightarrow> ('k, 'v) QLinearHash" where
  "prepareTraversal s = s\<lparr>mTravIndex := 0, pTravPos := head_node (pHashTable s ! 0)\<rparr>"

text \<open>The loop over the buckets: the index where it stops and the pointer it has read last.\<close>

function next_bucket :: "('k, 'v) QLinearHash \<Rightarrow> int \<Rightarrow> nat option \<Rightarrow> int \<times> nat option" where
  "next_bucket s i p =
     (if i < mBuckets s then
        (case head_node (pHashTable s ! nat i) of None \<Rightarrow> next_bucket s (i + 1) None | Some a \<Rightarrow> (i, Some a))
      else (i, p))"
  by pat_completeness auto
termination by (relation "measure (\<lambda>(s, i, _). nat (mBuckets s - i))") auto

declare next_bucket.simps [simp del]

text \<open>The nodes from the one with this identity on, in the chain that holds it.\<close>

definition nodes_from :: "('k, 'v) ChainNode list \<Rightarrow> nat \<Rightarrow> ('k, 'v) ChainNode list" where
  "nodes_from ns a = dropWhile (\<lambda>n. fst n \<noteq> a) ns"

fun node_at :: "('k, 'v) chain list \<Rightarrow> nat \<Rightarrow> ('k, 'v) ChainNode list" where
  "node_at [] a = []"
| "node_at (Dangling _ # cs) a = node_at cs a"
| "node_at (Chain ns # cs) a = (if nodes_from ns a \<noteq> [] then nodes_from ns a else node_at cs a)"

definition traverse :: "('k, 'v) QLinearHash \<Rightarrow> hash_error + ('k \<times> 'v) option \<times> ('k, 'v) QLinearHash" where
  "traverse s =
     (let (i, p) = (if pTravPos s = None then next_bucket s (mTravIndex s + 1) None else (mTravIndex s, pTravPos s));
          s' = s\<lparr>mTravIndex := i, pTravPos := p\<rparr>
      in if pTravPos s = None \<and> i = mBuckets s then Inr (None, s')
      else case p of
          None \<Rightarrow> Inl Null_Deref
        | Some a \<Rightarrow> (case node_at (pHashTable s) a of
              [] \<Rightarrow> Inl Use_After_Free
            | (_, k, v) # r \<Rightarrow> Inr (Some (k, v), s'\<lparr>pTravPos := (case r of [] \<Rightarrow> None | (b, _) # _ \<Rightarrow> Some b)\<rparr>)))"

section \<open>Lemmas on the divisor\<close>

lemma prime_loop_iff:
  "0 < i \<Longrightarrow> prime_loop num i \<longleftrightarrow> (\<forall>d. i \<le> d \<and> d * d \<le> num \<longrightarrow> num mod d \<noteq> 0)"
proof (induction "nat (num + 1 - i)" arbitrary: i rule: less_induct)
  case less
  show ?case
  proof (cases "i * i \<le> num")
    case True
    have "i \<le> i * i" using less.prems mult_left_mono [of 1 i i] by simp
    with True have "i \<le> num" by linarith
    then have "prime_loop num (i + 1) \<longleftrightarrow> (\<forall>d. i + 1 \<le> d \<and> d * d \<le> num \<longrightarrow> num mod d \<noteq> 0)"
      using less.hyps [of "i + 1"] less.prems True by simp
    moreover have "(\<forall>d. i \<le> d \<and> d * d \<le> num \<longrightarrow> num mod d \<noteq> 0)
        \<longleftrightarrow> num mod i \<noteq> 0 \<and> (\<forall>d. i + 1 \<le> d \<and> d * d \<le> num \<longrightarrow> num mod d \<noteq> 0)"
      using True by (metis add1_zle_eq order_le_less order_refl)
    ultimately show ?thesis using True less.prems by (subst prime_loop.simps) auto
  next
    case False
    then have "\<not> d * d \<le> num" if "i \<le> d" for d using that less.prems mult_mono [of i d i d] by linarith
    then show ?thesis using False by (subst prime_loop.simps) auto
  qed
qed

definition is_prime :: "int \<Rightarrow> bool" where
  "is_prime n \<longleftrightarrow> 1 < n \<and> (\<forall>d. 1 < d \<and> d < n \<longrightarrow> \<not> d dvd n)"

lemma small_divisor:
  fixes d n :: int
  assumes "1 < d" "d < n" "d dvd n"
  shows "\<exists>e. 2 \<le> e \<and> e * e \<le> n \<and> e dvd n"
proof -
  obtain e where n: "n = d * e" using assms(3) by (elim dvdE)
  have e: "1 < e" using n assms by (metis dual_order.strict_trans1 less_le_not_le mult.right_neutral mult_less_cancel_left_pos not_less zless_add1_eq add_0 zero_less_one order.strict_trans)
  show ?thesis
  proof (cases "d \<le> e")
    case True
    then have "d * d \<le> n" using n assms(1) by simp
    with assms show ?thesis by (intro exI [of _ d]) simp
  next
    case False
    then have "e * e \<le> n" using n e by simp
    with e n show ?thesis by (intro exI [of _ e]) simp
  qed
qed

lemma isPrime_iff: "isPrime n \<longleftrightarrow> is_prime n"
proof (cases "n \<le> 1")
  case False
  have "(\<forall>d. 2 \<le> d \<and> d * d \<le> n \<longrightarrow> n mod d \<noteq> 0) \<longleftrightarrow> (\<forall>d. 1 < d \<and> d < n \<longrightarrow> \<not> d dvd n)"
  proof
    assume *: "\<forall>d. 2 \<le> d \<and> d * d \<le> n \<longrightarrow> n mod d \<noteq> 0"
    show "\<forall>d. 1 < d \<and> d < n \<longrightarrow> \<not> d dvd n" using small_divisor [of _ n] * by (metis dvd_imp_mod_0)
  next
    assume *: "\<forall>d. 1 < d \<and> d < n \<longrightarrow> \<not> d dvd n"
    have "d < n" if "2 \<le> d" "d * d \<le> n" for d using that mult_strict_left_mono [of 1 d d] by linarith
    with * show "\<forall>d. 2 \<le> d \<and> d * d \<le> n \<longrightarrow> n mod d \<noteq> 0" by auto
  qed
  with False show ?thesis by (simp add: isPrime_def is_prime_def prime_loop_iff)
qed (simp add: isPrime_def is_prime_def)

lemma divisor_loop_spec:
  "2 \<le> m \<Longrightarrow> is_prime (divisor_loop m) \<and> divisor_loop m \<le> m \<and> (\<forall>p. divisor_loop m < p \<and> p \<le> m \<longrightarrow> \<not> is_prime p)"
proof (induction m rule: divisor_loop.induct)
  case (1 m)
  show ?case
  proof (cases "\<not> isPrime m \<and> m > 2")
    case True
    then have "divisor_loop m = divisor_loop (m - 1)" by (subst divisor_loop.simps) simp
    then show ?thesis using 1 True by (smt (verit) isPrime_iff)
  next
    case False
    then have "divisor_loop m = m" by (subst divisor_loop.simps) auto
    moreover have "is_prime m"
    proof (cases "m = 2")
      case True
      then show ?thesis by (auto simp: is_prime_def)
    next
      case ne: False
      then show ?thesis using False 1 by (simp add: isPrime_iff)
    qed
    ultimately show ?thesis by auto
  qed
qed

lemma getDivisor_spec:
  assumes "0 < m"
  shows "0 < getDivisor m \<and> getDivisor m \<le> m
    \<and> (2 \<le> m \<longrightarrow> is_prime (getDivisor m) \<and> (\<forall>p. getDivisor m < p \<and> p \<le> m \<longrightarrow> \<not> is_prime p))"
proof (cases "2 \<le> m")
  case True
  note d = divisor_loop_spec [OF True]
  have two: "m = 2" if "divisor_loop m = 2"
  proof (rule ccontr)
    assume "m \<noteq> 2"
    then have "3 \<le> m" using True by simp
    moreover have "\<not> d dvd 3" if "1 < d" "d < 3" for d :: int
    proof -
      from that have "d = 2" by simp
      then show ?thesis by simp
    qed
    then have "is_prime 3" by (simp add: is_prime_def)
    ultimately show False using d that by force
  qed
  then have "getDivisor m = divisor_loop m" by (auto simp: getDivisor_def Let_def)
  with d show ?thesis by (auto simp: is_prime_def)
next
  case False
  with assms have "m = 1" by simp
  then show ?thesis by (simp add: getDivisor_def divisor_loop.simps isPrime_def)
qed

section \<open>Lemmas on the chained table\<close>

fun chain_nodes :: "('k, 'v) chain \<Rightarrow> ('k, 'v) ChainNode list" where
  "chain_nodes (Chain ns) = ns"
| "chain_nodes (Dangling _) = []"

definition chains_of :: "('k, 'v) QLinearHash \<Rightarrow> ('k, 'v) ChainNode list list" where
  "chains_of s = map chain_nodes (pHashTable s)"

fun node_keys :: "('k, 'v) ChainNode list \<Rightarrow> 'k list" where
  "node_keys [] = []"
| "node_keys ((_, k, _) # ns) = k # node_keys ns"

text \<open>
  A table that has not been cleared: no pointer dangles, every node is in the bucket of its key
  under the hash values \<open>h\<close> that the client passes, and keys and identities are unique.
\<close>

definition QLinearHash_inv :: "('k \<Rightarrow> 64 word) \<Rightarrow> ('k, 'v) QLinearHash \<Rightarrow> bool" where
  "QLinearHash_inv h s \<longleftrightarrow> 0 < mDivisor s \<and> mDivisor s \<le> mBuckets s \<and> length (pHashTable s) = nat (mBuckets s)
     \<and> (\<forall>a. Dangling a \<notin> set (pHashTable s))
     \<and> (\<forall>i < length (pHashTable s). distinct (node_keys (chains_of s ! i)) \<and> (\<forall>k\<in>set (node_keys (chains_of s ! i)). lhash s (h k) = i))
     \<and> distinct (map fst (concat (chains_of s))) \<and> (\<forall>n\<in>set (concat (chains_of s)). fst n < next_node s)"

definition lh_find :: "('k \<Rightarrow> 64 word) \<Rightarrow> ('k, 'v) QLinearHash \<Rightarrow> 'k \<Rightarrow> 'v option" where
  "lh_find h s k = (case QLinearHash_search s (h k) k of Inl _ \<Rightarrow> None | Inr r \<Rightarrow> r)"

definition lh_insert :: "('k \<Rightarrow> 64 word) \<Rightarrow> ('k, 'v) QLinearHash \<Rightarrow> 'k \<Rightarrow> 'v \<Rightarrow> ('k, 'v) QLinearHash" where
  "lh_insert h s k v = (case QLinearHash_push s (h k) k v of Inl _ \<Rightarrow> s | Inr (_, s') \<Rightarrow> s')"

definition lh_erase :: "('k \<Rightarrow> 64 word) \<Rightarrow> ('k, 'v) QLinearHash \<Rightarrow> 'k \<Rightarrow> ('k, 'v) QLinearHash" where
  "lh_erase h s k = (case QLinearHash_pop s (h k) k of Inl _ \<Rightarrow> s | Inr (_, s') \<Rightarrow> s')"

lemma lhash_less: "QLinearHash_inv h s \<Longrightarrow> lhash s hk < length (pHashTable s)"
proof -
  assume "QLinearHash_inv h s"
  then have "0 < mDivisor s" "mDivisor s \<le> mBuckets s" "length (pHashTable s) = nat (mBuckets s)" by (auto simp: QLinearHash_inv_def)
  moreover have "uint hk mod mDivisor s < mDivisor s" using calculation by simp
  ultimately show ?thesis unfolding lhash_def by linarith
qed

lemma chain_find_None: "chain_find ns k = None \<longleftrightarrow> k \<notin> set (node_keys ns)"
  by (induction ns k rule: chain_find.induct) auto

lemma chain_remove_keys: "set (node_keys (chain_remove ns k)) \<subseteq> set (node_keys ns)"
  by (induction ns k rule: chain_remove.induct) auto

lemma chain_remove_nodes: "set (chain_remove ns k) \<subseteq> set ns"
  by (induction ns k rule: chain_remove.induct) auto

lemma chain_find_remove:
  "distinct (node_keys ns) \<Longrightarrow> chain_find (chain_remove ns k) x = (if x = k then None else chain_find ns x)"
  by (induction ns k rule: chain_remove.induct) (auto simp: chain_find_None)

lemma chain_remove_distinct: "distinct (node_keys ns) \<Longrightarrow> distinct (node_keys (chain_remove ns k))"
proof (induction ns k rule: chain_remove.induct)
  case (2 a k v ns key)
  then show ?case using chain_remove_keys [of ns key] by auto
qed simp

lemma chain_remove_ids: "distinct (map fst ns) \<Longrightarrow> distinct (map fst (chain_remove ns k))"
proof (induction ns k rule: chain_remove.induct)
  case (2 a k v ns key)
  have "a \<notin> fst ` set (chain_remove ns key)" using 2(2) chain_remove_nodes [of ns key] by auto
  with 2 show ?case by simp
qed simp

lemma inv_chain:
  assumes "QLinearHash_inv h s"
  obtains ns where "pHashTable s ! lhash s (h k) = Chain ns" "chains_of s ! lhash s (h k) = ns"
proof -
  have "pHashTable s ! lhash s (h k) \<in> set (pHashTable s)" using lhash_less [OF assms] by simp
  with assms obtain ns where "pHashTable s ! lhash s (h k) = Chain ns"
    by (cases "pHashTable s ! lhash s (h k)") (auto simp: QLinearHash_inv_def)
  moreover from this have "chains_of s ! lhash s (h k) = ns" using lhash_less [OF assms] by (simp add: chains_of_def)
  ultimately show ?thesis using that by blast
qed

text \<open>Exchanging one chain for another keeps the invariant, under the conditions on that chain.\<close>

lemma concat_update_distinct:
  assumes "i < length xss" "distinct (map f (concat xss))" "distinct (map f ys)"
    and "\<And>y. y \<in> set ys \<Longrightarrow> y \<in> set (xss ! i) \<or> f y \<notin> f ` set (concat xss)"
  shows "distinct (map f (concat (xss[i := ys])))"
proof -
  have x: "xss = take i xss @ xss ! i # drop (Suc i) xss" using assms(1) by (rule id_take_nth_drop)
  then have "concat xss = concat (take i xss) @ xss ! i @ concat (drop (Suc i) xss)" by (metis concat.simps(2) concat_append)
  then have d: "distinct (map f (concat (take i xss) @ xss ! i @ concat (drop (Suc i) xss)))"
    and all: "f ` set (concat xss) = f ` (set (concat (take i xss)) \<union> set (xss ! i) \<union> set (concat (drop (Suc i) xss)))"
    using assms(2) by auto
  have "concat (xss[i := ys]) = concat (take i xss) @ ys @ concat (drop (Suc i) xss)"
    using assms(1) by (simp add: upd_conv_take_nth_drop)
  moreover have "f y \<notin> f ` set (concat (take i xss)) \<and> f y \<notin> f ` set (concat (drop (Suc i) xss))" if "y \<in> set ys" for y
  proof (cases "y \<in> set (xss ! i)")
    case True
    then have "f y \<in> f ` set (xss ! i)" by blast
    with d show ?thesis by (simp only: map_append distinct_append set_append set_map) blast
  next
    case False
    with assms(4) [OF that] have "f y \<notin> f ` set (concat xss)" by blast
    then show ?thesis unfolding all by blast
  qed
  then have "f ` set ys \<inter> f ` set (concat (take i xss)) = {}" "f ` set ys \<inter> f ` set (concat (drop (Suc i) xss)) = {}" by blast+
  ultimately show ?thesis using d assms(3) by (simp only: map_append distinct_append set_append set_map) blast
qed

lemma inv_update:
  assumes inv: "QLinearHash_inv h s" and i: "i < length (pHashTable s)"
    and keys: "distinct (node_keys ns)" "\<forall>k\<in>set (node_keys ns). lhash s (h k) = i"
    and ids: "distinct (map fst ns)" "\<forall>n\<in>set ns. n \<in> set (chains_of s ! i) \<or> fst n = next_node s"
  shows "QLinearHash_inv h (s\<lparr>pHashTable := (pHashTable s)[i := Chain ns], mNowSize := m, next_node := Suc (next_node s)\<rparr>)
    \<and> (next_node s \<notin> fst ` set ns \<longrightarrow> QLinearHash_inv h (s\<lparr>pHashTable := (pHashTable s)[i := Chain ns], mNowSize := m\<rparr>))"
proof -
  have ch: "chains_of (s\<lparr>pHashTable := (pHashTable s)[i := Chain ns], mNowSize := m, next_node := x\<rparr>) = (chains_of s)[i := ns]" for x
    by (simp add: chains_of_def map_update)
  have lh: "lhash (s\<lparr>pHashTable := t, mNowSize := m, next_node := x\<rparr>) = lhash s" for t x by (simp add: lhash_def fun_eq_iff)
  have old: "fst n < next_node s" if "n \<in> set (concat (chains_of s))" for n using inv that unfolding QLinearHash_inv_def by blast
  have il: "i < length (chains_of s)" using i by (simp add: chains_of_def)
  have dist: "distinct (map fst (concat ((chains_of s)[i := ns])))"
  proof (rule concat_update_distinct [OF il _ ids(1)])
    show "distinct (map fst (concat (chains_of s)))" using inv by (simp add: QLinearHash_inv_def)
    show "y \<in> set (chains_of s ! i) \<or> fst y \<notin> fst ` set (concat (chains_of s))" if "y \<in> set ns" for y
      using ids(2) that old by fastforce
  qed
  have "n \<in> set (concat (chains_of s)) \<or> n \<in> set ns" if "n \<in> set (concat ((chains_of s)[i := ns]))" for n
    using that set_update_subset_insert [of "chains_of s" i ns] by fastforce
  then have bound: "fst n < next_node s \<or> fst n = next_node s \<and> n \<in> set ns" if n: "n \<in> set (concat ((chains_of s)[i := ns]))" for n
  proof (cases "n \<in> set (concat (chains_of s))")
    case False
    have "set (chains_of s ! i) \<subseteq> set (concat (chains_of s))" using nth_mem [OF il] by auto
    with False ids(2) \<open>\<And>n. n \<in> set (concat ((chains_of s)[i := ns])) \<Longrightarrow> n \<in> set (concat (chains_of s)) \<or> n \<in> set ns\<close> [OF n]
    show ?thesis by blast
  qed (use old in blast)
  have dang: "\<forall>a. Dangling a \<notin> set ((pHashTable s)[i := Chain ns])"
    using inv set_update_subset_insert [of "pHashTable s" i "Chain ns"] by (auto simp: QLinearHash_inv_def)
  have loc: "\<forall>j < length (pHashTable s). distinct (node_keys ((chains_of s)[i := ns] ! j))
      \<and> (\<forall>k\<in>set (node_keys ((chains_of s)[i := ns] ! j)). lhash s (h k) = j)"
  proof (intro allI impI)
    fix j assume "j < length (pHashTable s)"
    then show "distinct (node_keys ((chains_of s)[i := ns] ! j)) \<and> (\<forall>k\<in>set (node_keys ((chains_of s)[i := ns] ! j)). lhash s (h k) = j)"
      using inv keys i by (cases "j = i") (auto simp: QLinearHash_inv_def chains_of_def)
  qed
  have all: "QLinearHash_inv h (s\<lparr>pHashTable := (pHashTable s)[i := Chain ns], mNowSize := m, next_node := x\<rparr>)"
    if "\<forall>n\<in>set (concat ((chains_of s)[i := ns])). fst n < x" for x
    unfolding QLinearHash_inv_def ch lh using inv dist dang loc that by (simp add: QLinearHash_inv_def)
  have "\<forall>n\<in>set (concat ((chains_of s)[i := ns])). fst n < Suc (next_node s)" using bound less_Suc_eq by blast
  moreover have "\<forall>n\<in>set (concat ((chains_of s)[i := ns])). fst n < next_node s" if "next_node s \<notin> fst ` set ns"
    using bound that by (metis image_eqI)
  ultimately show ?thesis using all [of "Suc (next_node s)"] all [of "next_node s"] by simp
qed

lemma lh_find_eq: "QLinearHash_inv h s \<Longrightarrow> lh_find h s k = chain_find (chains_of s ! lhash s (h k)) k"
  by (erule inv_chain [where k = k]) (simp add: lh_find_def QLinearHash_search_def)

lemma distinct_concat_member: "distinct (map f (concat xss)) \<Longrightarrow> xs \<in> set xss \<Longrightarrow> distinct (map f xs)"
  by (induction xss) auto

lemma inv_keys:
  assumes "QLinearHash_inv h s"
  shows "distinct (node_keys (chains_of s ! lhash s hk))" "\<And>k. k \<in> set (node_keys (chains_of s ! lhash s hk)) \<Longrightarrow> lhash s (h k) = lhash s hk"
    "distinct (map fst (chains_of s ! lhash s hk))" "\<And>n. n \<in> set (chains_of s ! lhash s hk) \<Longrightarrow> fst n < next_node s"
proof -
  have i: "lhash s hk < length (pHashTable s)" using lhash_less [OF assms] .
  then show "distinct (node_keys (chains_of s ! lhash s hk))" "\<And>k. k \<in> set (node_keys (chains_of s ! lhash s hk)) \<Longrightarrow> lhash s (h k) = lhash s hk"
    using assms unfolding QLinearHash_inv_def by blast+
  have m: "chains_of s ! lhash s hk \<in> set (chains_of s)" using i by (simp add: chains_of_def)
  show "distinct (map fst (chains_of s ! lhash s hk))"
    using assms by (intro distinct_concat_member [OF _ m]) (simp add: QLinearHash_inv_def)
  show "fst n < next_node s" if "n \<in> set (chains_of s ! lhash s hk)" for n
    using assms m that by (auto simp: QLinearHash_inv_def)
qed

lemma lh_find_update:
  assumes "QLinearHash_inv h s" "QLinearHash_inv h s'" "mDivisor s' = mDivisor s"
    and "chains_of s' = (chains_of s)[lhash s (h k) := ns]" "\<And>x. x \<noteq> k \<Longrightarrow> chain_find ns x = chain_find (chains_of s ! lhash s (h k)) x"
  shows "lh_find h s' = (lh_find h s)(k := chain_find ns k)"
proof
  fix x
  have lh: "lhash s' = lhash s" using assms(3) by (simp add: lhash_def fun_eq_iff)
  have "lhash s (h k) < length (chains_of s)" using lhash_less [OF assms(1)] by (simp add: chains_of_def)
  then show "lh_find h s' x = ((lh_find h s)(k := chain_find ns k)) x"
    using assms(4,5) by (auto simp: lh_find_eq [OF assms(1)] lh_find_eq [OF assms(2)] lh nth_list_update)
qed

interpretation lhash: erase_table "QLinearHash_inv h" "lh_find h" "lh_insert h" mNowSize "lh_erase h" for h
proof
  fix s :: "('a, 'b) QLinearHash" and k v
  assume inv: "QLinearHash_inv h s"
  let ?i = "lhash s (h k)"
  obtain ns where ns: "pHashTable s ! ?i = Chain ns" "chains_of s ! ?i = ns" using inv_chain [OF inv] by blast
  note i = lhash_less [OF inv, of "h k"]
  note keys = inv_keys [OF inv, where hk = "h k", unfolded ns(2)]
  have find: "lh_find h s k = chain_find ns k" using lh_find_eq [OF inv] ns(2) by simp
  let ?new = "(next_node s, k, v) # ns"
  let ?s1 = "s\<lparr>pHashTable := (pHashTable s)[?i := Chain ?new], mNowSize := mNowSize s + 1, next_node := next_node s + 1\<rparr>"
  let ?s2 = "s\<lparr>pHashTable := (pHashTable s)[?i := Chain (chain_remove ns k)], mNowSize := mNowSize s - 1\<rparr>"
  have ins: "lh_insert h s k v = (if lh_find h s k = None then ?s1 else s)"
    using ns(1) by (simp add: lh_insert_def QLinearHash_push_def Let_def find)
  have era: "lh_erase h s k = (if lh_find h s k = None then s else ?s2)"
    using ns(1) by (simp add: lh_erase_def QLinearHash_pop_def Let_def find)
  have i1: "QLinearHash_inv h ?s1" if none: "chain_find ns k = None"
  proof -
    have d: "distinct (node_keys ?new)" and l: "\<forall>x\<in>set (node_keys ?new). lhash s (h x) = ?i"
      using keys(1,2) none by (auto simp: chain_find_None)
    have "next_node s \<notin> fst ` set ns" using keys(4) by (metis imageE less_irrefl)
    then have f: "distinct (map fst ?new)" using keys(3) by simp
    have n: "\<forall>n\<in>set ?new. n \<in> set (chains_of s ! ?i) \<or> fst n = next_node s" using ns(2) by simp
    from conjunct1 [OF inv_update [OF inv i d l f n]] show ?thesis unfolding Suc_eq_plus1 .
  qed
  have i2: "QLinearHash_inv h ?s2"
  proof -
    have "next_node s \<notin> fst ` set (chain_remove ns k)"
      using chain_remove_nodes [of ns k] keys(4) by (metis imageE less_irrefl subset_iff)
    moreover have "\<forall>x\<in>set (node_keys (chain_remove ns k)). lhash s (h x) = ?i" using keys(2) chain_remove_keys [of ns k] by blast
    moreover have "\<forall>n\<in>set (chain_remove ns k). n \<in> set (chains_of s ! ?i) \<or> fst n = next_node s"
      using chain_remove_nodes [of ns k] ns(2) by blast
    ultimately show ?thesis
      using inv_update [OF inv i chain_remove_distinct [OF keys(1)] _ chain_remove_ids [OF keys(3)]] by blast
  qed
  have c1: "chains_of ?s1 = (chains_of s)[?i := ?new]" "chains_of ?s2 = (chains_of s)[?i := chain_remove ns k]"
    by (simp_all add: chains_of_def map_update)
  show "QLinearHash_inv h (lh_insert h s k v)" using ins i1 inv find by simp
  show "lh_find h (lh_insert h s k v) = (case lh_find h s k of None \<Rightarrow> (lh_find h s)(k \<mapsto> v) | Some _ \<Rightarrow> lh_find h s)"
    using lh_find_update [OF inv i1 _ c1(1)] ns(2) by (auto simp: ins find split: option.split)
  show "mNowSize (lh_insert h s k v) = (case lh_find h s k of None \<Rightarrow> mNowSize s + 1 | Some _ \<Rightarrow> mNowSize s)"
    by (auto simp: ins split: option.split)
  show "QLinearHash_inv h (lh_erase h s k)" using era i2 inv by simp
  show "lh_find h (lh_erase h s k) = (lh_find h s)(k := None)"
    using lh_find_update [OF inv i2 _ c1(2)] ns(2) chain_find_remove [OF keys(1)] by (auto simp: era find fun_upd_idem)
  show "mNowSize (lh_erase h s k) = (case lh_find h s k of None \<Rightarrow> mNowSize s | Some _ \<Rightarrow> mNowSize s - 1)"
    by (auto simp: era split: option.split)
qed

lemma QLinearHash_new_inv:
  fixes h :: "'k \<Rightarrow> 64 word" and s :: "('k, 'v) QLinearHash"
  assumes "0 < n" "s = QLinearHash_new n"
  shows "QLinearHash_inv h s" "lh_find h s = Map.empty" "mNowSize s = 0"
proof -
  have c: "chains_of s = replicate (nat n) []" "length (pHashTable s) = nat n"
    using assms(2) by (simp_all add: chains_of_def QLinearHash_new_def)
  show inv: "QLinearHash_inv h s"
    using getDivisor_spec [OF assms(1)] assms(2) unfolding QLinearHash_inv_def c by (auto simp: QLinearHash_new_def)
  have "lhash s (h k) < nat n" for k using lhash_less [OF inv, of "h k"] c(2) by simp
  then show "lh_find h s = Map.empty" by (simp add: fun_eq_iff lh_find_eq [OF inv] c)
  show "mNowSize s = 0" using assms(2) by (simp add: QLinearHash_new_def)
qed

section \<open>Lemmas on the traversal\<close>

lemma nodes_from_iff: "nodes_from ns a \<noteq> [] \<longleftrightarrow> a \<in> fst ` set ns"
  by (auto simp: nodes_from_def dropWhile_eq_Nil_conv)

lemma nodes_from_hd: "nodes_from ns a = n # r \<Longrightarrow> fst n = a"
  using hd_dropWhile [of "\<lambda>n. fst n \<noteq> a" ns] by (simp add: nodes_from_def)

lemma nodes_from_next:
  "distinct (map fst ns) \<Longrightarrow> nodes_from ns a = n # m # r \<Longrightarrow> nodes_from ns (fst m) = m # r"
proof (induction ns)
  case (Cons x ns)
  show ?case
  proof (cases "fst x = a")
    case True
    with Cons.prems(2) have "x = n" "ns = m # r" by (auto simp: nodes_from_def)
    with Cons.prems(1) show ?thesis by (auto simp: nodes_from_def)
  next
    case False
    with Cons.prems have f: "nodes_from ns a = n # m # r" by (simp add: nodes_from_def)
    then have "m \<in> set ns" unfolding nodes_from_def by (metis list.set_intros(1,2) set_dropWhileD)
    then have "fst m \<noteq> fst x" using Cons.prems(1) by (metis distinct.simps(2) image_eqI list.set_map list.simps(9))
    with Cons.IH [OF _ f] Cons.prems(1) show ?thesis by (simp add: nodes_from_def)
  qed
qed (simp add: nodes_from_def)

lemma node_at_chain:
  "distinct (map fst (concat (map chain_nodes cs))) \<Longrightarrow> i < length cs \<Longrightarrow> a \<in> fst ` set (chain_nodes (cs ! i)) \<Longrightarrow>
   node_at cs a = nodes_from (chain_nodes (cs ! i)) a"
proof (induction cs arbitrary: i)
  case (Cons c cs)
  show ?case
  proof (cases i)
    case 0
    then show ?thesis using Cons.prems(3) nodes_from_iff [of "chain_nodes c" a] by (cases c) auto
  next
    case (Suc j)
    then have j: "j < length cs" "a \<in> fst ` set (chain_nodes (cs ! j))" using Cons.prems by auto
    then have "a \<in> fst ` set (concat (map chain_nodes cs))" using nth_mem [OF j(1)] by fastforce
    then have "a \<notin> fst ` set (chain_nodes c)" using Cons.prems(1) by auto
    then have "nodes_from (chain_nodes c) a = []" using nodes_from_iff by blast
    with Cons.IH [OF _ j] Cons.prems(1) Suc show ?thesis by (cases c) auto
  qed
qed simp

lemma head_node_chain: "\<forall>a. c \<noteq> Dangling a \<Longrightarrow> head_node c = (case chain_nodes c of [] \<Rightarrow> None | (a, _) # _ \<Rightarrow> Some a)"
  by (cases c rule: head_node.cases) auto

lemma inv_head:
  assumes "QLinearHash_inv h s" "0 \<le> i" "i < mBuckets s"
  shows "head_node (pHashTable s ! nat i) = (case chains_of s ! nat i of [] \<Rightarrow> None | (a, _) # _ \<Rightarrow> Some a)"
proof -
  have "nat i < length (pHashTable s)" using assms by (auto simp: QLinearHash_inv_def)
  moreover from this have "\<forall>a. pHashTable s ! nat i \<noteq> Dangling a" using assms(1) nth_mem unfolding QLinearHash_inv_def by metis
  ultimately show ?thesis by (simp add: head_node_chain chains_of_def)
qed

lemma length_chains_of: "QLinearHash_inv h s \<Longrightarrow> length (chains_of s) = nat (mBuckets s)"
  by (simp add: chains_of_def QLinearHash_inv_def)

lemma next_bucket_spec:
  assumes inv: "QLinearHash_inv h s"
  shows "0 \<le> i \<Longrightarrow> i \<le> mBuckets s \<Longrightarrow> next_bucket s i None = (j, p) \<Longrightarrow>
    j \<le> mBuckets s \<and> i \<le> j \<and> concat (drop (nat i) (chains_of s)) = concat (drop (nat j) (chains_of s))
    \<and> (if j = mBuckets s then p = None else \<exists>n r. chains_of s ! nat j = n # r \<and> p = Some (fst n))"
proof (induction "nat (mBuckets s - i)" arbitrary: i rule: less_induct)
  case less
  show ?case
  proof (cases "i < mBuckets s")
    case True
    then have il: "nat i < length (chains_of s)" using less.prems(1) length_chains_of [OF inv] by simp
    show ?thesis
    proof (cases "chains_of s ! nat i")
      case Nil
      then have nx: "next_bucket s (i + 1) None = (j, p)"
        using less.prems(3) True inv_head [OF inv less.prems(1) True] by (subst (asm) next_bucket.simps) simp
      have "drop (nat i) (chains_of s) = [] # drop (nat (i + 1)) (chains_of s)"
        using Cons_nth_drop_Suc [OF il] Nil less.prems(1) by (simp add: Suc_nat_eq_nat_zadd1 add.commute)
      with less.hyps [of "i + 1", OF _ _ _ nx] True less.prems(1) show ?thesis by auto
    next
      case (Cons n r)
      obtain a k v where n: "n = (a, k, v)" by (cases n)
      have "(j, p) = (i, Some a)"
        using less.prems(3) True inv_head [OF inv less.prems(1) True] Cons n by (subst (asm) next_bucket.simps) simp
      with True Cons n show ?thesis by simp
    qed
  next
    case False
    then have "(j, p) = (i, None)" using less.prems(3) by (subst (asm) next_bucket.simps) simp
    with False less.prems show ?thesis by simp
  qed
qed

text \<open>What is left to visit, and when a traversal is under way on an unchanged table.\<close>

definition todo :: "('k, 'v) QLinearHash \<Rightarrow> ('k, 'v) ChainNode list" where
  "todo s = (case pTravPos s of None \<Rightarrow> [] | Some a \<Rightarrow> nodes_from (chains_of s ! nat (mTravIndex s)) a)
     @ concat (drop (Suc (nat (mTravIndex s))) (chains_of s))"

definition trav_ok :: "('k \<Rightarrow> 64 word) \<Rightarrow> ('k, 'v) QLinearHash \<Rightarrow> bool" where
  "trav_ok h s \<longleftrightarrow> QLinearHash_inv h s \<and> 0 \<le> mTravIndex s \<and> mTravIndex s < mBuckets s
     \<and> (\<forall>a. pTravPos s = Some a \<longrightarrow> a \<in> fst ` set (chains_of s ! nat (mTravIndex s)))"

lemma trav_irrelevant [simp]:
  "QLinearHash_inv h (s\<lparr>mTravIndex := i\<rparr>) \<longleftrightarrow> QLinearHash_inv h s" "chains_of (s\<lparr>mTravIndex := i\<rparr>) = chains_of s"
  "QLinearHash_inv h (s\<lparr>pTravPos := p\<rparr>) \<longleftrightarrow> QLinearHash_inv h s" "chains_of (s\<lparr>pTravPos := p\<rparr>) = chains_of s"
  by (simp_all add: QLinearHash_inv_def chains_of_def lhash_def)

lemma visit:
  assumes inv: "QLinearHash_inv h s" and i: "0 \<le> i" "i < mBuckets s" and a: "a \<in> fst ` set (chains_of s ! nat i)"
  obtains k v r where "node_at (pHashTable s) a = (a, k, v) # r" "nodes_from (chains_of s ! nat i) a = (a, k, v) # r"
    "\<And>b x r'. r = (b, x) # r' \<Longrightarrow> nodes_from (chains_of s ! nat i) b = r \<and> b \<in> fst ` set (chains_of s ! nat i)"
proof -
  let ?ns = "chains_of s ! nat i"
  have il: "nat i < length (pHashTable s)" using inv i by (auto simp: QLinearHash_inv_def)
  obtain n r where n: "nodes_from ?ns a = n # r" using a nodes_from_iff by (metis list.exhaust)
  obtain k v where kv: "n = (a, k, v)" using nodes_from_hd [OF n] by (cases n) auto
  have d: "distinct (map fst (concat (chains_of s)))" using inv by (simp add: QLinearHash_inv_def)
  have "node_at (pHashTable s) a = nodes_from ?ns a"
    using node_at_chain [of "pHashTable s" "nat i" a] d a il by (simp add: chains_of_def)
  moreover have "nodes_from ?ns b = r \<and> b \<in> fst ` set ?ns" if "r = (b, x) # r'" for b x r'
  proof -
    have "?ns \<in> set (chains_of s)" using il by (simp add: chains_of_def)
    from distinct_concat_member [OF d this] n that have "nodes_from ?ns b = (b, x) # r'" using nodes_from_next by fastforce
    then show ?thesis using that nodes_from_iff [of ?ns b] by simp
  qed
  ultimately show ?thesis using that n kv by metis
qed

lemma traverse_step:
  assumes ok: "trav_ok h s"
  shows "case todo s of
      [] \<Rightarrow> \<exists>s'. traverse s = Inr (None, s') \<and> mTravIndex s' = mBuckets s' \<and> pTravPos s' = None
    | n # r \<Rightarrow> \<exists>s'. traverse s = Inr (Some (snd n), s') \<and> trav_ok h s' \<and> todo s' = r"
proof -
  have inv: "QLinearHash_inv h s" and x: "0 \<le> mTravIndex s" "mTravIndex s < mBuckets s" using ok by (auto simp: trav_ok_def)
  have go: "\<exists>s'. (case p of None \<Rightarrow> Inl Null_Deref | Some a \<Rightarrow> (case node_at (pHashTable s) a of
              [] \<Rightarrow> Inl Use_After_Free
            | (_, k, v) # r \<Rightarrow> Inr (Some (k, v), s\<lparr>mTravIndex := i, pTravPos := p, pTravPos := (case r of [] \<Rightarrow> None | (b, _) # _ \<Rightarrow> Some b)\<rparr>)))
        = Inr (Some (snd n), s') \<and> trav_ok h s' \<and> todo s' = r'"
    if i: "0 \<le> i" "i < mBuckets s" "p = Some a" "a \<in> fst ` set (chains_of s ! nat i)"
      and n: "nodes_from (chains_of s ! nat i) a @ concat (drop (Suc (nat i)) (chains_of s)) = n # r'" for i p a n r'
  proof -
    from visit [OF inv i(1,2,4)] obtain k v r where v: "node_at (pHashTable s) a = (a, k, v) # r"
      "nodes_from (chains_of s ! nat i) a = (a, k, v) # r"
      "\<And>b x r'. r = (b, x) # r' \<Longrightarrow> nodes_from (chains_of s ! nat i) b = r \<and> b \<in> fst ` set (chains_of s ! nat i)" by blast
    then show ?thesis using i n inv by (cases r) (auto simp: trav_ok_def todo_def)
  qed
  show ?thesis
  proof (cases "pTravPos s")
    case (Some a)
    then have a: "a \<in> fst ` set (chains_of s ! nat (mTravIndex s))" using ok by (simp add: trav_ok_def)
    then have "nodes_from (chains_of s ! nat (mTravIndex s)) a \<noteq> []" using nodes_from_iff by blast
    then obtain n r where n: "todo s = n # r" using Some by (cases "todo s") (auto simp: todo_def)
    have "nodes_from (chains_of s ! nat (mTravIndex s)) a @ concat (drop (Suc (nat (mTravIndex s))) (chains_of s)) = n # r"
      using n Some by (simp add: todo_def)
    from go [OF x refl a this] n Some show ?thesis by (simp add: traverse_def)
  next
    case None
    obtain j p where nb: "next_bucket s (mTravIndex s + 1) None = (j, p)" by fastforce
    have "nat (mTravIndex s + 1) = Suc (nat (mTravIndex s))" using x(1) by simp
    with next_bucket_spec [OF inv _ _ nb] x have j: "j \<le> mBuckets s" "mTravIndex s + 1 \<le> j"
      "todo s = concat (drop (nat j) (chains_of s))"
      "if j = mBuckets s then p = None else \<exists>n r. chains_of s ! nat j = n # r \<and> p = Some (fst n)"
      using None by (auto simp: todo_def)
    show ?thesis
    proof (cases "j = mBuckets s")
      case True
      then have "todo s = []" using j(3) length_chains_of [OF inv] by simp
      then show ?thesis using None nb True j(4) by (simp add: traverse_def)
    next
      case False
      then have jb: "0 \<le> j" "j < mBuckets s" using j(1,2) x(1) by auto
      from j(4) False obtain n r where nr: "chains_of s ! nat j = n # r" "p = Some (fst n)" by auto
      have "drop (nat j) (chains_of s) = (n # r) # drop (Suc (nat j)) (chains_of s)"
        using Cons_nth_drop_Suc [of "nat j" "chains_of s"] nr(1) jb length_chains_of [OF inv] by simp
      then have t: "todo s = n # r @ concat (drop (Suc (nat j)) (chains_of s))" using j(3) by simp
      have f: "nodes_from (chains_of s ! nat j) (fst n) = n # r" by (simp add: nr(1) nodes_from_def)
      have a: "fst n \<in> fst ` set (chains_of s ! nat j)" by (simp add: nr(1))
      from go [OF jb refl a, of n "r @ concat (drop (Suc (nat j)) (chains_of s))"] f t None nb False nr(2)
      show ?thesis by (simp add: traverse_def)
    qed
  qed
qed

text \<open>A client that calls \<open>traverse\<close> at most \<open>n\<close> times, until it reports the end.\<close>

fun collect :: "nat \<Rightarrow> ('k, 'v) QLinearHash \<Rightarrow> hash_error + ('k \<times> 'v) list \<times> ('k, 'v) QLinearHash" where
  "collect 0 s = Inr ([], s)"
| "collect (Suc n) s =
     (case traverse s of
        Inl e \<Rightarrow> Inl e
      | Inr (None, s') \<Rightarrow> Inr ([], s')
      | Inr (Some kv, s') \<Rightarrow> (case collect n s' of Inl e \<Rightarrow> Inl e | Inr (kvs, s'') \<Rightarrow> Inr (kv # kvs, s'')))"

lemma collect_todo:
  "trav_ok h s \<Longrightarrow> length (todo s) < n \<Longrightarrow>
   \<exists>s'. collect n s = Inr (map snd (todo s), s') \<and> mTravIndex s' = mBuckets s' \<and> pTravPos s' = None"
proof (induction n arbitrary: s)
  case (Suc n)
  show ?case
  proof (cases "todo s")
    case Nil
    with traverse_step [OF Suc.prems(1)] show ?thesis by auto
  next
    case (Cons x r)
    with traverse_step [OF Suc.prems(1)] obtain s' where s': "traverse s = Inr (Some (snd x), s')" "trav_ok h s'" "todo s' = r" by auto
    with Suc.IH [of s'] Suc.prems(2) Cons show ?thesis by auto
  qed
qed simp

lemma traverse_after_end: "mTravIndex s = mBuckets s \<Longrightarrow> pTravPos s = None \<Longrightarrow> traverse s = Inl Null_Deref"
  by (simp add: traverse_def next_bucket.simps)

lemma prepareTraversal_ok:
  assumes inv: "QLinearHash_inv h s"
  shows "trav_ok h (prepareTraversal s) \<and> todo (prepareTraversal s) = concat (chains_of s)"
proof -
  have pos: "0 < mBuckets s" using inv by (simp add: QLinearHash_inv_def)
  obtain ns nss where c: "chains_of s = ns # nss" using length_chains_of [OF inv] pos by (cases "chains_of s") auto
  have "head_node (pHashTable s ! 0) = (case ns of [] \<Rightarrow> None | (a, _) # _ \<Rightarrow> Some a)"
    using inv_head [OF inv, of 0] pos c by simp
  with inv pos c show ?thesis
    by (cases ns) (auto simp: prepareTraversal_def trav_ok_def todo_def nodes_from_def)
qed

lemma node_keys_map: "node_keys ns = map fst (map snd ns)"
  by (induction ns rule: node_keys.induct) auto

lemma distinct_concat_label:
  "(\<forall>i < length xss. distinct (xss ! i) \<and> (\<forall>x\<in>set (xss ! i). g x = m + i)) \<Longrightarrow> distinct (concat xss)"
proof (induction xss arbitrary: m)
  case (Cons xs xss)
  have "distinct (concat xss)" using Cons.prems by (intro Cons.IH [of "Suc m"]) (metis Suc_less_eq add_Suc_shift length_Cons nth_Cons_Suc)
  moreover have "g x = m" if "x \<in> set xs" for x using Cons.prems that by force
  moreover have "g x > m" if x: "x \<in> set (concat xss)" for x
  proof -
    from x obtain xs' where "xs' \<in> set xss" "x \<in> set xs'" by auto
    then obtain i where "i < length xss" "x \<in> set (xss ! i)" by (metis in_set_conv_nth)
    then have "g x = m + Suc i" using Cons.prems [rule_format, of "Suc i"] by simp
    then show ?thesis by simp
  qed
  ultimately show ?case using Cons.prems by fastforce
qed simp

lemma chain_find_Some: "distinct (node_keys ns) \<Longrightarrow> chain_find ns k = Some v \<longleftrightarrow> (k, v) \<in> snd ` set ns"
proof (induction ns k rule: chain_find.induct)
  case (2 a k v' ns key)
  then show ?case by (auto simp: node_keys_map) force+
qed simp

lemma contents_graph:
  assumes inv: "QLinearHash_inv h s"
  shows "distinct (map fst (map snd (concat (chains_of s))))"
    and "set (map snd (concat (chains_of s))) = {(k, v). lh_find h s k = Some v}"
proof -
  let ?xss = "map node_keys (chains_of s)"
  have len: "length (chains_of s) = length (pHashTable s)" by (simp add: chains_of_def)
  have "\<forall>i < length ?xss. distinct (?xss ! i) \<and> (\<forall>x\<in>set (?xss ! i). lhash s (h x) = 0 + i)"
    using inv len by (auto simp: QLinearHash_inv_def)
  from distinct_concat_label [OF this] show "distinct (map fst (map snd (concat (chains_of s))))"
    by (simp add: map_concat node_keys_map [abs_def] comp_def)
  have g: "(k, v) \<in> snd ` set (concat (chains_of s)) \<longleftrightarrow> (k, v) \<in> snd ` set (chains_of s ! lhash s (h k))" for k v
  proof
    assume "(k, v) \<in> snd ` set (concat (chains_of s))"
    then obtain ns a where "ns \<in> set (chains_of s)" "(a, k, v) \<in> set ns" by force
    then obtain i where i: "i < length (chains_of s)" "(a, k, v) \<in> set (chains_of s ! i)" by (metis in_set_conv_nth)
    then have "k \<in> set (node_keys (chains_of s ! i))" by (force simp: node_keys_map)
    then have "lhash s (h k) = i" using inv i(1) len unfolding QLinearHash_inv_def by metis
    with i(2) show "(k, v) \<in> snd ` set (chains_of s ! lhash s (h k))" by force
  next
    assume "(k, v) \<in> snd ` set (chains_of s ! lhash s (h k))"
    moreover have "chains_of s ! lhash s (h k) \<in> set (chains_of s)" using lhash_less [OF inv] len by simp
    ultimately show "(k, v) \<in> snd ` set (concat (chains_of s))" by force
  qed
  show "set (map snd (concat (chains_of s))) = {(k, v). lh_find h s k = Some v}"
  proof (rule set_eqI)
    fix x :: "'a \<times> 'b"
    obtain k v where x: "x = (k, v)" by fastforce
    have "x \<in> set (map snd (concat (chains_of s))) \<longleftrightarrow> (k, v) \<in> snd ` set (concat (chains_of s))" unfolding x set_map ..
    also have "\<dots> \<longleftrightarrow> lh_find h s k = Some v"
      unfolding g lh_find_eq [OF inv] using chain_find_Some [OF inv_keys(1) [OF inv]] by metis
    finally show "x \<in> set (map snd (concat (chains_of s))) \<longleftrightarrow> x \<in> {(k, v). lh_find h s k = Some v}" by (simp add: x)
  qed
qed

section \<open>Lemmas on clearing\<close>

lemma clear_chains_ok:
  assumes "\<forall>a. Dangling a \<notin> set cs"
  shows "\<exists>n' cs'. clear_chains cs n = Inr (n', cs') \<and> n' = n - int (length (concat (map chain_nodes cs)))
    \<and> ((\<exists>a. Dangling a \<in> set cs') \<longleftrightarrow> concat (map chain_nodes cs) \<noteq> [])"
  using assms
proof (induction cs n rule: clear_chains.induct)
  case (3 ns cs n)
  then obtain n' cs' where "clear_chains cs (n - int (length ns)) = Inr (n', cs')"
    "n' = n - int (length ns) - int (length (concat (map chain_nodes cs)))"
    "(\<exists>a. Dangling a \<in> set cs') \<longleftrightarrow> concat (map chain_nodes cs) \<noteq> []" by auto
  then show ?case by (cases ns) auto
qed auto

lemma clear_chains_dangling: "\<exists>a. Dangling a \<in> set cs \<Longrightarrow> clear_chains cs n = Inl Use_After_Free"
  by (induction cs n rule: clear_chains.induct) auto

lemma concat_Nil_map: "concat xss = [] \<longleftrightarrow> xss = map (\<lambda>_. []) xss"
  by (induction xss) auto

lemma search_ok: "QLinearHash_inv h s \<Longrightarrow> QLinearHash_search s (h k) k = Inr (lh_find h s k)"
  by (erule inv_chain [where k = k]) (simp add: lh_find_def QLinearHash_search_def)

text \<open>A new \<open>QHashMap2\<close> whose memory is not zero fails at the first access to such a bucket.\<close>

lemma QHashMap2_wild:
  assumes "hash k < numBuckets" "\<not> zero (hash k)"
  shows "QHashMap2_insert hash (QHashMap2_new zero numBuckets) k v = Inl Wild_Pointer"
    "QHashMap2_find hash (QHashMap2_new zero numBuckets) k = Inl Wild_Pointer"
  using assms by (simp_all add: QHashMap2_insert_def QHashMap2_find_def QHashMap2_new_def)

lemma QHashMap2_inserts:
  fixes kvs :: "('k \<times> 'v) list"
  assumes "\<forall>k. hash k < numBuckets" "\<forall>i. zero i"
  shows "hmap2_find hash (fold (\<lambda>(k, v) m. hmap2_insert hash m k v) kvs (QHashMap2_new zero numBuckets)) = map_of kvs"
proof -
  let ?m = "QHashMap2_new zero numBuckets :: ('k, 'v) QHashMap2"
  have "QHashMap2_inv hash ?m" "hmap2_find hash ?m = Map.empty" "m2Size ?m = 0"
    using assms by (auto simp: QHashMap2_inv_def QHashMap2_new_def QHashMap2_find_eq fun_eq_iff)
  with hmap2.inserts_spec [of hash ?m kvs] show ?thesis by (simp add: Let_def)
qed

section \<open>Properties\<close>

text \<open>
  C23. \<open>QHashMap\<close> over strings is a map: after any sequence of insertions and removals on a new table, a
  lookup gives the value of the first insertion of the key since it was last removed, and the size
  is the number of keys, as long as that fits into 32 bits.
\<close>

theorem QHashMap_refines_map:
  fixes ops :: "(string, 'v) table_op list"
  assumes "0 < numBuckets"
  defines "hash \<equiv> \<lambda>k. unat (DefaultHash numBuckets k)"
  defines "m \<equiv> fold (table_do (QHashMap_insert hash) (QHashMap_erase hash)) ops (QHashMap_new (unat numBuckets))"
  shows "QHashMap_find hash m = fold ref_op ops Map.empty \<and> mSize m = of_nat (card (dom (fold ref_op ops Map.empty)))"
proof -
  let ?new = "QHashMap_new (unat numBuckets) :: (string, 'v) QHashMap"
  have less: "hash k < unat numBuckets" for k unfolding hash_def by (rule DefaultHash_less [OF assms(1)])
  then have "QHashMap_inv hash ?new" "QHashMap_find hash ?new = Map.empty" "mSize ?new = 0"
    by (auto simp: QHashMap_inv_def QHashMap_new_def QHashMap_find_eq fun_eq_iff)
  with hmap.run_spec [of hash ?new ops] show ?thesis unfolding m_def by simp
qed

theorem QHashMap_refines_map_witness:
  "QHashMap_find (\<lambda>k. unat (DefaultHash 251 k))
     (fold (table_do (QHashMap_insert (\<lambda>k. unat (DefaultHash 251 k))) (QHashMap_erase (\<lambda>k. unat (DefaultHash 251 k))))
       [Op_insert ''a'' (1 :: nat), Op_insert ''b'' 2, Op_insert ''a'' 3, Op_erase ''b''] (QHashMap_new (unat (251 :: 32 word))))
   = [''a'' \<mapsto> 1]"
  using conjunct1 [OF QHashMap_refines_map [of 251 "[Op_insert ''a'' (1 :: nat), Op_insert ''b'' 2, Op_insert ''a'' 3, Op_erase ''b'']"]]
  by (simp add: fun_eq_iff)

text \<open>
  \<open>QLinearHash\<close> is a map for a client that always passes the same hash value with a key: after any
  sequence of \<open>push\<close> and \<open>pop\<close> on a new table of any positive size, \<open>search\<close> finds exactly the keys of
  the map with their values, touches no deleted node, and the size is the number of keys.
\<close>

lemma QLinearHash_refines_map:
  fixes h :: "'k \<Rightarrow> 64 word" and ops :: "('k, 'v) table_op list"
  assumes "0 < n"
  defines "s \<equiv> fold (table_do (lh_insert h) (lh_erase h)) ops (QLinearHash_new n)"
  shows "QLinearHash_search s (h k) k = Inr (fold ref_op ops Map.empty k) \<and> mNowSize s = int (card (dom (fold ref_op ops Map.empty)))"
proof -
  let ?new = "QLinearHash_new n :: ('k, 'v) QLinearHash"
  have new: "QLinearHash_inv h ?new" "lh_find h ?new = Map.empty" "mNowSize ?new = 0"
    using QLinearHash_new_inv [OF assms(1) refl] by blast+
  from lhash.run_spec [OF new(1), of ops] new(2,3)
  have s: "QLinearHash_inv h s" "lh_find h s = fold ref_op ops Map.empty" "mNowSize s = int (card (dom (fold ref_op ops Map.empty)))"
    unfolding s_def by simp_all
  then show ?thesis using search_ok by metis
qed

text \<open>
  Traversing a \<open>QLinearHash\<close> visits every entry exactly once and then reports the end; calling
  \<open>traverse\<close> once more dereferences a null pointer.
\<close>

lemma QLinearHash_traversal:
  assumes "QLinearHash_inv h s"
  shows "\<exists>kvs s'. distinct (map fst kvs) \<and> set kvs = {(k, v). lh_find h s k = Some v}
    \<and> collect (Suc (length kvs)) (prepareTraversal s) = Inr (kvs, s') \<and> traverse s' = Inl Null_Deref"
proof -
  let ?kvs = "map snd (concat (chains_of s))"
  note p = prepareTraversal_ok [OF assms]
  with collect_todo [of h "prepareTraversal s" "Suc (length ?kvs)"] obtain s' where
    "collect (Suc (length ?kvs)) (prepareTraversal s) = Inr (?kvs, s')" "mTravIndex s' = mBuckets s'" "pTravPos s' = None" by auto
  with contents_graph [OF assms] traverse_after_end [of s'] show ?thesis by blast
qed

text \<open>
  Clearing a \<open>QLinearHash\<close> that is not empty deletes its nodes but keeps the pointers to them, so
  the destructor, which clears again, uses deleted nodes; a table that is never cleared by its
  client is destroyed safely.
\<close>

lemma QLinearHash_clear_unsafe:
  assumes "QLinearHash_inv h s"
  shows "QLinearHash_delete s = Inr () \<and>
    (\<exists>s'. QLinearHash_clear s = Inr s' \<and> QLinearHash_delete s' = (if chains_of s = map (\<lambda>_. []) (chains_of s) then Inr () else Inl Use_After_Free))"
proof -
  have "\<forall>a. Dangling a \<notin> set (pHashTable s)" using assms by (simp add: QLinearHash_inv_def)
  from clear_chains_ok [OF this, of "mNowSize s"] obtain n cs where c: "clear_chains (pHashTable s) (mNowSize s) = Inr (n, cs)"
    "(\<exists>a. Dangling a \<in> set cs) \<longleftrightarrow> concat (chains_of s) \<noteq> []" by (auto simp: chains_of_def)
  note e = concat_Nil_map [of "chains_of s"]
  have "QLinearHash_delete (s\<lparr>mNowSize := n, pHashTable := cs\<rparr>) = (if concat (chains_of s) = [] then Inr () else Inl Use_After_Free)"
    using c(2) clear_chains_dangling [of cs n] clear_chains_ok [of cs n]
    by (auto simp: QLinearHash_delete_def QLinearHash_clear_def)
  with c(1) e show ?thesis by (simp add: QLinearHash_delete_def QLinearHash_clear_def)
qed

end
