(* ===== verification/Serialization.thy ===== *)
theory Serialization
  imports CLib
begin

unbundle bit_operations_syntax

text \<open>
  \<open>QSerialization\<close> of \<^verbatim>\<open>src/common/qserialization.h\<close>: integers and strings written into and read from a
  block of bytes at a position that moves on.  An integer is a word of its width.  A writer returns
  its status, the position and the block; a reader its status, the position and the value, \<open>None\<close>
  when it has not assigned one.
\<close>

type_synonym octets = "8 word list"

section \<open>Blocks of bytes\<close>

definition put :: "octets \<Rightarrow> int \<Rightarrow> octets \<Rightarrow> octets" where
  "put data pos bs = take (nat pos) data @ bs @ drop (nat pos + length bs) data"

definition get :: "octets \<Rightarrow> int \<Rightarrow> int \<Rightarrow> octets" where
  "get data pos n = take (nat n) (drop (nat pos) data)"

text \<open>The test at the start of every function: there are \<open>n\<close> bytes from \<open>pos\<close> on.\<close>

definition room :: "octets \<Rightarrow> int \<Rightarrow> int \<Rightarrow> bool" where
  "room data pos n \<longleftrightarrow> alen data - pos \<ge> n \<and> pos \<ge> 0"

section \<open>Integers\<close>

definition set_int8 :: "octets \<Rightarrow> int \<Rightarrow> 8 word \<Rightarrow> int \<times> int \<times> octets" where
  "set_int8 data pos value = (if room data pos 1 then (0, pos + 1, put data pos [value]) else (- 1, pos, data))"

definition set_int16 :: "octets \<Rightarrow> int \<Rightarrow> 16 word \<Rightarrow> int \<times> int \<times> octets" where
  "set_int16 data pos value =
     (if room data pos 2 then (0, pos + 2, put data pos [ucast (value AND 0xFF), ucast (drop_bit 8 value AND 0xFF)])
      else (- 1, pos, data))"

definition set_int32 :: "octets \<Rightarrow> int \<Rightarrow> 32 word \<Rightarrow> int \<times> int \<times> octets" where
  "set_int32 data pos value =
     (if room data pos 4
      then (0, pos + 4, put data pos [ucast (value AND 0xFF), ucast (drop_bit 8 value AND 0xFF), ucast (drop_bit 16 value AND 0xFF),
              ucast (drop_bit 24 value AND 0xFF)])
      else (- 1, pos, data))"

definition set_int64 :: "octets \<Rightarrow> int \<Rightarrow> 64 word \<Rightarrow> int \<times> int \<times> octets" where
  "set_int64 data pos value =
     (if room data pos 8
      then (0, pos + 8, put data pos [ucast (value AND 0xFF), ucast (drop_bit 8 value AND 0xFF), ucast (drop_bit 16 value AND 0xFF),
              ucast (drop_bit 24 value AND 0xFF), ucast (drop_bit 32 value AND 0xFF), ucast (drop_bit 40 value AND 0xFF),
              ucast (drop_bit 48 value AND 0xFF), ucast (drop_bit 56 value AND 0xFF)])
      else (- 1, pos, data))"

text \<open>The readers shift in the bytes from the last one down.\<close>

definition shift_in :: "'w::len word \<Rightarrow> 8 word \<Rightarrow> 'w word" where
  "shift_in value b = push_bit 8 value OR ucast b"

definition get_int8 :: "octets \<Rightarrow> int \<Rightarrow> int \<times> int \<times> 8 word option" where
  "get_int8 data pos = (if room data pos 1 then (0, pos + 1, Some (aget data pos)) else (- 1, pos, None))"

definition get_int16 :: "octets \<Rightarrow> int \<Rightarrow> int \<times> int \<times> 16 word option" where
  "get_int16 data pos =
     (if room data pos 2 then
        let tmp = pos + 2; value = ucast (aget data (tmp - 1)); value = shift_in value (aget data (tmp - 2))
        in (0, pos + 2, Some value)
      else (- 1, pos, None))"

definition get_int32 :: "octets \<Rightarrow> int \<Rightarrow> int \<times> int \<times> 32 word option" where
  "get_int32 data pos =
     (if room data pos 4 then
        let tmp = pos + 4; value = ucast (aget data (tmp - 1)); value = shift_in value (aget data (tmp - 2));
            value = shift_in value (aget data (tmp - 3)); value = shift_in value (aget data (tmp - 4))
        in (0, pos + 4, Some value)
      else (- 1, pos, None))"

definition get_int64 :: "octets \<Rightarrow> int \<Rightarrow> int \<times> int \<times> 64 word option" where
  "get_int64 data pos =
     (if room data pos 8 then
        let tmp = pos + 8; value = ucast (aget data (tmp - 1)); value = shift_in value (aget data (tmp - 2));
            value = shift_in value (aget data (tmp - 3)); value = shift_in value (aget data (tmp - 4));
            value = shift_in value (aget data (tmp - 5)); value = shift_in value (aget data (tmp - 6));
            value = shift_in value (aget data (tmp - 7)); value = shift_in value (aget data (tmp - 8))
        in (0, pos + 8, Some value)
      else (- 1, pos, None))"

section \<open>Bytes and strings\<close>

definition set_bytes :: "octets \<Rightarrow> int \<Rightarrow> octets \<Rightarrow> int \<times> int \<times> octets" where
  "set_bytes data pos buf =
     (if buf \<noteq> [] \<and> room data pos (alen buf) then (0, pos + alen buf, put data pos buf) else (- 1, pos, data))"

definition get_bytes :: "octets \<Rightarrow> int \<Rightarrow> int \<Rightarrow> int \<times> int \<times> octets option" where
  "get_bytes data pos buf_length =
     (if buf_length > 0 \<and> room data pos buf_length then (0, pos + buf_length, Some (get data pos buf_length)) else (- 1, pos, None))"

definition get_string_length :: "octets \<Rightarrow> int" where
  "get_string_length str = (if str = [] then 4 else alen str + 4 + 1)"

text \<open>\<open>set_string\<close> and \<open>get_string\<close> of a \<open>std::string\<close>: the length with the terminator, the text, the terminator.\<close>

definition set_string :: "octets \<Rightarrow> int \<Rightarrow> octets \<Rightarrow> int \<times> int \<times> octets" where
  "set_string data pos str =
     (if pos < alen data \<and> pos \<ge> 0 then
        let length = (if str = [] then 0 else alen str + 1) in
        if alen data - pos \<ge> length + 4 then
          case set_int32 data pos (of_int length) of
            (iret, pos, data) \<Rightarrow>
              if iret = 0 \<and> length > 0
              then let data = put data pos str; pos = pos + length in (0, pos, put data (pos - 1) [0])
              else (iret, pos, data)
        else (- 2, pos, data)
      else (- 1, pos, data))"

definition get_string :: "octets \<Rightarrow> int \<Rightarrow> int \<times> int \<times> octets option" where
  "get_string data pos =
     (if room data pos 4 then
        case get_int32 data pos of
          (iret, pos, v) \<Rightarrow>
            if iret = 0 then
              let length = sint (the v) in
              if length > 0 then
                if alen data - pos \<ge> length then (0, pos + length, Some (get data pos (length - 1))) else (- 2, pos, None)
              else (0, pos, Some [])
            else (iret, pos, None)
      else (- 1, pos, None))"

section \<open>Lemmas\<close>

lemma room_put [simp]: "0 \<le> pos \<Longrightarrow> pos + alen bs \<le> alen data \<Longrightarrow> alen (put data pos bs) = alen data"
  by (auto simp: put_def alen_def)

lemma get_put [simp]:
  assumes "0 \<le> pos" "pos + alen bs \<le> alen data"
  shows "get (put data pos bs) pos (alen bs) = bs"
proof -
  have "nat pos \<le> length data" using assms by (simp add: alen_def)
  then show ?thesis by (simp add: get_def put_def alen_def)
qed

lemma get_map:
  assumes "room data pos (int n)"
  shows "get data pos (int n) = map (\<lambda>i. aget data (pos + int i)) [0..<n]"
proof (rule nth_equalityI)
  have "nat pos + n \<le> length data" using assms by (auto simp: room_def alen_def)
  then show "length (get data pos (int n)) = length (map (\<lambda>i. aget data (pos + int i)) [0..<n])" by (simp add: get_def)
  fix i assume "i < length (get data pos (int n))"
  then have "i < n" "0 \<le> pos" using assms by (auto simp: get_def room_def)
  then show "get data pos (int n) ! i = map (\<lambda>i. aget data (pos + int i)) [0..<n] ! i"
    using \<open>nat pos + n \<le> length data\<close> by (simp add: get_def aget_def nat_add_distrib)
qed

text \<open>The bytes of an integer, the lowest first, and the integer of bytes.\<close>

definition le_bytes :: "nat \<Rightarrow> 'w::len word \<Rightarrow> octets" where
  "le_bytes n v = map (\<lambda>i. ucast (drop_bit (8 * i) v AND 0xFF)) [0..<n]"

fun le_val :: "octets \<Rightarrow> 'w::len word" where
  "le_val [] = 0"
| "le_val (b # bs) = shift_in (le_val bs) b"

lemma and_FF: "w AND 0xFF = take_bit 8 w" for w :: "'w::len word"
proof -
  have "(0xFF :: 'w word) = mask 8" by (simp add: mask_eq_exp_minus_1)
  then show ?thesis by (simp add: take_bit_eq_mask)
qed

lemma shift_in_byte: "shift_in (drop_bit (n + 8) v) (ucast (drop_bit n v AND 0xFF)) = drop_bit n v"
  by (rule bit_eqI) (auto simp: shift_in_def and_FF bit_or_iff bit_push_bit_iff bit_drop_bit_eq bit_ucast_iff bit_take_bit_iff)

lemma le_val_bytes_from:
  "LENGTH('w) \<le> 8 * (m + n) \<Longrightarrow> le_val (map (\<lambda>i. ucast (drop_bit (8 * i) v AND 0xFF)) [m..<m + n]) = drop_bit (8 * m) (v :: 'w::len word)"
proof (induction n arbitrary: m)
  case 0
  then show ?case by (intro bit_eqI) (auto simp: bit_drop_bit_eq dest: bit_imp_le_length)
next
  case (Suc n)
  have "[m..<m + Suc n] = m # [Suc m..<Suc m + n]" by (simp add: upt_rec)
  with Suc.IH [of "Suc m"] Suc.prems shift_in_byte [of "8 * m" v] show ?case by (simp add: add.commute)
qed

lemma le_val_bytes: "LENGTH('w) \<le> 8 * n \<Longrightarrow> le_val (le_bytes n v) = (v :: 'w::len word)"
  using le_val_bytes_from [of 0 n v] by (simp add: le_bytes_def)

lemma length_le_bytes [simp]: "length (le_bytes n v) = n" "alen (le_bytes n v) = int n"
  by (simp_all add: le_bytes_def alen_def)

text \<open>What the functions on integers do, with these.\<close>

lemma upt_sizes:
  "[0..<2] = [0, 1]" "[0..<4] = [0, 1, 2, 3]" "[0..<8] = [0, 1, 2, 3, 4, 5, 6, 7]" "[0..<1] = [0 :: nat]"
  by (simp_all add: upt_rec)

lemma shift_in_0 [simp]: "shift_in 0 b = ucast b"
  by (simp add: shift_in_def)

lemma set_int_bytes:
  "set_int16 data pos v = (if room data pos 2 then (0, pos + 2, put data pos (le_bytes 2 v)) else (- 1, pos, data))"
  "set_int32 data pos w = (if room data pos 4 then (0, pos + 4, put data pos (le_bytes 4 w)) else (- 1, pos, data))"
  "set_int64 data pos x = (if room data pos 8 then (0, pos + 8, put data pos (le_bytes 8 x)) else (- 1, pos, data))"
  by (simp_all add: set_int16_def set_int32_def set_int64_def le_bytes_def upt_sizes)

lemma get_int_val:
  "get_int16 data pos = (if room data pos 2 then (0, pos + 2, Some (le_val (get data pos 2))) else (- 1, pos, None))"
  "get_int32 data pos = (if room data pos 4 then (0, pos + 4, Some (le_val (get data pos 4))) else (- 1, pos, None))"
  "get_int64 data pos = (if room data pos 8 then (0, pos + 8, Some (le_val (get data pos 8))) else (- 1, pos, None))"
  using get_map [of data pos 2] get_map [of data pos 4] get_map [of data pos 8]
  by (simp_all add: get_int16_def get_int32_def get_int64_def upt_sizes Let_def add.commute)

lemmas int_bytes = set_int_bytes get_int_val

lemma get_put_le:
  assumes "room data pos (int n)"
  shows "get (put data pos (le_bytes n v)) pos (int n) = le_bytes n v \<and> alen (put data pos (le_bytes n v)) = alen data"
  using get_put [of pos "le_bytes n v" data] room_put [of pos "le_bytes n v" data] assms by (simp add: room_def)

lemma put_put:
  assumes "0 \<le> pos" "pos + alen a \<le> alen data"
  shows "put (put data pos a) (pos + alen a) b = put data pos (a @ b)"
proof -
  have "nat pos \<le> length data" "nat (pos + alen a) = nat pos + length a" using assms by (auto simp: alen_def)
  then show ?thesis by (simp add: put_def ac_simps)
qed

lemma get_put_part:
  assumes "0 \<le> pos" "pos \<le> alen data"
  shows "get (put data pos (a @ b @ c)) (pos + alen a) (alen b) = b"
proof -
  have "nat pos \<le> length data" "nat (pos + alen a) = nat pos + length a" using assms by (auto simp: alen_def)
  then show ?thesis by (simp add: get_def put_def alen_def)
qed

lemma sint_of_int_small: "0 \<le> x \<Longrightarrow> x < 2 ^ 31 \<Longrightarrow> sint (of_int x :: 32 word) = x"
  by (simp add: sint_word_ariths signed_of_int signed_take_bit_int_eq_self)

lemma set_string_layout:
  assumes "0 \<le> pos" "get_string_length str \<le> alen data - pos"
  shows "set_string data pos str = (0, pos + get_string_length str,
    put data pos (le_bytes 4 (of_int (get_string_length str - 4) :: 32 word) @ (if str = [] then [] else str @ [0])))"
proof (cases "str = []")
  case True
  then show ?thesis using assms by (auto simp: set_string_def get_string_length_def set_int_bytes room_def)
next
  case False
  let ?n = "le_bytes 4 (of_int (alen str + 1) :: 32 word)"
  have r2: "pos + 4 + alen str + 1 \<le> alen data" using assms(2) False by (simp add: get_string_length_def)
  then have r: "room data pos 4" "pos + 4 + alen str + 1 \<le> alen data" using assms(1) alen_nonneg [of str] unfolding room_def by linarith+
  have "put (put (put data pos ?n) (pos + 4) str) (pos + 4 + alen str) [0] = put data pos (?n @ str @ [0])"
  proof -
    have a: "put (put data pos ?n) (pos + 4) str = put data pos (?n @ str)"
      using put_put [of pos ?n data str] r(2) assms(1) alen_nonneg [of str] by simp
    have "alen (?n @ str) = 4 + alen str" by (simp add: alen_def)
    then show ?thesis unfolding a using put_put [of pos "?n @ str" data "[0]"] r(2) assms(1) by (simp add: add.assoc)
  qed
  moreover have "0 < 1 + alen str" "pos < alen data" using r(2) alen_nonneg [of str] by linarith+
  ultimately show ?thesis using False r assms
    by (simp add: set_string_def get_string_length_def set_int_bytes Let_def algebra_simps)
qed

section \<open>Properties\<close>

text \<open>
  Integers.  Whatever the block and the position, an integer that was written is read back from the
  same position, the position moves on by its size both times, and a writer that has no room changes
  nothing and reports \<open>- 1\<close>.
\<close>

lemma int_roundtrip:
  "(case set_int16 data pos v16 of (r, p, d) \<Rightarrow> if room data pos 2 then r = 0 \<and> get_int16 d pos = (0, p, Some v16) \<and> p = pos + 2 else r = - 1 \<and> p = pos \<and> d = data)
   \<and> (case set_int32 data pos v32 of (r, p, d) \<Rightarrow> if room data pos 4 then r = 0 \<and> get_int32 d pos = (0, p, Some v32) \<and> p = pos + 4 else r = - 1 \<and> p = pos \<and> d = data)
   \<and> (case set_int64 data pos v64 of (r, p, d) \<Rightarrow> if room data pos 8 then r = 0 \<and> get_int64 d pos = (0, p, Some v64) \<and> p = pos + 8 else r = - 1 \<and> p = pos \<and> d = data)"
  using get_put_le [of data pos 2 v16] get_put_le [of data pos 4 v32] get_put_le [of data pos 8 v64]
  by (auto simp: int_bytes le_val_bytes room_def)

text \<open>
  Strings.  A string of less than two gigabytes that was written is read back, whatever bytes it
  has, and both functions move the position on by \<open>get_string_length\<close>.
\<close>

lemma string_roundtrip:
  assumes "0 \<le> pos" "get_string_length str \<le> alen data - pos" "alen str + 1 < 2 ^ 31"
  shows "case set_string data pos str of (r, p, d) \<Rightarrow>
    r = 0 \<and> p = pos + get_string_length str \<and> alen d = alen data \<and> get_string d pos = (0, p, Some str)"
proof -
  let ?t = "if str = [] then [] else str @ [0]" and ?n = "get_string_length str - 4"
  let ?le = "le_bytes 4 (of_int ?n :: 32 word)" and ?d = "put data pos (le_bytes 4 (of_int (get_string_length str - 4) :: 32 word) @ (if str = [] then [] else str @ [0]))"
  have n: "0 \<le> ?n" "?n < 2 ^ 31" "alen ?t = ?n" using assms(3) alen_nonneg [of str]
    by (auto simp: get_string_length_def) (simp_all add: alen_def)
  have tot: "alen (?le @ ?t) = get_string_length str" using n(3) by (simp add: alen_def)
  have len: "alen ?d = alen data" using room_put [of pos "?le @ ?t" data] assms(1,2) tot by simp
  have p: "pos \<le> alen data" using assms(2) n(1) by linarith
  have r: "room ?d pos 4" using assms(1,2) n(1) len by (simp add: room_def)
  have "le_val (get ?d pos 4) = (of_int ?n :: 32 word)"
    using get_put_part [OF assms(1) p, of "[]" ?le ?t] le_val_bytes [of 4 "of_int ?n :: 32 word"] by (simp add: alen_def)
  then have i: "get_int32 ?d pos = (0, pos + 4, Some (of_int ?n))" using r by (simp add: get_int_val)
  have "get ?d (pos + 4) (?n - 1) = str" if "str \<noteq> []"
    using get_put_part [OF assms(1) p, of ?le str "[0]"] that by (simp add: get_string_length_def)
  then have "get_string ?d pos = (0, pos + get_string_length str, Some str)"
    using r i len assms(2) sint_of_int_small [OF n(1,2)] n by (auto simp: get_string_def Let_def get_string_length_def alen_def)
  then show ?thesis using set_string_layout [OF assms(1,2)] len by simp
qed

end
