(* ===== verification/Buffers.thy ===== *)
theory Buffers
  imports Serialization
begin

text \<open>
  \<open>QBuffer\<close> of \<^verbatim>\<open>src/common/qbuffer.h\<close>, a block of memory that grows as needed, and \<open>QProtoBuffer\<close> of
  \<^verbatim>\<open>src/common/qprotobuffer.h\<close>, which writes and reads the fields of a message in it.  A buffer is the
  block with the offsets of the pointers \<open>pdata_\<close> and \<open>pfree_\<close>, \<open>None\<close> as long as there is no block.
  \<open>junk\<close> is what new memory holds.
\<close>

section \<open>QBuffer\<close>

datatype buf_error = Assert_Failed | Heap_Overflow

record qblock =
  b_mem :: octets
  b_data :: int
  b_free :: int

type_synonym QBuffer = "qblock option"

definition DEFAULT_MALLOC_SIZE :: int where "DEFAULT_MALLOC_SIZE = 256"
definition SHRINK_BUFFER_SIZE :: int where "SHRINK_BUFFER_SIZE = 2048"

definition get_data_length :: "QBuffer \<Rightarrow> int" where
  "get_data_length s = (case s of None \<Rightarrow> 0 | Some b \<Rightarrow> b_free b - b_data b)"

definition get_free_length :: "QBuffer \<Rightarrow> int" where
  "get_free_length s = (case s of None \<Rightarrow> 0 | Some b \<Rightarrow> alen (b_mem b) - b_free b)"

definition QBuffer_clear :: "QBuffer \<Rightarrow> QBuffer" where
  "QBuffer_clear s = map_option (\<lambda>b. b\<lparr>b_data := 0, b_free := 0\<rparr>) s"

definition drain :: "int \<Rightarrow> QBuffer \<Rightarrow> int \<times> QBuffer" where
  "drain n s =
     (case s of
        None \<Rightarrow> (- 1, s)
      | Some b \<Rightarrow> let b' = b\<lparr>b_data := b_data b + n\<rparr> in
          (0, if b_data b' \<ge> b_free b' then QBuffer_clear (Some b') else Some b'))"

definition pour :: "int \<Rightarrow> QBuffer \<Rightarrow> buf_error + int \<times> QBuffer" where
  "pour n s =
     (if get_free_length s \<ge> n then
        case s of None \<Rightarrow> Inr (- 1, s) | Some b \<Rightarrow> Inr (0, Some (b\<lparr>b_free := b_free b + n\<rparr>))
      else Inl Assert_Failed)"

definition strip :: "int \<Rightarrow> QBuffer \<Rightarrow> buf_error + int \<times> QBuffer" where
  "strip n s =
     (case s of
        None \<Rightarrow> if n \<le> 0 then Inr (- 1, s) else Inl Assert_Failed
      | Some b \<Rightarrow> if alen (b_mem b) - b_data b \<ge> n then Inr (0, Some (b\<lparr>b_free := b_free b - n\<rparr>)) else Inl Assert_Failed)"

text \<open>The loops that double a size until \<open>need\<close> bytes fit beside \<open>used\<close> others.\<close>

function grow :: "int \<Rightarrow> int \<Rightarrow> int \<Rightarrow> int" where
  "grow used need n = (if 0 < n \<and> n - used < need then grow used need (2 * n) else n)"
  by pat_completeness auto
termination by (relation "measure (\<lambda>(used, need, n). nat (need + used - n))") auto

declare grow.simps [simp del]

definition malloc :: "(nat \<Rightarrow> 8 word) \<Rightarrow> int \<Rightarrow> octets" where
  "malloc junk n = map junk [0..<nat n]"

definition expand :: "(nat \<Rightarrow> 8 word) \<Rightarrow> int \<Rightarrow> QBuffer \<Rightarrow> QBuffer" where
  "expand junk need s =
     (case s of
        None \<Rightarrow> Some \<lparr>b_mem = malloc junk (grow 0 need DEFAULT_MALLOC_SIZE), b_data = 0, b_free = 0\<rparr>
      | Some b \<Rightarrow>
          if get_free_length s < need then
            let free_length = get_free_length s + b_data b; data_length = get_data_length s in
            if free_length < need \<or> free_length * 4 < data_length then
              let newbuf = malloc junk (grow data_length need (2 * alen (b_mem b)));
                  newbuf = (if data_length > 0 then put newbuf 0 (get (b_mem b) (b_data b) data_length) else newbuf)
              in Some (b\<lparr>b_mem := newbuf, b_data := 0, b_free := data_length\<rparr>)
            else Some (b\<lparr>b_mem := put (b_mem b) 0 (get (b_mem b) (b_data b) data_length), b_free := data_length, b_data := 0\<rparr>)
          else s)"

definition shrink :: "(nat \<Rightarrow> 8 word) \<Rightarrow> QBuffer \<Rightarrow> buf_error + bool \<times> QBuffer" where
  "shrink junk s =
     (case s of
        None \<Rightarrow> Inr (False, s)
      | Some b \<Rightarrow>
          if alen (b_mem b) \<le> SHRINK_BUFFER_SIZE \<or> get_data_length s \<le> SHRINK_BUFFER_SIZE then Inr (False, s)
          else
            let old_length = (if get_data_length s < 0 then 0 else get_data_length s); newbuf = malloc junk SHRINK_BUFFER_SIZE in
            if old_length > SHRINK_BUFFER_SIZE then Inl Heap_Overflow
            else Inr (True, Some (b\<lparr>b_mem := (if old_length > 0 then put newbuf 0 (get (b_mem b) (b_data b) old_length) else newbuf),
                   b_data := 0, b_free := old_length\<rparr>)))"

section \<open>QProtoBuffer\<close>

text \<open>
  All setters have one form: make room for \<open>n\<close> bytes, write with a function of \<open>QSerialization\<close> into the
  free part at position 0, and move \<open>pfree_\<close> on; all getters read from the data and drain it.
\<close>

definition pb_set :: "(nat \<Rightarrow> 8 word) \<Rightarrow> int \<Rightarrow> (octets \<Rightarrow> int \<times> int \<times> octets) \<Rightarrow> QBuffer \<Rightarrow> buf_error + int \<times> QBuffer" where
  "pb_set junk n w s =
     (case (if get_free_length s < n then expand junk n s else s) of
        None \<Rightarrow> Inr (- 1, None)
      | Some b \<Rightarrow>
          (case w (drop (nat (b_free b)) (b_mem b)) of (iret, _, region) \<Rightarrow>
             let b' = b\<lparr>b_mem := take (nat (b_free b)) (b_mem b) @ region\<rparr> in
             if iret = 0 then (case pour n (Some b') of Inl e \<Rightarrow> Inl e | Inr (_, s') \<Rightarrow> Inr (iret, s'))
             else Inr (iret, Some b')))"

definition pb_get :: "int \<Rightarrow> (octets \<Rightarrow> int \<times> int \<times> 'a option) \<Rightarrow> QBuffer \<Rightarrow> int \<times> 'a option \<times> QBuffer" where
  "pb_get n r s =
     (case s of
        None \<Rightarrow> (- 1, None, s)
      | Some b \<Rightarrow>
          (case r (get (b_mem b) (b_data b) (get_data_length s)) of (iret, _, v) \<Rightarrow>
             (iret, v, if iret = 0 then snd (drain n s) else s)))"

definition QProtoBuffer_new :: "(nat \<Rightarrow> 8 word) \<Rightarrow> int \<Rightarrow> QBuffer" where
  "QProtoBuffer_new junk n = (if n > 0 then expand junk n None else None)"

definition pb_set_int16 where "pb_set_int16 junk v = pb_set junk 2 (\<lambda>d. set_int16 d 0 v)"
definition pb_set_int32 where "pb_set_int32 junk v = pb_set junk 4 (\<lambda>d. set_int32 d 0 v)"
definition pb_set_int64 where "pb_set_int64 junk v = pb_set junk 8 (\<lambda>d. set_int64 d 0 v)"
definition pb_set_bytes where "pb_set_bytes junk bs = pb_set junk (alen bs) (\<lambda>d. set_bytes d 0 bs)"
definition pb_get_int16 where "pb_get_int16 = pb_get 2 (\<lambda>d. get_int16 d 0)"
definition pb_get_int32 where "pb_get_int32 = pb_get 4 (\<lambda>d. get_int32 d 0)"
definition pb_get_int64 where "pb_get_int64 = pb_get 8 (\<lambda>d. get_int64 d 0)"
definition pb_get_bytes where "pb_get_bytes n = pb_get n (\<lambda>d. get_bytes d 0 n)"

text \<open>The fields of a message, by the names of their setters and getters.\<close>

definition set_protocol_version where "set_protocol_version = pb_set_int64"
definition get_protocol_version where "get_protocol_version = pb_get_int64"
definition set_protocol_body_length where "set_protocol_body_length = pb_set_int32"
definition get_protocol_body_length where "get_protocol_body_length = pb_get_int32"
definition set_protocol_type where "set_protocol_type = pb_set_int16"
definition get_protocol_type where "get_protocol_type = pb_get_int16"
definition set_source_type where "set_source_type = pb_set_int16"
definition get_source_type where "get_source_type = pb_get_int16"
definition set_command_type where "set_command_type = pb_set_int16"
definition get_command_type where "get_command_type = pb_get_int16"
definition set_operate_type where "set_operate_type = pb_set_int16"
definition get_operate_type where "get_operate_type = pb_get_int16"
definition set_content_length where "set_content_length = pb_set_int32"
definition get_content_type where "get_content_type = pb_get_int16"
definition set_content_bytes where "set_content_bytes = pb_set_bytes"
definition get_content_bytes where "get_content_bytes = pb_get_bytes"
definition set_extended_length where "set_extended_length = pb_set_int32"
definition get_extended_type where "get_extended_type = pb_get_int16"
definition set_extended_bytes where "set_extended_bytes = pb_set_bytes"
definition get_extended_bytes where "get_extended_bytes = pb_get_bytes"
definition get_status where "get_status = pb_get_int32"

lemmas setter_defs = set_protocol_version_def set_protocol_body_length_def set_protocol_type_def set_source_type_def
  set_command_type_def set_operate_type_def set_content_length_def set_content_bytes_def set_extended_length_def set_extended_bytes_def
lemmas getter_defs = get_protocol_version_def get_protocol_body_length_def get_protocol_type_def get_source_type_def
  get_command_type_def get_operate_type_def get_content_type_def get_content_bytes_def get_extended_type_def get_extended_bytes_def get_status_def

section \<open>Invariant and contents\<close>

definition buf_inv :: "QBuffer \<Rightarrow> bool" where
  "buf_inv s \<longleftrightarrow> (case s of None \<Rightarrow> True
     | Some b \<Rightarrow> 0 \<le> b_data b \<and> b_data b \<le> b_free b \<and> b_free b \<le> alen (b_mem b) \<and> 0 < alen (b_mem b))"

definition content :: "QBuffer \<Rightarrow> octets" where
  "content s = (case s of None \<Rightarrow> [] | Some b \<Rightarrow> get (b_mem b) (b_data b) (b_free b - b_data b))"

lemma alen_content: "buf_inv s \<Longrightarrow> alen (content s) = get_data_length s"
proof (cases s)
  case (Some b)
  assume "buf_inv s"
  then have "nat (b_data b) + nat (b_free b - b_data b) \<le> length (b_mem b)" "0 \<le> b_free b - b_data b"
    using Some by (auto simp: buf_inv_def alen_def)
  then show ?thesis using Some by (simp add: content_def get_data_length_def get_def alen_def)
qed (simp add: content_def get_data_length_def alen_def)

lemma grow_spec: "0 < n \<Longrightarrow> need \<le> grow used need n - used \<and> n \<le> grow used need n"
proof (induction used need n rule: grow.induct)
  case (1 used need n)
  show ?case
  proof (cases "n - used < need")
    case True
    then have "grow used need n = grow used need (2 * n)" using 1 by (subst grow.simps) simp
    with 1 True show ?thesis by simp
  next
    case False
    then have "grow used need n = n" by (subst grow.simps) simp
    with False show ?thesis by simp
  qed
qed

lemma alen_malloc: "0 \<le> n \<Longrightarrow> alen (malloc junk n) = n"
  by (simp add: malloc_def alen_def)

lemma get_put_0: "alen c \<le> alen m \<Longrightarrow> get (put m 0 c) 0 (alen c) = c" "alen c \<le> alen m \<Longrightarrow> alen (put m 0 c) = alen m"
  using get_put [of 0 c m] by simp_all

lemma expand_spec:
  assumes "buf_inv s"
  shows "\<exists>b. expand junk need s = Some b \<and> buf_inv (Some b) \<and> content (Some b) = content s \<and> need \<le> get_free_length (Some b)"
proof (cases s)
  case None
  have "0 < DEFAULT_MALLOC_SIZE" by (simp add: DEFAULT_MALLOC_SIZE_def)
  from grow_spec [OF this, of need 0] this have "0 < grow 0 need DEFAULT_MALLOC_SIZE" "need \<le> grow 0 need DEFAULT_MALLOC_SIZE" by auto
  then show ?thesis using None by (simp add: expand_def buf_inv_def content_def get_def alen_malloc get_free_length_def)
next
  case (Some b)
  let ?d = "get_data_length s" and ?c = "get (b_mem b) (b_data b) (get_data_length s)"
  have inv: "0 \<le> b_data b" "b_data b \<le> b_free b" "b_free b \<le> alen (b_mem b)" "0 < alen (b_mem b)"
    using assms Some by (auto simp: buf_inv_def)
  have d: "?d = b_free b - b_data b" "0 \<le> ?d" "content s = ?c" "alen ?c = ?d"
    using Some inv alen_content [OF assms] by (auto simp: get_data_length_def content_def)
  show ?thesis
  proof (cases "get_free_length s < need")
    case False
    then show ?thesis using Some assms by (auto simp: expand_def)
  next
    case small: True
    let ?f = "get_free_length s + b_data b"
    show ?thesis
    proof (cases "?f < need \<or> ?f * 4 < ?d")
      case True
      let ?n = "grow ?d need (2 * alen (b_mem b))"
      have n: "need \<le> ?n - ?d" "2 * alen (b_mem b) \<le> ?n" using grow_spec [of "2 * alen (b_mem b)" need ?d] inv by auto
      then have m: "alen (malloc junk ?n) = ?n" "0 < ?n" "?d \<le> ?n" using alen_malloc [of ?n junk] inv d by auto
      let ?m = "if ?d > 0 then put (malloc junk ?n) 0 ?c else malloc junk ?n"
      have "get ?m 0 ?d = ?c" "alen ?m = ?n" using get_put_0 [of ?c "malloc junk ?n"] d m by (auto simp: get_def)
      then have "buf_inv (Some (b\<lparr>b_mem := ?m, b_data := 0, b_free := ?d\<rparr>))" "content (Some (b\<lparr>b_mem := ?m, b_data := 0, b_free := ?d\<rparr>)) = content s"
        "need \<le> get_free_length (Some (b\<lparr>b_mem := ?m, b_data := 0, b_free := ?d\<rparr>))"
        using d m n by (simp_all add: buf_inv_def content_def get_free_length_def del: if_split)
      moreover have "expand junk need s = Some (b\<lparr>b_mem := ?m, b_data := 0, b_free := ?d\<rparr>)"
        using Some small True by (simp add: expand_def Let_def)
      ultimately show ?thesis by blast
    next
      case False
      have "get (put (b_mem b) 0 ?c) 0 ?d = ?c" "alen (put (b_mem b) 0 ?c) = alen (b_mem b)"
        using get_put_0 [of ?c "b_mem b"] inv d(1) unfolding d(4) by simp_all
      moreover have "need \<le> alen (b_mem b) - ?d" using False Some d by (simp add: get_free_length_def)
      ultimately show ?thesis using Some small False inv d
        by (auto simp: expand_def Let_def buf_inv_def content_def get_free_length_def)
    qed
  qed
qed

lemma pb_set_appends:
  assumes "buf_inv s" "0 < n" "alen bs = n" and w: "\<And>d. n \<le> alen d \<Longrightarrow> w d = (0, n, put d 0 bs)"
  shows "\<exists>s'. pb_set junk n w s = Inr (0, s') \<and> buf_inv s' \<and> content s' = content s @ bs"
proof -
  obtain b where b: "(if get_free_length s < n then expand junk n s else s) = Some b" "buf_inv (Some b)"
    "content (Some b) = content s" "n \<le> get_free_length (Some b)"
  proof (cases "get_free_length s < n")
    case True
    then show ?thesis using expand_spec [OF assms(1), of junk n] that by auto
  next
    case False
    then show ?thesis using assms(1,2) that by (cases s) (auto simp: get_free_length_def)
  qed
  let ?m = "b_mem b" and ?f = "b_free b"
  have i: "0 \<le> b_data b" "b_data b \<le> ?f" "?f \<le> alen ?m" "0 < alen ?m" "?f + n \<le> alen ?m"
    using b(2,4) by (auto simp: buf_inv_def get_free_length_def)
  have f: "nat ?f \<le> length ?m" using i by (simp add: alen_def)
  have "n \<le> alen (drop (nat ?f) ?m)" using i by (simp add: alen_def)
  from w [OF this] have w: "w (drop (nat ?f) ?m) = (0, n, put (drop (nat ?f) ?m) 0 bs)" .
  have m: "take (nat ?f) ?m @ put (drop (nat ?f) ?m) 0 bs = put ?m ?f bs" by (simp add: put_def add.commute)
  have len: "alen (put ?m ?f bs) = alen ?m" using room_put [of ?f bs ?m] i assms(3) by simp
  have s: "pb_set junk n w s = Inr (0, Some (b\<lparr>b_mem := put ?m ?f bs, b_free := ?f + n\<rparr>))"
    using b(1) w m len i by (simp add: pb_set_def pour_def get_free_length_def Let_def)
  have nat: "nat (?f + n - b_data b) = nat (?f - b_data b) + length bs" using i assms(2,3) by (simp add: alen_def nat_add_distrib flip: assms(3))
  have "get (put ?m ?f bs) (b_data b) (?f + n - b_data b) = get ?m (b_data b) (?f - b_data b) @ bs"
  proof -
    have "drop (nat (b_data b)) (put ?m ?f bs) = drop (nat (b_data b)) (take (nat ?f) ?m) @ bs @ drop (nat ?f + length bs) ?m"
      using i f by (simp add: put_def)
    moreover have "drop (nat (b_data b)) (take (nat ?f) ?m) = get ?m (b_data b) (?f - b_data b)"
      using i by (simp add: get_def drop_take nat_diff_distrib)
    moreover have "length (get ?m (b_data b) (?f - b_data b)) = nat (?f - b_data b)" using i f by (simp add: get_def)
    ultimately show ?thesis unfolding get_def [of "put ?m ?f bs"] nat by simp
  qed
  then have "content (Some (b\<lparr>b_mem := put ?m ?f bs, b_free := ?f + n\<rparr>)) = content s @ bs"
    using b(3) by (simp add: content_def)
  with s len i assms(2) show ?thesis by (auto simp: buf_inv_def)
qed

lemma pb_get_removes:
  assumes "buf_inv s" "0 < n" "alen bs = n" "content s = bs @ rest" "r (bs @ rest) = (0, p, Some v)"
  shows "\<exists>s'. pb_get n r s = (0, Some v, s') \<and> buf_inv s' \<and> content s' = rest"
proof (cases s)
  case None
  then show ?thesis using assms by (auto simp: content_def alen_def)
next
  case (Some b)
  have i: "0 \<le> b_data b" "b_data b \<le> b_free b" "b_free b \<le> alen (b_mem b)" "0 < alen (b_mem b)" using assms(1) Some by (auto simp: buf_inv_def)
  have c: "get (b_mem b) (b_data b) (get_data_length s) = bs @ rest" using assms(4) Some by (simp add: content_def get_data_length_def)
  have l: "n + alen rest = b_free b - b_data b" using alen_content [OF assms(1)] assms(3,4) Some by (simp add: get_data_length_def alen_def)
  have "content (Some (b\<lparr>b_data := b_data b + n\<rparr>)) = rest" if "b_data b + n < b_free b"
  proof -
    have "nat (b_data b + n) = nat (b_data b) + length bs" "nat (b_free b - (b_data b + n)) = length rest"
      using i assms(2,3) l by (auto simp: alen_def nat_add_distrib)
    moreover have "drop (length bs) (get (b_mem b) (b_data b) (get_data_length s)) = rest" using c by simp
    moreover have "nat (b_free b - b_data b) - length bs = length rest" using l assms(3) by (simp add: alen_def)
    ultimately show ?thesis using Some l assms(3)
      by (simp add: content_def get_def get_data_length_def drop_take alen_def add.commute)
  qed
  moreover have "rest = []" if "\<not> b_data b + n < b_free b" using that l by (cases rest) (simp_all add: alen_def)
  ultimately show ?thesis using Some c assms i
    by (auto simp: pb_get_def drain_def QBuffer_clear_def buf_inv_def content_def Let_def get_def)
qed

section \<open>A message field by field\<close>

text \<open>The fields that have both a setter and the matching getter.\<close>

datatype field =
    Protocol_Version "64 word" | Protocol_Body_Length "32 word" | Protocol_Type "16 word" | Source_Type "16 word"
  | Raw_Bytes octets | Command_Type "16 word" | Operate_Type "16 word" | Content_Bytes octets | Extended_Bytes octets

datatype field_kind =
    N_Version | N_Body_Length | N_Protocol_Type | N_Source_Type | N_Bytes int | N_Command_Type | N_Operate_Type
  | N_Content int | N_Extended int

fun kind_of :: "field \<Rightarrow> field_kind" where
  "kind_of (Protocol_Version _) = N_Version"
| "kind_of (Protocol_Body_Length _) = N_Body_Length"
| "kind_of (Protocol_Type _) = N_Protocol_Type"
| "kind_of (Source_Type _) = N_Source_Type"
| "kind_of (Raw_Bytes bs) = N_Bytes (alen bs)"
| "kind_of (Command_Type _) = N_Command_Type"
| "kind_of (Operate_Type _) = N_Operate_Type"
| "kind_of (Content_Bytes bs) = N_Content (alen bs)"
| "kind_of (Extended_Bytes bs) = N_Extended (alen bs)"

fun field_octets :: "field \<Rightarrow> octets" where
  "field_octets (Protocol_Version v) = le_bytes 8 v"
| "field_octets (Protocol_Body_Length v) = le_bytes 4 v"
| "field_octets (Protocol_Type v) = le_bytes 2 v"
| "field_octets (Source_Type v) = le_bytes 2 v"
| "field_octets (Raw_Bytes bs) = bs"
| "field_octets (Command_Type v) = le_bytes 2 v"
| "field_octets (Operate_Type v) = le_bytes 2 v"
| "field_octets (Content_Bytes bs) = bs"
| "field_octets (Extended_Bytes bs) = bs"

definition written :: "buf_error + int \<times> QBuffer \<Rightarrow> QBuffer option" where
  "written r = (case r of Inr (iret, s) \<Rightarrow> if iret = 0 then Some s else None | Inl _ \<Rightarrow> None)"

definition taken :: "('a \<Rightarrow> field) \<Rightarrow> int \<times> 'a option \<times> QBuffer \<Rightarrow> (field \<times> QBuffer) option" where
  "taken c r = (case r of (iret, v, s) \<Rightarrow> if iret = 0 then map_option (\<lambda>x. (c x, s)) v else None)"

fun write_field :: "(nat \<Rightarrow> 8 word) \<Rightarrow> field \<Rightarrow> QBuffer \<Rightarrow> QBuffer option" where
  "write_field junk (Protocol_Version v) s = written (set_protocol_version junk v s)"
| "write_field junk (Protocol_Body_Length v) s = written (set_protocol_body_length junk v s)"
| "write_field junk (Protocol_Type v) s = written (set_protocol_type junk v s)"
| "write_field junk (Source_Type v) s = written (set_source_type junk v s)"
| "write_field junk (Raw_Bytes bs) s = written (pb_set_bytes junk bs s)"
| "write_field junk (Command_Type v) s = written (set_command_type junk v s)"
| "write_field junk (Operate_Type v) s = written (set_operate_type junk v s)"
| "write_field junk (Content_Bytes bs) s = written (set_content_bytes junk bs s)"
| "write_field junk (Extended_Bytes bs) s = written (set_extended_bytes junk bs s)"

fun read_field :: "field_kind \<Rightarrow> QBuffer \<Rightarrow> (field \<times> QBuffer) option" where
  "read_field N_Version s = taken Protocol_Version (get_protocol_version s)"
| "read_field N_Body_Length s = taken Protocol_Body_Length (get_protocol_body_length s)"
| "read_field N_Protocol_Type s = taken Protocol_Type (get_protocol_type s)"
| "read_field N_Source_Type s = taken Source_Type (get_source_type s)"
| "read_field (N_Bytes n) s = taken Raw_Bytes (pb_get_bytes n s)"
| "read_field N_Command_Type s = taken Command_Type (get_command_type s)"
| "read_field N_Operate_Type s = taken Operate_Type (get_operate_type s)"
| "read_field (N_Content n) s = taken Content_Bytes (get_content_bytes n s)"
| "read_field (N_Extended n) s = taken Extended_Bytes (get_extended_bytes n s)"

primrec write_all :: "('f \<Rightarrow> 's \<Rightarrow> 's option) \<Rightarrow> 'f list \<Rightarrow> 's \<Rightarrow> 's option" where
  "write_all w [] s = Some s"
| "write_all w (f # fs) s = Option.bind (w f s) (write_all w fs)"

primrec read_all :: "('n \<Rightarrow> 's \<Rightarrow> ('f \<times> 's) option) \<Rightarrow> 'n list \<Rightarrow> 's \<Rightarrow> ('f list \<times> 's) option" where
  "read_all r [] s = Some ([], s)"
| "read_all r (n # ns) s =
     Option.bind (r n s) (\<lambda>(f, s'). map_option (\<lambda>(fs, s''). (f # fs, s'')) (read_all r ns s'))"

text \<open>
  What a first-in first-out stream of encoded fields promises: a write appends the encoding, a read of the
  same kind of field takes it off the front.
\<close>

locale field_stream =
  fixes wr :: "'f \<Rightarrow> 's \<Rightarrow> 's option"
    and rd :: "'n \<Rightarrow> 's \<Rightarrow> ('f \<times> 's) option"
    and name :: "'f \<Rightarrow> 'n"
    and enc :: "'f \<Rightarrow> 'b list"
    and bytes :: "'s \<Rightarrow> 'b list"
    and ok :: "'s \<Rightarrow> bool"
  assumes wr: "ok s \<Longrightarrow> enc f \<noteq> [] \<Longrightarrow> \<exists>s'. wr f s = Some s' \<and> ok s' \<and> bytes s' = bytes s @ enc f"
    and rd: "ok s \<Longrightarrow> enc f \<noteq> [] \<Longrightarrow> bytes s = enc f @ rest \<Longrightarrow>
      \<exists>s'. rd (name f) s = Some (f, s') \<and> ok s' \<and> bytes s' = rest"
begin

lemma write_all_appends:
  "ok s \<Longrightarrow> \<forall>f\<in>set fs. enc f \<noteq> [] \<Longrightarrow> \<exists>s'. write_all wr fs s = Some s' \<and> ok s' \<and> bytes s' = bytes s @ concat (map enc fs)"
proof (induction fs arbitrary: s)
  case (Cons f fs)
  obtain s1 where s1: "wr f s = Some s1" "ok s1" "bytes s1 = bytes s @ enc f" using wr [of s f] Cons.prems by auto
  from Cons.IH [OF s1(2)] Cons.prems s1 show ?case by auto
qed simp

lemma read_all_removes:
  "ok s \<Longrightarrow> \<forall>f\<in>set fs. enc f \<noteq> [] \<Longrightarrow> bytes s = concat (map enc fs) @ rest \<Longrightarrow>
     \<exists>s'. read_all rd (map name fs) s = Some (fs, s') \<and> ok s' \<and> bytes s' = rest"
proof (induction fs arbitrary: s)
  case (Cons f fs)
  obtain s1 where s1: "rd (name f) s = Some (f, s1)" "ok s1" "bytes s1 = concat (map enc fs) @ rest"
    using rd [of s f "concat (map enc fs) @ rest"] Cons.prems by auto
  from Cons.IH [OF s1(2)] Cons.prems s1 show ?case by auto
qed simp

lemma roundtrip:
  assumes "ok s" "\<forall>f\<in>set fs. enc f \<noteq> []" "bytes s = []"
  shows "\<exists>s' s''. write_all wr fs s = Some s' \<and> bytes s' = concat (map enc fs) \<and>
    read_all rd (map name fs) s' = Some (fs, s'') \<and> bytes s'' = []"
proof -
  obtain s' where s': "write_all wr fs s = Some s'" "ok s'" "bytes s' = concat (map enc fs)"
    using write_all_appends [OF assms(1,2)] assms(3) by auto
  with read_all_removes [OF s'(2) assms(2), of "[]"] show ?thesis by auto
qed

end

lemma room_front [simp]: "room d 0 n \<longleftrightarrow> n \<le> alen d"
  by (auto simp: room_def)

lemma get_front: "alen a = n \<Longrightarrow> get (a @ b) 0 n = a"
  by (auto simp: get_def alen_def)

lemma write_field_appends:
  assumes "buf_inv s" "field_octets f \<noteq> []"
  shows "\<exists>s'. write_field junk f s = Some s' \<and> buf_inv s' \<and> content s' = content s @ field_octets f"
proof -
  have app: "\<exists>s'. written (pb_set junk n w s) = Some s' \<and> buf_inv s' \<and> content s' = content s @ bs"
    if "0 < n" "alen bs = n" "\<And>d. n \<le> alen d \<Longrightarrow> w d = (0, n, put d 0 bs)" for n w bs
    using pb_set_appends [OF assms(1) that, of junk] by (auto simp: written_def)
  have "0 < alen bs" if "bs \<noteq> []" for bs :: octets using that by (simp add: alen_def)
  with assms(2) show ?thesis
    by (cases f) (simp_all add: setter_defs pb_set_int16_def pb_set_int32_def pb_set_int64_def pb_set_bytes_def app set_int_bytes set_bytes_def)
qed

lemma taken_removes:
  assumes "buf_inv s" "content s = bs @ rest" "0 < n" "alen bs = n" "r (bs @ rest) = (0, n, Some v)"
  shows "\<exists>s'. taken c (pb_get n r s) = Some (c v, s') \<and> buf_inv s' \<and> content s' = rest"
  using pb_get_removes [of s n bs rest r n v] assms by (auto simp: taken_def)

lemma get_front_field:
  "get_int16 (le_bytes 2 v2 @ rest) 0 = (0, 2, Some v2)"
  "get_int32 (le_bytes 4 v4 @ rest) 0 = (0, 4, Some v4)"
  "get_int64 (le_bytes 8 v8 @ rest) 0 = (0, 8, Some v8)"
  "bs \<noteq> [] \<Longrightarrow> get_bytes (bs @ rest) 0 (alen bs) = (0, alen bs, Some bs)"
  by (simp_all add: get_int_val get_front le_val_bytes get_bytes_def alen_def)

lemma read_field_removes:
  assumes "buf_inv s" "field_octets f \<noteq> []" "content s = field_octets f @ rest"
  shows "\<exists>s'. read_field (kind_of f) s = Some (f, s') \<and> buf_inv s' \<and> content s' = rest"
proof -
  have "0 < alen bs" if "bs \<noteq> []" for bs :: octets using that by (simp add: alen_def)
  with assms show ?thesis
    by (cases f) (simp_all add: getter_defs pb_get_int16_def pb_get_int32_def pb_get_int64_def pb_get_bytes_def get_front_field
        taken_removes [where rest = rest])
qed

interpretation proto: field_stream "write_field junk" read_field kind_of field_octets content buf_inv
  by unfold_locales (use write_field_appends read_field_removes in blast)+

lemma QProtoBuffer_new_empty: "buf_inv (QProtoBuffer_new junk n)" "content (QProtoBuffer_new junk n) = []"
  using expand_spec [of None junk n] by (auto simp: QProtoBuffer_new_def buf_inv_def content_def)

text \<open>
  A message written into a new \<open>QProtoBuffer\<close> of any initial size, whatever its fields (the byte fields not
  empty), is held as the concatenation of the fields' encodings, and reading the same kinds of fields in the
  same order succeeds, gives back every value, and leaves the buffer empty; the buffer grows as needed.
\<close>

lemma proto_roundtrip:
  assumes "\<forall>f\<in>set fs. field_octets f \<noteq> []"
  shows "\<exists>s s'. write_all (write_field junk) fs (QProtoBuffer_new junk n) = Some s \<and>
    content s = concat (map field_octets fs) \<and>
    read_all read_field (map kind_of fs) s = Some (fs, s') \<and> get_data_length s' = 0"
proof -
  obtain s where s: "write_all (write_field junk) fs (QProtoBuffer_new junk n) = Some s" "buf_inv s" "content s = concat (map field_octets fs)"
    using proto.write_all_appends [OF QProtoBuffer_new_empty(1) assms, of junk junk n] QProtoBuffer_new_empty(2) [of junk n] by auto
  moreover obtain s' where "read_all read_field (map kind_of fs) s = Some (fs, s')" "buf_inv s'" "content s' = []"
    using proto.read_all_removes [OF s(2) assms, of "[]"] s(3) by auto
  ultimately show ?thesis using alen_content [of s'] by (auto simp: alen_def)
qed

section \<open>Limits of the operations\<close>

text \<open>
  \<open>shrink\<close> never succeeds: it gives up unless the data are longer than the block it is about to make, and then
  copies them into that block.
\<close>

lemma shrink_never_succeeds: "shrink junk s = Inr (False, s) \<or> shrink junk s = Inl Heap_Overflow"
  by (auto simp: shrink_def SHRINK_BUFFER_SIZE_def Let_def split: option.split)

lemma shrink_overflows:
  assumes "buf_inv s" "2048 < get_data_length s"
  shows "shrink junk s = Inl Heap_Overflow"
proof (cases s)
  case (Some b)
  then have "2048 < alen (b_mem b)" using assms by (simp add: buf_inv_def get_data_length_def)
  then show ?thesis using assms(2) Some by (simp add: shrink_def SHRINK_BUFFER_SIZE_def)
qed (use assms in \<open>simp add: get_data_length_def\<close>)

text \<open>\<open>strip\<close> compares with the room up to the end of the block and not with the data.\<close>

lemma strip_below_data:
  assumes "buf_inv (Some b)" "b_free b - b_data b < n" "n \<le> alen (b_mem b) - b_data b"
  shows "strip n (Some b) = Inr (0, Some (b\<lparr>b_free := b_free b - n\<rparr>)) \<and> \<not> buf_inv (Some (b\<lparr>b_free := b_free b - n\<rparr>))"
  using assms by (auto simp: strip_def buf_inv_def)

text \<open>The content length is written in four bytes and its only getter takes two.\<close>

lemma content_length_half_read:
  assumes "buf_inv s" "content s = []"
  shows "\<exists>s' s''. set_content_length junk v s = Inr (0, s') \<and> get_content_type s' = (0, Some (ucast v), s'') \<and> get_data_length s'' = 2"
proof -
  obtain s' where s': "set_content_length junk v s = Inr (0, s')" "buf_inv s'" "content s' = le_bytes 4 v"
    using pb_set_appends [OF assms(1), of 4 "le_bytes 4 v" "\<lambda>d. set_int32 d 0 v" junk] assms(2)
    by (auto simp: set_content_length_def pb_set_int32_def set_int_bytes)
  have parts: "le_bytes 4 v = le_bytes 2 (ucast v :: 16 word) @ drop 2 (le_bytes 4 v)"
    by (simp add: le_bytes_def upt_sizes) (auto simp: bit_eq_iff bit_simps)
  have "alen (drop 2 (le_bytes 4 v)) = 2" by (simp add: alen_def)
  moreover have "get_int16 (le_bytes 4 v) 0 = (0, 2, Some (ucast v))" by (subst parts) (rule get_front_field)
  moreover obtain s'' where "get_content_type s' = (0, Some (ucast v), s'')" "buf_inv s''" "content s'' = drop 2 (le_bytes 4 v)"
    using pb_get_removes [OF s'(2), of 2 "le_bytes 2 (ucast v :: 16 word)" "drop 2 (le_bytes 4 v)" "\<lambda>d. get_int16 d 0" 2 "ucast v"] s'(3) calculation(2)
    unfolding parts [symmetric] by (auto simp: get_content_type_def pb_get_int16_def)
  ultimately show ?thesis using s'(1) alen_content [of s''] by auto
qed

end
