(* ===== verification/Bitmaps.thy ===== *)
theory Bitmaps
  imports Prelude "HOL-Library.Word"
begin

unbundle bit_operations_syntax

text \<open>
  The bit sets of \<^verbatim>\<open>src/common/qbitmap.h\<close>: \<open>QBITS16\<close> in one 16-bit integer, \<open>QBitMap\<close> with the number of its
  elements, and \<open>QBitMap2\<close>.  Counts and positions are the 32-bit integers of the code, so that the
  rounding up of the number of slots wraps as it does there.
\<close>

datatype bit_error = Out_Of_Range | Bad_Access | Shift_Too_Far | Not_Empty

section \<open>QBITS16\<close>

definition QBITS16_turn_on_bit :: "8 word \<Rightarrow> 16 word \<Rightarrow> bit_error + 16 word" where
  "QBITS16_turn_on_bit bit_num val =
     (if unat bit_num \<ge> 32 then Inl Shift_Too_Far else Inr (ucast (ucast val OR push_bit (unat bit_num) (1 :: 32 word))))"

definition QBITS16_turn_off_bit :: "8 word \<Rightarrow> 16 word \<Rightarrow> bit_error + 16 word" where
  "QBITS16_turn_off_bit bit_num val =
     (if unat bit_num \<ge> 32 then Inl Shift_Too_Far else Inr (ucast (ucast val AND NOT (push_bit (unat bit_num) (1 :: 32 word)))))"

definition QBITS16_set_bit :: "8 word \<Rightarrow> bool \<Rightarrow> 16 word \<Rightarrow> bit_error + 16 word" where
  "QBITS16_set_bit bit_num value val =
     (if value then QBITS16_turn_on_bit bit_num val else QBITS16_turn_off_bit bit_num val)"

definition QBITS16_bit :: "8 word \<Rightarrow> 16 word \<Rightarrow> bit_error + bool" where
  "QBITS16_bit bit_num val =
     (if unat bit_num \<ge> 32 then Inl Shift_Too_Far else Inr (drop_bit (unat bit_num) (ucast val :: 32 word) AND 1 \<noteq> 0))"

section \<open>QBitMap\<close>

definition BITMAP_MASK :: "8 word list" where
  "BITMAP_MASK = [0x80, 0x40, 0x20, 0x10, 0x08, 0x04, 0x02, 0x01]"

definition INVALID_INDEX :: "32 word" where "INVALID_INDEX = 0xFFFFFFFF"

record QBitMap =
  item_count :: "32 word"
  slot_count :: "32 word"
  set_count :: "32 word"
  bm_data :: "8 word list option"
  mount_flag :: bool

definition slots_for :: "32 word \<Rightarrow> 32 word" where
  "slots_for n = drop_bit 3 (n + 8 - 1)"

definition QBitMap_default :: "bool \<Rightarrow> QBitMap" where
  "QBitMap_default set_flag =
     \<lparr>item_count = (if set_flag then INVALID_INDEX else 0), slot_count = (if set_flag then INVALID_INDEX else 0),
      set_count = 0, bm_data = None, mount_flag = False\<rparr>"

definition filled :: "32 word \<Rightarrow> bool \<Rightarrow> 8 word list" where
  "filled slots set_flag = replicate (unat slots) (if set_flag then 0xFF else 0)"

definition QBitMap_new :: "32 word \<Rightarrow> bool \<Rightarrow> bit_error + QBitMap" where
  "QBitMap_new n set_flag =
     (if n = 0 then Inl Out_Of_Range
      else Inr \<lparr>item_count = n, slot_count = slots_for n, set_count = (if set_flag then n else 0),
                bm_data = Some (filled (slots_for n) set_flag), mount_flag = False\<rparr>)"

definition QBitMap_copied :: "QBitMap \<Rightarrow> QBitMap" where
  "QBitMap_copied rhs = rhs\<lparr>mount_flag := False\<rparr>"

definition QBitMap_mount :: "32 word \<Rightarrow> 8 word list \<Rightarrow> bool \<Rightarrow> QBitMap \<Rightarrow> bit_error + QBitMap" where
  "QBitMap_mount n bitmap_data flag m =
     (if \<not> mount_flag m \<and> bm_data m \<noteq> None then Inl Not_Empty
      else Inr (m\<lparr>bm_data := Some bitmap_data, mount_flag := flag, item_count := n, slot_count := slots_for n\<rparr>))"

definition QBitMap_alloc :: "32 word \<Rightarrow> bool \<Rightarrow> QBitMap \<Rightarrow> bool \<times> QBitMap" where
  "QBitMap_alloc n set_flag m =
     (if bm_data m \<noteq> None \<or> n = 0 then (False, m)
      else (True, m\<lparr>slot_count := slots_for n, bm_data := Some (filled (slots_for n) set_flag), item_count := n,
                     set_count := (if set_flag then n else 0)\<rparr>))"

text \<open>The byte of a position and its mask, where the position and the memory allow the access.\<close>

definition slot :: "32 word \<Rightarrow> QBitMap \<Rightarrow> bit_error + 8 word list \<times> nat \<times> 8 word" where
  "slot pos m =
     (if pos < item_count m then
        case bm_data m of
          None \<Rightarrow> Inl Bad_Access
        | Some d \<Rightarrow> let quot = unat (pos div 8); rem = unat (pos mod 8) in
            if quot < length d then Inr (d, quot, BITMAP_MASK ! rem) else Inl Bad_Access
      else Inl Out_Of_Range)"

definition QBitMap_bit :: "32 word \<Rightarrow> QBitMap \<Rightarrow> bit_error + bool" where
  "QBitMap_bit pos m = (case slot pos m of Inl e \<Rightarrow> Inl e | Inr (d, quot, msk) \<Rightarrow> Inr (d ! quot AND msk \<noteq> 0))"

definition QBitMap_turn_on_bit :: "32 word \<Rightarrow> QBitMap \<Rightarrow> bit_error + QBitMap" where
  "QBitMap_turn_on_bit pos m =
     (case slot pos m of Inl e \<Rightarrow> Inl e
      | Inr (d, quot, msk) \<Rightarrow>
          if d ! quot AND msk = 0 then Inr (m\<lparr>bm_data := Some (d[quot := d ! quot OR msk]), set_count := set_count m + 1\<rparr>)
          else Inr m)"

definition QBitMap_turn_off_bit :: "32 word \<Rightarrow> QBitMap \<Rightarrow> bit_error + QBitMap" where
  "QBitMap_turn_off_bit pos m =
     (case slot pos m of Inl e \<Rightarrow> Inl e
      | Inr (d, quot, msk) \<Rightarrow>
          if d ! quot AND msk \<noteq> 0 then Inr (m\<lparr>bm_data := Some (d[quot := d ! quot AND NOT msk]), set_count := set_count m - 1\<rparr>)
          else Inr m)"

definition QBitMap_clear :: "QBitMap \<Rightarrow> bit_error + QBitMap" where
  "QBitMap_clear m =
     (case bm_data m of
        None \<Rightarrow> if slot_count m = 0 then Inr (m\<lparr>set_count := 0\<rparr>) else Inl Bad_Access
      | Some d \<Rightarrow> if unat (slot_count m) \<le> length d
          then Inr (m\<lparr>bm_data := Some (replicate (unat (slot_count m)) 0 @ drop (unat (slot_count m)) d), set_count := 0\<rparr>)
          else Inl Bad_Access)"

text \<open>The loop of \<open>copy\<close> that counts the bits set at the positions from \<open>pos\<close> on.\<close>

primrec count_loop :: "QBitMap \<Rightarrow> nat \<Rightarrow> nat \<Rightarrow> 32 word \<Rightarrow> bit_error + 32 word" where
  "count_loop m pos 0 cnt = Inr cnt"
| "count_loop m pos (Suc k) cnt =
     (case QBitMap_bit (of_nat pos) m of Inl e \<Rightarrow> Inl e
      | Inr b \<Rightarrow> count_loop m (Suc pos) k (if b then cnt + 1 else cnt))"

definition QBitMap_copy :: "32 word \<Rightarrow> 8 word list \<Rightarrow> QBitMap \<Rightarrow> bit_error + bool \<times> QBitMap" where
  "QBitMap_copy slots bitmap_data m =
     (case bm_data m of
        None \<Rightarrow> Inr (False, m)
      | Some d \<Rightarrow>
          if slot_count m \<noteq> slots then Inr (False, m)
          else if length bitmap_data < unat slots \<or> length d < unat slots then Inl Bad_Access
          else let m' = m\<lparr>bm_data := Some (take (unat slots) bitmap_data @ drop (unat slots) d)\<rparr> in
            (case count_loop m' 0 (unat (item_count m')) 0 of Inl e \<Rightarrow> Inl e | Inr c \<Rightarrow> Inr (True, m'\<lparr>set_count := c\<rparr>)))"

section \<open>QBitMap2\<close>

record QBitMap2 =
  set_size :: "32 word"
  vec_size :: "32 word"
  pBitVector :: "16 word list"

definition QBitMap2_new :: "32 word \<Rightarrow> bit_error + QBitMap2" where
  "QBitMap2_new n =
     (if n > 0 then let v = drop_bit 4 (n + 15) in Inr \<lparr>set_size = n, vec_size = v, pBitVector = replicate (unat v) 0\<rparr>
      else Inl Out_Of_Range)"

definition QBitMap2_clear :: "QBitMap2 \<Rightarrow> QBitMap2" where
  "QBitMap2_clear m = m\<lparr>pBitVector := replicate (unat (vec_size m)) 0\<rparr>"

definition QBitMap2_bit :: "32 word \<Rightarrow> QBitMap2 \<Rightarrow> bit_error + bool" where
  "QBitMap2_bit x m =
     (let ad = unat (x div 16); ofs = unat (x mod 16) in
      if ad < length (pBitVector m) then Inr (drop_bit (15 - ofs) (pBitVector m ! ad) mod 2 = 1) else Inl Bad_Access)"

text \<open>The test \<open>temp%2==-1\<close> compares a remainder of a non-negative \<open>int\<close> with \<open>-1\<close>.\<close>

definition set_elem :: "nat \<Rightarrow> 16 word \<Rightarrow> 16 word \<Rightarrow> 16 word" where
  "set_elem ofs v elem =
     (let temp = drop_bit (15 - ofs) elem; elem' = push_bit (ofs + 1) elem;
          temp' = (if temp mod 2 = 0 \<and> v = 1 then temp + 1
                   else if cmod (int (unat temp)) 2 = - 1 \<and> v = 0 then temp - 1 else temp)
      in push_bit (15 - ofs) temp' OR drop_bit (ofs + 1) elem')"

definition QBitMap2_set_bit :: "32 word \<Rightarrow> 16 word \<Rightarrow> QBitMap2 \<Rightarrow> bit_error + QBitMap2" where
  "QBitMap2_set_bit x v m =
     (let ad = unat (x div 16); ofs = unat (x mod 16) in
      if ad < length (pBitVector m) then Inr (m\<lparr>pBitVector := (pBitVector m)[ad := set_elem ofs v (pBitVector m ! ad)]\<rparr>)
      else Inl Bad_Access)"

definition turn2 :: "bool \<Rightarrow> 32 word \<Rightarrow> QBitMap2 \<Rightarrow> bit_error + bool \<times> QBitMap2" where
  "turn2 on x m =
     (if x < set_size m then
        case QBitMap2_bit x m of Inl e \<Rightarrow> Inl e
        | Inr b \<Rightarrow> if b = (\<not> on) then (case QBitMap2_set_bit x (if on then 1 else 0) m of Inl e \<Rightarrow> Inl e | Inr m' \<Rightarrow> Inr (True, m'))
                   else Inr (False, m)
      else Inl Out_Of_Range)"

definition QBitMap2_turn_on_bit :: "32 word \<Rightarrow> QBitMap2 \<Rightarrow> bit_error + bool \<times> QBitMap2" where
  "QBitMap2_turn_on_bit = turn2 True"

definition QBitMap2_turn_off_bit :: "32 word \<Rightarrow> QBitMap2 \<Rightarrow> bit_error + bool \<times> QBitMap2" where
  "QBitMap2_turn_off_bit = turn2 False"

section \<open>What a bit set promises\<close>

datatype bit_op = Turn_On nat | Turn_Off nat

fun bit_op_pos :: "bit_op \<Rightarrow> nat" where
  "bit_op_pos (Turn_On p) = p"
| "bit_op_pos (Turn_Off p) = p"

fun ref_bit :: "bit_op \<Rightarrow> nat set \<Rightarrow> nat set" where
  "ref_bit (Turn_On p) B = insert p B"
| "ref_bit (Turn_Off p) B = B - {p}"

fun run_bits :: "(nat \<Rightarrow> 's \<Rightarrow> 'e + 's) \<Rightarrow> (nat \<Rightarrow> 's \<Rightarrow> 'e + 's) \<Rightarrow> bit_op list \<Rightarrow> 's \<Rightarrow> 'e + 's" where
  "run_bits turn_on turn_off [] s = Inr s"
| "run_bits turn_on turn_off (c # cs) s =
     (case (case c of Turn_On p \<Rightarrow> turn_on p s | Turn_Off p \<Rightarrow> turn_off p s) of
        Inl e \<Rightarrow> Inl e | Inr s' \<Rightarrow> run_bits turn_on turn_off cs s')"

locale bit_set =
  fixes ok :: "'s \<Rightarrow> bool"
    and limit :: "'s \<Rightarrow> nat"
    and elems :: "'s \<Rightarrow> nat set"
    and turn_on :: "nat \<Rightarrow> 's \<Rightarrow> 'e + 's"
    and turn_off :: "nat \<Rightarrow> 's \<Rightarrow> 'e + 's"
    and test :: "nat \<Rightarrow> 's \<Rightarrow> 'e + bool"
  assumes on: "ok s \<Longrightarrow> p < limit s \<Longrightarrow> \<exists>s'. turn_on p s = Inr s' \<and> ok s' \<and> limit s' = limit s \<and> elems s' = insert p (elems s)"
    and off: "ok s \<Longrightarrow> p < limit s \<Longrightarrow> \<exists>s'. turn_off p s = Inr s' \<and> ok s' \<and> limit s' = limit s \<and> elems s' = elems s - {p}"
    and test: "ok s \<Longrightarrow> p < limit s \<Longrightarrow> test p s = Inr (p \<in> elems s)"
begin

lemma run_refines:
  "ok s \<Longrightarrow> \<forall>c\<in>set cs. bit_op_pos c < limit s \<Longrightarrow>
     \<exists>s'. run_bits turn_on turn_off cs s = Inr s' \<and> ok s' \<and> limit s' = limit s \<and> elems s' = fold ref_bit cs (elems s)"
proof (induction cs arbitrary: s)
  case (Cons c cs)
  have "bit_op_pos c < limit s" using Cons.prems(2) by simp
  then obtain s1 where s1: "(case c of Turn_On p \<Rightarrow> turn_on p s | Turn_Off p \<Rightarrow> turn_off p s) = Inr s1"
    "ok s1" "limit s1 = limit s" "elems s1 = ref_bit c (elems s)"
    using on [OF Cons.prems(1), of "bit_op_pos c"] off [OF Cons.prems(1), of "bit_op_pos c"] by (cases c) auto
  with Cons.IH [OF s1(2)] Cons.prems(2) show ?case by simp
qed simp

lemma run_test:
  assumes "ok s" "\<forall>c\<in>set cs. bit_op_pos c < limit s" "run_bits turn_on turn_off cs s = Inr s'" "p < limit s"
  shows "test p s' = Inr (p \<in> fold ref_bit cs (elems s))"
  using run_refines [OF assms(1,2)] test [of s' p] assms(3,4) by auto

end

subsection \<open>QBITS16\<close>

definition bits16 :: "16 word \<Rightarrow> nat set" where
  "bits16 v = {p. p < 16 \<and> bit v p}"

lemma unat_less32: "unat x < 2 ^ 32" for x :: "32 word"
  by (rule less_le_trans [OF unsigned_less]) simp

lemma low_bit_test: "drop_bit k w AND 1 \<noteq> 0 \<longleftrightarrow> bit w k" for w :: "'w::len word"
  by (simp add: and_one_eq bit_iff_odd_drop_bit odd_iff_mod_2_eq_one)

lemma unat_of_nat_8 [simp]: "p < 256 \<Longrightarrow> unat (of_nat p :: 8 word) = p"
  by (simp add: unat_of_nat)

interpretation bits16: bit_set "\<lambda>_. True" "\<lambda>_. 16" bits16 "\<lambda>p. QBITS16_turn_on_bit (of_nat p)"
  "\<lambda>p. QBITS16_turn_off_bit (of_nat p)" "\<lambda>p. QBITS16_bit (of_nat p)"
proof unfold_locales
  fix p :: nat and s :: "16 word" assume p: "p < 16"
  show "\<exists>s'. QBITS16_turn_on_bit (of_nat p) s = Inr s' \<and> True \<and> (16 :: nat) = 16 \<and> bits16 s' = insert p (bits16 s)"
    using p by (auto simp: QBITS16_turn_on_bit_def bits16_def bit_simps)
  show "\<exists>s'. QBITS16_turn_off_bit (of_nat p) s = Inr s' \<and> True \<and> (16 :: nat) = 16 \<and> bits16 s' = bits16 s - {p}"
    using p by (auto simp: QBITS16_turn_off_bit_def bits16_def bit_simps)
  show "QBITS16_bit (of_nat p) s = Inr (p \<in> bits16 s)"
    using p by (auto simp: QBITS16_bit_def bits16_def low_bit_test bit_simps)
qed

subsection \<open>QBitMap\<close>

definition bits_of :: "nat \<Rightarrow> 8 word list \<Rightarrow> nat set" where
  "bits_of n d = {p. p < n \<and> bit (d ! (p div 8)) (7 - p mod 8)}"

definition bm_bits :: "QBitMap \<Rightarrow> nat set" where
  "bm_bits m = (case bm_data m of None \<Rightarrow> {} | Some d \<Rightarrow> bits_of (unat (item_count m)) d)"

definition bm_shape :: "QBitMap \<Rightarrow> bool" where
  "bm_shape m \<longleftrightarrow> (case bm_data m of None \<Rightarrow> False
     | Some d \<Rightarrow> length d = (unat (item_count m) + 7) div 8 \<and> unat (slot_count m) = length d)"

definition bm_ok :: "QBitMap \<Rightarrow> bool" where
  "bm_ok m \<longleftrightarrow> bm_shape m \<and> set_count m = of_nat (card (bm_bits m))"

lemma bm_shapeE:
  assumes "bm_shape m"
  obtains d where "bm_data m = Some d" "length d = (unat (item_count m) + 7) div 8" "unat (slot_count m) = length d"
    "bm_bits m = bits_of (unat (item_count m)) d"
  using assms by (auto simp: bm_shape_def bm_bits_def split: option.splits)

lemma finite_bits_of [simp]: "finite (bits_of n d)"
  by (rule finite_subset [of _ "{..<n}"]) (auto simp: bits_of_def)

lemma card_bits_of: "card (bits_of n d) \<le> n"
  using card_mono [of "{..<n}" "bits_of n d"] by (auto simp: bits_of_def)

lemma of_nat_card_remove: "finite B \<Longrightarrow> x \<in> B \<Longrightarrow> of_nat (card B - Suc 0) = (of_nat (card B) - 1 :: 'w::len word)"
  using card_gt_0_iff [of B] by (auto simp: of_nat_diff)

lemma BITMAP_MASK_nth: "r < 8 \<Longrightarrow> BITMAP_MASK ! r = 2 ^ (7 - r)"
  by (auto simp: BITMAP_MASK_def less_Suc_eq numeral_eq_Suc)

lemma same_pos: "q div 8 = p div 8 \<Longrightarrow> 7 - q mod 8 = 7 - p mod 8 \<Longrightarrow> q = p" for p q :: nat
proof -
  assume "q div 8 = p div 8" "7 - q mod 8 = 7 - p mod 8"
  moreover have "q mod 8 < 8" "p mod 8 < 8" by simp_all
  ultimately have "q mod 8 = p mod 8" by linarith
  with \<open>q div 8 = p div 8\<close> show "q = p" by (metis div_mod_decomp)
qed

lemma bits_of_update:
  assumes "p < n" "p div 8 < length d"
  shows "bits_of n (d[p div 8 := d ! (p div 8) OR 2 ^ (7 - p mod 8)]) = insert p (bits_of n d)"
    and "bits_of n (d[p div 8 := d ! (p div 8) AND NOT (2 ^ (7 - p mod 8))]) = bits_of n d - {p}"
  using assms same_pos [of _ p] by (auto simp: bits_of_def nth_list_update bit_simps)

lemma slot_ok:
  assumes "bm_shape m" "p < unat (item_count m)"
  shows "\<exists>d. bm_data m = Some d \<and> slot (of_nat p) m = Inr (d, p div 8, 2 ^ (7 - p mod 8)) \<and> p div 8 < length d"
proof -
  obtain d where d: "bm_data m = Some d" "length d = (unat (item_count m) + 7) div 8"
    using bm_shapeE [OF assms(1)] by blast
  have u: "unat (of_nat p :: 32 word) = p" using assms(2) unat_less32 [of "item_count m"] by (simp add: unat_of_nat)
  then have "of_nat p < item_count m" "unat (of_nat p div 8 :: 32 word) = p div 8" "unat (of_nat p mod 8 :: 32 word) = p mod 8"
    using assms(2) by (simp_all add: word_less_nat_alt unat_div unat_mod)
  moreover have "p div 8 < length d" using d(2) assms(2) by linarith
  ultimately show ?thesis using d by (simp add: slot_def BITMAP_MASK_nth)
qed

lemma mask_test: "w AND 2 ^ k = 0 \<longleftrightarrow> \<not> bit w k" for w :: "8 word"
  by (simp add: and_exp_eq_0_iff_not_bit)

interpretation qbitmap: bit_set bm_ok "\<lambda>m. unat (item_count m)" bm_bits "\<lambda>p. QBitMap_turn_on_bit (of_nat p)"
  "\<lambda>p. QBitMap_turn_off_bit (of_nat p)" "\<lambda>p. QBitMap_bit (of_nat p)"
proof unfold_locales
  fix p m assume m: "bm_ok m" "p < unat (item_count m)"
  then obtain d where d: "bm_data m = Some d" "slot (of_nat p) m = Inr (d, p div 8, 2 ^ (7 - p mod 8))" "p div 8 < length d"
    using slot_ok by (auto simp: bm_ok_def)
  have mem: "p \<in> bits_of (unat (item_count m)) d \<longleftrightarrow> bit (d ! (p div 8)) (7 - p mod 8)" using m(2) by (simp add: bits_of_def)
  note up = bits_of_update [OF m(2) d(3)]
  show "\<exists>s'. QBitMap_turn_on_bit (of_nat p) m = Inr s' \<and> bm_ok s' \<and> unat (item_count s') = unat (item_count m) \<and> bm_bits s' = insert p (bm_bits m)"
    using m(1) d mem by (auto simp: QBitMap_turn_on_bit_def mask_test bm_ok_def bm_shape_def bm_bits_def up insert_absorb)
  show "\<exists>s'. QBitMap_turn_off_bit (of_nat p) m = Inr s' \<and> bm_ok s' \<and> unat (item_count s') = unat (item_count m) \<and> bm_bits s' = bm_bits m - {p}"
    using m(1) d mem by (auto simp: QBitMap_turn_off_bit_def mask_test bm_ok_def bm_shape_def bm_bits_def up of_nat_card_remove [of _ p])
  show "QBitMap_bit (of_nat p) m = Inr (p \<in> bm_bits m)"
    using d mem by (auto simp: QBitMap_bit_def mask_test bm_bits_def)
qed

lemma unat_slots_for: "unat n \<le> 2 ^ 32 - 8 \<Longrightarrow> unat (slots_for n) = (unat n + 7) div 8"
proof -
  assume "unat n \<le> 2 ^ 32 - 8"
  then have "unat (7 + n) = unat n + 7" by (simp add: unat_word_ariths)
  moreover have "unat (8 :: 32 word) = 8" by simp
  ultimately show ?thesis by (simp only: slots_for_def drop_bit_eq_div unat_div) (simp add: unat_div)
qed

lemma bits_of_filled:
  assumes "unat n \<le> 2 ^ 32 - 8"
  shows "bits_of (unat n) (filled (slots_for n) set_flag) = (if set_flag then {..<unat n} else {})"
proof -
  have "p div 8 < unat (slots_for n)" if "p < unat n" for p using that unat_slots_for [OF assms] by linarith
  moreover have "bit (0xFF :: 8 word) (7 - k)" for k :: nat
  proof -
    have "(0xFF :: 8 word) = mask 8" by (simp add: mask_eq_exp_minus_1)
    then show ?thesis by (simp only: bit_mask_iff) simp
  qed
  ultimately show ?thesis by (auto simp: bits_of_def filled_def)
qed

lemma bm_ok_filled:
  assumes "unat n \<le> 2 ^ 32 - 8" "item_count m = n" "slot_count m = slots_for n" "set_count m = (if set_flag then n else 0)"
    "bm_data m = Some (filled (slots_for n) set_flag)"
  shows "bm_ok m" "bm_bits m = (if set_flag then {..<unat n} else {})"
  using assms bits_of_filled [OF assms(1)] unat_slots_for [OF assms(1)] by (auto simp: bm_ok_def bm_shape_def bm_bits_def filled_def)

lemma card_bm_bits: "card (bm_bits m) < 2 ^ 32"
proof (cases "bm_data m")
  case (Some d)
  then show ?thesis using card_bits_of [of "unat (item_count m)" d] unat_less32 [of "item_count m"] by (simp add: bm_bits_def)
qed (simp add: bm_bits_def)

lemma set_count_card: "bm_ok m \<Longrightarrow> unat (set_count m) = card (bm_bits m)"
  using card_bm_bits [of m] by (simp add: bm_ok_def unat_of_nat)

lemma QBitMap_bit_shape: "bm_shape m \<Longrightarrow> p < unat (item_count m) \<Longrightarrow> QBitMap_bit (of_nat p) m = Inr (p \<in> bm_bits m)"
  using slot_ok [of m p] by (auto simp: QBitMap_bit_def mask_test bm_bits_def bits_of_def)

lemma count_loop_card:
  "bm_shape m \<Longrightarrow> pos + k \<le> unat (item_count m) \<Longrightarrow>
     count_loop m pos k cnt = Inr (cnt + of_nat (card (bm_bits m \<inter> {pos..<pos + k})))"
proof (induction k arbitrary: pos cnt)
  case (Suc k)
  have split: "bm_bits m \<inter> {pos..<pos + Suc k} = (if pos \<in> bm_bits m then insert pos else id) (bm_bits m \<inter> {Suc pos..<Suc pos + k})"
    by (auto simp: less_Suc_eq_le Suc_le_eq order_le_less)
  have "pos \<notin> bm_bits m \<inter> {Suc pos..<Suc pos + k}" by simp
  then show ?case using Suc QBitMap_bit_shape [of m pos] unfolding split by auto
qed simp

text \<open>\<open>copy\<close> takes over the bits of the given data and counts them; \<open>clear\<close> empties the set.\<close>

lemma QBitMap_copy_ok:
  assumes "bm_shape m" "length new = unat (slot_count m)"
  shows "\<exists>m'. QBitMap_copy (slot_count m) new m = Inr (True, m') \<and> bm_ok m' \<and> item_count m' = item_count m \<and>
    bm_bits m' = bits_of (unat (item_count m)) new"
proof -
  obtain d where d: "bm_data m = Some d" "length d = (unat (item_count m) + 7) div 8" "unat (slot_count m) = length d"
    using bm_shapeE [OF assms(1)] by blast
  let ?m = "m\<lparr>bm_data := Some new\<rparr>"
  have "bm_shape ?m" using d assms(2) by (simp add: bm_shape_def)
  moreover have "bm_bits ?m \<inter> {0..<unat (item_count m)} = bm_bits ?m" by (auto simp: bm_bits_def bits_of_def)
  ultimately have "count_loop ?m 0 (unat (item_count m)) 0 = Inr (of_nat (card (bm_bits ?m)))"
    using count_loop_card [of ?m 0 "unat (item_count m)" 0] by simp
  then show ?thesis using d assms(2) by (simp add: QBitMap_copy_def Let_def bm_ok_def bm_shape_def bm_bits_def)
qed

lemma QBitMap_clear_ok:
  assumes "bm_shape m"
  shows "\<exists>m'. QBitMap_clear m = Inr m' \<and> bm_ok m' \<and> item_count m' = item_count m \<and> bm_bits m' = {}"
proof -
  obtain d where d: "bm_data m = Some d" "length d = (unat (item_count m) + 7) div 8" "unat (slot_count m) = length d"
    using bm_shapeE [OF assms(1)] by blast
  have "p div 8 < length d" if "p < unat (item_count m)" for p using d(2) that by linarith
  then have "bits_of (unat (item_count m)) (replicate (length d) 0) = {}" by (auto simp: bits_of_def)
  with d show ?thesis by (simp add: QBitMap_clear_def bm_ok_def bm_shape_def bm_bits_def)
qed

text \<open>The rounding wraps for the seven largest sizes: no slot is allocated, and every access is outside the memory.\<close>

lemma QBitMap_new_wraps:
  assumes "2 ^ 32 - 8 < unat n"
  shows "\<exists>m. QBitMap_new n set_flag = Inr m \<and> QBitMap_turn_on_bit 0 m = Inl Bad_Access"
proof -
  have "unat (7 + n) = unat n + 7 - 2 ^ 32" using assms unat_less32 [of n] by (simp add: unat_word_ariths mod_if)
  then have "unat (7 + n) < 8" using unat_less32 [of n] by linarith
  then have "slots_for n = 0" by (simp add: slots_for_def drop_bit_eq_div word_unat_eq_iff unat_div)
  moreover have "n \<noteq> 0" "0 < n" using assms by (auto simp: word_gt_0)
  ultimately show ?thesis by (simp add: QBitMap_new_def QBitMap_turn_on_bit_def slot_def filled_def)
qed

text \<open>
  C30. A \<open>QBitMap\<close> made for \<open>n\<close> items (at most \<open>2\<^sup>32 - 8\<close>), empty or full, and then changed by any sequence of
  \<open>turn_on_bit\<close> and \<open>turn_off_bit\<close> within its range, behaves as the set of positions turned on: \<open>bit\<close> answers
  membership for every position, and \<open>get_set_count\<close> is the number of elements.
\<close>

theorem QBitMap_refines_set:
  assumes "0 < n" "unat n \<le> 2 ^ 32 - 8" "\<forall>c\<in>set cs. bit_op_pos c < unat n"
  shows "\<exists>m0 m. QBitMap_new n set_flag = Inr m0 \<and>
    run_bits (\<lambda>p. QBitMap_turn_on_bit (of_nat p)) (\<lambda>p. QBitMap_turn_off_bit (of_nat p)) cs m0 = Inr m \<and>
    (let B = fold ref_bit cs (if set_flag then {..<unat n} else {}) in
       (\<forall>p < unat n. QBitMap_bit (of_nat p) m = Inr (p \<in> B)) \<and> unat (set_count m) = card B)"
proof -
  obtain m0 where m0: "QBitMap_new n set_flag = Inr m0" "item_count m0 = n" "slot_count m0 = slots_for n"
    "set_count m0 = (if set_flag then n else 0)" "bm_data m0 = Some (filled (slots_for n) set_flag)"
    using assms(1) by (cases "QBitMap_new n set_flag") (auto simp: QBitMap_new_def word_gt_0)
  note ok = bm_ok_filled [OF assms(2) m0(2-5)]
  have pos: "\<forall>c\<in>set cs. bit_op_pos c < unat (item_count m0)" using assms(3) m0(2) by simp
  obtain m where m: "run_bits (\<lambda>p. QBitMap_turn_on_bit (of_nat p)) (\<lambda>p. QBitMap_turn_off_bit (of_nat p)) cs m0 = Inr m" "bm_ok m"
    "bm_bits m = fold ref_bit cs (bm_bits m0)"
    using qbitmap.run_refines [OF ok(1) pos] by blast
  then show ?thesis using m0(1,2) set_count_card [OF m(2)] qbitmap.run_test [OF ok(1) pos m(1)] ok(2) by (simp add: Let_def)
qed

theorem QBitMap_refines_set_witness:
  "\<exists>m0 m. QBitMap_new 12 True = Inr m0 \<and>
    run_bits (\<lambda>p. QBitMap_turn_on_bit (of_nat p)) (\<lambda>p. QBitMap_turn_off_bit (of_nat p)) [Turn_Off 9, Turn_Off 3, Turn_On 9] m0 = Inr m \<and>
    QBitMap_bit 9 m = Inr True \<and> QBitMap_bit 3 m = Inr False \<and> set_count m = 11"
proof -
  have "card (insert 9 ({..<12} - {9} - {3 :: nat})) = 11" by (simp add: card_Diff_singleton insert_absorb)
  then show ?thesis
    using QBitMap_refines_set [of 12 "[Turn_Off 9, Turn_Off 3, Turn_On 9]" True]
    apply (simp add: Let_def)
    apply (elim exE conjE)
    subgoal premises prems for m0 m
      using prems(1,2,4) word_unat_eq_iff [of "set_count m" 11] prems(3) [THEN spec [of _ 9]] prems(3) [THEN spec [of _ 3]] by auto
    done
qed

subsection \<open>QBitMap2\<close>

definition bm2_bits :: "QBitMap2 \<Rightarrow> nat set" where
  "bm2_bits m = {p. p < unat (set_size m) \<and> bit (pBitVector m ! (p div 16)) (15 - p mod 16)}"

definition bm2_ok :: "QBitMap2 \<Rightarrow> bool" where
  "bm2_ok m \<longleftrightarrow> length (pBitVector m) = (unat (set_size m) + 15) div 16 \<and> unat (vec_size m) = length (pBitVector m)"

lemma split_word16:
  fixes e :: "16 word"
  assumes "k + j = 16" "0 < j"
  shows "push_bit k (drop_bit k e) OR drop_bit j (push_bit j e) = e"
    and "push_bit k (drop_bit k e OR 1) OR drop_bit j (push_bit j e) = e OR 2 ^ k"
proof -
  show "push_bit k (drop_bit k e) OR drop_bit j (push_bit j e) = e"
    using assms by (intro bit_eqI) (auto simp: bit_simps)
  show "push_bit k (drop_bit k e OR 1) OR drop_bit j (push_bit j e) = e OR 2 ^ k"
  proof (rule bit_word_eqI)
    fix n assume "n < LENGTH(16)"
    then show "bit (push_bit k (drop_bit k e OR 1) OR drop_bit j (push_bit j e)) n = bit (e OR 2 ^ k) n"
      using assms by (cases "k \<le> n") (auto simp: bit_simps)
  qed
qed

lemma set_elem_spec:
  assumes "ofs < 16"
  shows "set_elem ofs 1 e = e OR 2 ^ (15 - ofs)" and "set_elem ofs 0 e = e"
proof -
  have odd: "t + 1 = t OR 1" if "t mod 2 = 0" for t :: "16 word"
    using that by (simp add: or_one_eq even_iff_mod_2_eq_zero)
  have on: "t OR 1 = t" if "t mod 2 \<noteq> 0" for t :: "16 word"
    using that by (simp add: or_one_eq even_iff_mod_2_eq_zero)
  have cm: "cmod (int (unat t)) 2 \<noteq> - 1" for t :: "16 word" by simp
  have k: "(15 - ofs) + (ofs + 1) = 16" using assms by simp
  have pos: "0 < ofs + 1" by simp
  note w = split_word16 [OF k pos, of e]
  show "set_elem ofs 0 e = e" using w(1) cm by (simp add: set_elem_def Let_def)
  show "set_elem ofs 1 e = e OR 2 ^ (15 - ofs)"
    unfolding set_elem_def Let_def w(2) [symmetric]
    by (cases "drop_bit (15 - ofs) e mod 2 = 0") (simp_all only: cm on odd simp_thms if_False if_True)
qed

lemma same_pos16: "q div 16 = p div 16 \<Longrightarrow> 15 - q mod 16 = 15 - p mod 16 \<Longrightarrow> q = p" for p q :: nat
proof -
  assume "q div 16 = p div 16" "15 - q mod 16 = 15 - p mod 16"
  moreover have "q mod 16 < 16" "p mod 16 < 16" by simp_all
  ultimately have "q mod 16 = p mod 16" by linarith
  with \<open>q div 16 = p div 16\<close> show "q = p" by (metis div_mod_decomp)
qed

lemma QBitMap2_access:
  assumes "bm2_ok m" "p < unat (set_size m)"
  shows "of_nat p < set_size m" "unat (of_nat p div 16 :: 32 word) = p div 16" "unat (of_nat p mod 16 :: 32 word) = p mod 16"
    "p div 16 < length (pBitVector m)" "QBitMap2_bit (of_nat p) m = Inr (p \<in> bm2_bits m)"
proof -
  have "unat (of_nat p :: 32 word) = p" using assms(2) unat_less32 [of "set_size m"] by (simp add: unat_of_nat)
  then show u: "of_nat p < set_size m" "unat (of_nat p div 16 :: 32 word) = p div 16" "unat (of_nat p mod 16 :: 32 word) = p mod 16"
    using assms(2) by (simp_all add: word_less_nat_alt unat_div unat_mod)
  show l: "p div 16 < length (pBitVector m)" using assms unfolding bm2_ok_def by linarith
  show "QBitMap2_bit (of_nat p) m = Inr (p \<in> bm2_bits m)"
    using u l assms(2) by (simp add: QBitMap2_bit_def bm2_bits_def Let_def bit_iff_odd_drop_bit odd_iff_mod_2_eq_one)
qed

text \<open>Turning bits on works as for a set.\<close>

lemma QBitMap2_turn_on:
  assumes "bm2_ok m" "p < unat (set_size m)"
  shows "\<exists>m'. QBitMap2_turn_on_bit (of_nat p) m = Inr (p \<notin> bm2_bits m, m') \<and> bm2_ok m' \<and> set_size m' = set_size m \<and> bm2_bits m' = insert p (bm2_bits m)"
proof -
  note a = QBitMap2_access [OF assms]
  have "bm2_bits (m\<lparr>pBitVector := (pBitVector m)[p div 16 := set_elem (p mod 16) 1 (pBitVector m ! (p div 16))]\<rparr>) = insert p (bm2_bits m)"
    using a(4) assms(2) same_pos16 [of _ p] by (auto simp: bm2_bits_def set_elem_spec nth_list_update bit_simps)
  then show ?thesis
    using a assms by (auto simp: QBitMap2_turn_on_bit_def turn2_def QBitMap2_set_bit_def Let_def bm2_ok_def insert_absorb)
qed

text \<open>
  \<open>QBitMap2::turn_off_bit\<close> turns nothing off: on a well-formed bitmap and a position in its range it
  reports success exactly when the bit is on, and the bitmap afterwards is the bitmap before, with the bit
  still on.
\<close>

lemma QBitMap2_turn_off_keeps:
  assumes "bm2_ok m" "p < unat (set_size m)"
  shows "QBitMap2_turn_off_bit (of_nat p) m = Inr (p \<in> bm2_bits m, m)"
  using QBitMap2_access [OF assms]
  by (auto simp: QBitMap2_turn_off_bit_def turn2_def QBitMap2_set_bit_def Let_def set_elem_spec list_update_id)

end
