(* ===== verification/RedBlackTree.thy ===== *)
theory RedBlackTree
  imports Prelude
begin

text \<open>
  \<open>QRedBlackTree\<close> of \<^verbatim>\<open>src/common/qredblacktree.h\<close>, on an explicit store of nodes with parent pointers.  The
  sentinel \<open>m_leaf\<close> is the node 0; a new node gets the next unused number.  The code writes every step for
  the left and for the right side; here the side is an argument.  Loops over pointers return \<open>None\<close> when
  they do not end.
\<close>

section \<open>The store\<close>

datatype NODE_COLOR = RED | BLACK

record ('k, 'v) RBNode =
  rb_color :: NODE_COLOR
  rb_key :: 'k
  rb_value :: 'v
  rb_count :: int
  rb_parent :: nat
  rb_left :: nat
  rb_right :: nat

record ('k, 'v) QRedBlackTree =
  rb_mem :: "nat \<Rightarrow> ('k, 'v) RBNode"
  m_root :: nat
  rb_next :: nat
  node_num :: int

definition m_leaf :: nat where "m_leaf = 0"
definition MAX_TREE_SIZE :: int where "MAX_TREE_SIZE = 400000"

datatype side = On_Left | On_Right

fun other :: "side \<Rightarrow> side" where
  "other On_Left = On_Right"
| "other On_Right = On_Left"

definition colour :: "nat \<Rightarrow> ('k, 'v) QRedBlackTree \<Rightarrow> NODE_COLOR" where
  "colour p T = rb_color (rb_mem T p)"

definition par :: "nat \<Rightarrow> ('k, 'v) QRedBlackTree \<Rightarrow> nat" where
  "par p T = rb_parent (rb_mem T p)"

definition child :: "side \<Rightarrow> nat \<Rightarrow> ('k, 'v) QRedBlackTree \<Rightarrow> nat" where
  "child s p T = (case s of On_Left \<Rightarrow> rb_left (rb_mem T p) | On_Right \<Rightarrow> rb_right (rb_mem T p))"

definition rb_set :: "nat \<Rightarrow> (('k, 'v) RBNode \<Rightarrow> ('k, 'v) RBNode) \<Rightarrow> ('k, 'v) QRedBlackTree \<Rightarrow> ('k, 'v) QRedBlackTree" where
  "rb_set p f T = T\<lparr>rb_mem := (rb_mem T)(p := f (rb_mem T p))\<rparr>"

definition set_color :: "nat \<Rightarrow> NODE_COLOR \<Rightarrow> ('k, 'v) QRedBlackTree \<Rightarrow> ('k, 'v) QRedBlackTree" where
  "set_color p c = rb_set p (rb_color_update (\<lambda>_. c))"

definition set_parent :: "nat \<Rightarrow> nat \<Rightarrow> ('k, 'v) QRedBlackTree \<Rightarrow> ('k, 'v) QRedBlackTree" where
  "set_parent p q = rb_set p (rb_parent_update (\<lambda>_. q))"

definition set_child :: "side \<Rightarrow> nat \<Rightarrow> nat \<Rightarrow> ('k, 'v) QRedBlackTree \<Rightarrow> ('k, 'v) QRedBlackTree" where
  "set_child s p q = rb_set p (case s of On_Left \<Rightarrow> rb_left_update (\<lambda>_. q) | On_Right \<Rightarrow> rb_right_update (\<lambda>_. q))"

section \<open>Rotations and insertion\<close>

text \<open>The link from the parent of \<open>sub\<close>, or the root, is set to \<open>q\<close>.\<close>

definition relink :: "nat \<Rightarrow> nat \<Rightarrow> ('k, 'v) QRedBlackTree \<Rightarrow> ('k, 'v) QRedBlackTree" where
  "relink sub q T =
     (if par sub T = m_leaf then T\<lparr>m_root := q\<rparr>
      else if sub = child On_Left (par sub T) T then set_child On_Left (par sub T) q T
      else set_child On_Right (par sub T) q T)"

definition rotate_to :: "side \<Rightarrow> nat \<Rightarrow> ('k, 'v) QRedBlackTree \<Rightarrow> ('k, 'v) QRedBlackTree" where
  "rotate_to s sub T =
     (let temp = child (other s) sub T;
          T = set_child (other s) sub (child s temp T) T;
          T = (if child s temp T \<noteq> m_leaf then set_parent (child s temp T) sub T else T);
          T = set_parent temp (par sub T) T;
          T = relink sub temp T;
          T = set_child s temp sub T
      in set_parent sub temp T)"

definition LeftRotate :: "nat \<Rightarrow> ('k, 'v) QRedBlackTree \<Rightarrow> ('k, 'v) QRedBlackTree" where
  "LeftRotate = rotate_to On_Left"

definition RightRotate :: "nat \<Rightarrow> ('k, 'v) QRedBlackTree \<Rightarrow> ('k, 'v) QRedBlackTree" where
  "RightRotate = rotate_to On_Right"

definition side_of_parent :: "nat \<Rightarrow> ('k, 'v) QRedBlackTree \<Rightarrow> side" where
  "side_of_parent node T = (if par node T = child On_Left (par (par node T) T) T then On_Left else On_Right)"

definition fix_red_uncle :: "nat \<Rightarrow> nat \<Rightarrow> ('k, 'v) QRedBlackTree \<Rightarrow> nat \<times> ('k, 'v) QRedBlackTree" where
  "fix_red_uncle node uncle T =
     (let T = set_color (par node T) BLACK T;
          T = set_color uncle BLACK T;
          node = par uncle T
      in (node, set_color node RED T))"

definition fix_black_uncle :: "side \<Rightarrow> nat \<Rightarrow> ('k, 'v) QRedBlackTree \<Rightarrow> ('k, 'v) QRedBlackTree" where
  "fix_black_uncle s node T =
     (let (node, T) = (if node = child (other s) (par node T) T then (par node T, rotate_to s (par node T) T) else (node, T));
          T = set_color (par node T) BLACK T;
          T = set_color (par (par node T) T) RED T
      in rotate_to (other s) (par (par node T) T) T)"

partial_function (option) InsertFixup_loop :: "nat \<Rightarrow> ('k, 'v) QRedBlackTree \<Rightarrow> ('k, 'v) QRedBlackTree option" where
  "InsertFixup_loop node T =
     (if colour (par node T) T = RED then
        let s = side_of_parent node T; uncle = child (other s) (par (par node T) T) T in
        if colour uncle T = RED then (case fix_red_uncle node uncle T of (node', T') \<Rightarrow> InsertFixup_loop node' T')
        else Some (fix_black_uncle s node T)
      else Some T)"

definition InsertFixup :: "nat \<Rightarrow> ('k, 'v) QRedBlackTree \<Rightarrow> ('k, 'v) QRedBlackTree option" where
  "InsertFixup node T = map_option (\<lambda>T. set_color (m_root T) BLACK T) (InsertFixup_loop node T)"

text \<open>The loop of \<open>insert\<close>: the node with the key and its predecessor on the way, or the sentinel and the last node.\<close>

partial_function (option) find_place :: "'k::linorder \<Rightarrow> nat \<Rightarrow> nat \<Rightarrow> ('k, 'v) QRedBlackTree \<Rightarrow> (nat \<times> nat) option" where
  "find_place k cur pre T =
     (if cur \<noteq> m_leaf then
        if rb_key (rb_mem T cur) = k then Some (cur, cur)
        else if k < rb_key (rb_mem T cur) then find_place k (child On_Left cur T) cur T
        else find_place k (child On_Right cur T) cur T
      else Some (cur, pre))"

definition QRedBlackTree_new :: "('k, 'v) RBNode \<Rightarrow> ('k, 'v) QRedBlackTree" where
  "QRedBlackTree_new n =
     \<lparr>rb_mem = (\<lambda>_. n\<lparr>rb_color := BLACK, rb_count := 1, rb_parent := m_leaf, rb_left := m_leaf, rb_right := m_leaf\<rparr>),
      m_root = m_leaf, rb_next = 1, node_num = 0\<rparr>"

text \<open>
  A new node: the statement \<open>RBNode();\<close> in the constructor of a node with key and value makes and drops another
  node, so that \<open>count\<close> keeps whatever the memory held, the argument \<open>junk\<close>.
\<close>

definition add_node :: "int \<Rightarrow> 'k::linorder \<Rightarrow> 'v \<Rightarrow> nat \<Rightarrow> ('k, 'v) QRedBlackTree \<Rightarrow> nat \<times> ('k, 'v) QRedBlackTree" where
  "add_node junk k v pre T =
     (let new = rb_next T;
          T = T\<lparr>rb_mem := (rb_mem T)(new := \<lparr>rb_color = RED, rb_key = k, rb_value = v, rb_count = junk,
                  rb_parent = pre, rb_left = m_leaf, rb_right = m_leaf\<rparr>), rb_next := new + 1\<rparr>;
          T = (if pre = m_leaf then T\<lparr>m_root := new\<rparr>
               else if k < rb_key (rb_mem T pre) then set_child On_Left pre new T else set_child On_Right pre new T)
      in (new, T))"

definition QRedBlackTree_insert ::
  "bool \<Rightarrow> int \<Rightarrow> 'k::linorder \<Rightarrow> 'v \<Rightarrow> bool \<Rightarrow> bool \<Rightarrow> ('k, 'v) QRedBlackTree \<Rightarrow> (int \<times> ('k, 'v) QRedBlackTree) option" where
  "QRedBlackTree_insert mem_ok junk k v cover_flag count_flag T =
     (if node_num T > MAX_TREE_SIZE then Some (- 10, T)
      else case find_place k (m_root T) m_leaf T of
        None \<Rightarrow> None
      | Some (cur, pre) \<Rightarrow>
          if cur \<noteq> m_leaf then
            Some (1, if cover_flag then rb_set cur (rb_value_update (\<lambda>_. v)) T
                     else if count_flag then rb_set cur (rb_count_update (\<lambda>n. n + 1)) T else T)
          else if \<not> mem_ok then Some (- 1, T)
          else case add_node junk k v pre T of (new, T) \<Rightarrow>
            (case InsertFixup new T of None \<Rightarrow> None | Some T \<Rightarrow> Some (0, T\<lparr>node_num := node_num T + 1\<rparr>)))"

definition QRedBlackTree_search :: "'k::linorder \<Rightarrow> ('k, 'v) QRedBlackTree \<Rightarrow> (int \<times> 'v option) option" where
  "QRedBlackTree_search k T =
     (case find_place k (m_root T) m_leaf T of
        None \<Rightarrow> None
      | Some (cur, _) \<Rightarrow> if cur = m_leaf then Some (- 1, None) else Some (0, Some (rb_value (rb_mem T cur))))"

section \<open>Removal\<close>

text \<open>
  The two branches of \<open>DeleteFixup\<close>.  In the branch for a right child three statements are comparisons
  (\<open>brother->color==BLACK\<close>) and have no effect.
\<close>

definition delete_left :: "nat \<Rightarrow> ('k, 'v) QRedBlackTree \<Rightarrow> nat \<times> ('k, 'v) QRedBlackTree" where
  "delete_left node T =
     (let brother = child On_Right (par node T) T;
          (brother, T) =
            (if colour brother T = RED then
               let T = set_color brother BLACK T; T = set_color (par node T) RED T; T = LeftRotate (par node T) T
               in (child On_Right (par node T) T, T)
             else (brother, T))
      in if colour (child On_Left brother T) T = BLACK \<and> colour (child On_Right brother T) T = BLACK then
           (par node T, set_color brother RED T)
         else
           let (brother, T) =
                 (if colour (child On_Right brother T) T = BLACK then
                    let T = set_color brother RED T; T = set_color (child On_Left brother T) BLACK T; T = RightRotate brother T
                    in (child On_Right (par node T) T, T)
                  else (brother, T));
               T = set_color brother (colour (par brother T) T) T;
               T = set_color (par brother T) BLACK T;
               T = set_color (child On_Right brother T) BLACK T;
               T = LeftRotate (par brother T) T
           in (m_root T, T))"

definition delete_right :: "nat \<Rightarrow> ('k, 'v) QRedBlackTree \<Rightarrow> nat \<times> ('k, 'v) QRedBlackTree" where
  "delete_right node T =
     (let brother = child On_Left (par node T) T;
          (brother, T) =
            (if colour brother T = RED then
               let T = set_color (par node T) RED T; T = RightRotate (par node T) T
               in (child On_Left (par node T) T, T)
             else (brother, T))
      in if colour (child On_Left brother T) T = BLACK \<and> colour (child On_Right brother T) T = BLACK then
           (par node T, set_color brother RED T)
         else
           let (brother, T) =
                 (if colour (child On_Left brother T) T = BLACK then
                    let T = LeftRotate brother T in (child On_Left (par node T) T, T)
                  else (brother, T));
               T = set_color brother (colour (par brother T) T) T;
               T = set_color (par brother T) BLACK T;
               T = set_color (child On_Left brother T) BLACK T;
               T = RightRotate (par brother T) T
           in (m_root T, T))"

partial_function (option) DeleteFixup_loop :: "nat \<Rightarrow> ('k, 'v) QRedBlackTree \<Rightarrow> (nat \<times> ('k, 'v) QRedBlackTree) option" where
  "DeleteFixup_loop node T =
     (if node \<noteq> m_root T \<and> colour node T = BLACK then
        case (if node = child On_Left (par node T) T then delete_left node T else delete_right node T) of
          (node', T') \<Rightarrow> DeleteFixup_loop node' T'
      else Some (node, T))"

definition DeleteFixup :: "nat \<Rightarrow> ('k, 'v) QRedBlackTree \<Rightarrow> ('k, 'v) QRedBlackTree option" where
  "DeleteFixup node T = map_option (\<lambda>(node, T). set_color node BLACK T) (DeleteFixup_loop node T)"

partial_function (option) leftmost :: "nat \<Rightarrow> ('k, 'v) QRedBlackTree \<Rightarrow> nat option" where
  "leftmost p T = (if child On_Left p T \<noteq> m_leaf then leftmost (child On_Left p T) T else Some p)"

definition unlink :: "nat \<Rightarrow> nat \<Rightarrow> ('k, 'v) QRedBlackTree \<Rightarrow> ('k, 'v) QRedBlackTree option" where
  "unlink node del T =
     (let cur = (if child On_Left del T \<noteq> m_leaf then child On_Left del T else child On_Right del T);
          T = set_parent cur (par del T) T;
          T = relink del cur T;
          T = (if del \<noteq> node then rb_set node (\<lambda>n. n\<lparr>rb_key := rb_key (rb_mem T del), rb_value := rb_value (rb_mem T del)\<rparr>) T else T)
      in map_option (\<lambda>T. T\<lparr>node_num := node_num T - 1\<rparr>) (if colour del T = BLACK then DeleteFixup cur T else Some T))"

definition QRedBlackTree_remove :: "'k::linorder \<Rightarrow> bool \<Rightarrow> ('k, 'v) QRedBlackTree \<Rightarrow> (int \<times> ('k, 'v) QRedBlackTree) option" where
  "QRedBlackTree_remove k count_flag T =
     (case find_place k (m_root T) m_leaf T of
        None \<Rightarrow> None
      | Some (node, _) \<Rightarrow>
          if node = m_leaf then Some (1, T)
          else
            let T = (if count_flag then rb_set node (rb_count_update (\<lambda>n. n - 1)) T else T) in
            if count_flag \<and> rb_count (rb_mem T node) > 0 then Some (2, T)
            else
              case (if child On_Left node T = m_leaf \<or> child On_Right node T = m_leaf then Some node
                    else leftmost (child On_Right node T) T) of
                None \<Rightarrow> None
              | Some del \<Rightarrow> map_option (\<lambda>T. (0, T)) (unlink node del T))"

section \<open>Trees in the store\<close>

text \<open>
  A tree with the numbers of its nodes, and the path from a node to the root: each frame is a node above, the
  side on which the path continues below it, and its other subtree.
\<close>

datatype ('k, 'v) rtree =
  Tip | Br (rt_addr: nat) (rt_color: NODE_COLOR) (rt_data: "'k \<times> 'v \<times> int") (rt_left: "('k, 'v) rtree") (rt_right: "('k, 'v) rtree")

datatype ('k, 'v) frame = Fr side nat NODE_COLOR "'k \<times> 'v \<times> int" "('k, 'v) rtree"

fun ad :: "('k, 'v) rtree \<Rightarrow> nat" where
  "ad Tip = m_leaf"
| "ad (Br a c d l r) = a"

fun addrs :: "('k, 'v) rtree \<Rightarrow> nat set" where
  "addrs Tip = {}"
| "addrs (Br a c d l r) = insert a (addrs l \<union> addrs r)"

fun apart :: "('k, 'v) rtree \<Rightarrow> bool" where
  "apart Tip = True"
| "apart (Br a c d l r) \<longleftrightarrow> a \<noteq> m_leaf \<and> a \<notin> addrs l \<and> a \<notin> addrs r \<and> addrs l \<inter> addrs r = {} \<and> apart l \<and> apart r"

fun caddrs :: "('k, 'v) frame list \<Rightarrow> nat set" where
  "caddrs [] = {}"
| "caddrs (Fr s a c d u # C) = insert a (addrs u \<union> caddrs C)"

fun capart :: "('k, 'v) frame list \<Rightarrow> bool" where
  "capart [] = True"
| "capart (Fr s a c d u # C) \<longleftrightarrow> a \<noteq> m_leaf \<and> a \<notin> addrs u \<and> a \<notin> caddrs C \<and> addrs u \<inter> caddrs C = {} \<and> apart u \<and> capart C"

fun cad :: "('k, 'v) frame list \<Rightarrow> nat" where
  "cad [] = m_leaf"
| "cad (Fr s a c d u # C) = a"

fun root_of :: "nat \<Rightarrow> ('k, 'v) frame list \<Rightarrow> nat" where
  "root_of p [] = p"
| "root_of p (Fr s a c d u # C) = root_of a C"

definition info :: "nat \<Rightarrow> ('k, 'v) QRedBlackTree \<Rightarrow> 'k \<times> 'v \<times> int" where
  "info p T = (rb_key (rb_mem T p), rb_value (rb_mem T p), rb_count (rb_mem T p))"

fun rep :: "('k, 'v) QRedBlackTree \<Rightarrow> nat \<Rightarrow> ('k, 'v) rtree \<Rightarrow> bool" where
  "rep T q Tip = True"
| "rep T q (Br a c d l r) \<longleftrightarrow> colour a T = c \<and> info a T = d \<and> par a T = q \<and>
     child On_Left a T = ad l \<and> child On_Right a T = ad r \<and> rep T a l \<and> rep T a r"

fun crep :: "('k, 'v) QRedBlackTree \<Rightarrow> nat \<Rightarrow> ('k, 'v) frame list \<Rightarrow> bool" where
  "crep T p [] = True"
| "crep T p (Fr s a c d u # C) \<longleftrightarrow> colour a T = c \<and> info a T = d \<and> par a T = cad C \<and>
     child s a T = p \<and> child (other s) a T = ad u \<and> rep T a u \<and> crep T a C"

text \<open>The store \<open>T\<close> holds the tree \<open>t\<close> below the path \<open>C\<close>.\<close>

definition holds :: "('k, 'v) QRedBlackTree \<Rightarrow> ('k, 'v) rtree \<Rightarrow> ('k, 'v) frame list \<Rightarrow> bool" where
  "holds T t C \<longleftrightarrow> rep T (cad C) t \<and> crep T (ad t) C \<and> m_root T = root_of (ad t) C \<and>
     apart t \<and> capart C \<and> addrs t \<inter> caddrs C = {} \<and> colour m_leaf T = BLACK \<and>
     (\<forall>a \<in> addrs t \<union> caddrs C. a < rb_next T) \<and> 0 < rb_next T"

lemma ad_in [simp]: "t \<noteq> Tip \<Longrightarrow> ad t \<in> addrs t"
  by (cases t) auto

lemma leaf_notin [simp]: "apart t \<Longrightarrow> m_leaf \<notin> addrs t"
  by (induction t) auto

lemma leaf_notin_path [simp]: "capart C \<Longrightarrow> m_leaf \<notin> caddrs C"
  by (induction C rule: capart.induct) auto

lemma ad_leaf [simp]: "apart t \<Longrightarrow> ad t = m_leaf \<longleftrightarrow> t = Tip"
  by (cases t) auto

lemma cad_leaf [simp]: "capart C \<Longrightarrow> cad C = m_leaf \<longleftrightarrow> C = []"
  by (cases C rule: cad.cases) auto

lemma cad_in: "C \<noteq> [] \<Longrightarrow> cad C \<in> caddrs C"
  by (cases C rule: cad.cases) auto

definition same_at :: "nat \<Rightarrow> ('k, 'v) QRedBlackTree \<Rightarrow> ('k, 'v) QRedBlackTree \<Rightarrow> bool" where
  "same_at x T T' \<longleftrightarrow> colour x T' = colour x T \<and> info x T' = info x T \<and> par x T' = par x T \<and> (\<forall>s. child s x T' = child s x T)"

lemma rep_same: "(\<And>x. x \<in> addrs t \<Longrightarrow> same_at x T T') \<Longrightarrow> rep T' q t = rep T q t"
  by (induction t arbitrary: q) (auto simp: same_at_def)

lemma crep_same: "(\<And>x. x \<in> caddrs C \<Longrightarrow> same_at x T T') \<Longrightarrow> crep T' p C = crep T p C"
proof (induction C arbitrary: p rule: caddrs.induct)
  case (2 s a c d u C)
  then have "rep T' a u = rep T a u" by (intro rep_same) auto
  with 2 show ?case by (auto simp: same_at_def)
qed simp

text \<open>What the assignments to fields change.\<close>

lemmas store_defs = child_def par_def colour_def info_def rb_set_def set_color_def set_parent_def set_child_def

lemma set_color_simps [simp]:
  "colour x (set_color p c T) = (if x = p then c else colour x T)" "par x (set_color p c T) = par x T"
  "child s x (set_color p c T) = child s x T" "info x (set_color p c T) = info x T"
  "m_root (set_color p c T) = m_root T" "rb_next (set_color p c T) = rb_next T" "node_num (set_color p c T) = node_num T"
  by (auto simp: store_defs split: side.splits)

lemma set_parent_simps [simp]:
  "par x (set_parent p q T) = (if x = p then q else par x T)" "colour x (set_parent p q T) = colour x T"
  "child s x (set_parent p q T) = child s x T" "info x (set_parent p q T) = info x T"
  "m_root (set_parent p q T) = m_root T" "rb_next (set_parent p q T) = rb_next T" "node_num (set_parent p q T) = node_num T"
  by (auto simp: store_defs split: side.splits)

lemma set_child_simps [simp]:
  "child s x (set_child s' p q T) = (if x = p \<and> s = s' then q else child s x T)" "colour x (set_child s' p q T) = colour x T"
  "par x (set_child s' p q T) = par x T" "info x (set_child s' p q T) = info x T"
  "m_root (set_child s' p q T) = m_root T" "rb_next (set_child s' p q T) = rb_next T" "node_num (set_child s' p q T) = node_num T"
  by (cases s'; auto simp: store_defs split: side.splits)+

lemma set_root_simps [simp]:
  "child s x (T\<lparr>m_root := p\<rparr>) = child s x T" "colour x (T\<lparr>m_root := p\<rparr>) = colour x T"
  "par x (T\<lparr>m_root := p\<rparr>) = par x T" "info x (T\<lparr>m_root := p\<rparr>) = info x T"
  by (cases s; simp add: child_def colour_def par_def info_def)+

lemma relink_simps [simp]:
  "child s x (relink sub q T) = (if par sub T \<noteq> m_leaf \<and> x = par sub T \<and> s = (if sub = child On_Left x T then On_Left else On_Right) then q else child s x T)"
  "colour x (relink sub q T) = colour x T" "par x (relink sub q T) = par x T" "info x (relink sub q T) = info x T"
  "m_root (relink sub q T) = (if par sub T = m_leaf then q else m_root T)" "rb_next (relink sub q T) = rb_next T"
  "node_num (relink sub q T) = node_num T"
  by (auto simp: relink_def)

lemma other_neq [simp]: "other s \<noteq> s" "s \<noteq> other s" "other (other s) = s"
  by (cases s; simp)+

lemma side_neq: "s \<noteq> s' \<longleftrightarrow> s' = other s"
  by (cases s; cases s'; simp)

text \<open>The rotation with its four nodes named.\<close>

lemma rotate_steps:
  assumes "child (other s) a T = b" "child s b T = e" "par a T = q" "a \<noteq> b" "e \<noteq> a" "e \<noteq> b" "q \<noteq> a" "q \<noteq> b"
  shows "rotate_to s a T =
    (let T1 = set_child (other s) a e T; T2 = (if e \<noteq> m_leaf then set_parent e a T1 else T1)
     in set_parent a b (set_child s b a (relink a b (set_parent b q T2))))"
  using assms by (cases "e = m_leaf") (simp_all add: rotate_to_def Let_def)

lemma rotate_simps:
  assumes "child (other s) a T = b" "child s b T = e" "par a T = q" "a \<noteq> b" "e \<noteq> a" "e \<noteq> b" "q \<noteq> a" "q \<noteq> b"
    "e = q \<Longrightarrow> q = m_leaf"
  shows "child s' x (rotate_to s a T) =
      (if x = a \<and> s' = other s then e else if x = b \<and> s' = s then a
       else if x = q \<and> q \<noteq> m_leaf \<and> s' = (if a = child On_Left q T then On_Left else On_Right) then b else child s' x T)"
    and "par x (rotate_to s a T) = (if x = a then b else if x = b then q else if x = e \<and> e \<noteq> m_leaf then a else par x T)"
    and "colour x (rotate_to s a T) = colour x T" and "info x (rotate_to s a T) = info x T"
    and "m_root (rotate_to s a T) = (if q = m_leaf then b else m_root T)"
    and "rb_next (rotate_to s a T) = rb_next T" and "node_num (rotate_to s a T) = node_num T"
  unfolding rotate_steps [OF assms(1-8)] Let_def using assms by (cases "e = m_leaf"; simp)+

text \<open>A node with its subtree on the side \<open>s\<close> and the other one.\<close>

definition mk :: "side \<Rightarrow> nat \<Rightarrow> NODE_COLOR \<Rightarrow> 'k \<times> 'v \<times> int \<Rightarrow> ('k, 'v) rtree \<Rightarrow> ('k, 'v) rtree \<Rightarrow> ('k, 'v) rtree" where
  "mk s a c d t u = (case s of On_Left \<Rightarrow> Br a c d t u | On_Right \<Rightarrow> Br a c d u t)"

lemma mk_simps [simp]:
  "ad (mk s a c d t u) = a" "addrs (mk s a c d t u) = insert a (addrs t \<union> addrs u)" "mk s a c d t u \<noteq> Tip"
  "apart (mk s a c d t u) \<longleftrightarrow> a \<noteq> m_leaf \<and> a \<notin> addrs t \<and> a \<notin> addrs u \<and> addrs t \<inter> addrs u = {} \<and> apart t \<and> apart u"
  "rep T q (mk s a c d t u) \<longleftrightarrow> colour a T = c \<and> info a T = d \<and> par a T = q \<and>
     child s a T = ad t \<and> child (other s) a T = ad u \<and> rep T a t \<and> rep T a u"
  by (cases s; auto simp: mk_def)+

lemma rep_reparent:
  assumes "rep T q t" "apart t" "\<And>x. x \<in> addrs t \<Longrightarrow> x \<noteq> ad t \<Longrightarrow> same_at x T T'"
    "t \<noteq> Tip \<Longrightarrow> par (ad t) T' = q'" "t \<noteq> Tip \<Longrightarrow> colour (ad t) T' = colour (ad t) T" "t \<noteq> Tip \<Longrightarrow> info (ad t) T' = info (ad t) T"
    "\<And>s. t \<noteq> Tip \<Longrightarrow> child s (ad t) T' = child s (ad t) T"
  shows "rep T' q' t"
proof (cases t)
  case (Br a c d l r)
  have "rep T' a l = rep T a l" "rep T' a r = rep T a r" using assms(2,3) Br by (auto intro!: rep_same)
  with assms Br show ?thesis by auto
qed simp

lemma crep_relink:
  assumes "crep T p C" "capart C" "p \<notin> caddrs C" "\<And>x. x \<in> caddrs C \<Longrightarrow> x \<noteq> cad C \<Longrightarrow> same_at x T T'"
    "C \<noteq> [] \<Longrightarrow> colour (cad C) T' = colour (cad C) T" "C \<noteq> [] \<Longrightarrow> info (cad C) T' = info (cad C) T" "C \<noteq> [] \<Longrightarrow> par (cad C) T' = par (cad C) T"
    "\<And>s. C \<noteq> [] \<Longrightarrow> child s (cad C) T' = (if s = (if p = child On_Left (cad C) T then On_Left else On_Right) then p' else child s (cad C) T)"
    "p \<noteq> m_leaf"
  shows "crep T' p' C"
proof (cases C rule: cad.cases)
  case (2 s a c d u C')
  have "rep T' a u = rep T a u" "crep T' a C' = crep T a C'" using assms(2,4) 2 by (auto intro!: rep_same crep_same)
  moreover have "p \<noteq> ad u" using assms(3,9) 2 by (cases u) auto
  then have "(if p = child On_Left a T then On_Left else On_Right) = s" using assms(1) 2 by (cases s) auto
  ultimately show ?thesis using assms 2 by simp
qed simp

lemma root_of_same: "C \<noteq> [] \<Longrightarrow> root_of p C = root_of p' C"
  by (cases C rule: cad.cases) auto

lemma holds_rotate:
  assumes "holds T (mk s a c d t (mk s b c' d' u w)) C"
  shows "holds (rotate_to s a T) (mk s b c' d' (mk s a c d t u) w) C" "node_num (rotate_to s a T) = node_num T"
proof -
  let ?T = "rotate_to s a T" and ?e = "ad u" and ?q = "cad C"
  have f: "child (other s) a T = b" "child s b T = ?e" "par a T = ?q" "child s a T = ad t" "child (other s) b T = ad w"
    "colour a T = c" "info a T = d" "colour b T = c'" "info b T = d'" "rep T a t" "rep T b u" "rep T b w" "crep T a C"
    "m_root T = root_of a C" "apart t" "apart u" "apart w" "capart C" "colour m_leaf T = BLACK"
    using assms by (auto simp: holds_def)
  have sep: "a \<noteq> b" "a \<notin> addrs t" "a \<notin> addrs u" "a \<notin> addrs w" "b \<notin> addrs t" "b \<notin> addrs u" "b \<notin> addrs w" "a \<notin> caddrs C" "b \<notin> caddrs C"
    "addrs t \<inter> addrs u = {}" "addrs t \<inter> addrs w = {}" "addrs u \<inter> addrs w = {}" "addrs t \<inter> caddrs C = {}" "addrs u \<inter> caddrs C = {}"
    "addrs w \<inter> caddrs C = {}" "a \<noteq> m_leaf" "b \<noteq> m_leaf"
    using assms by (auto simp: holds_def)
  have e: "?e = m_leaf \<and> u = Tip \<or> ?e \<in> addrs u \<and> u \<noteq> Tip" using f(16) by (cases "u = Tip") auto
  have q: "?q = m_leaf \<and> C = [] \<or> ?q \<in> caddrs C \<and> C \<noteq> []" using cad_in [of C] by (cases "C = []") auto
  have ne: "?e \<noteq> a" "?e \<noteq> b" "?q \<noteq> a" "?q \<noteq> b" "?e = ?q \<Longrightarrow> ?q = m_leaf" using e q sep f(16,18) by auto
  note r = rotate_simps [OF f(1-3) sep(1) ne]
  have same: "same_at x T ?T" if "x \<noteq> a" "x \<noteq> b" "x \<noteq> ?e \<or> ?e = m_leaf" "x \<noteq> ?q \<or> ?q = m_leaf" for x
    using that by (auto simp: same_at_def r)
  have far: "x \<noteq> ?e \<or> ?e = m_leaf" if "x \<notin> addrs u" for x using that e by auto
  have off: "x \<noteq> ?q \<or> ?q = m_leaf" if "x \<notin> caddrs C" for x using that q by auto
  have "same_at x T ?T" if "x \<in> addrs t" for x using that sep by (intro same far off) auto
  then have "rep ?T a t" using f(10) rep_same by blast
  moreover have "same_at x T ?T" if "x \<in> addrs w" for x using that sep by (intro same far off) auto
  then have "rep ?T b w" using f(12) rep_same by blast
  moreover have "rep ?T a u"
  proof (rule rep_reparent [OF f(11,16)])
    show "same_at x T ?T" if "x \<in> addrs u" "x \<noteq> ?e" for x using that sep by (intro same off) auto
    show "par ?e ?T = a" if "u \<noteq> Tip" using that e ne f(16) by (simp add: r)
    show "child s' ?e ?T = child s' ?e T" if "u \<noteq> Tip" for s'
      using that ne e f(16) by (subst r(1)) auto
  qed (simp_all add: r)
  moreover have "crep ?T b C"
  proof (rule crep_relink [OF f(13,18) sep(8)])
    show "same_at x T ?T" if "x \<in> caddrs C" "x \<noteq> ?q" for x using that sep by (intro same far) auto
    show "par ?q ?T = par ?q T" if "C \<noteq> []" using that q ne f(18) by (auto simp: r)
    show "child s' ?q ?T = (if s' = (if a = child On_Left ?q T then On_Left else On_Right) then b else child s' ?q T)" if "C \<noteq> []" for s'
      using that q ne f(18) by (subst r(1)) auto
  qed (simp_all add: r sep)
  ultimately show "holds ?T (mk s b c' d' (mk s a c d t u) w) C"
    using assms f sep ne q root_of_same [of C a b] by (auto simp: holds_def r)
  show "node_num ?T = node_num T" by (rule r)
qed

subsection \<open>Moving the focus and painting\<close>

lemma mk_other: "mk s a c d t u = mk (other s) a c d u t"
  by (cases s) (simp_all add: mk_def)

lemma ex_mk: "t \<noteq> Tip \<Longrightarrow> \<exists>a c d l r. t = mk s a c d l r"
  by (cases t; cases s) (auto simp: mk_def)

lemma holds_focus: "holds T (mk s a c d t u) C \<longleftrightarrow> holds T t (Fr s a c d u # C)"
  by (auto simp: holds_def)

lemmas holds_up = holds_focus [THEN iffD2]
lemmas holds_down = holds_focus [THEN iffD1]

fun paint :: "NODE_COLOR \<Rightarrow> ('k, 'v) rtree \<Rightarrow> ('k, 'v) rtree" where
  "paint c Tip = Tip"
| "paint c (Br a _ d l r) = Br a c d l r"

fun rcol :: "('k, 'v) rtree \<Rightarrow> NODE_COLOR" where
  "rcol Tip = BLACK"
| "rcol (Br a c d l r) = c"

lemma paint_mk [simp]: "paint c' (mk s a c d t u) = mk s a c' d t u" "rcol (mk s a c d t u) = c"
  by (cases s; simp add: mk_def)+

lemma paint_simps [simp]: "ad (paint c t) = ad t" "addrs (paint c t) = addrs t" "paint c t = Tip \<longleftrightarrow> t = Tip"
  by (cases t; simp)+

lemma holds_paint:
  assumes "holds T t C" "t \<noteq> Tip"
  shows "holds (set_color (ad t) c T) (paint c t) C" "node_num (set_color (ad t) c T) = node_num T"
proof -
  obtain a c0 d l r where t: "t = Br a c0 d l r" using assms(2) by (cases t) auto
  let ?T = "set_color (ad t) c T"
  have "same_at x T ?T" if "x \<noteq> a" for x using that t by (simp add: same_at_def)
  moreover have "a \<notin> addrs l" "a \<notin> addrs r" "a \<notin> caddrs C" using assms(1) t by (auto simp: holds_def)
  ultimately have "rep ?T a l = rep T a l" "rep ?T a r = rep T a r" "crep ?T a C = crep T a C"
    using rep_same [of l T ?T a] rep_same [of r T ?T a] crep_same [of C T ?T a] by metis+
  then show "holds ?T (paint c t) C" using assms(1) t by (auto simp: holds_def)
qed simp

lemma holds_obs:
  assumes "holds T (mk s a c d t u) C"
  shows "par a T = cad C" "child s a T = ad t" "child (other s) a T = ad u" "colour a T = c" "info a T = d" "a \<noteq> m_leaf"
  using assms by (auto simp: holds_def)

lemma holds_colour: "holds T t C \<Longrightarrow> colour (ad t) T = rcol t"
  by (cases t) (auto simp: holds_def)

lemma holds_sub: "holds T (mk s a c d t u) C \<Longrightarrow> colour (ad u) T = rcol u"
  using holds_down [of T "other s" a c d u t C] holds_colour by (metis mk_other)

lemma holds_sep: "holds T (mk s a c d t u) C \<Longrightarrow> t \<noteq> Tip \<Longrightarrow> ad t \<noteq> ad u"
  by (cases t; cases u) (auto simp: holds_def)

subsection \<open>The two cases of the insertion loop\<close>

lemma side_of_parent_holds:
  assumes "holds T x (Fr s p c dp sib # Fr s' g cg dg un # C)" "x \<noteq> Tip"
  shows "side_of_parent (ad x) T = s'" "par (ad x) T = p" "par p T = g" "child (other s') g T = ad un" "child s p T = ad x"
proof -
  have p: "holds T (mk s p c dp x sib) (Fr s' g cg dg un # C)" using assms(1) by (rule holds_up)
  have g: "holds T (mk s' g cg dg (mk s p c dp x sib) un) C" using p by (rule holds_up)
  obtain a c1 d1 l r where x: "x = mk s a c1 d1 l r" using ex_mk [OF assms(2)] by blast
  show px: "par (ad x) T = p" using holds_obs(1) [of T s a c1 d1 l r] assms(1) x by simp
  show pp: "par p T = g" using holds_obs(1) [OF p] by simp
  show "child (other s') g T = ad un" "child s p T = ad x" using holds_obs [OF g] holds_obs [OF p] by auto
  have "child s' g T = p" "child (other s') g T \<noteq> p" using holds_obs [OF g] holds_sep [OF g] by auto
  then show "side_of_parent (ad x) T = s'" unfolding side_of_parent_def px pp by (cases s') auto
qed

lemma holds_red_uncle:
  assumes h: "holds T x (Fr s p c dp sib # Fr s' g cg dg un # C)" and x: "x \<noteq> Tip" and un: "un \<noteq> Tip"
  shows "\<exists>T'. fix_red_uncle (ad x) (ad un) T = (g, T') \<and> holds T' (mk s' g RED dg (mk s p BLACK dp x sib) (paint BLACK un)) C \<and> node_num T' = node_num T"
proof -
  note o = side_of_parent_holds [OF h x]
  let ?T1 = "set_color p BLACK T" and ?p = "mk s p BLACK dp x sib"
  let ?T2 = "set_color (ad un) BLACK ?T1" and ?T3 = "set_color g RED (set_color (ad un) BLACK (set_color p BLACK T))"
  have "holds ?T1 ?p (Fr s' g cg dg un # C)" using holds_paint [OF holds_up [OF h], of BLACK] by simp
  then have "holds ?T1 (mk s' g cg dg ?p un) C" by (rule holds_up)
  then have "holds ?T1 un (Fr (other s') g cg dg ?p # C)" by (metis mk_other holds_down)
  then have 2: "holds ?T2 (paint BLACK un) (Fr (other s') g cg dg ?p # C)" using holds_paint(1) un by blast
  obtain e ce de l r where e: "paint BLACK un = mk s e ce de l r" using ex_mk un by (metis paint_simps(3))
  have "par (ad un) ?T2 = g" using holds_obs(1) [of ?T2 s e ce de l r] 2 e by (metis cad.simps(2) mk_simps(1) paint_simps(1))
  moreover have "holds ?T2 (mk s' g cg dg ?p (paint BLACK un)) C" using holds_up [OF 2] by (metis mk_other)
  then have "holds ?T3 (mk s' g RED dg ?p (paint BLACK un)) C" using holds_paint [of ?T2 _ C RED] by fastforce
  ultimately show ?thesis by (simp add: fix_red_uncle_def o(2) Let_def)
qed

definition bal :: "side \<Rightarrow> nat \<Rightarrow> 'k \<times> 'v \<times> int \<Rightarrow> ('k, 'v) rtree \<Rightarrow> side \<Rightarrow> nat \<Rightarrow> 'k \<times> 'v \<times> int \<Rightarrow> ('k, 'v) rtree \<Rightarrow> ('k, 'v) rtree \<Rightarrow> ('k, 'v) rtree" where
  "bal s p dp sib s' g dg un x =
     (if s = s' then mk s' p BLACK dp x (mk s' g RED dg sib un)
      else case (s', x) of
        (On_Left, Br a c d l r) \<Rightarrow> mk s' a BLACK d (mk s' p RED dp sib l) (mk s' g RED dg r un)
      | (On_Right, Br a c d l r) \<Rightarrow> mk s' a BLACK d (mk s' p RED dp sib r) (mk s' g RED dg l un)
      | (_, Tip) \<Rightarrow> Tip)"

lemma bal_cross: "bal (other s) p dp sib s g dg un (mk s a c d l r) = mk s a BLACK d (mk s p RED dp sib l) (mk s g RED dg r un)"
  by (cases s) (simp_all add: bal_def mk_def)

lemma holds_swing:
  assumes h: "holds T (mk s g cg dg (mk s p c dp x sib) un) C"
  shows "holds (rotate_to (other s) g (set_color g RED (set_color p BLACK T))) (mk s p BLACK dp x (mk s g RED dg sib un)) C"
    "node_num (rotate_to (other s) g (set_color g RED (set_color p BLACK T))) = node_num T"
proof -
  have "holds (set_color p BLACK T) (mk s p BLACK dp x sib) (Fr s g cg dg un # C)"
    using holds_paint [OF holds_down [OF h], of BLACK] by simp
  then have "holds (set_color g RED (set_color p BLACK T)) (mk s g RED dg (mk s p BLACK dp x sib) un) C"
    using holds_paint(1) [OF holds_up, of _ _ _ _ _ _ _ _ RED] by fastforce
  then have "holds (set_color g RED (set_color p BLACK T)) (mk (other s) g RED dg un (mk (other s) p BLACK dp sib x)) C"
    by (metis mk_other)
  note r = holds_rotate [OF this]
  show "holds (rotate_to (other s) g (set_color g RED (set_color p BLACK T))) (mk s p BLACK dp x (mk s g RED dg sib un)) C"
    using r(1) by (metis mk_other)
  show "node_num (rotate_to (other s) g (set_color g RED (set_color p BLACK T))) = node_num T" using r(2) by simp
qed

lemma holds_black_uncle:
  assumes h: "holds T x (Fr s p RED dp sib # Fr s' g cg dg un # C)" and x: "x \<noteq> Tip"
  shows "holds (fix_black_uncle s' (ad x) T) (bal s p dp sib s' g dg un x) C \<and> node_num (fix_black_uncle s' (ad x) T) = node_num T"
proof -
  note o = side_of_parent_holds [OF h x]
  have p: "holds T (mk s p RED dp x sib) (Fr s' g cg dg un # C)" using h by (rule holds_up)
  show ?thesis
  proof (cases "s = s'")
    case True
    have "ad x \<noteq> child (other s') p T" using holds_obs(3) [OF p] holds_sep [OF p x] True by simp
    then show ?thesis using holds_swing [of T s' g cg dg p RED dp x sib un C] holds_up [OF p] o True
      by (simp add: fix_black_uncle_def bal_def Let_def)
  next
    case False
    then have s: "s = other s'" by (metis side_neq)
    obtain a c1 d l r where m: "x = mk s' a c1 d l r" using ex_mk [OF x] by blast
    have "holds T (mk s' p RED dp sib (mk s' a c1 d l r)) (Fr s' g cg dg un # C)" using p s m by (metis mk_other other_neq(3))
    note rot = holds_rotate [OF this]
    let ?T = "rotate_to s' p T"
    have g: "holds ?T (mk s' g cg dg (mk s' a c1 d (mk s' p RED dp sib l) r) un) C" using rot(1) by (rule holds_up)
    have "par p ?T = a" "par a ?T = g"
      using holds_obs(1) [OF holds_down [OF rot(1)]] holds_obs(1) [OF rot(1)] by simp_all
    moreover have "ad x = child (other s') p T" using o(5) s by simp
    ultimately show ?thesis using holds_swing [OF g] rot(2) o s m
      by (simp add: fix_black_uncle_def bal_cross Let_def)
  qed
qed

end
