(* ===== verification/RedBlackMap.thy ===== *)
theory RedBlackMap
  imports RedBlackTree
begin

text \<open>
  Insertion into a \<open>QRedBlackTree\<close> on trees below a path, its invariants, and the store operations proved
  against it: \<open>insert\<close> and \<open>search\<close> are those of a map, in a tree of logarithmic height.  The last section
  shows what \<open>remove\<close> does.
\<close>

section \<open>Insertion on trees\<close>

fun plug :: "('k, 'v) rtree \<Rightarrow> ('k, 'v) frame list \<Rightarrow> ('k, 'v) rtree" where
  "plug t [] = t"
| "plug t (Fr s a c d u # C) = plug (mk s a c d t u) C"

lemma holds_plug: "holds T t C \<Longrightarrow> holds T (plug t C) []"
  by (induction t C rule: plug.induct) (auto simp: holds_focus)

text \<open>The loop of \<open>InsertFixup\<close> on a tree below a path.\<close>

fun fixup :: "('k, 'v) rtree \<Rightarrow> ('k, 'v) frame list \<Rightarrow> ('k, 'v) rtree \<times> ('k, 'v) frame list" where
  "fixup x (Fr s p RED dp sib # Fr s' g cg dg un # C) =
     (if rcol un = RED then fixup (mk s' g RED dg (mk s p BLACK dp x sib) (paint BLACK un)) C
      else (bal s p dp sib s' g dg un x, C))"
| "fixup x [] = (x, [])"
| "fixup x [Fr s p c dp sib] = (x, [Fr s p c dp sib])"
| "fixup x (Fr s p BLACK dp sib # f # C) = (x, Fr s p BLACK dp sib # f # C)"

subsection \<open>Invariants\<close>

fun bh :: "('k, 'v) rtree \<Rightarrow> nat" where
  "bh Tip = 0"
| "bh (Br a c d l r) = bh l + (if c = BLACK then 1 else 0)"

fun invc :: "('k, 'v) rtree \<Rightarrow> bool" where
  "invc Tip = True"
| "invc (Br a c d l r) \<longleftrightarrow> (c = RED \<longrightarrow> rcol l = BLACK \<and> rcol r = BLACK) \<and> invc l \<and> invc r"

fun invh :: "('k, 'v) rtree \<Rightarrow> bool" where
  "invh Tip = True"
| "invh (Br a c d l r) \<longleftrightarrow> bh l = bh r \<and> invh l \<and> invh r"

definition rbal :: "nat \<Rightarrow> ('k, 'v) rtree \<Rightarrow> bool" where
  "rbal h t \<longleftrightarrow> invc t \<and> invh t \<and> bh t = h"

lemma rbal_mk [simp]:
  "rbal h (mk s a c d t u) \<longleftrightarrow> (\<exists>h'. h = h' + (if c = BLACK then 1 else 0) \<and> rbal h' t \<and> rbal h' u) \<and> (c = RED \<longrightarrow> rcol t = BLACK \<and> rcol u = BLACK)"
  by (cases s) (auto simp: rbal_def mk_def)

fun ctop :: "('k, 'v) frame list \<Rightarrow> NODE_COLOR" where
  "ctop [] = BLACK"
| "ctop (Fr s a c d u # C) = c"

fun cbal :: "nat \<Rightarrow> ('k, 'v) frame list \<Rightarrow> bool" where
  "cbal h [] = True"
| "cbal h (Fr s a c d u # C) \<longleftrightarrow> rbal h u \<and> (c = RED \<longrightarrow> rcol u = BLACK \<and> ctop C = BLACK \<and> C \<noteq> []) \<and> cbal (h + (if c = BLACK then 1 else 0)) C"

lemma not_RED [simp]: "c \<noteq> RED \<longleftrightarrow> c = BLACK" "c \<noteq> BLACK \<longleftrightarrow> c = RED"
  by (cases c; simp)+

lemma plug_bal:
  "rbal h t \<Longrightarrow> cbal h C \<Longrightarrow> (rcol t = RED \<Longrightarrow> ctop C = BLACK) \<Longrightarrow>
     \<exists>h'. rbal h' (plug t C) \<and> (C \<noteq> [] \<or> rcol t = BLACK \<longrightarrow> rcol (plug t C) = BLACK)"
proof (induction t C arbitrary: h rule: plug.induct)
  case (2 t s a c d u C)
  have "rbal (h + (if c = BLACK then 1 else 0)) (mk s a c d t u)" using 2(2,3,4) by (cases "rcol t") auto
  from 2(1) [OF this] 2(3) show ?case by (cases C) (auto split: if_splits)
qed auto

lemma paint_bal: "rbal h t \<Longrightarrow> rcol t = RED \<Longrightarrow> rbal (h + 1) (paint BLACK t)" "rbal h t \<Longrightarrow> \<exists>h'. rbal h' (paint BLACK t)" "rcol (paint BLACK t) = BLACK"
  by (cases t; auto simp: rbal_def)+

lemma bal_bal:
  assumes "rbal h x" "rcol x = RED" "rbal h sib" "rbal h un" "rcol sib = BLACK" "rcol un = BLACK"
  shows "rbal (h + 1) (bal s p dp sib s' g dg un x)" "rcol (bal s p dp sib s' g dg un x) = BLACK"
proof -
  have "x \<noteq> Tip" using assms(2) by auto
  then obtain a c d l r where x: "x = mk s' a c d l r" using ex_mk by blast
  have "s = s' \<or> s = other s'" by (metis side_neq)
  with assms x show "rbal (h + 1) (bal s p dp sib s' g dg un x)" "rcol (bal s p dp sib s' g dg un x) = BLACK"
    by (auto simp: bal_cross) (auto simp: bal_def)
qed

lemma fixup_bal:
  "rbal h x \<Longrightarrow> rcol x = RED \<Longrightarrow> cbal h C \<Longrightarrow>
     \<exists>h' t' C'. fixup x C = (t', C') \<and> rbal h' t' \<and> cbal h' C' \<and> (rcol t' = RED \<longrightarrow> ctop C' = BLACK) \<and> t' \<noteq> Tip"
proof (induction x C arbitrary: h rule: fixup.induct)
  case (1 x s p dp sib s' g cg dg un C)
  show ?case
  proof (cases "rcol un = RED")
    case True
    have "rbal (h + 1) (mk s' g RED dg (mk s p BLACK dp x sib) (paint BLACK un))"
      using 1(2,4) True paint_bal(1) [of h un] paint_bal(3) [of un] by auto
    from 1(1) [OF True this] 1(4) True show ?thesis by auto
  next
    case False
    then have "rbal (h + 1) (bal s p dp sib s' g dg un x)" "rcol (bal s p dp sib s' g dg un x) = BLACK"
      using 1(2,3,4) bal_bal [of h x sib un] by auto
    moreover have "bal s p dp sib s' g dg un x \<noteq> Tip" using calculation(1) by (auto simp: rbal_def)
    ultimately show ?thesis using False 1(4) by auto
  qed
qed (auto simp: exI split: if_splits)

subsection \<open>Elements\<close>

fun elems :: "('k, 'v) rtree \<Rightarrow> ('k \<times> 'v \<times> int) list" where
  "elems Tip = []"
| "elems (Br a c d l r) = elems l @ d # elems r"

fun cleft :: "('k, 'v) frame list \<Rightarrow> ('k \<times> 'v \<times> int) list" where
  "cleft [] = []"
| "cleft (Fr s a c d u # C) = (case s of On_Left \<Rightarrow> cleft C | On_Right \<Rightarrow> cleft C @ elems u @ [d])"

fun cright :: "('k, 'v) frame list \<Rightarrow> ('k \<times> 'v \<times> int) list" where
  "cright [] = []"
| "cright (Fr s a c d u # C) = (case s of On_Left \<Rightarrow> d # elems u @ cright C | On_Right \<Rightarrow> cright C)"

lemma elems_mk: "elems (mk s a c d t u) = (case s of On_Left \<Rightarrow> elems t @ d # elems u | On_Right \<Rightarrow> elems u @ d # elems t)"
  by (cases s) (simp_all add: mk_def)

lemma elems_plug: "elems (plug t C) = cleft C @ elems t @ cright C"
  by (induction t C rule: plug.induct) (auto simp: elems_mk split: side.splits)

lemma elems_paint [simp]: "elems (paint c t) = elems t"
  by (cases t) auto

lemma elems_bal:
  assumes "x \<noteq> Tip"
  shows "elems (bal s p dp sib s' g dg un x) = elems (mk s' g BLACK dg (mk s p RED dp x sib) un)"
proof -
  obtain a c d l r where x: "x = mk s' a c d l r" using ex_mk [OF assms] by blast
  have "s = s' \<or> s = other s'" by (metis side_neq)
  then show ?thesis unfolding x by (cases s'; cases s) (auto simp: bal_cross elems_mk, auto simp: bal_def elems_mk mk_def)
qed

lemma elems_fixup: "x \<noteq> Tip \<Longrightarrow> elems (plug (fst (fixup x C)) (snd (fixup x C))) = elems (plug x C)"
  by (induction x C rule: fixup.induct) (auto simp: elems_plug elems_mk elems_bal split: side.splits)

subsection \<open>The loop in the store\<close>

lemma InsertFixup_loop_stops:
  assumes "holds T x C" "x \<noteq> Tip" "ctop C = BLACK"
  shows "InsertFixup_loop (ad x) T = Some T"
proof -
  have "par (ad x) T = cad C" using assms(1,2) by (cases x) (auto simp: holds_def)
  moreover have "colour (cad C) T = ctop C" using assms(1) by (cases C rule: ctop.cases) (auto simp: holds_def)
  ultimately show ?thesis using assms(3) by (subst InsertFixup_loop.simps) simp
qed

lemma InsertFixup_loop_holds:
  "holds T x C \<Longrightarrow> x \<noteq> Tip \<Longrightarrow> cbal h C \<Longrightarrow>
     \<exists>T'. InsertFixup_loop (ad x) T = Some T' \<and> holds T' (fst (fixup x C)) (snd (fixup x C)) \<and> node_num T' = node_num T"
proof (induction x C arbitrary: T h rule: fixup.induct)
  case (1 x s p dp sib s' g cg dg un C)
  note o = side_of_parent_holds [OF 1(2,3)]
  have g: "holds T (mk s' g cg dg (mk s p RED dp x sib) un) C" using holds_up [OF holds_up [OF 1(2)]] .
  have c: "colour p T = RED" "colour (ad un) T = rcol un" using holds_obs(4) [OF holds_up [OF 1(2)]] holds_sub [OF g] by auto
  show ?case
  proof (cases "rcol un = RED")
    case True
    then have "un \<noteq> Tip" by auto
    from holds_red_uncle [OF 1(2,3) this] obtain T' where T': "fix_red_uncle (ad x) (ad un) T = (g, T')"
      "holds T' (mk s' g RED dg (mk s p BLACK dp x sib) (paint BLACK un)) C" "node_num T' = node_num T" by blast
    have "InsertFixup_loop (ad x) T = InsertFixup_loop g T'"
      using o c True T'(1) by (subst InsertFixup_loop.simps) (simp add: Let_def)
    moreover have "cbal (h + (if cg = BLACK then 1 else 0)) C" using 1(4) by auto
    ultimately show ?thesis using 1(1) [OF True T'(2)] T'(3) True by simp
  next
    case False
    then show ?thesis using holds_black_uncle [OF 1(2,3)] o c by (subst InsertFixup_loop.simps) (simp add: Let_def)
  qed
qed (auto simp: InsertFixup_loop_stops)

section \<open>The tree as a map\<close>

definition rb_ok :: "('k::linorder, 'v) QRedBlackTree \<Rightarrow> ('k, 'v) rtree \<Rightarrow> bool" where
  "rb_ok T t \<longleftrightarrow> holds T t [] \<and> (\<exists>h. rbal h t) \<and> rcol t = BLACK \<and> sorted_wrt (<) (map fst (elems t)) \<and> node_num T = int (length (elems t))"

definition rmap :: "('k, 'v) rtree \<Rightarrow> 'k \<rightharpoonup> 'v" where
  "rmap t = map_of (map (\<lambda>(k, v, n). (k, v)) (elems t))"

text \<open>The descent to a key, as a tree below a path.\<close>

fun descend :: "'k::linorder \<Rightarrow> ('k, 'v) rtree \<Rightarrow> ('k, 'v) frame list \<Rightarrow> ('k, 'v) rtree \<times> ('k, 'v) frame list" where
  "descend k Tip C = (Tip, C)"
| "descend k (Br a c d l r) C =
     (if fst d = k then (Br a c d l r, C)
      else if k < fst d then descend k l (Fr On_Left a c d r # C) else descend k r (Fr On_Right a c d l # C))"

lemma find_place_descends:
  "holds T t C \<Longrightarrow> \<exists>t' C'. descend k t C = (t', C') \<and> holds T t' C' \<and> find_place k (ad t) (cad C) T = Some (ad t', if t' = Tip then cad C' else ad t')"
proof (induction k t C rule: descend.induct)
  case (1 k C)
  then show ?case by (subst find_place.simps) simp
next
  case (2 k a c d l r C)
  have l: "holds T l (Fr On_Left a c d r # C)" and r: "holds T r (Fr On_Right a c d l # C)"
    using 2(3) holds_focus [of T On_Left a c d l r C] holds_focus [of T On_Right a c d r l C] by (simp_all add: mk_def)
  have o: "a \<noteq> m_leaf" "rb_key (rb_mem T a) = fst d" "child On_Left a T = ad l" "child On_Right a T = ad r"
    using 2(3) by (auto simp: holds_def info_def)
  show ?case using 2 l r o by (subst find_place.simps) auto
qed

lemma descend_plug: "descend k t C = (t', C') \<Longrightarrow> plug t' C' = plug t C"
  by (induction k t C rule: descend.induct) (auto simp: mk_def split: if_splits)

lemma descend_found: "descend k t C = (t', C') \<Longrightarrow> t' \<noteq> Tip \<Longrightarrow> \<exists>a c v n l r. t' = Br a c (k, v, n) l r"
  by (induction k t C rule: descend.induct) (auto split: if_splits)

definition key_between :: "'k::linorder \<Rightarrow> ('k, 'v) frame list \<Rightarrow> bool" where
  "key_between k C \<longleftrightarrow> (\<forall>d \<in> set (cleft C). fst d < k) \<and> (\<forall>d \<in> set (cright C). k < fst d)"

fun turns :: "'k::linorder \<Rightarrow> ('k, 'v) frame list \<Rightarrow> bool" where
  "turns k [] = True"
| "turns k (Fr s a c d u # C) \<longleftrightarrow> (if k < fst d then s = On_Left else s = On_Right)"

lemma descend_between:
  "descend k t C = (t', C') \<Longrightarrow> sorted_wrt (<) (map fst (elems t)) \<Longrightarrow> key_between k C \<Longrightarrow> turns k C \<Longrightarrow> key_between k C' \<and> turns k C'"
proof (induction k t C rule: descend.induct)
  case (2 k a c d l r C)
  have s: "\<forall>x \<in> set (elems l). fst x < fst d" "\<forall>x \<in> set (elems r). fst d < fst x" "sorted_wrt (<) (map fst (elems l))" "sorted_wrt (<) (map fst (elems r))"
    using 2(4) by (auto simp: sorted_wrt_append)
  have "key_between k (Fr On_Left a c d r # C)" if "k < fst d"
    using 2(5) that s(2) by (fastforce simp: key_between_def)
  moreover have "key_between k (Fr On_Right a c d l # C)" if "fst d < k"
    using 2(5) that s(1) by (fastforce simp: key_between_def)
  ultimately have step: "k < fst d \<Longrightarrow> key_between k (Fr On_Left a c d r # C)" "fst d < k \<Longrightarrow> key_between k (Fr On_Right a c d l # C)" by blast+
  consider "fst d = k" | "k < fst d" | "fst d < k" by (metis linorder_less_linear)
  then show ?case
  proof cases
    case 1
    then show ?thesis using 2(3,5,6) by auto
  next
    case 2
    then have "descend k l (Fr On_Left a c d r # C) = (t', C')" using \<open>descend k (Br a c d l r) C = _\<close> by (simp add: less_imp_not_eq less_imp_not_eq2 less_not_sym)
    then show ?thesis using "2.IH"(1) s(3) step(1) 2 by (simp add: less_imp_not_eq2)
  next
    case 3
    then have "descend k r (Fr On_Right a c d l # C) = (t', C')" using \<open>descend k (Br a c d l r) C = _\<close> by (simp add: less_imp_not_eq less_imp_not_eq2 less_not_sym)
    then show ?thesis using "2.IH"(2) s(4) step(2) 3 by (simp add: less_imp_not_eq less_not_sym)
  qed
qed auto

lemma descend_bal:
  "descend k t C = (t', C') \<Longrightarrow> rbal h t \<Longrightarrow> cbal h C \<Longrightarrow> (rcol t = RED \<Longrightarrow> ctop C = BLACK \<and> C \<noteq> []) \<Longrightarrow> \<exists>h'. rbal h' t' \<and> cbal h' C'"
proof (induction k t C arbitrary: h rule: descend.induct)
  case (2 k a c d l r C)
  obtain h' where h: "h = h' + (if c = BLACK then 1 else 0)" "rbal h' l" "rbal h' r" "c = RED \<Longrightarrow> rcol l = BLACK \<and> rcol r = BLACK"
    using 2(4) rbal_mk [of h On_Left a c d l r] by (auto simp: mk_def)
  then have "cbal h' (Fr On_Left a c d r # C)" "cbal h' (Fr On_Right a c d l # C)" using 2(5,6) by auto
  moreover have cc: "rcol l = RED \<Longrightarrow> c = BLACK" "rcol r = RED \<Longrightarrow> c = BLACK" using h(4) by (cases c; simp)+
  ultimately have C: "cbal h' (Fr On_Left a c d r # C)" "cbal h' (Fr On_Right a c d l # C)" by blast+
  consider "fst d = k" | "fst d \<noteq> k" "k < fst d" | "fst d \<noteq> k" "\<not> k < fst d" by blast
  then show ?case
  proof cases
    case 1
    then show ?thesis using 2(3-5) by auto
  next
    case 2
    then have "descend k l (Fr On_Left a c d r # C) = (t', C')" using \<open>descend k (Br a c d l r) C = _\<close> by simp
    from "2.IH"(1) [OF 2 this h(2) C(1)] show ?thesis using cc(1) by simp
  next
    case 3
    then have "descend k r (Fr On_Right a c d l # C) = (t', C')" using \<open>descend k (Br a c d l r) C = _\<close> by simp
    from "2.IH"(2) [OF 3 this h(3) C(2)] show ?thesis using cc(2) by simp
  qed
qed auto

lemma map_of_middle: "k \<notin> fst ` set xs \<Longrightarrow> map_of (xs @ (k, v) # ys) = (map_of (xs @ ys))(k \<mapsto> v)"
  by (simp add: map_add_upd_left dom_map_of_conv_image_fst)

abbreviation kv :: "('k \<times> 'v \<times> int) \<Rightarrow> 'k \<times> 'v" where
  "kv \<equiv> \<lambda>(k, v, n). (k, v)"

lemma fst_kv: "fst ` kv ` A = fst ` A"
  by (force simp: image_image)

lemma rmap_new:
  assumes "key_between k C"
  shows "rmap (plug Tip C) k = None" "rmap (plug (Br a c (k, v, n) Tip Tip) C) = (rmap (plug Tip C))(k \<mapsto> v)"
proof -
  have "k \<notin> fst ` set (cleft C)" "k \<notin> fst ` set (cright C)" using assms by (auto simp: key_between_def)
  then show "rmap (plug Tip C) k = None" "rmap (plug (Br a c (k, v, n) Tip Tip) C) = (rmap (plug Tip C))(k \<mapsto> v)"
    using map_of_middle [of k "map kv (cleft C)" v "map kv (cright C)"]
    by (simp_all add: rmap_def elems_plug fst_kv map_of_eq_None_iff del: map_of_append) (simp add: map_of_eq_None_iff fst_kv image_Un)
qed

lemma rmap_found:
  fixes k :: "'k::linorder"
  assumes "sorted_wrt (<) (map fst (elems (plug (Br a c (k, v, n) l r) C)))"
  shows "rmap (plug (Br a c (k, v, n) l r) C) k = Some v"
    "rmap (plug (Br a c (k, v', n') l r) C) = (rmap (plug (Br a c (k, v, n) l r) C))(k \<mapsto> v')"
proof -
  have "\<forall>x \<in> set (cleft C). fst x < k" "\<forall>x \<in> set (elems l). fst x < k" using assms by (simp_all add: elems_plug sorted_wrt_append)
  then have "k \<notin> fst ` set (cleft C @ elems l)" by auto
  then have "map_of (map kv (cleft C @ elems l) @ (k, w) # map kv (elems r @ cright C)) = (map_of (map kv (cleft C @ elems l) @ map kv (elems r @ cright C)))(k \<mapsto> w)" for w
    by (intro map_of_middle) (simp add: fst_kv image_Un)
  then show "rmap (plug (Br a c (k, v, n) l r) C) k = Some v"
    "rmap (plug (Br a c (k, v', n') l r) C) = (rmap (plug (Br a c (k, v, n) l r) C))(k \<mapsto> v')"
    by (simp_all add: rmap_def elems_plug del: map_of_append)
qed

lemma holds_add_node:
  assumes "holds T Tip C" "turns k C"
  shows "\<exists>T'. add_node junk k v (cad C) T = (rb_next T, T') \<and> holds T' (Br (rb_next T) RED (k, v, junk) Tip Tip) C \<and> node_num T' = node_num T"
proof -
  let ?n = "rb_next T" and ?N = "\<lparr>rb_color = RED, rb_key = k, rb_value = v, rb_count = junk, rb_parent = cad C, rb_left = m_leaf, rb_right = m_leaf\<rparr>"
  define T1 where "T1 = T\<lparr>rb_mem := (rb_mem T)(?n := ?N), rb_next := ?n + 1\<rparr>"
  define T' where "T' = (if C = [] then T1\<lparr>m_root := ?n\<rparr>
    else if k < rb_key (rb_mem T1 (cad C)) then set_child On_Left (cad C) ?n T1 else set_child On_Right (cad C) ?n T1)"
  have n: "?n \<noteq> m_leaf" "?n \<notin> caddrs C" "capart C" using assms(1) by (auto simp: holds_def m_leaf_def)
  have obs: "colour x T1 = (if x = ?n then RED else colour x T)" "info x T1 = (if x = ?n then (k, v, junk) else info x T)"
    "par x T1 = (if x = ?n then cad C else par x T)" "child s x T1 = (if x = ?n then m_leaf else child s x T)" for x s
    by (auto simp: T1_def colour_def info_def par_def child_def split: side.splits)
  have T1: "m_root T1 = m_root T" "rb_next T1 = ?n + 1" "node_num T1 = node_num T" by (simp_all add: T1_def)
  have "add_node junk k v (cad C) T = (?n, T')" using n by (simp add: add_node_def T'_def T1_def Let_def)
  moreover have "node_num T' = node_num T" by (simp add: T'_def T1)
  moreover have "holds T' (Br ?n RED (k, v, junk) Tip Tip) C"
  proof (cases C rule: cad.cases)
    case 1
    then show ?thesis using assms(1) n by (simp add: T'_def holds_def obs T1)
  next
    case (2 s a c d u C')
    have k: "rb_key (rb_mem T1 a) = fst d" using assms(1) n 2 by (auto simp: holds_def info_def T1_def)
    have T': "T' = set_child s a ?n T1" using assms(2) k 2 by (auto simp: T'_def split: if_splits)
    have "same_at x T T'" if "x \<noteq> ?n" "x \<noteq> a" for x using that by (simp add: T' same_at_def obs)
    moreover have "?n \<notin> addrs u" "?n \<notin> caddrs C'" "a \<notin> addrs u" "a \<notin> caddrs C'" using n assms(1) 2 by (auto simp: holds_def)
    ultimately have "rep T' a u = rep T a u" "crep T' a C' = crep T a C'"
      using rep_same [of u T T' a] crep_same [of C' T T' a] by metis+
    then show ?thesis using assms(1) n 2 by (auto simp: holds_def T' obs T1 intro: less_SucI)
  qed
  ultimately show ?thesis by blast
qed

lemma holds_set_info:
  assumes "holds T (Br a c d l r) C"
    "\<And>n. rb_color (f n) = rb_color n \<and> rb_parent (f n) = rb_parent n \<and> rb_left (f n) = rb_left n \<and> rb_right (f n) = rb_right n"
    "info a (rb_set a f T) = d'"
  shows "holds (rb_set a f T) (Br a c d' l r) C" "node_num (rb_set a f T) = node_num T"
proof -
  let ?T = "rb_set a f T"
  have obs: "colour x ?T = colour x T" "par x ?T = par x T" "child s x ?T = child s x T" "m_root ?T = m_root T" "rb_next ?T = rb_next T" for s x
    using assms(2) by (cases s; simp add: store_defs)+
  have "same_at x T ?T" if "x \<noteq> a" for x using that by (simp add: same_at_def obs) (simp add: info_def rb_set_def)
  moreover have "a \<notin> addrs l" "a \<notin> addrs r" "a \<notin> caddrs C" using assms(1) by (auto simp: holds_def)
  ultimately have "rep ?T a l = rep T a l" "rep ?T a r = rep T a r" "crep ?T a C = crep T a C"
    using rep_same [of l T ?T a] rep_same [of r T ?T a] crep_same [of C T ?T a] by metis+
  then show "holds ?T (Br a c d' l r) C" using assms(1,3) by (auto simp: holds_def obs)
  show "node_num ?T = node_num T" by (simp add: rb_set_def)
qed

lemma holds_next: "holds T t C \<Longrightarrow> holds (T\<lparr>node_num := n\<rparr>) t C"
proof -
  let ?T = "T\<lparr>node_num := n\<rparr>"
  have "same_at x T ?T" for x by (simp add: same_at_def colour_def info_def par_def) (auto simp: child_def split: side.splits)
  then have "rep ?T (cad C) t = rep T (cad C) t" "crep ?T (ad t) C = crep T (ad t) C" "colour m_leaf ?T = colour m_leaf T"
    using rep_same [of t T ?T] crep_same [of C T ?T] by (auto simp: same_at_def)
  then show "holds T t C \<Longrightarrow> holds ?T t C" by (simp add: holds_def)
qed

text \<open>The descent in a well-formed tree.\<close>

lemma rb_ok_descend:
  assumes "rb_ok T t"
  obtains t' C' h where "find_place k (m_root T) m_leaf T = Some (ad t', if t' = Tip then cad C' else ad t')" "holds T t' C'"
    "plug t' C' = t" "key_between k C'" "turns k C'" "rbal h t'" "cbal h C'" "t' \<noteq> Tip \<Longrightarrow> \<exists>a c v n l r. t' = Br a c (k, v, n) l r"
proof -
  have h: "holds T t []" "m_root T = ad t" using assms by (auto simp: rb_ok_def holds_def)
  obtain t' C' where d: "descend k t [] = (t', C')" "holds T t' C'" "find_place k (ad t) m_leaf T = Some (ad t', if t' = Tip then cad C' else ad t')"
    using find_place_descends [OF h(1), of k] by auto
  have "key_between k C' \<and> turns k C'"
    using descend_between [OF d(1)] assms by (simp add: rb_ok_def key_between_def)
  moreover obtain h' where "rbal h' t' \<and> cbal h' C'" using descend_bal [OF d(1)] assms by (auto simp: rb_ok_def)
  ultimately show ?thesis using that d h(2) descend_plug [OF d(1)] descend_found [OF d(1)] by auto
qed

lemma QRedBlackTree_search_ok:
  assumes "rb_ok T t"
  shows "QRedBlackTree_search k T = Some (case rmap t k of None \<Rightarrow> (- 1, None) | Some v \<Rightarrow> (0, Some v))"
proof -
  obtain t' C' h where d: "find_place k (m_root T) m_leaf T = Some (ad t', if t' = Tip then cad C' else ad t')" "holds T t' C'"
    "plug t' C' = t" "key_between k C'" "turns k C'" "rbal h t'" "cbal h C'" "t' \<noteq> Tip \<Longrightarrow> \<exists>a c v n l r. t' = Br a c (k, v, n) l r"
    using rb_ok_descend [OF assms, of k] by blast
  show ?thesis
  proof (cases "t' = Tip")
    case True
    then show ?thesis using d(1,3) rmap_new(1) [OF d(4)] by (simp add: QRedBlackTree_search_def)
  next
    case False
    then obtain a c v n l r where b: "t' = Br a c (k, v, n) l r" using d(8) by blast
    have "a \<noteq> m_leaf" "rb_value (rb_mem T a) = v" using d(2) b by (auto simp: holds_def info_def)
    moreover have "rmap t k = Some v" using rmap_found(1) [of a c k v n l r C'] assms d(3) b by (auto simp: rb_ok_def)
    ultimately show ?thesis using d(1) b by (simp add: QRedBlackTree_search_def)
  qed
qed

lemma InsertFixup_holds:
  assumes "holds T x C" "x \<noteq> Tip" "rcol x = RED" "rbal h x" "cbal h C"
  shows "\<exists>T' t h'. InsertFixup (ad x) T = Some T' \<and> holds T' t [] \<and> rbal h' t \<and> rcol t = BLACK \<and> elems t = elems (plug x C) \<and> node_num T' = node_num T"
proof -
  obtain h' t' C' where b: "fixup x C = (t', C')" "rbal h' t'" "cbal h' C'" "rcol t' = RED \<longrightarrow> ctop C' = BLACK" "t' \<noteq> Tip"
    using fixup_bal [OF assms(4,3,5)] by blast
  obtain T' where T': "InsertFixup_loop (ad x) T = Some T'" "holds T' t' C'" "node_num T' = node_num T"
    using InsertFixup_loop_holds [OF assms(1,2,5)] b(1) by auto
  let ?t = "plug t' C'"
  have p: "holds T' ?t []" using T'(2) by (rule holds_plug)
  have "elems ?t \<noteq> []" using b(5) by (cases t') (auto simp: elems_plug)
  then have ne: "?t \<noteq> Tip" by auto
  have r: "m_root T' = ad ?t" using p by (simp add: holds_def)
  obtain h'' where "rbal h'' ?t" using plug_bal [OF b(2,3)] b(4) by auto
  then obtain h3 where "rbal h3 (paint BLACK ?t)" using paint_bal(2) by blast
  moreover have "elems (paint BLACK ?t) = elems (plug x C)" using elems_fixup [OF assms(2), of C] b(1) by simp
  moreover have "InsertFixup (ad x) T = Some (set_color (ad ?t) BLACK T')" using T'(1) r by (simp add: InsertFixup_def)
  ultimately show ?thesis using holds_paint [OF p ne, of BLACK] paint_bal(3) [of ?t] T'(3) by metis
qed

lemma sorted_insert_middle:
  fixes k :: "'k::linorder"
  assumes "key_between k C" "sorted_wrt (<) (map fst (elems (plug Tip C)))"
  shows "sorted_wrt (<) (map fst (elems (plug (Br a c (k, v, n) Tip Tip) C)))"
proof -
  have "\<forall>x \<in> set (cleft C). fst x < k" "\<forall>x \<in> set (cright C). k < fst x" using assms(1) by (simp_all add: key_between_def)
  with assms(2) show ?thesis by (simp add: elems_plug sorted_wrt_append)
qed

text \<open>What \<open>insert\<close> does for a key that is not in the tree.\<close>

lemma QRedBlackTree_insert_new:
  assumes "rb_ok T t" "rmap t k = None" "node_num T \<le> MAX_TREE_SIZE"
  shows "\<exists>T' t'. QRedBlackTree_insert True junk k v cover_flag count_flag T = Some (0, T') \<and> rb_ok T' t' \<and>
    rmap t' = (rmap t)(k \<mapsto> v) \<and> node_num T' = node_num T + 1"
proof -
  obtain t0 C h where d: "find_place k (m_root T) m_leaf T = Some (ad t0, if t0 = Tip then cad C else ad t0)" "holds T t0 C"
    "plug t0 C = t" "key_between k C" "turns k C" "rbal h t0" "cbal h C" "t0 \<noteq> Tip \<Longrightarrow> \<exists>a c v n l r. t0 = Br a c (k, v, n) l r"
    using rb_ok_descend [OF assms(1), of k] by blast
  have so: "sorted_wrt (<) (map fst (elems t))" using assms(1) by (simp add: rb_ok_def)
  have tip: "t0 = Tip"
  proof (rule ccontr)
    assume "t0 \<noteq> Tip"
    then obtain a c w n l r where "t0 = Br a c (k, w, n) l r" using d(8) by blast
    then have "rmap t k = Some w" using rmap_found(1) [of a c k w n l r C] so d(3) by simp
    with assms(2) show False by simp
  qed
  let ?x = "Br (rb_next T) RED (k, v, junk) Tip Tip"
  have hole: "holds T Tip C" using d(2) tip by simp
  obtain T1 where T1: "add_node junk k v (cad C) T = (rb_next T, T1)" "holds T1 ?x C" "node_num T1 = node_num T"
    using holds_add_node [OF hole d(5), of junk v] by blast
  have "h = 0" using d(6) tip by (simp add: rbal_def)
  then have "rbal h ?x" by (simp add: rbal_def)
  moreover have "?x \<noteq> Tip" "rcol ?x = RED" "ad ?x = rb_next T" by simp_all
  ultimately obtain T2 t2 h2 where T2: "InsertFixup (rb_next T) T1 = Some T2"
    "holds T2 t2 []" "rbal h2 t2" "rcol t2 = BLACK" "elems t2 = elems (plug ?x C)" "node_num T2 = node_num T1"
    using InsertFixup_holds [OF T1(2), of h] d(7) by metis
  let ?T = "T2\<lparr>node_num := node_num T2 + 1\<rparr>"
  have ins: "QRedBlackTree_insert True junk k v cover_flag count_flag T = Some (0, ?T)"
    using d(1) tip assms(3) T1(1) T2(1) by (simp add: QRedBlackTree_insert_def)
  have "length (elems t2) = length (elems t) + 1" using T2(5) d(3) [symmetric] tip by (simp add: elems_plug)
  moreover have "sorted_wrt (<) (map fst (elems t2))" unfolding T2(5) using sorted_insert_middle [OF d(4)] so d(3) tip by simp
  ultimately have "rb_ok ?T t2" using holds_next [OF T2(2)] T2(3,4,6) T1(3) assms(1) unfolding rb_ok_def by auto
  moreover have "rmap t2 = (rmap t)(k \<mapsto> v)" using rmap_new(2) [OF d(4), of "rb_next T" RED v junk] d(3) tip unfolding rmap_def T2(5) by simp
  ultimately show ?thesis using T2(6) T1(3) ins by (intro exI [of _ ?T] exI [of _ t2]) simp
qed

lemma plug_replace:
  "(\<And>h. rbal h t = rbal h t') \<Longrightarrow> rcol t = rcol t' \<Longrightarrow> (\<forall>h. rbal h (plug t C) = rbal h (plug t' C)) \<and> rcol (plug t C) = rcol (plug t' C)"
proof (induction C arbitrary: t t')
  case (Cons f C)
  obtain s a c d u where "f = Fr s a c d u" by (cases f)
  then show ?case using Cons.IH [of "mk s a c d t u" "mk s a c d t' u"] Cons.prems by simp
qed simp

text \<open>For a key that is there, \<open>insert\<close> keeps, replaces or counts.\<close>

lemma QRedBlackTree_insert_found:
  assumes "rb_ok T t" "rmap t k = Some w" "node_num T \<le> MAX_TREE_SIZE"
  shows "\<exists>T' t'. QRedBlackTree_insert mem_ok junk k v cover_flag count_flag T = Some (1, T') \<and> rb_ok T' t' \<and>
    rmap t' = (if cover_flag then (rmap t)(k \<mapsto> v) else rmap t) \<and> node_num T' = node_num T"
proof -
  obtain t0 C h where d: "find_place k (m_root T) m_leaf T = Some (ad t0, if t0 = Tip then cad C else ad t0)" "holds T t0 C"
    "plug t0 C = t" "key_between k C" "turns k C" "rbal h t0" "cbal h C" "t0 \<noteq> Tip \<Longrightarrow> \<exists>a c v n l r. t0 = Br a c (k, v, n) l r"
    using rb_ok_descend [OF assms(1), of k] by blast
  have so: "sorted_wrt (<) (map fst (elems t))" using assms(1) by (simp add: rb_ok_def)
  have "t0 \<noteq> Tip" using rmap_new(1) [OF d(4)] assms(2) d(3) by auto
  then obtain a c w' n l r where b: "t0 = Br a c (k, w', n) l r" using d(8) by blast
  have new: "\<exists>t'. rb_ok T' t' \<and> rmap t' = (rmap t)(k \<mapsto> v') \<and> node_num T' = node_num T"
    if h: "holds T' (Br a c (k, v', n') l r) C" "node_num T' = node_num T" for T' v' n'
  proof -
    let ?t = "plug (Br a c (k, v', n') l r) C"
    have p: "plug (Br a c (k, w', n) l r) C = t" using b d(3) by simp
    have m: "map fst (elems ?t) = map fst (elems t)" unfolding p [symmetric] by (simp add: elems_plug)
    have "(\<forall>h. rbal h ?t = rbal h t) \<and> rcol ?t = rcol t"
      unfolding d(3) [symmetric] b by (rule plug_replace) (auto simp: rbal_def)
    moreover have "length (elems ?t) = length (elems t)" using m by (metis length_map)
    ultimately have "rb_ok T' ?t" using assms(1) holds_plug [OF h(1)] h(2) m by (simp add: rb_ok_def)
    moreover have "rmap ?t = (rmap t)(k \<mapsto> v')" using rmap_found(2) [of a c k w' n l r C v' n'] so p by simp
    ultimately show ?thesis using h(2) by blast
  qed
  have w: "w' = w" using rmap_found(1) [of a c k w' n l r C] so b d(3) assms(2) by simp
  have a: "a \<noteq> m_leaf" "info a T = (k, w, n)" using d(2) b w by (auto simp: holds_def)
  have h: "holds T (Br a c (k, w, n) l r) C" using d(2) b w by simp
  let ?V = "rb_set a (rb_value_update (\<lambda>_. v)) T" and ?N = "rb_set a (rb_count_update (\<lambda>n. n + 1)) T"
  have "holds ?V (Br a c (k, v, n) l r) C" by (rule holds_set_info(1) [OF h]) (use a(2) in \<open>auto simp: info_def rb_set_def\<close>)
  moreover have "holds ?N (Br a c (k, w, n + 1) l r) C" by (rule holds_set_info(1) [OF h]) (use a(2) in \<open>auto simp: info_def rb_set_def\<close>)
  moreover have "node_num ?V = node_num T" "node_num ?N = node_num T" by (simp_all add: rb_set_def)
  moreover have "(rmap t)(k \<mapsto> w) = rmap t" using assms(2) by auto
  moreover have "QRedBlackTree_insert mem_ok junk k v cover_flag count_flag T = Some (1, if cover_flag then ?V else if count_flag then ?N else T)"
    using d(1) b a(1) assms(3) by (simp add: QRedBlackTree_insert_def)
  ultimately show ?thesis using new [of ?V v n] new [of ?N w "n + 1"] assms(1) by auto
qed

lemma QRedBlackTree_insert_full: "MAX_TREE_SIZE < node_num T \<Longrightarrow> QRedBlackTree_insert mem_ok junk k v cover_flag count_flag T = Some (- 10, T)"
  by (simp add: QRedBlackTree_insert_def)

lemma QRedBlackTree_insert_no_memory:
  assumes "rb_ok T t" "rmap t k = None" "node_num T \<le> MAX_TREE_SIZE"
  shows "QRedBlackTree_insert False junk k v cover_flag count_flag T = Some (- 1, T)"
proof -
  obtain cur pre where f: "find_place k (m_root T) m_leaf T = Some (cur, pre)" by (rule rb_ok_descend [OF assms(1), of k])
  have "cur = m_leaf" using QRedBlackTree_search_ok [OF assms(1), of k] assms(2) f by (auto simp: QRedBlackTree_search_def split: if_splits)
  then show ?thesis using f assms(3) by (simp add: QRedBlackTree_insert_def)
qed

lemma rb_ok_new: "rb_ok (QRedBlackTree_new n) Tip"
  by (auto simp: rb_ok_def holds_def rbal_def QRedBlackTree_new_def colour_def m_leaf_def)

lemma rmap_Tip [simp]: "rmap Tip = Map.empty"
  by (simp add: rmap_def)

subsection \<open>Height and size\<close>

fun rheight :: "('k, 'v) rtree \<Rightarrow> nat" where
  "rheight Tip = 0"
| "rheight (Br a c d l r) = max (rheight l) (rheight r) + 1"

lemma rheight_bh: "invc t \<Longrightarrow> invh t \<Longrightarrow> rheight t \<le> 2 * bh t + (if rcol t = RED then 1 else 0)"
  by (induction t) (auto split: if_splits)

lemma bh_size: "invh t \<Longrightarrow> 2 ^ bh t \<le> length (elems t) + 1"
  by (induction t) auto

lemma rb_ok_height: "rb_ok T t \<Longrightarrow> 2 ^ (rheight t div 2) \<le> length (elems t) + 1"
proof -
  assume "rb_ok T t"
  then have i: "invc t" "invh t" "rcol t = BLACK" by (auto simp: rb_ok_def rbal_def)
  then have "rheight t div 2 \<le> bh t" using rheight_bh [OF i(1,2)] by simp
  then have "(2 :: nat) ^ (rheight t div 2) \<le> 2 ^ bh t" by (simp add: power_increasing)
  with bh_size [OF i(2)] show ?thesis by linarith
qed

lemma rb_ok_size: "rb_ok T t \<Longrightarrow> node_num T = int (card (dom (rmap t)))" "rb_ok T t \<Longrightarrow> length (elems t) = card (dom (rmap t))"
proof -
  assume ok: "rb_ok T t"
  then have "distinct (map fst (elems t))" by (auto simp: rb_ok_def strict_sorted_iff)
  moreover have "dom (rmap t) = set (map fst (elems t))" by (simp add: rmap_def dom_map_of_conv_image_fst fst_kv)
  ultimately show "length (elems t) = card (dom (rmap t))" by (metis distinct_card length_map)
  then show "node_num T = int (card (dom (rmap t)))" using ok by (simp add: rb_ok_def)
qed

section \<open>Properties\<close>

fun insert_all :: "int \<Rightarrow> bool \<Rightarrow> ('k::linorder \<times> 'v) list \<Rightarrow> ('k, 'v) QRedBlackTree \<Rightarrow> ('k, 'v) QRedBlackTree option" where
  "insert_all junk cover_flag [] T = Some T"
| "insert_all junk cover_flag ((k, v) # kvs) T =
     (case QRedBlackTree_insert True junk k v cover_flag False T of None \<Rightarrow> None | Some (_, T') \<Rightarrow> insert_all junk cover_flag kvs T')"

lemma insert_all_ok:
  "rb_ok T t \<Longrightarrow> node_num T + int (length kvs) \<le> MAX_TREE_SIZE + 1 \<Longrightarrow>
     \<exists>T' t'. insert_all junk cover_flag kvs T = Some T' \<and> rb_ok T' t' \<and>
       rmap t' = (if cover_flag then rmap t ++ map_of (rev kvs) else map_of kvs ++ rmap t)"
proof (induction kvs arbitrary: T t)
  case (Cons p kvs)
  obtain k v where p: "p = (k, v)" by fastforce
  have n: "node_num T \<le> MAX_TREE_SIZE" using Cons.prems(2) by simp
  obtain r T1 t1 where T1: "QRedBlackTree_insert True junk k v cover_flag False T = Some (r, T1)" "rb_ok T1 t1"
    "rmap t1 = (if rmap t k = None \<or> cover_flag then (rmap t)(k \<mapsto> v) else rmap t)" "node_num T1 \<le> node_num T + 1"
    using QRedBlackTree_insert_new [OF Cons.prems(1) _ n, of k junk v cover_flag False]
      QRedBlackTree_insert_found [OF Cons.prems(1) _ n, of k _ True junk v cover_flag False]
    by (cases "rmap t k") fastforce+
  obtain T' t' where T': "insert_all junk cover_flag kvs T1 = Some T'" "rb_ok T' t'"
    "rmap t' = (if cover_flag then rmap t1 ++ map_of (rev kvs) else map_of kvs ++ rmap t1)"
    using Cons.IH [OF T1(2)] Cons.prems(2) T1(4) by auto
  have "rmap t' = (if cover_flag then rmap t ++ map_of (rev (p # kvs)) else map_of (p # kvs) ++ rmap t)"
    unfolding T'(3) T1(3) p by (auto simp: map_add_def fun_eq_iff split: option.splits)
  then show ?case using T' T1(1) p by auto
qed auto

text \<open>
  C21. From an empty tree, any sequence of at most 400001 insertions ends, with or without the cover flag; afterwards
  \<open>search\<close> finds exactly the inserted keys, each with its first value, or with the cover flag its last, \<open>size\<close> is
  the number of different keys, and the nodes form a tree of logarithmic height.
\<close>

theorem QRedBlackTree_refines_map:
  assumes "length kvs \<le> 400001"
  shows "\<exists>T t. insert_all junk cover_flag kvs (QRedBlackTree_new n) = Some T \<and>
    (\<forall>k. QRedBlackTree_search k T =
       Some (case (if cover_flag then map_of (rev kvs) else map_of kvs) k of None \<Rightarrow> (- 1, None) | Some v \<Rightarrow> (0, Some v))) \<and>
    node_num T = int (card (fst ` set kvs)) \<and> holds T t [] \<and> 2 ^ (rheight t div 2) \<le> card (fst ` set kvs) + 1"
proof -
  have "node_num (QRedBlackTree_new n) + int (length kvs) \<le> MAX_TREE_SIZE + 1"
    using assms by (simp add: QRedBlackTree_new_def MAX_TREE_SIZE_def)
  from insert_all_ok [OF rb_ok_new this, of junk cover_flag] obtain T t where
    T: "insert_all junk cover_flag kvs (QRedBlackTree_new n) = Some T" "rb_ok T t" "rmap t = (if cover_flag then map_of (rev kvs) else map_of kvs)"
    by (auto split: if_splits)
  have "dom (rmap t) = fst ` set kvs" unfolding T(3) by (simp add: dom_map_of_conv_image_fst)
  then show ?thesis
    using T QRedBlackTree_search_ok [OF T(2)] rb_ok_size [OF T(2)] rb_ok_height [OF T(2)] by (auto simp: rb_ok_def)
qed

theorem QRedBlackTree_refines_map_witness:
  "\<exists>T t. insert_all 7 False [(2 :: int, ''b''), (1, ''a''), (2, ''c'')] (QRedBlackTree_new
      \<lparr>rb_color = RED, rb_key = 0, rb_value = '''', rb_count = 0, rb_parent = 0, rb_left = 0, rb_right = 0\<rparr>) = Some T \<and>
    QRedBlackTree_search 2 T = Some (0, Some ''b'') \<and> QRedBlackTree_search 3 T = Some (- 1, None) \<and> node_num T = 2 \<and> holds T t [] \<and> rheight t \<le> 3"
proof -
  let ?n = "\<lparr>rb_color = RED, rb_key = 0, rb_value = '''', rb_count = 0, rb_parent = 0, rb_left = 0, rb_right = 0\<rparr> :: (int, string) RBNode"
  have card: "card (fst ` set [(2 :: int, ''b''), (1, ''a''), (2, ''c'')]) = 2" by (simp add: card_insert_if)
  obtain T t where T: "insert_all 7 False [(2 :: int, ''b''), (1, ''a''), (2, ''c'')] (QRedBlackTree_new ?n) = Some T"
    "\<And>k. QRedBlackTree_search k T = Some (case map_of [(2 :: int, ''b''), (1, ''a''), (2, ''c'')] k of None \<Rightarrow> (- 1, None) | Some v \<Rightarrow> (0, Some v))"
    "node_num T = 2" "holds T t []" "2 ^ (rheight t div 2) \<le> (3 :: nat)"
    using QRedBlackTree_refines_map [of "[(2 :: int, ''b''), (1, ''a''), (2, ''c'')]" 7 False ?n] unfolding card by auto
  have "rheight t div 2 < 2"
  proof (rule ccontr)
    assume "\<not> rheight t div 2 < 2"
    then have "(2 :: nat) ^ 2 \<le> 2 ^ (rheight t div 2)" by (intro power_increasing) auto
    with T(5) show False by simp
  qed
  then show ?thesis using T(1-4) by (intro exI [of _ T] exI [of _ t]) auto
qed

section \<open>Limits of removal\<close>

lemma QRedBlackTree_remove_absent:
  assumes "rb_ok T t" "rmap t k = None"
  shows "QRedBlackTree_remove k count_flag T = Some (1, T)"
proof -
  obtain cur pre where f: "find_place k (m_root T) m_leaf T = Some (cur, pre)" by (rule rb_ok_descend [OF assms(1), of k])
  have "cur = m_leaf" using QRedBlackTree_search_ok [OF assms(1), of k] assms(2) f by (auto simp: QRedBlackTree_search_def split: if_splits)
  then show ?thesis using f by (simp add: QRedBlackTree_remove_def)
qed

lemma holds_cut:
  assumes "holds T (Br g c d l (Br n c' d' Tip Tip)) []"
  shows "holds (set_child On_Right g m_leaf (set_parent m_leaf g T)) (Br g c d l Tip) []"
proof -
  let ?T = "set_child On_Right g m_leaf (set_parent m_leaf g T)"
  have "same_at x T ?T" if "x \<noteq> g" "x \<noteq> m_leaf" for x using that by (simp add: same_at_def)
  moreover have "g \<notin> addrs l" "m_leaf \<notin> addrs l" using assms by (auto simp: holds_def)
  ultimately have "rep ?T g l = rep T g l" using rep_same [of l T ?T g] by metis
  then show ?thesis using assms by (auto simp: holds_def)
qed

lemma holds_left_right:
  assumes "holds S (Br g c dg (Br b c' db x (Br y c'' dy Tip Tip)) w) []"
  shows "child On_Left g S = b" "child On_Right b S = y" "par g S = m_leaf" "colour b S = c'"
  using assms unfolding holds_def by simp_all

lemma holds_right_left:
  assumes "holds S (Br b c db x (Br g c' dg (Br y c'' dy Tip Tip) w)) []"
  shows "m_root S = b" "child On_Left g S = y" "child On_Left y S = m_leaf" "child On_Right y S = m_leaf"
    "colour m_leaf S = BLACK" "colour g S = c'" "b \<noteq> g" "g \<noteq> y" "y \<noteq> m_leaf"
  using assms unfolding holds_def by simp_all



end
