(* ===== verification/ParallelSort.thy ===== *)
theory ParallelSort
  imports Queue
begin

text \<open>
  The start of \<open>QQSParallel\<close> of \<^verbatim>\<open>src/common/qalgorithm.h\<close>: two rings of work items and an array of items that
  are all put into the idle ring before the threads are created.  An item is its index in the array.
\<close>

record QQSParallel =
  m_idle_list :: "nat QQueue"
  m_busy_list :: "nat QQueue"
  m_threshold_normal :: int
  m_list_size :: int
  m_thread_num :: int
  ps_threads :: nat

definition QQSParallel_new :: QQSParallel where
  "QQSParallel_new = \<lparr>m_idle_list = QQueue_new, m_busy_list = QQueue_new, m_threshold_normal = 0, m_list_size = 0,
     m_thread_num = 0, ps_threads = 0\<rparr>"

text \<open>
  \<open>idle\<close> and \<open>busy\<close> are the cells the two rings get, \<open>node_list\<close> says whether the items were allocated.  \<open>None\<close>
  is a call that waits for ever.
\<close>

definition QQSParallel_init ::
  "nat list option \<Rightarrow> nat list option \<Rightarrow> bool \<Rightarrow> int \<Rightarrow> int \<Rightarrow> int \<Rightarrow> QQSParallel \<Rightarrow> (int \<times> QQSParallel) option" where
  "QQSParallel_init idle busy node_list threshold_normal list_size thread_num s =
     (let s = s\<lparr>m_threshold_normal := threshold_normal, m_list_size := list_size, m_thread_num := thread_num\<rparr>;
          (r, q) = QQueue_init (m_list_size s) idle (m_idle_list s);
          s = s\<lparr>m_idle_list := q\<rparr>
      in if r \<noteq> 0 then Some (- 1, s)
         else
           let (r, q) = QQueue_init (m_list_size s) busy (m_busy_list s); s = s\<lparr>m_busy_list := q\<rparr> in
           if r \<noteq> 0 then Some (- 2, s)
           else if \<not> node_list then Some (- 3, s)
           else case push_all QQueue_push [0..<nat (m_list_size s)] (m_idle_list s) of
               None \<Rightarrow> None
             | Some q \<Rightarrow> Some (0, s\<lparr>m_idle_list := q, ps_threads := nat (m_thread_num s)\<rparr>))"

text \<open>
  \<open>QQSParallel::init\<close> never succeeds: for every size and every outcome of the allocations it either returns
  an error or, when all allocations succeed, waits for ever in the push of the last item, because a ring of
  \<open>list_size\<close> cells holds one item less.  No sorting thread is ever created.
\<close>

lemma QQSParallel_init_never_ready:
  assumes "\<And>c. idle = Some c \<Longrightarrow> length c = nat list_size"
  shows "map_option fst (QQSParallel_init idle busy node_list threshold_normal list_size thread_num s) =
    (if list_size \<le> 0 \<or> idle = None then Some (- 1) else if busy = None then Some (- 2) else if \<not> node_list then Some (- 3) else None)"
proof (cases "list_size \<le> 0 \<or> idle = None")
  case True
  then show ?thesis by (cases idle) (auto simp: QQSParallel_init_def QQueue_init_def Let_def split: option.splits)
next
  case False
  then obtain c where c: "idle = Some c" "0 < list_size" "length c = nat list_size" using assms by auto
  have "push_all QQueue_push [0..<nat list_size] (snd (QQueue_init list_size (Some c) q)) = None" for q
    using QQueue_fill [OF c(2,3), of "[0..<nat list_size]" q] c(2) by auto
  then show ?thesis using c by (cases busy) (auto simp: QQSParallel_init_def QQueue_init_def Let_def)
qed

end
