(* ===== verification/Vectors.thy ===== *)
theory Vectors
  imports HeapQuickSort CLib
begin

text \<open>
  The growing arrays \<open>QVector\<close> of \<^verbatim>\<open>src/common/qvector.h\<close> and \<open>QStack\<close> of \<^verbatim>\<open>src/common/qstack.h\<close>.  Whether the system provides
  memory (\<open>mem_ok\<close>) and what the cells of new memory hold (\<open>any\<close>) are arguments.  \<open>Q_ASSERT\<close> and \<open>Q_CHECK_PTR\<close>
  abort, which is \<open>Aborted\<close>; a store outside the array is \<open>Overrun\<close>.
\<close>

section \<open>QVector\<close>

datatype container_error = Aborted | Overrun

record 'a QVector =
  vdata :: "'a list"
  vmax_size :: int
  vlast :: int

text \<open>\<open>max_size_<<1\<close> on \<open>int32_t\<close>.\<close>

definition shl1 :: "int \<Rightarrow> int" where
  "shl1 n = s32 (2 * n)"

definition QVector_new :: "bool \<Rightarrow> 'a \<Rightarrow> int \<Rightarrow> container_error + 'a QVector" where
  "QVector_new mem_ok any n =
     (if n \<le> 0 \<or> \<not> mem_ok then Inl Aborted else Inr \<lparr>vdata = replicate (nat n) any, vmax_size = n, vlast = - 1\<rparr>)"

definition vsize :: "'a QVector \<Rightarrow> int" where
  "vsize v = vlast v + 1"

fun vsearch_loop :: "'a list \<Rightarrow> 'a \<Rightarrow> nat \<Rightarrow> int \<Rightarrow> int" where
  "vsearch_loop d item 0 i = - 1"
| "vsearch_loop d item (Suc n) i = (if aget d i = item then i else vsearch_loop d item n (i + 1))"

definition QVector_search :: "'a \<Rightarrow> 'a QVector \<Rightarrow> int" where
  "QVector_search item v = vsearch_loop (vdata v) item (nat (vlast v + 1)) 0"

definition QVector_at :: "int \<Rightarrow> 'a QVector \<Rightarrow> container_error + 'a" where
  "QVector_at pos v = (if 0 \<le> pos \<and> pos \<le> vlast v then Inr (aget (vdata v) pos) else Inl Aborted)"

definition QVector_assign :: "int \<Rightarrow> 'a \<Rightarrow> 'a QVector \<Rightarrow> container_error + 'a QVector" where
  "QVector_assign pos item v =
     (if 0 \<le> pos \<and> pos \<le> vlast v then Inr (v\<lparr>vdata := aset (vdata v) pos item\<rparr>) else Inl Aborted)"

text \<open>The first \<open>n\<close> cells of an array are copied into another.\<close>

fun copy_cells :: "nat \<Rightarrow> int \<Rightarrow> 'a list \<Rightarrow> 'a list \<Rightarrow> 'a list" where
  "copy_cells 0 i src dest = dest"
| "copy_cells (Suc n) i src dest = copy_cells n (i + 1) src (aset dest i (aget src i))"

definition vresize :: "bool \<Rightarrow> 'a \<Rightarrow> int \<Rightarrow> 'a QVector \<Rightarrow> container_error + 'a QVector" where
  "vresize mem_ok any n v =
     (if n > vmax_size v then
        if mem_ok then Inr (v\<lparr>vdata := copy_cells (nat (vlast v + 1)) 0 (vdata v) (replicate (nat n) any), vmax_size := n\<rparr>) else Inl Aborted
      else Inr v)"

definition QVector_push_back :: "bool \<Rightarrow> 'a \<Rightarrow> 'a \<Rightarrow> 'a QVector \<Rightarrow> container_error + 'a QVector" where
  "QVector_push_back mem_ok any item v =
     (case (if vlast v = vmax_size v - 1 then vresize mem_ok any (shl1 (vmax_size v)) v else Inr v) of
        Inl e \<Rightarrow> Inl e
      | Inr v \<Rightarrow>
          if in_range (vdata v) (vlast v + 1)
          then Inr (v\<lparr>vdata := aset (vdata v) (vlast v + 1) item, vlast := vlast v + 1\<rparr>) else Inl Overrun)"

fun shift_up :: "nat \<Rightarrow> int \<Rightarrow> 'a list \<Rightarrow> 'a list" where
  "shift_up 0 j d = d"
| "shift_up (Suc n) j d = shift_up n (j - 1) (aset d (j + 1) (aget d j))"

definition QVector_insert :: "bool \<Rightarrow> 'a \<Rightarrow> int \<Rightarrow> 'a \<Rightarrow> 'a QVector \<Rightarrow> container_error + 'a QVector" where
  "QVector_insert mem_ok any pos item v =
     (if \<not> (0 \<le> pos \<and> pos \<le> vlast v) then Inl Aborted
      else case (if vlast v = vmax_size v - 1 then vresize mem_ok any (shl1 (vmax_size v)) v else Inr v) of
        Inl e \<Rightarrow> Inl e
      | Inr v \<Rightarrow>
          if in_range (vdata v) (vlast v + 1)
          then Inr (v\<lparr>vdata := aset (shift_up (nat (vlast v - pos)) (vlast v) (vdata v)) (pos + 1) item, vlast := vlast v + 1\<rparr>)
          else Inl Overrun)"

fun shift_down_cells :: "nat \<Rightarrow> int \<Rightarrow> 'a list \<Rightarrow> 'a list" where
  "shift_down_cells 0 j d = d"
| "shift_down_cells (Suc n) j d = shift_down_cells n (j + 1) (aset d j (aget d (j + 1)))"

definition QVector_erase :: "int \<Rightarrow> 'a QVector \<Rightarrow> container_error + 'a QVector" where
  "QVector_erase pos v =
     (if \<not> (0 \<le> pos \<and> pos \<le> vlast v) then Inl Aborted
      else Inr (v\<lparr>vdata := shift_down_cells (nat (vlast v - pos)) pos (vdata v), vlast := vlast v - 1\<rparr>))"

definition QVector_clear :: "'a QVector \<Rightarrow> 'a QVector" where
  "QVector_clear v = v\<lparr>vlast := - 1\<rparr>"

definition QVector_sort :: "'a::linorder QVector \<Rightarrow> 'a QVector option" where
  "QVector_sort v = (if vsize v > 1 then map_option (\<lambda>d. v\<lparr>vdata := d\<rparr>) (Q_Quick_Sort (vdata v) 0 (vsize v - 1)) else Some v)"

section \<open>QStack\<close>

record 'a QStack =
  sdata :: "'a list"
  smax_size :: int
  stop :: int

definition QStack_new :: "bool \<Rightarrow> 'a \<Rightarrow> int \<Rightarrow> container_error + 'a QStack" where
  "QStack_new mem_ok any n = (if \<not> mem_ok then Inl Aborted else Inr \<lparr>sdata = replicate (nat n) any, smax_size = n, stop = - 1\<rparr>)"

definition growStack :: "bool \<Rightarrow> 'a \<Rightarrow> int \<Rightarrow> 'a QStack \<Rightarrow> container_error + 'a QStack" where
  "growStack mem_ok any n s =
     (let m = (if smax_size s < n then n else smax_size s) in
      if mem_ok then Inr (s\<lparr>smax_size := m, sdata := copy_cells (nat (stop s + 1)) 0 (sdata s) (replicate (nat m) any)\<rparr>) else Inl Aborted)"

definition QStack_push :: "bool \<Rightarrow> 'a \<Rightarrow> 'a \<Rightarrow> 'a QStack \<Rightarrow> container_error + 'a QStack" where
  "QStack_push mem_ok any item s =
     (case (if stop s = smax_size s - 1 then growStack mem_ok any (shl1 (smax_size s)) s else Inr s) of
        Inl e \<Rightarrow> Inl e
      | Inr s \<Rightarrow>
          if in_range (sdata s) (stop s + 1)
          then Inr (s\<lparr>sdata := aset (sdata s) (stop s + 1) item, stop := stop s + 1\<rparr>) else Inl Overrun)"

definition QStack_pop :: "'a QStack \<Rightarrow> ('a \<times> 'a QStack) option" where
  "QStack_pop s = (if stop s = - 1 then None else Some (aget (sdata s) (stop s), s\<lparr>stop := stop s - 1\<rparr>))"

definition QStack_clear :: "'a QStack \<Rightarrow> 'a QStack" where
  "QStack_clear s = s\<lparr>stop := - 1\<rparr>"

section \<open>What a growing container promises\<close>

text \<open>
  A machine whose operations are those of a list (\<open>lstep\<close>, \<open>None\<close> where they abort) as long as fewer than
  \<open>bound\<close> elements are held.
\<close>

fun run_steps :: "('op \<Rightarrow> 's \<Rightarrow> container_error + 's) \<Rightarrow> 'op list \<Rightarrow> 's \<Rightarrow> container_error + 's" where
  "run_steps f [] s = Inr s"
| "run_steps f (x # ops) s = (case f x s of Inl e \<Rightarrow> Inl e | Inr s' \<Rightarrow> run_steps f ops s')"

fun run_list :: "('op \<Rightarrow> 'a list \<Rightarrow> 'a list option) \<Rightarrow> 'op list \<Rightarrow> 'a list \<Rightarrow> 'a list option" where
  "run_list f [] xs = Some xs"
| "run_list f (x # ops) xs = (case f x xs of None \<Rightarrow> None | Some ys \<Rightarrow> run_list f ops ys)"

locale list_machine =
  fixes holds :: "'s \<Rightarrow> 'a list \<Rightarrow> bool"
    and step :: "'op \<Rightarrow> 's \<Rightarrow> container_error + 's"
    and lstep :: "'op \<Rightarrow> 'a list \<Rightarrow> 'a list option"
    and bound :: nat
  assumes aborts: "holds s xs \<Longrightarrow> length xs < bound \<Longrightarrow> lstep x xs = None \<Longrightarrow> step x s = Inl Aborted"
    and does: "holds s xs \<Longrightarrow> length xs < bound \<Longrightarrow> lstep x xs = Some ys \<Longrightarrow> \<exists>s'. step x s = Inr s' \<and> holds s' ys"
    and grows: "lstep x xs = Some ys \<Longrightarrow> length ys \<le> Suc (length xs)"
begin

lemma run_refines:
  assumes "holds s xs" "length xs + length ops \<le> bound"
  shows "case run_list lstep ops xs of
      None \<Rightarrow> run_steps step ops s = Inl Aborted
    | Some ys \<Rightarrow> \<exists>s'. run_steps step ops s = Inr s' \<and> holds s' ys"
  using assms
proof (induction ops arbitrary: s xs)
  case (Cons x ops)
  show ?case
  proof (cases "lstep x xs")
    case None
    then show ?thesis using aborts [OF Cons.prems(1)] Cons.prems(2) by simp
  next
    case (Some ys)
    then obtain s' where s': "step x s = Inr s'" "holds s' ys" using does [OF Cons.prems(1)] Cons.prems(2) by fastforce
    have "length ys + length ops \<le> bound" using grows [OF Some] Cons.prems(2) by simp
    note ih = Cons.IH [OF s'(2) this]
    have "run_steps step (x # ops) s = run_steps step ops s'" "run_list lstep (x # ops) xs = run_list lstep ops ys"
      using s'(1) Some by simp_all
    with ih show ?thesis by (simp only:)
  qed
qed simp

end

section \<open>The vector is a list\<close>

lemma shl1_small: "0 \<le> n \<Longrightarrow> n < 1073741824 \<Longrightarrow> shl1 n = 2 * n"
  by (simp add: shl1_def fits32_def MIN_INT32_def MAX_INT32_def)

lemma length_copy_cells [simp]: "length (copy_cells n i src dest) = length dest"
  by (induction n i src dest rule: copy_cells.induct) simp_all

lemma aget_copy_cells:
  assumes "0 \<le> i" "i + int n \<le> alen dest" "in_range dest k"
  shows "aget (copy_cells n i src dest) k = (if i \<le> k \<and> k < i + int n then aget src k else aget dest k)"
  using assms by (induction n i src dest rule: copy_cells.induct) (auto simp: aget_aset in_range_def)

lemma length_shift_up [simp]: "length (shift_up n j d) = length d"
  by (induction n j d rule: shift_up.induct) simp_all

lemma aget_shift_up:
  assumes "int n \<le> j + 1" "j + 1 < alen d" "in_range d k"
  shows "aget (shift_up n j d) k = (if j + 1 - int n < k \<and> k \<le> j + 1 then aget d (k - 1) else aget d k)"
  using assms by (induction n j d rule: shift_up.induct) (auto simp: aget_aset in_range_def)

lemma length_shift_down_cells [simp]: "length (shift_down_cells n j d) = length d"
  by (induction n j d rule: shift_down_cells.induct) simp_all

lemma aget_shift_down_cells:
  assumes "0 \<le> j" "j + int n < alen d" "in_range d k"
  shows "aget (shift_down_cells n j d) k = (if j \<le> k \<and> k < j + int n then aget d (k + 1) else aget d k)"
  using assms by (induction n j d rule: shift_down_cells.induct) (auto simp: aget_aset in_range_def)

definition cells_hold :: "'a list \<Rightarrow> int \<Rightarrow> int \<Rightarrow> 'a list \<Rightarrow> bool" where
  "cells_hold d m tp xs \<longleftrightarrow> 0 < m \<and> m \<le> MAX_INT32 \<and> alen d = m \<and> tp + 1 = alen xs \<and> alen xs \<le> m \<and>
     (\<forall>k. 0 \<le> k \<and> k < alen xs \<longrightarrow> aget d k = aget xs k)"

definition vec_holds :: "'a QVector \<Rightarrow> 'a list \<Rightarrow> bool" where
  "vec_holds v xs \<longleftrightarrow> cells_hold (vdata v) (vmax_size v) (vlast v) xs"

lemma alen_simps [simp]: "alen (xs @ ys) = alen xs + alen ys" "alen (x # xs) = alen xs + 1" "alen [] = 0" "alen (replicate n x) = int n"
  by (simp_all add: alen_def)

lemma alen_moved [simp]:
  "alen (copy_cells n i src dest) = alen dest" "alen (shift_up n i dest) = alen dest" "alen (shift_down_cells n i dest) = alen dest"
  by (simp_all add: alen_def)

lemma aget_append: "0 \<le> k \<Longrightarrow> aget (xs @ ys) k = (if k < alen xs then aget xs k else aget ys (k - alen xs))"
  by (auto simp: aget_def alen_def nth_append nat_diff_distrib)

text \<open>Both containers grow in this way.\<close>

lemma cells_hold_copy:
  assumes "cells_hold d m tp xs" "m \<le> n" "n \<le> MAX_INT32"
  shows "cells_hold (copy_cells (nat (tp + 1)) 0 d (replicate (nat n) any)) n tp xs"
  using assms by (auto simp: cells_hold_def aget_copy_cells in_range_def)

lemma cells_hold_store:
  assumes "cells_hold d m tp xs" "alen xs < m"
  shows "cells_hold (aset d (tp + 1) x) m (tp + 1) (xs @ [x])"
  using assms by (auto simp: cells_hold_def aget_aset aget_append in_range_def) (simp add: aget_def)

lemma vec_room:
  assumes "vec_holds v xs" "length xs < 1073741824"
  shows "\<exists>w. (if vlast v = vmax_size v - 1 then vresize True any (shl1 (vmax_size v)) v else Inr v) = Inr w
    \<and> vec_holds w xs \<and> alen xs < vmax_size w \<and> vlast w = vlast v"
proof (cases "vlast v = vmax_size v - 1")
  case True
  have h: "cells_hold (vdata v) (vmax_size v) (vlast v) xs" using assms(1) by (simp add: vec_holds_def)
  then have m: "vmax_size v = alen xs" "0 < vmax_size v" "vmax_size v < 1073741824" using True assms(2) by (auto simp: cells_hold_def alen_def)
  then have s: "shl1 (vmax_size v) = 2 * vmax_size v" by (simp add: shl1_small)
  have "cells_hold (copy_cells (nat (vlast v + 1)) 0 (vdata v) (replicate (nat (2 * vmax_size v)) any)) (2 * vmax_size v) (vlast v) xs"
    by (rule cells_hold_copy [OF h]) (use m in \<open>auto simp: MAX_INT32_def\<close>)
  then show ?thesis using True m s by (simp add: vresize_def vec_holds_def)
next
  case False
  then show ?thesis using assms(1) by (auto simp: vec_holds_def cells_hold_def)
qed

lemma QVector_push_back_holds:
  assumes "vec_holds v xs" "length xs < 1073741824"
  shows "\<exists>w. QVector_push_back True any x v = Inr w \<and> vec_holds w (xs @ [x])"
proof -
  obtain w where w: "(if vlast v = vmax_size v - 1 then vresize True any (shl1 (vmax_size v)) v else Inr v) = Inr w"
    "vec_holds w xs" "alen xs < vmax_size w" using vec_room [OF assms, of any] by blast
  then have "in_range (vdata w) (vlast w + 1)" by (auto simp: vec_holds_def cells_hold_def in_range_def)
  then show ?thesis using w cells_hold_store [of "vdata w" "vmax_size w" "vlast w" xs x]
    by (simp add: QVector_push_back_def vec_holds_def)
qed

text \<open>\<open>insert\<close> puts the new element behind position \<open>pos\<close>, not before it.\<close>

definition insert_after :: "nat \<Rightarrow> 'a \<Rightarrow> 'a list \<Rightarrow> 'a list" where
  "insert_after p x xs = take (Suc p) xs @ x # drop (Suc p) xs"

lemma nth_insert_after:
  assumes "p < length xs" "k \<le> length xs"
  shows "insert_after p x xs ! k = (if k \<le> p then xs ! k else if k = Suc p then x else xs ! (k - 1))"
proof -
  consider "k \<le> p" | "k = Suc p" | j where "k = Suc (Suc p) + j" by (metis add_Suc_shift less_imp_Suc_add linorder_not_less not_less_eq add_Suc nat_less_le)
  then show ?thesis using assms by cases (auto simp: insert_after_def nth_append min_def)
qed

lemma aget_insert_after:
  assumes "0 \<le> pos" "pos < alen xs" "0 \<le> k" "k \<le> alen xs"
  shows "aget (insert_after (nat pos) x xs) k = (if k \<le> pos then aget xs k else if k = pos + 1 then x else aget xs (k - 1))"
proof -
  have "nat k \<le> nat pos \<longleftrightarrow> k \<le> pos" "nat k = Suc (nat pos) \<longleftrightarrow> k = pos + 1" "nat k - 1 = nat (k - 1)"
    using assms by linarith+
  then show ?thesis using assms nth_insert_after [of "nat pos" xs "nat k" x] by (simp add: aget_def alen_def)
qed

lemma QVector_insert_holds:
  assumes "vec_holds v xs" "length xs < 1073741824" "0 \<le> pos" "pos < alen xs"
  shows "\<exists>w. QVector_insert True any pos x v = Inr w \<and> vec_holds w (insert_after (nat pos) x xs)"
proof -
  obtain w where w: "(if vlast v = vmax_size v - 1 then vresize True any (shl1 (vmax_size v)) v else Inr v) = Inr w"
    "vec_holds w xs" "alen xs < vmax_size w" "vlast w = vlast v" using vec_room [OF assms(1,2), of any] by blast
  have h: "cells_hold (vdata w) (vmax_size w) (vlast w) xs" using w(2) by (simp add: vec_holds_def)
  then have r: "in_range (vdata w) (vlast w + 1)" "\<not> \<not> (0 \<le> pos \<and> pos \<le> vlast v)" using w(3,4) assms(3,4)
    by (auto simp: cells_hold_def in_range_def)
  have len: "alen (insert_after (nat pos) x xs) = alen xs + 1" by (simp add: insert_after_def alen_def)
  have "cells_hold (aset (shift_up (nat (vlast w - pos)) (vlast w) (vdata w)) (pos + 1) x) (vmax_size w) (vlast w + 1) (insert_after (nat pos) x xs)"
    unfolding cells_hold_def len
  proof (intro conjI allI impI)
    fix k assume k: "0 \<le> k \<and> k < alen xs + 1"
    have "aget (aset (shift_up (nat (vlast w - pos)) (vlast w) (vdata w)) (pos + 1) x) k =
        (if k = pos + 1 then x else aget (shift_up (nat (vlast w - pos)) (vlast w) (vdata w)) k)"
      using h w(3) assms(3,4) k by (subst aget_aset) (auto simp: in_range_def cells_hold_def)
    also have "\<dots> = (if k = pos + 1 then x else if pos + 1 < k then aget (vdata w) (k - 1) else aget (vdata w) k)"
      using h w(3) assms(3,4) k by (subst aget_shift_up) (auto simp: in_range_def cells_hold_def)
    also have "\<dots> = aget (insert_after (nat pos) x xs) k"
      using h assms(3,4) k by (subst aget_insert_after) (auto simp: cells_hold_def)
    finally show "aget (aset (shift_up (nat (vlast w - pos)) (vlast w) (vdata w)) (pos + 1) x) k = aget (insert_after (nat pos) x xs) k" .
  qed (use h w(3) in \<open>auto simp: cells_hold_def\<close>)
  then show ?thesis using w(1) r unfolding QVector_insert_def if_not_P [OF r(2)] by (simp add: vec_holds_def)
qed

definition remove_at :: "nat \<Rightarrow> 'a list \<Rightarrow> 'a list" where
  "remove_at p xs = take p xs @ drop (Suc p) xs"

lemma aget_remove_at:
  assumes "0 \<le> pos" "pos < alen xs" "0 \<le> k" "k + 1 < alen xs"
  shows "aget (remove_at (nat pos) xs) k = (if k < pos then aget xs k else aget xs (k + 1))"
proof -
  have "Suc (nat pos) + (nat k - nat pos) = nat (k + 1)" if "\<not> k < pos" using that assms by linarith
  then show ?thesis using assms by (auto simp: remove_at_def aget_def alen_def nth_append)
qed

lemma QVector_erase_holds:
  assumes "vec_holds v xs" "0 \<le> pos" "pos < alen xs"
  shows "\<exists>w. QVector_erase pos v = Inr w \<and> vec_holds w (remove_at (nat pos) xs)"
proof -
  have h: "cells_hold (vdata v) (vmax_size v) (vlast v) xs" using assms(1) by (simp add: vec_holds_def)
  have len: "alen (remove_at (nat pos) xs) = alen xs - 1" using assms(2,3) by (auto simp: remove_at_def alen_def)
  have "cells_hold (shift_down_cells (nat (vlast v - pos)) pos (vdata v)) (vmax_size v) (vlast v - 1) (remove_at (nat pos) xs)"
    unfolding cells_hold_def len
  proof (intro conjI allI impI)
    fix k assume k: "0 \<le> k \<and> k < alen xs - 1"
    have "aget (shift_down_cells (nat (vlast v - pos)) pos (vdata v)) k = (if pos \<le> k then aget (vdata v) (k + 1) else aget (vdata v) k)"
      using h assms(2,3) k by (subst aget_shift_down_cells) (auto simp: in_range_def cells_hold_def)
    also have "\<dots> = aget (remove_at (nat pos) xs) k"
      using h assms(2,3) k by (subst aget_remove_at) (auto simp: cells_hold_def)
    finally show "aget (shift_down_cells (nat (vlast v - pos)) pos (vdata v)) k = aget (remove_at (nat pos) xs) k" .
  qed (use h assms(2,3) in \<open>auto simp: cells_hold_def\<close>)
  moreover have "\<not> \<not> (0 \<le> pos \<and> pos \<le> vlast v)" using h assms(2,3) by (auto simp: cells_hold_def)
  ultimately show ?thesis by (simp add: QVector_erase_def vec_holds_def)
qed

datatype 'a vec_op = VPush 'a | VInsert int 'a | VErase int | VAssign int 'a | VClear

fun vec_step :: "'a \<Rightarrow> 'a vec_op \<Rightarrow> 'a QVector \<Rightarrow> container_error + 'a QVector" where
  "vec_step any (VPush x) v = QVector_push_back True any x v"
| "vec_step any (VInsert pos x) v = QVector_insert True any pos x v"
| "vec_step any (VErase pos) v = QVector_erase pos v"
| "vec_step any (VAssign pos x) v = QVector_assign pos x v"
| "vec_step any VClear v = Inr (QVector_clear v)"

fun vec_list_step :: "'a vec_op \<Rightarrow> 'a list \<Rightarrow> 'a list option" where
  "vec_list_step (VPush x) xs = Some (xs @ [x])"
| "vec_list_step (VInsert pos x) xs = (if 0 \<le> pos \<and> pos < alen xs then Some (insert_after (nat pos) x xs) else None)"
| "vec_list_step (VErase pos) xs = (if 0 \<le> pos \<and> pos < alen xs then Some (remove_at (nat pos) xs) else None)"
| "vec_list_step (VAssign pos x) xs = (if 0 \<le> pos \<and> pos < alen xs then Some (aset xs pos x) else None)"
| "vec_list_step VClear xs = Some []"

lemma vec_holds_last: "vec_holds v xs \<Longrightarrow> pos \<le> vlast v \<longleftrightarrow> pos < alen xs"
  by (auto simp: vec_holds_def cells_hold_def)

lemma QVector_assign_holds:
  assumes "vec_holds v xs" "0 \<le> pos" "pos < alen xs"
  shows "\<exists>w. QVector_assign pos x v = Inr w \<and> vec_holds w (aset xs pos x)"
  using assms by (auto simp: QVector_assign_def vec_holds_def cells_hold_def aget_aset in_range_def)

lemma QVector_clear_holds: "vec_holds v xs \<Longrightarrow> vec_holds (QVector_clear v) []"
  by (auto simp: QVector_clear_def vec_holds_def cells_hold_def)

interpretation vector: list_machine vec_holds "vec_step any" vec_list_step 1073741824 for any
proof
  fix v :: "'a QVector" and xs x
  assume h: "vec_holds v xs" and n: "length xs < 1073741824"
  show "vec_step any x v = Inl Aborted" if "vec_list_step x xs = None"
    using that h by (cases x) (auto simp: QVector_insert_def QVector_erase_def QVector_assign_def vec_holds_last split: if_splits)
  show "\<exists>s'. vec_step any x v = Inr s' \<and> vec_holds s' ys" if "vec_list_step x xs = Some ys" for ys
    using that QVector_push_back_holds [OF h n] QVector_insert_holds [OF h n] QVector_erase_holds [OF h]
      QVector_assign_holds [OF h] QVector_clear_holds [OF h]
    by (cases x) (auto split: if_splits)
next
  fix x :: "'a vec_op" and xs ys assume "vec_list_step x xs = Some ys"
  then show "length ys \<le> Suc (length xs)" by (cases x) (auto simp: insert_after_def remove_at_def aset_def split: if_splits)
qed

lemma QVector_new_holds:
  "0 < n \<Longrightarrow> n \<le> MAX_INT32 \<Longrightarrow> \<exists>v. QVector_new True any n = Inr v \<and> vec_holds v []"
  by (auto simp: QVector_new_def vec_holds_def cells_hold_def)

lemma vsearch_loop_first:
  "(vsearch_loop d item n i = - 1 \<and> (\<forall>k. i \<le> k \<and> k < i + int n \<longrightarrow> aget d k \<noteq> item)) \<or>
   (i \<le> vsearch_loop d item n i \<and> vsearch_loop d item n i < i + int n \<and> aget d (vsearch_loop d item n i) = item
     \<and> (\<forall>k. i \<le> k \<and> k < vsearch_loop d item n i \<longrightarrow> aget d k \<noteq> item))"
proof (induction n arbitrary: i)
  case (Suc n)
  have "i \<le> k \<longleftrightarrow> k = i \<or> i + 1 \<le> k" for k by auto
  then show ?case using Suc [of "i + 1"] by (auto simp: algebra_simps)
qed auto

lemma QVector_search_first:
  assumes "vec_holds v xs" "r = QVector_search item v"
  shows "if item \<in> set xs then 0 \<le> r \<and> r < alen xs \<and> aget xs r = item \<and> (\<forall>k. 0 \<le> k \<and> k < r \<longrightarrow> aget xs k \<noteq> item) else r = - 1"
proof -
  have h: "nat (vlast v + 1) = length xs" "\<And>k. 0 \<le> k \<Longrightarrow> k < alen xs \<Longrightarrow> aget (vdata v) k = aget xs k"
    using assms(1) by (auto simp: vec_holds_def cells_hold_def alen_def)
  have m: "item \<in> set xs \<longleftrightarrow> (\<exists>k. 0 \<le> k \<and> k < alen xs \<and> aget xs k = item)"
    by (auto simp: in_set_conv_nth aget_def alen_def) (metis nat_int of_nat_0_le_iff of_nat_less_iff, metis nat_less_iff)
  show ?thesis
    using vsearch_loop_first [of "vdata v" item "length xs" 0] h(2) m
    unfolding assms(2) QVector_search_def h(1) by (auto simp: alen_def)
qed

text \<open>
  C33. \<open>QVector\<close> is a list: starting from an empty vector of any positive size and with enough memory, up to
  \<open>2\<^sup>30\<close> calls of \<open>push_back\<close>, \<open>insert\<close>, \<open>erase\<close>, \<open>assign\<close> and \<open>clear\<close> leave exactly the elements of the
  corresponding list, where \<open>insert\<close> puts its element behind the position; the program aborts exactly when a
  position is not in the list.
\<close>

theorem QVector_refines_list:
  assumes "0 < n" "n \<le> MAX_INT32" "length ops \<le> 2 ^ 30"
  shows "\<exists>v. QVector_new True any n = Inr v \<and>
    (case run_list vec_list_step ops [] of
       None \<Rightarrow> run_steps (vec_step any) ops v = Inl Aborted
     | Some xs \<Rightarrow> \<exists>w. run_steps (vec_step any) ops v = Inr w \<and> vec_holds w xs)"
proof -
  obtain v where v: "QVector_new True any n = Inr v" "vec_holds v []" using QVector_new_holds [OF assms(1,2), of any] by (elim exE conjE)
  show ?thesis by (intro exI [of _ v] conjI v(1) vector.run_refines [OF v(2)]) (use assms(3) in simp)
qed

theorem QVector_refines_list_witness:
  "\<exists>v. QVector_new True (0 :: int) 1 = Inr v \<and>
    (\<exists>w. run_steps (vec_step 0) [VPush 5, VPush 7, VInsert 0 6, VErase 2] v = Inr w \<and> vec_holds w [5, 6])"
proof -
  have "run_list vec_list_step [VPush 5, VPush 7, VInsert 0 6, VErase 2] [] = Some [5, 6 :: int]"
    by (simp add: insert_after_def remove_at_def numeral_2_eq_2)
  with QVector_refines_list [of 1 "[VPush 5, VPush 7, VInsert 0 6, VErase 2]" "0 :: int"] show ?thesis
    by (simp add: MAX_INT32_def del: run_list.simps run_steps.simps)
qed

text \<open>A full vector of \<open>2\<^sup>30\<close> cells does not grow: the doubled size is negative as an \<open>int32_t\<close>.\<close>

lemma QVector_push_back_overrun:
  assumes "vmax_size v = 2 ^ 30" "alen (vdata v) = 2 ^ 30" "vlast v = 2 ^ 30 - 1"
  shows "QVector_push_back True any x v = Inl Overrun"
proof -
  have "shl1 (2 ^ 30) = - 2147483648" by (simp add: shl1_def s32_def signed_take_bit_eq_take_bit_shift)
  then show ?thesis using assms by (simp add: QVector_push_back_def vresize_def in_range_def)
qed

text \<open>\<open>sort\<close> orders a vector of distinct elements, and does not return when 22 or more elements are all equal.\<close>

lemma QVector_sort_distinct:
  assumes "vec_holds v xs" "distinct xs"
  shows "\<exists>w. QVector_sort v = Some w \<and> vec_holds w (sort xs)"
proof (cases "1 < vsize v")
  case True
  have h: "cells_hold (vdata v) (vmax_size v) (vlast v) xs" using assms(1) by (simp add: vec_holds_def)
  have xs: "take (length xs) (vdata v) = xs" "length xs \<le> length (vdata v)"
  proof -
    show l: "length xs \<le> length (vdata v)" using h by (auto simp: cells_hold_def alen_def)
    have "vdata v ! k = xs ! k" if "k < length xs" for k
      using h that by (auto simp: cells_hold_def aget_def alen_def dest!: spec [of _ "int k"])
    with l show "take (length xs) (vdata v) = xs" by (intro nth_equalityI) simp_all
  qed
  have n: "vsize v - 1 = alen xs - 1" using h by (simp add: vsize_def cells_hold_def)
  have "Q_Quick_Sort (vdata v) 0 (alen xs - 1) = Some (sort_range (vdata v) 0 (alen xs - 1))"
  proof (rule Q_Quick_Sort_distinct)
    show "alen xs - 1 < alen (vdata v)" using h by (simp add: cells_hold_def)
    show "\<forall>a b. 0 \<le> a \<and> a < b \<and> b \<le> alen xs - 1 \<longrightarrow> aget (vdata v) a \<noteq> aget (vdata v) b"
      using h assms(2) by (auto simp: cells_hold_def aget_def alen_def nth_eq_iff_index_eq)
  qed simp
  moreover have "sort_range (vdata v) 0 (alen xs - 1) = sort xs @ drop (length xs) (vdata v)"
    using xs(1) by (simp add: sort_range_def Prelude.slice_def alen_def)
  moreover have "cells_hold (sort xs @ drop (length xs) (vdata v)) (vmax_size v) (vlast v) (sort xs)"
    using h xs(2) by (auto simp: cells_hold_def alen_def aget_def nth_append)
  ultimately show ?thesis using True n by (simp add: QVector_sort_def vec_holds_def)
next
  case False
  then have "length xs \<le> 1" using assms(1) by (auto simp: vsize_def vec_holds_def cells_hold_def alen_def)
  then have "sort xs = xs" by (cases xs) auto
  then show ?thesis using False assms(1) by (simp add: QVector_sort_def)
qed

lemma QVector_sort_diverges:
  assumes "vec_holds v (replicate n x)" "22 \<le> n"
  shows "QVector_sort v = None"
proof -
  have h: "vsize v = int n" "int n \<le> alen (vdata v)" "\<And>k. 0 \<le> k \<Longrightarrow> k < int n \<Longrightarrow> aget (vdata v) k = x"
    using assms(1) by (auto simp: vsize_def vec_holds_def cells_hold_def aget_def)
  have "Q_Quick_Sort (vdata v) 0 (int n - 1) = None"
    by (rule Q_Quick_Sort_equal_keys [where x = x]) (use h assms(2) in auto)
  then show ?thesis using h(1) assms(2) by (simp add: QVector_sort_def)
qed

section \<open>The stack is a list\<close>

definition stk_holds :: "'a QStack \<Rightarrow> 'a list \<Rightarrow> bool" where
  "stk_holds s xs \<longleftrightarrow> cells_hold (sdata s) (smax_size s) (stop s) xs"

datatype 'a stk_op = SPush 'a | SPop | SClear

fun stk_step :: "'a \<Rightarrow> 'a stk_op \<Rightarrow> 'a QStack \<Rightarrow> container_error + 'a QStack" where
  "stk_step any (SPush x) s = QStack_push True any x s"
| "stk_step any SPop s = Inr (case QStack_pop s of None \<Rightarrow> s | Some (x, s') \<Rightarrow> s')"
| "stk_step any SClear s = Inr (QStack_clear s)"

fun stk_list_step :: "'a stk_op \<Rightarrow> 'a list \<Rightarrow> 'a list option" where
  "stk_list_step (SPush x) xs = Some (xs @ [x])"
| "stk_list_step SPop xs = Some (butlast xs)"
| "stk_list_step SClear xs = Some []"

lemma QStack_push_holds:
  assumes "stk_holds s xs" "length xs < 1073741824"
  shows "\<exists>w. QStack_push True any x s = Inr w \<and> stk_holds w (xs @ [x])"
proof -
  have h: "cells_hold (sdata s) (smax_size s) (stop s) xs" using assms(1) by (simp add: stk_holds_def)
  have "\<exists>w. (if stop s = smax_size s - 1 then growStack True any (shl1 (smax_size s)) s else Inr s) = Inr w
    \<and> stk_holds w xs \<and> alen xs < smax_size w"
  proof (cases "stop s = smax_size s - 1")
    case True
    then have m: "smax_size s = alen xs" "0 < smax_size s" "smax_size s < 1073741824" using h assms(2) by (auto simp: cells_hold_def alen_def)
    have "cells_hold (copy_cells (nat (stop s + 1)) 0 (sdata s) (replicate (nat (2 * smax_size s)) any)) (2 * smax_size s) (stop s) xs"
      by (rule cells_hold_copy [OF h]) (use m in \<open>auto simp: MAX_INT32_def\<close>)
    then show ?thesis using True m by (simp add: growStack_def stk_holds_def shl1_small Let_def)
  qed (use h in \<open>auto simp: stk_holds_def cells_hold_def\<close>)
  then obtain w where w: "(if stop s = smax_size s - 1 then growStack True any (shl1 (smax_size s)) s else Inr s) = Inr w"
    "stk_holds w xs" "alen xs < smax_size w" by blast
  then have "in_range (sdata w) (stop w + 1)" by (auto simp: stk_holds_def cells_hold_def in_range_def)
  then show ?thesis using w cells_hold_store [of "sdata w" "smax_size w" "stop w" xs x]
    by (simp add: QStack_push_def stk_holds_def)
qed

lemma QStack_pop_holds:
  assumes "stk_holds s xs"
  shows "if xs = [] then QStack_pop s = None else \<exists>s'. QStack_pop s = Some (last xs, s') \<and> stk_holds s' (butlast xs)"
proof (cases xs rule: rev_cases)
  case Nil
  then show ?thesis using assms by (auto simp: QStack_pop_def stk_holds_def cells_hold_def)
next
  case (snoc ys y)
  have y: "aget (ys @ [y]) (alen ys) = y" by (simp add: aget_append) (simp add: aget_def)
  have ys: "aget (ys @ [y]) k = aget ys k" if "0 \<le> k" "k < alen ys" for k using that by (simp add: aget_append)
  have h: "cells_hold (sdata s) (smax_size s) (stop s) (ys @ [y])" using assms snoc by (simp add: stk_holds_def)
  then have "stop s = alen ys" "aget (sdata s) (alen ys) = y" using y by (auto simp: cells_hold_def)
  moreover have "stk_holds (s\<lparr>stop := stop s - 1\<rparr>) ys" using h ys by (auto simp: stk_holds_def cells_hold_def)
  moreover have "alen ys \<noteq> - 1" using alen_nonneg [of ys] by linarith
  ultimately show ?thesis using snoc by (simp add: QStack_pop_def)
qed

interpretation stack: list_machine stk_holds "stk_step any" stk_list_step 1073741824 for any
proof
  fix s :: "'a QStack" and xs x
  assume h: "stk_holds s xs" and n: "length xs < 1073741824"
  show "stk_step any x s = Inl Aborted" if "stk_list_step x xs = None" using that by (cases x) auto
  have "stk_holds (QStack_clear s) []" using h by (auto simp: QStack_clear_def stk_holds_def cells_hold_def)
  then show "\<exists>s'. stk_step any x s = Inr s' \<and> stk_holds s' ys" if "stk_list_step x xs = Some ys" for ys
    using that QStack_push_holds [OF h n] QStack_pop_holds [OF h] h by (cases x) (auto split: if_splits)
qed (auto elim: stk_list_step.elims)

text \<open>The stack of positive size is a list as well; a stack of size zero never gets a cell.\<close>

lemma QStack_refines_list:
  assumes "0 < n" "n \<le> MAX_INT32" "length ops \<le> 2 ^ 30"
  shows "\<exists>s w xs. QStack_new True any n = Inr s \<and> run_list stk_list_step ops [] = Some xs
    \<and> run_steps (stk_step any) ops s = Inr w \<and> stk_holds w xs"
proof -
  obtain s where s: "QStack_new True any n = Inr s" "stk_holds s []"
    using assms(1,2) by (auto simp: QStack_new_def stk_holds_def cells_hold_def)
  have total: "\<exists>ys. run_list stk_list_step ops xs = Some ys" for xs
  proof (induction ops arbitrary: xs)
    case (Cons x ops)
    then show ?case by (cases x) simp_all
  qed simp
  have "case run_list stk_list_step ops [] of None \<Rightarrow> run_steps (stk_step any) ops s = Inl Aborted
    | Some ys \<Rightarrow> \<exists>s'. run_steps (stk_step any) ops s = Inr s' \<and> stk_holds s' ys"
    by (rule stack.run_refines [OF s(2)]) (use assms(3) in simp)
  with s(1) total [of "[]"] show ?thesis by auto
qed

lemma QStack_zero_overrun: "\<exists>s. QStack_new True any 0 = Inr s \<and> QStack_push True any x s = Inl Overrun"
  by (simp add: QStack_new_def QStack_push_def growStack_def shl1_def s32_def in_range_def)

end
