(* ===== verification/LinkedList.thy ===== *)
theory LinkedList
  imports Vectors
begin

text \<open>
  \<open>QList\<close> of \<^verbatim>\<open>src/common/qlist.h\<close>: a ring of nodes through a sentinel, over a store of nodes in which a deleted node is
  gone.  Address 0 is \<open>NULL\<close>.  A use of a node that is not there is the error \<open>Bad_Node\<close>; \<open>None\<close> is a loop that
  does not end.  A node gets a new address; \<open>mem_ok\<close> says whether the
  system provides its memory.
\<close>

section \<open>Nodes and operations\<close>

datatype list_error = Bad_Node | Assertion_Failed | Vector_Failed container_error

record 'a LNode =
  ln_data :: 'a
  lLink :: nat
  rLink :: nat

type_synonym 'a lstore = "nat \<Rightarrow> 'a LNode option"

record 'a QList =
  ql_store :: "'a lstore"
  ql_fresh :: nat
  ql_size :: int
  ql_first :: nat
  ql_current :: nat

definition QList_new :: "'a \<Rightarrow> 'a QList" where
  "QList_new any = \<lparr>ql_store = (\<lambda>_. None)(1 \<mapsto> \<lparr>ln_data = any, lLink = 1, rLink = 1\<rparr>), ql_fresh = 2, ql_size = 0, ql_first = 1, ql_current = 1\<rparr>"

definition andthen :: "'e + 'a \<Rightarrow> ('a \<Rightarrow> 'e + 'b) \<Rightarrow> 'e + 'b" where
  "andthen x f = (case x of Inl e \<Rightarrow> Inl e | Inr y \<Rightarrow> f y)"

definition ln_get :: "'a lstore \<Rightarrow> nat \<Rightarrow> list_error + 'a LNode" where
  "ln_get st p = (case st p of None \<Rightarrow> Inl Bad_Node | Some nd \<Rightarrow> Inr nd)"

definition set_lLink :: "nat \<Rightarrow> nat \<Rightarrow> 'a lstore \<Rightarrow> list_error + 'a lstore" where
  "set_lLink p v st = andthen (ln_get st p) (\<lambda>nd. Inr (st(p \<mapsto> nd\<lparr>lLink := v\<rparr>)))"

definition set_rLink :: "nat \<Rightarrow> nat \<Rightarrow> 'a lstore \<Rightarrow> list_error + 'a lstore" where
  "set_rLink p v st = andthen (ln_get st p) (\<lambda>nd. Inr (st(p \<mapsto> nd\<lparr>rLink := v\<rparr>)))"

definition QList_push_back :: "bool \<Rightarrow> 'a \<Rightarrow> 'a QList \<Rightarrow> list_error + 'a QList" where
  "QList_push_back mem_ok x s =
     (if \<not> mem_ok then Inl Assertion_Failed else let n = ql_fresh s; st = (ql_store s)(n \<mapsto> \<lparr>ln_data = x, lLink = 0, rLink = 0\<rparr>) in
      andthen (ln_get st (ql_first s)) (\<lambda>f.
      andthen (set_lLink n (lLink f) st) (\<lambda>st.
      andthen (set_lLink (ql_first s) n st) (\<lambda>st.
      andthen (ln_get st n) (\<lambda>nd.
      andthen (set_rLink (lLink nd) n st) (\<lambda>st.
      andthen (set_rLink n (ql_first s) st) (\<lambda>st.
      Inr (s\<lparr>ql_store := st, ql_fresh := Suc n, ql_size := ql_size s + 1\<rparr>))))))))"

definition QList_push_front :: "bool \<Rightarrow> 'a \<Rightarrow> 'a QList \<Rightarrow> list_error + 'a QList" where
  "QList_push_front mem_ok x s =
     (if \<not> mem_ok then Inl Assertion_Failed else let n = ql_fresh s; st = (ql_store s)(n \<mapsto> \<lparr>ln_data = x, lLink = 0, rLink = 0\<rparr>) in
      andthen (ln_get st (ql_first s)) (\<lambda>f.
      andthen (set_rLink n (rLink f) st) (\<lambda>st.
      andthen (set_rLink (ql_first s) n st) (\<lambda>st.
      andthen (ln_get st n) (\<lambda>nd.
      andthen (set_lLink (rLink nd) n st) (\<lambda>st.
      andthen (set_lLink n (ql_first s) st) (\<lambda>st.
      Inr (s\<lparr>ql_store := st, ql_fresh := Suc n, ql_size := ql_size s + 1\<rparr>))))))))"

definition QList_prepareTraversal :: "'a QList \<Rightarrow> 'a QList" where
  "QList_prepareTraversal s = s\<lparr>ql_current := ql_first s\<rparr>"

definition hasNext :: "'a QList \<Rightarrow> list_error + bool" where
  "hasNext s = (if ql_current s = 0 then Inr False else andthen (ln_get (ql_store s) (ql_current s)) (\<lambda>nd. Inr (rLink nd \<noteq> ql_first s)))"

definition QList_next :: "'a QList \<Rightarrow> list_error + 'a \<times> 'a QList" where
  "QList_next s =
     andthen (ln_get (ql_store s) (ql_current s)) (\<lambda>nd.
     if rLink nd = ql_first s then Inl Assertion_Failed
     else andthen (ln_get (ql_store s) (rLink nd)) (\<lambda>nx. Inr (ln_data nx, s\<lparr>ql_current := rLink nd\<rparr>)))"

definition hasPrev :: "'a QList \<Rightarrow> list_error + bool" where
  "hasPrev s = (if ql_current s = 0 then Inr False else andthen (ln_get (ql_store s) (ql_current s)) (\<lambda>nd. Inr (lLink nd \<noteq> ql_first s)))"

definition QList_prev :: "'a QList \<Rightarrow> list_error + 'a \<times> 'a QList" where
  "QList_prev s =
     andthen (ln_get (ql_store s) (ql_current s)) (\<lambda>nd.
     if lLink nd = ql_first s then Inl Assertion_Failed
     else andthen (ln_get (ql_store s) (lLink nd)) (\<lambda>nx. Inr (ln_data nx, s\<lparr>ql_current := lLink nd\<rparr>)))"

definition QList_empty :: "'a QList \<Rightarrow> list_error + bool" where
  "QList_empty s = andthen (ln_get (ql_store s) (ql_first s)) (\<lambda>nd. Inr (rLink nd = ql_first s))"

text \<open>\<open>erase\<close> removes the node under the cursor, whichever it is, and then moves the cursor off the sentinel.\<close>

definition skip_sentinel :: "'a QList \<Rightarrow> list_error + nat" where
  "skip_sentinel s =
     (if ql_current s = ql_first s then
        andthen (QList_empty s) (\<lambda>e. if e then Inr 0 else andthen (ln_get (ql_store s) (ql_current s)) (\<lambda>c. Inr (rLink c)))
      else Inr (ql_current s))"

definition QList_erase :: "'a QList \<Rightarrow> list_error + 'a QList" where
  "QList_erase s =
     (if ql_current s = 0 then Inr s
      else
        let temp = ql_current s in
        andthen (ln_get (ql_store s) temp) (\<lambda>nd.
        andthen (set_lLink (rLink nd) (lLink nd) (ql_store s)) (\<lambda>st.
        andthen (ln_get st temp) (\<lambda>nd.
        andthen (set_rLink (lLink nd) (rLink nd) st) (\<lambda>st.
        let s = s\<lparr>ql_store := st(temp := None), ql_current := rLink nd\<rparr> in
        andthen (skip_sentinel s) (\<lambda>c.
        Inr (s\<lparr>ql_current := c, ql_size := ql_size s - 1\<rparr>)))))))"

partial_function (option) QList_clear :: "'a QList \<Rightarrow> (list_error + 'a QList) option" where
  "QList_clear s =
     (case QList_empty s of
        Inl e \<Rightarrow> Some (Inl e)
      | Inr e \<Rightarrow> if e then Some (Inr s) else (case QList_erase s of Inl e \<Rightarrow> Some (Inl e) | Inr s' \<Rightarrow> QList_clear s'))"

definition QList_destroy :: "'a QList \<Rightarrow> (list_error + 'a QList) option" where
  "QList_destroy s = map_option (\<lambda>r. andthen r (\<lambda>s. andthen (ln_get (ql_store s) (ql_first s)) (\<lambda>_.
     Inr (s\<lparr>ql_store := (ql_store s)(ql_first s := None), ql_first := 0, ql_current := 0\<rparr>)))) (QList_clear s)"

partial_function (option) to_vector_loop :: "'a \<Rightarrow> 'a QVector \<Rightarrow> 'a QList \<Rightarrow> (list_error + 'a QVector \<times> 'a QList) option" where
  "to_vector_loop any elems s =
     (case hasNext s of
        Inl e \<Rightarrow> Some (Inl e)
      | Inr b \<Rightarrow> if \<not> b then Some (Inr (elems, s)) else
          (case QList_next s of
             Inl e \<Rightarrow> Some (Inl e)
           | Inr (x, s') \<Rightarrow>
               (case QVector_push_back True any x elems of
                  Inl e \<Rightarrow> Some (Inl (Vector_Failed e))
                | Inr elems' \<Rightarrow> to_vector_loop any elems' s')))"

definition to_vector :: "'a \<Rightarrow> 'a QList \<Rightarrow> (list_error + 'a QVector \<times> 'a QList) option" where
  "to_vector any s =
     (case QVector_new True any 100 of Inl e \<Rightarrow> Some (Inl (Vector_Failed e)) | Inr elems \<Rightarrow> to_vector_loop any elems (QList_prepareTraversal s))"

section \<open>Rings\<close>

definition R_of :: "'a lstore \<Rightarrow> nat \<Rightarrow> nat" where "R_of st p = rLink (the (st p))"
definition L_of :: "'a lstore \<Rightarrow> nat \<Rightarrow> nat" where "L_of st p = lLink (the (st p))"
definition D_of :: "'a lstore \<Rightarrow> nat \<Rightarrow> 'a" where "D_of st p = ln_data (the (st p))"

definition ring :: "'a lstore \<Rightarrow> nat list \<Rightarrow> bool" where
  "ring st c \<longleftrightarrow> c \<noteq> [] \<and> distinct c \<and> 0 \<notin> set c \<and> (\<forall>p \<in> set c. st p \<noteq> None) \<and> map (R_of st) c = rotate1 c \<and> map (L_of st) (rotate1 c) = c"

lemma ring_rotate1: "ring st c \<Longrightarrow> ring st (rotate1 c)"
  unfolding ring_def by (metis distinct1_rotate rotate1_is_Nil_conv rotate1_map set_rotate1)

lemma ring_swap: "ring st (xs @ ys) \<Longrightarrow> ring st (ys @ xs)"
proof -
  have "ring st c \<Longrightarrow> ring st (rotate n c)" for n c by (induction n) (simp_all add: ring_rotate1)
  then show "ring st (xs @ ys) \<Longrightarrow> ring st (ys @ xs)" by (metis rotate_append)
qed

lemma andthen_simps [simp]: "andthen (Inr x) f = f x" "andthen (Inl e) f = Inl e"
  by (simp_all add: andthen_def)

text \<open>A node put between the last and the first of a ring, and the node at the head taken out.\<close>

lemma ring_insert:
  assumes "ring st c" "n \<notin> set c" "n \<noteq> 0"
    and "\<forall>p \<in> set (n # c). st' p \<noteq> None"
    and "\<forall>p \<in> set (n # c). R_of st' p = (if p = n then hd c else if p = last c then n else R_of st p)"
    and "\<forall>p \<in> set (n # c). L_of st' p = (if p = n then last c else if p = hd c then n else L_of st p)"
  shows "ring st' (c @ [n])"
proof -
  obtain c0 z where z: "c = c0 @ [z]" using assms(1) by (cases c rule: rev_cases) (auto simp: ring_def)
  obtain f ps where f: "c = f # ps" using assms(1) by (cases c) (auto simp: ring_def)
  have d: "distinct c" using assms(1) by (simp add: ring_def)
  have r: "map (R_of st) c = ps @ [f]" "map (L_of st) (ps @ [f]) = c" using assms(1) f by (simp_all add: ring_def)
  have "map (R_of st) c0 = ps" using r(1) z by simp
  moreover have "map (R_of st') c0 = map (R_of st) c0" using assms(2,5) d z by auto
  moreover have hl: "hd c = f" "last c = z" by (simp add: f, simp add: z)
  moreover have "R_of st' z = n" "R_of st' n = f" using assms(2,5) hl z by auto
  ultimately have R: "map (R_of st') (c @ [n]) = ps @ [n, f]" unfolding z by simp
  have "map (L_of st) ps = c0" using r(2) z by simp
  moreover have "map (L_of st') ps = map (L_of st) ps" using assms(2,6) d f by auto
  moreover have "L_of st' n = z" "L_of st' f = n" using assms(2,6) hl f by auto
  ultimately have "map (L_of st') (ps @ [n, f]) = c @ [n]" unfolding z by simp
  with R show ?thesis using assms f d by (auto simp: ring_def)
qed

lemma ring_remove:
  assumes "ring st (p # qs)" "qs \<noteq> []"
    and "\<forall>q \<in> set qs. st' q \<noteq> None"
    and "\<forall>q \<in> set qs. R_of st' q = (if q = L_of st p then R_of st p else R_of st q)"
    and "\<forall>q \<in> set qs. L_of st' q = (if q = R_of st p then L_of st p else L_of st q)"
  shows "ring st' qs"
proof -
  obtain q0 z where z: "qs = q0 @ [z]" using assms(2) by (cases qs rule: rev_cases) auto
  obtain h hs where h: "qs = h # hs" using assms(2) by (cases qs) auto
  have d: "distinct (p # qs)" using assms(1) by (simp add: ring_def)
  have r: "R_of st p # map (R_of st) qs = h # hs @ [p]" "L_of st h # map (L_of st) hs @ [L_of st p] = p # q0 @ [z]"
    using assms(1) h z by (simp_all add: ring_def)
  have e: "R_of st p = h" "L_of st p = z" "map (R_of st) q0 = hs" "map (L_of st) hs = q0" using r z by auto
  have "map (R_of st') q0 = hs" using e(3) assms(4) e(1,2) d z by auto
  then have R: "map (R_of st') qs = hs @ [h]" using assms(4) e(1,2) z by auto
  have "map (L_of st') hs = q0" using e(4) assms(5) e(1,2) d h by auto
  then have "map (L_of st') (hs @ [h]) = qs" using assms(5) e(1,2) h z by auto
  with R show ?thesis using assms(1,3) h d by (auto simp: ring_def)
qed

lemma ring_ends:
  assumes "ring st (f # ps)"
  shows "L_of st f = last (f # ps)" "R_of st f = hd (ps @ [f])"
proof -
  have "map (L_of st) (ps @ [f]) = f # ps" "map (R_of st) (f # ps) = ps @ [f]" using assms by (simp_all add: ring_def)
  then show "L_of st f = last (f # ps)" "R_of st f = hd (ps @ [f])" by (metis last_map last_snoc snoc_eq_iff_butlast, metis list.map(2) list.sel(1))
qed

definition ql_holds :: "'a QList \<Rightarrow> nat list \<Rightarrow> 'a list \<Rightarrow> bool" where
  "ql_holds s ps xs \<longleftrightarrow> ring (ql_store s) (ql_first s # ps) \<and> dom (ql_store s) = set (ql_first s # ps) \<and> (\<forall>p \<in> dom (ql_store s). p < ql_fresh s)
     \<and> map (D_of (ql_store s)) ps = xs \<and> ql_size s = int (length xs) \<and> ql_current s \<in> insert 0 (set (ql_first s # ps))"

lemma ql_node:
  assumes "ql_holds s ps xs" "p \<in> set (ql_first s # ps)"
  shows "ql_store s p = Some \<lparr>ln_data = D_of (ql_store s) p, lLink = L_of (ql_store s) p, rLink = R_of (ql_store s) p\<rparr>"
  using assms by (auto simp: ql_holds_def ring_def D_of_def L_of_def R_of_def)

lemma QList_push_back_holds:
  assumes h: "ql_holds s ps xs"
  shows "\<exists>s'. QList_push_back True x s = Inr s' \<and> ql_holds s' (ps @ [ql_fresh s]) (xs @ [x]) \<and> ql_first s' = ql_first s \<and> ql_current s' = ql_current s"
proof -
  let ?n = "ql_fresh s" and ?f = "ql_first s" and ?st = "ql_store s"
  define z where "z = last (?f # ps)"
  have r: "ring ?st (?f # ps)" and dm: "dom ?st = set (?f # ps)" and n: "?n \<notin> set (?f # ps)" "\<forall>p \<in> set (?f # ps). p < ?n"
    using h by (auto simp: ql_holds_def)
  have zf: "z \<in> set (?f # ps)" unfolding z_def by (rule last_in_set) simp
  have L: "L_of ?st ?f = z" using ring_ends(1) [OF r] by (simp add: z_def)
  have nz: "z \<noteq> ?n" "?f \<noteq> ?n" "?n \<noteq> 0" using n zf r by (auto simp: ring_def)
  note nf = ql_node [OF h, of ?f] and nzn = ql_node [OF h zf]
  define a where "a = ?st(?n \<mapsto> \<lparr>ln_data = x, lLink = z, rLink = ?f\<rparr>)"
  define b where "b = a(?f \<mapsto> (the (a ?f))\<lparr>lLink := ?n\<rparr>)"
  define c where "c = b(z \<mapsto> (the (b z))\<lparr>rLink := ?n\<rparr>)"
  define s' where "s' = s\<lparr>ql_store := c, ql_fresh := Suc ?n, ql_size := ql_size s + 1\<rparr>"
  have s': "QList_push_back True x s = Inr s'"
    using nf nzn nz L by (cases "z = ?f")
      (simp_all add: QList_push_back_def Let_def ln_get_def set_lLink_def set_rLink_def s'_def c_def b_def a_def fun_eq_iff)
  have R: "R_of c p = (if p = ?n then ?f else if p = z then ?n else R_of ?st p)" for p
    using nz by (simp add: c_def b_def a_def R_of_def)
  have L': "L_of c p = (if p = ?n then z else if p = ?f then ?n else L_of ?st p)" for p
    using nz by (simp add: c_def b_def a_def L_of_def)
  have D: "D_of c p = (if p = ?n then x else D_of ?st p)" for p
    using nz by (simp add: c_def b_def a_def D_of_def)
  have dm': "dom c = insert ?n (dom ?st)" using dm zf by (auto simp: c_def b_def a_def)
  have "ring c ((?f # ps) @ [?n])"
  proof (rule ring_insert [OF r n(1) nz(3)])
    show "\<forall>p \<in> set (?n # ?f # ps). c p \<noteq> None" using dm dm' by (auto simp: dom_def)
  qed (intro ballI, simp only: R L' z_def list.sel)+
  moreover have "map (D_of c) (ps @ [?n]) = xs @ [x]" using D h n by (auto simp: ql_holds_def)
  ultimately have "ql_holds s' (ps @ [?n]) (xs @ [x])" using h dm dm' n(2) by (auto simp: ql_holds_def s'_def)
  with s' show ?thesis by (simp add: s'_def)
qed

lemma QList_push_front_holds:
  assumes h: "ql_holds s ps xs"
  shows "\<exists>s'. QList_push_front True x s = Inr s' \<and> ql_holds s' (ql_fresh s # ps) (x # xs) \<and> ql_first s' = ql_first s \<and> ql_current s' = ql_current s"
proof -
  let ?n = "ql_fresh s" and ?f = "ql_first s" and ?st = "ql_store s"
  define w where "w = hd (ps @ [?f])"
  have r: "ring ?st (?f # ps)" and dm: "dom ?st = set (?f # ps)" and n: "?n \<notin> set (?f # ps)" "\<forall>p \<in> set (?f # ps). p < ?n"
    using h by (auto simp: ql_holds_def)
  have wf: "w \<in> set (?f # ps)" unfolding w_def by (cases ps) auto
  have R: "R_of ?st ?f = w" using ring_ends(2) [OF r] by (simp add: w_def)
  have nw: "w \<noteq> ?n" "?f \<noteq> ?n" "?n \<noteq> 0" using n wf r by (auto simp: ring_def)
  note nf = ql_node [OF h, of ?f] and nwn = ql_node [OF h wf]
  define a where "a = ?st(?n \<mapsto> \<lparr>ln_data = x, lLink = ?f, rLink = w\<rparr>)"
  define b where "b = a(?f \<mapsto> (the (a ?f))\<lparr>rLink := ?n\<rparr>)"
  define c where "c = b(w \<mapsto> (the (b w))\<lparr>lLink := ?n\<rparr>)"
  define s' where "s' = s\<lparr>ql_store := c, ql_fresh := Suc ?n, ql_size := ql_size s + 1\<rparr>"
  have s': "QList_push_front True x s = Inr s'"
    using nf nwn nw R by (cases "w = ?f")
      (simp_all add: QList_push_front_def Let_def ln_get_def set_lLink_def set_rLink_def s'_def c_def b_def a_def fun_eq_iff)
  have R': "R_of c p = (if p = ?n then w else if p = ?f then ?n else R_of ?st p)" for p
    using nw by (simp add: c_def b_def a_def R_of_def)
  have L': "L_of c p = (if p = ?n then ?f else if p = w then ?n else L_of ?st p)" for p
    using nw by (simp add: c_def b_def a_def L_of_def)
  have D: "D_of c p = (if p = ?n then x else D_of ?st p)" for p
    using nw by (simp add: c_def b_def a_def D_of_def)
  have dm': "dom c = insert ?n (dom ?st)" using dm wf by (auto simp: c_def b_def a_def)
  have "ring ?st (ps @ [?f])" using ring_swap [of ?st "[?f]" ps] r by simp
  then have "ring c ((ps @ [?f]) @ [?n])"
  proof (rule ring_insert)
    show "?n \<notin> set (ps @ [?f])" "?n \<noteq> 0" using n nw by auto
    show "\<forall>p \<in> set (?n # ps @ [?f]). c p \<noteq> None" using dm dm' by (auto simp: dom_def)
  qed (intro ballI, simp only: R' L' w_def last_snoc)+
  then have "ring c (?f # ?n # ps)" using ring_swap [of c ps "[?f, ?n]"] by simp
  moreover have "map (D_of c) (?n # ps) = x # xs" using D h n by (auto simp: ql_holds_def)
  ultimately have "ql_holds s' (?n # ps) (x # xs)" using h dm dm' n(2) by (auto simp: ql_holds_def s'_def)
  with s' show ?thesis by (simp add: s'_def)
qed

text \<open>Erasing a proper node removes it and moves the cursor to the next one, around the sentinel.\<close>

lemma QList_erase_holds:
  assumes h: "ql_holds s (a @ p # b) xs" and cur: "ql_current s = p"
  shows "\<exists>s'. QList_erase s = Inr s' \<and> ql_holds s' (a @ b) (take (length a) xs @ drop (Suc (length a)) xs) \<and> ql_first s' = ql_first s
    \<and> ql_current s' = (if b \<noteq> [] then hd b else if a \<noteq> [] then hd a else 0)"
proof -
  let ?f = "ql_first s" and ?st = "ql_store s"
  have r: "ring ?st (?f # a @ p # b)" and dm: "dom ?st = set (?f # a @ p # b)" using h by (auto simp: ql_holds_def)
  have rp: "ring ?st (p # b @ ?f # a)" using ring_swap [of ?st "?f # a" "p # b"] r by simp
  define w where "w = hd (b @ [?f])"
  define z where "z = last (?f # a)"
  have zf: "z \<in> set (?f # a)" unfolding z_def by (rule last_in_set) simp
  have wf: "w \<in> set (b @ [?f])" unfolding w_def by (cases b) auto
  have R: "R_of ?st p = w" "L_of ?st p = z" using ring_ends [OF rp] by (cases b; simp add: w_def z_def)+
  have d: "distinct (?f # a @ p # b)" "0 \<notin> set (?f # a @ p # b)" using r by (simp_all add: ring_def)
  have ne: "w \<noteq> p" "z \<noteq> p" "p \<noteq> ?f" "p \<noteq> 0" using d wf zf by auto
  have np: "ql_store s p = Some \<lparr>ln_data = D_of ?st p, lLink = z, rLink = w\<rparr>" using ql_node [OF h, of p] R by simp
  have nw: "\<exists>nd. ?st w = Some nd" and nz: "\<exists>nd. ?st z = Some nd" using dm wf zf by (auto simp: dom_def)
  define st1 where "st1 = ?st(w \<mapsto> (the (?st w))\<lparr>lLink := z\<rparr>)"
  define st2 where "st2 = (st1(z \<mapsto> (the (st1 z))\<lparr>rLink := w\<rparr>))(p := None)"
  have R': "R_of st2 q = (if q = z then w else R_of ?st q)" if "q \<noteq> p" for q
    using that by (simp add: st2_def st1_def R_of_def)
  have L': "L_of st2 q = (if q = w then z else L_of ?st q)" if "q \<noteq> p" for q
    using that by (simp add: st2_def st1_def L_of_def)
  have D': "D_of st2 q = D_of ?st q" if "q \<noteq> p" for q using that by (simp add: st2_def st1_def D_of_def)
  have dm': "dom st2 = dom ?st - {p}" using nw nz by (auto simp: st2_def st1_def)
  have qs: "q \<noteq> p" if "q \<in> set (b @ ?f # a)" for q using that d by auto
  have "ring st2 (b @ ?f # a)"
  proof (rule ring_remove [OF rp])
    have "set (b @ ?f # a) \<subseteq> dom st2" using dm dm' qs by auto
    then show "\<forall>q \<in> set (b @ ?f # a). st2 q \<noteq> None" by (auto simp: domIff)
    show "\<forall>q \<in> set (b @ ?f # a). R_of st2 q = (if q = L_of ?st p then R_of ?st p else R_of ?st q)"
      unfolding R by (intro ballI R' qs)
    show "\<forall>q \<in> set (b @ ?f # a). L_of st2 q = (if q = R_of ?st p then L_of ?st p else L_of ?st q)"
      unfolding R by (intro ballI L' qs)
  qed simp
  then have ring2: "ring st2 (?f # a @ b)" using ring_swap [of st2 b "?f # a"] by simp
  define c where "c = (if w = ?f then if a @ b = [] then 0 else hd (a @ b) else w)"
  have f2: "st2 ?f = Some \<lparr>ln_data = D_of st2 ?f, lLink = L_of st2 ?f, rLink = hd (a @ b @ [?f])\<rparr>"
  proof -
    have "st2 ?f \<noteq> None" using ring2 by (simp add: ring_def)
    then show ?thesis using ring_ends(2) [OF ring2] by (auto simp: D_of_def L_of_def R_of_def)
  qed
  have hf: "hd (a @ b @ [?f]) = ?f \<longleftrightarrow> a @ b = []" using d by (cases a; cases b) auto
  have hh: "a @ b \<noteq> [] \<Longrightarrow> hd (a @ b @ [?f]) = hd (a @ b)" by (cases a; cases b) auto
  define s' where "s' = s\<lparr>ql_store := st2, ql_current := c, ql_size := ql_size s - 1\<rparr>"
  have sk: "skip_sentinel (s\<lparr>ql_store := st2, ql_current := w\<rparr>) = Inr c"
    using f2 hf hh by (cases "a @ b = []") (auto simp: skip_sentinel_def QList_empty_def ln_get_def c_def)
  have st: "andthen (set_lLink w z ?st) (\<lambda>st. andthen (ln_get st p) (\<lambda>nd. andthen (set_rLink (lLink nd) (rLink nd) st) (\<lambda>st. g st nd)))
      = g (st1(z \<mapsto> (the (st1 z))\<lparr>rLink := w\<rparr>)) \<lparr>ln_data = D_of ?st p, lLink = z, rLink = w\<rparr>" for g :: "_ \<Rightarrow> _ \<Rightarrow> list_error + 'a QList"
    using nw nz np ne by (auto simp: set_lLink_def set_rLink_def ln_get_def st1_def)
  have e: "QList_erase s = Inr s'"
    using np ne(4) sk unfolding QList_erase_def cur by (simp add: Let_def ln_get_def [of ?st p] st s'_def flip: st2_def)
  have xs: "xs = map (D_of ?st) (a @ p # b)" using h by (simp add: ql_holds_def)
  then have "map (D_of st2) (a @ b) = take (length a) xs @ drop (Suc (length a)) xs" using D' qs by simp
  moreover have "c \<in> insert 0 (set (?f # a @ b))" using wf by (cases a; cases b) (auto simp: c_def w_def)
  moreover have "ql_size s - 1 = int (length (take (length a) xs @ drop (Suc (length a)) xs))"
    using h xs by (simp add: ql_holds_def)
  moreover have "dom st2 = set (?f # a @ b)" using dm dm' d(1) by auto
  moreover have "\<forall>q \<in> dom st2. q < ql_fresh s" using h unfolding dm' by (auto simp: ql_holds_def)
  ultimately have "ql_holds s' (a @ b) (take (length a) xs @ drop (Suc (length a)) xs)"
    using ring2 by (simp add: ql_holds_def s'_def)
  moreover have "c = (if b \<noteq> [] then hd b else if a \<noteq> [] then hd a else 0)" using d by (cases b; cases a) (auto simp: c_def w_def)
  ultimately show ?thesis using e by (simp add: s'_def)
qed

section \<open>Clearing and destroying a list\<close>

lemma QList_empty_holds:
  assumes "ql_holds s ps xs"
  shows "QList_empty s = Inr (ps = [])"
proof -
  have r: "ring (ql_store s) (ql_first s # ps)" using assms by (simp add: ql_holds_def)
  have "R_of (ql_store s) (ql_first s) = ql_first s \<longleftrightarrow> ps = []"
    unfolding ring_ends(2) [OF r] using r by (cases ps) (auto simp: ring_def)
  then show ?thesis using ql_node [OF assms, of "ql_first s"] by (simp add: QList_empty_def ln_get_def)
qed

lemma QList_clear_empties:
  assumes "ql_holds s ps xs" "ql_current s \<in> set ps"
  shows "\<exists>s'. QList_clear s = Some (Inr s') \<and> ql_holds s' [] [] \<and> ql_current s' = 0 \<and> ql_first s' = ql_first s"
  using assms
proof (induction ps arbitrary: s xs rule: length_induct)
  case (1 ps)
  then obtain a b where ps: "ps = a @ ql_current s # b" by (meson split_list)
  obtain s1 where s1: "QList_erase s = Inr s1" "ql_holds s1 (a @ b) (take (length a) xs @ drop (Suc (length a)) xs)"
    "ql_first s1 = ql_first s" "ql_current s1 = (if b \<noteq> [] then hd b else if a \<noteq> [] then hd a else 0)"
    using QList_erase_holds [OF "1.prems"(1) [unfolded ps] refl] by blast
  have c: "QList_clear s = QList_clear s1"
    using QList_empty_holds [OF "1.prems"(1)] ps s1(1) by (subst QList_clear.simps) simp
  show ?case
  proof (cases "a @ b = []")
    case True
    then have "QList_clear s1 = Some (Inr s1)" using QList_empty_holds [OF s1(2)] by (subst QList_clear.simps) simp
    then show ?thesis using c s1 True by (auto simp: ql_holds_def)
  next
    case False
    then have "ql_current s1 \<in> set (a @ b)" using s1(4) by (cases b; cases a) auto
    with "1.IH" ps s1(2) obtain s' where "QList_clear s1 = Some (Inr s')" "ql_holds s' [] []" "ql_current s' = 0" "ql_first s' = ql_first s1"
      by (metis length_append length_append_singleton append.assoc append_Cons append_Nil length_Cons add_Suc_right lessI)
    then show ?thesis using c s1(3) by simp
  qed
qed

lemma QList_clear_diverges:
  assumes "ql_holds s ps xs" "ps \<noteq> []" "ql_current s = 0"
  shows "QList_clear s = None"
proof -
  have e: "QList_empty s = Inr False" "QList_erase s = Inr s"
    using assms QList_empty_holds [OF assms(1)] by (simp_all add: QList_erase_def)
  have "t \<noteq> s" if "QList_clear t = Some r" for t r
    by (rule QList_clear.raw_induct [where P = "\<lambda>t _. t \<noteq> s", OF _ that]) (use e in \<open>auto split: if_splits; blast\<close>)
  then show ?thesis by (cases "QList_clear s") auto
qed

lemma QList_clear_sentinel:
  assumes "ql_holds s ps xs" "ps \<noteq> []" "ql_current s = ql_first s"
  shows "QList_clear s = Some (Inl Bad_Node)"
proof -
  let ?f = "ql_first s" and ?st = "ql_store s"
  obtain w ws where w: "ps = w # ws" using assms(2) by (cases ps) auto
  obtain z zs where z: "ps = zs @ [z]" using assms(2) by (cases ps rule: rev_cases) auto
  have r: "ring ?st (?f # ps)" using assms(1) by (simp add: ql_holds_def)
  have d: "?f \<notin> set ps" "?f \<noteq> 0" using r by (auto simp: ring_def)
  have nf: "?st ?f = Some \<lparr>ln_data = D_of ?st ?f, lLink = z, rLink = w\<rparr>"
  proof -
    have "L_of ?st ?f = z" "R_of ?st ?f = w" using ring_ends [OF r] by (simp add: z, simp add: w)
    then show ?thesis using ql_node [OF assms(1), of ?f] by simp
  qed
  obtain nw nz where n: "?st w = Some nw" "?st z = Some nz" using ql_node [OF assms(1)] w z by (metis in_set_conv_decomp list.set_intros)
  have "w \<in> set ps" "z \<in> set ps" by (simp add: w, simp add: z)
  then have ne: "w \<noteq> ?f" "z \<noteq> ?f" using d by auto
  have "\<exists>s'. QList_erase s = Inr s' \<and> ql_store s' ?f = None \<and> ql_first s' = ?f"
    using assms(3) d nf n ne
    by (cases "w = z") (auto simp: QList_erase_def skip_sentinel_def set_lLink_def set_rLink_def ln_get_def Let_def)
  then obtain s' where s': "QList_erase s = Inr s'" "ql_store s' ?f = None" "ql_first s' = ?f" by blast
  then have "QList_clear s' = Some (Inl Bad_Node)" by (subst QList_clear.simps) (simp add: QList_empty_def ln_get_def)
  then show ?thesis using s'(1) QList_empty_holds [OF assms(1)] assms(2) by (subst QList_clear.simps) simp
qed

section \<open>Traversal\<close>

lemma ring_next:
  assumes "ring st (f # a @ b)"
  shows "R_of st (last (f # a)) = hd (b @ [f])"
proof -
  obtain c z where c: "f # a = c @ [z]" by (metis list.distinct(1) rev_exhaust)
  have "f # a @ b = (f # a) @ b" by simp
  also have "\<dots> = c @ z # b" unfolding c by simp
  finally have e: "f # a @ b = c @ z # b" .
  have "ring st (c @ z # b)" using assms unfolding e .
  then have "ring st (z # b @ c)" using ring_swap [of st c "z # b"] by simp
  then have "R_of st z = hd (b @ c @ [z])" using ring_ends(2) [of st z "b @ c"] by simp
  moreover have "c @ [z] = f # a" "last (f # a) = z" unfolding c by simp_all
  ultimately show ?thesis by (cases b) simp_all
qed

lemma to_vector_loop_collects:
  assumes "ql_holds s (a @ b) xs" "ql_current s = last (ql_first s # a)" "vec_holds v ys" "length ys + length b \<le> 1073741824"
  shows "\<exists>v'. to_vector_loop any v s = Some (Inr (v', s\<lparr>ql_current := last (ql_first s # a @ b)\<rparr>))
    \<and> vec_holds v' (ys @ map (D_of (ql_store s)) b)"
  using assms
proof (induction b arbitrary: s a v ys)
  case Nil
  have r: "ring (ql_store s) (ql_first s # a @ [])" using Nil.prems(1) by (simp add: ql_holds_def)
  have z: "last (ql_first s # a) \<in> set (ql_first s # a)" by (rule last_in_set) simp
  then have "last (ql_first s # a) \<noteq> 0" using r by (metis ring_def append_Nil2)
  moreover have "ql_store s (last (ql_first s # a)) = Some \<lparr>ln_data = D_of (ql_store s) (last (ql_first s # a)),
      lLink = L_of (ql_store s) (last (ql_first s # a)), rLink = ql_first s\<rparr>"
    using ql_node [OF Nil.prems(1)] z ring_next [OF r] by simp
  ultimately have "hasNext s = Inr False" using Nil.prems(2) by (simp add: hasNext_def ln_get_def)
  then show ?case using Nil.prems by (subst to_vector_loop.simps) simp
next
  case (Cons p b)
  let ?st = "ql_store s" and ?z = "last (ql_first s # a)"
  have r: "ring ?st (ql_first s # a @ p # b)" using Cons.prems(1) by (simp add: ql_holds_def)
  have z: "?z \<in> set (ql_first s # a)" by (rule last_in_set) simp
  then have z0: "?z \<noteq> 0" "p \<noteq> ql_first s" using r by (auto simp: ring_def)
  have n: "?st ?z = Some \<lparr>ln_data = D_of ?st ?z, lLink = L_of ?st ?z, rLink = p\<rparr>"
    using ql_node [OF Cons.prems(1), of ?z] z ring_next [OF r] by simp
  have np: "?st p = Some \<lparr>ln_data = D_of ?st p, lLink = L_of ?st p, rLink = R_of ?st p\<rparr>" using ql_node [OF Cons.prems(1), of p] by simp
  have nx: "hasNext s = Inr True" "QList_next s = Inr (D_of ?st p, s\<lparr>ql_current := p\<rparr>)"
    using Cons.prems(2) n np z0 by (simp_all add: hasNext_def QList_next_def ln_get_def)
  obtain v1 where v1: "QVector_push_back True any (D_of ?st p) v = Inr v1" "vec_holds v1 (ys @ [D_of ?st p])"
    using QVector_push_back_holds [OF Cons.prems(3)] Cons.prems(4) by fastforce
  have "ql_holds (s\<lparr>ql_current := p\<rparr>) ((a @ [p]) @ b) xs" using Cons.prems(1) by (simp add: ql_holds_def)
  from Cons.IH [OF this _ v1(2)] Cons.prems(4) show ?case
    using nx v1(1) by (subst to_vector_loop.simps) simp
qed

section \<open>A list from its construction to its destruction\<close>

datatype 'a ql_op = Push_Back 'a | Push_Front 'a

fun ql_push :: "'a ql_op \<Rightarrow> 'a QList \<Rightarrow> list_error + 'a QList" where
  "ql_push (Push_Back x) s = QList_push_back True x s"
| "ql_push (Push_Front x) s = QList_push_front True x s"

fun ql_run :: "'a ql_op list \<Rightarrow> 'a QList \<Rightarrow> list_error + 'a QList" where
  "ql_run [] s = Inr s"
| "ql_run (p # ops) s = andthen (ql_push p s) (ql_run ops)"

fun list_push :: "'a ql_op \<Rightarrow> 'a list \<Rightarrow> 'a list" where
  "list_push (Push_Back x) xs = xs @ [x]"
| "list_push (Push_Front x) xs = x # xs"

lemma ql_run_holds:
  assumes "ql_holds s ps xs"
  shows "\<exists>s' ps'. ql_run ops s = Inr s' \<and> ql_holds s' ps' (fold list_push ops xs) \<and> ql_first s' = ql_first s \<and> ql_current s' = ql_current s"
  using assms
proof (induction ops arbitrary: s ps xs)
  case (Cons p ops)
  obtain s1 ps1 where s1: "ql_push p s = Inr s1" "ql_holds s1 ps1 (list_push p xs)" "ql_first s1 = ql_first s" "ql_current s1 = ql_current s"
    using QList_push_back_holds [OF Cons.prems] QList_push_front_holds [OF Cons.prems] by (cases p) (simp_all, metis+)
  with Cons.IH [OF s1(2)] show ?case by simp
qed auto

lemma QList_new_holds: "ql_holds (QList_new any) [] []" "ql_current (QList_new any) = ql_first (QList_new any)"
  by (simp_all add: QList_new_def ql_holds_def ring_def R_of_def L_of_def)

lemma QList_clear_cases:
  assumes "ql_holds s ps xs" "xs \<noteq> []"
  shows "ql_current s = ql_first s \<Longrightarrow> QList_clear s = Some (Inl Bad_Node)"
    and "ql_current s = 0 \<Longrightarrow> QList_clear s = None"
    and "ql_current s \<in> set ps \<Longrightarrow> \<exists>s'. QList_clear s = Some (Inr s') \<and> ql_holds s' [] [] \<and> ql_first s' = ql_first s"
proof -
  have ps: "ps \<noteq> []" using assms by (auto simp: ql_holds_def)
  show "ql_current s = ql_first s \<Longrightarrow> QList_clear s = Some (Inl Bad_Node)" by (rule QList_clear_sentinel [OF assms(1) ps])
  show "ql_current s = 0 \<Longrightarrow> QList_clear s = None" by (rule QList_clear_diverges [OF assms(1) ps])
  show "ql_current s \<in> set ps \<Longrightarrow> \<exists>s'. QList_clear s = Some (Inr s') \<and> ql_holds s' [] [] \<and> ql_first s' = ql_first s"
    using QList_clear_empties [OF assms(1)] by blast
qed

lemma to_vector_collects:
  assumes "ql_holds s ps xs" "length xs \<le> 2 ^ 30"
  shows "\<exists>v. to_vector any s = Some (Inr (v, s\<lparr>ql_current := last (ql_first s # ps)\<rparr>)) \<and> vec_holds v xs"
proof -
  have h: "ql_holds (QList_prepareTraversal s) ([] @ ps) xs" using assms(1) by (simp add: ql_holds_def QList_prepareTraversal_def)
  have n: "length ps = length xs" "map (D_of (ql_store s)) ps = xs" using assms(1) by (auto simp: ql_holds_def)
  obtain v where v: "QVector_new True any 100 = Inr v" "vec_holds v []" using QVector_new_holds [of 100 any] by (auto simp: MAX_INT32_def)
  have "\<exists>v'. to_vector_loop any v (QList_prepareTraversal s) = Some (Inr (v', (QList_prepareTraversal s)\<lparr>ql_current := last (ql_first (QList_prepareTraversal s) # [] @ ps)\<rparr>))
    \<and> vec_holds v' ([] @ map (D_of (ql_store (QList_prepareTraversal s))) ps)"
    by (rule to_vector_loop_collects [OF h _ v(2)]) (use n assms(2) in \<open>simp_all add: QList_prepareTraversal_def\<close>)
  then show ?thesis using v(1) n(2) by (simp add: to_vector_def QList_prepareTraversal_def)
qed

text \<open>
  C34. The life of a \<open>QList\<close>.  After any pushes on a new list, \<open>to_vector\<close> gives the elements in their order, and
  the destructor run after it frees every node and ends.  Run before any traversal, the destructor of the same list
  deletes the sentinel under the cursor and then reads it.
\<close>

theorem QList_life:
  assumes "ops \<noteq> []" "length ops \<le> 2 ^ 30"
  shows "\<exists>s v t. ql_run ops (QList_new any) = Inr s
    \<and> to_vector any s = Some (Inr (v, t)) \<and> vec_holds v (fold list_push ops [])
    \<and> (\<exists>u. QList_destroy t = Some (Inr u) \<and> ql_store u = (\<lambda>_. None))
    \<and> QList_destroy s = Some (Inl Bad_Node)"
proof -
  have len: "length (fold list_push ops xs) = length xs + length ops" for xs :: "'a list"
  proof (induction ops arbitrary: xs)
    case (Cons p ops)
    show ?case by (cases p) (simp_all add: Cons)
  qed simp
  let ?xs = "fold list_push ops []"
  obtain s ps where s: "ql_run ops (QList_new any) = Inr s" "ql_holds s ps ?xs" "ql_current s = ql_first s"
    using ql_run_holds [OF QList_new_holds(1), of ops] QList_new_holds(2) by metis
  have xs: "?xs \<noteq> []" "length ?xs \<le> 2 ^ 30" using len [of "[]"] assms by auto
  have ps: "ps \<noteq> []" using s(2) xs(1) by (auto simp: ql_holds_def)
  obtain v where v: "to_vector any s = Some (Inr (v, s\<lparr>ql_current := last (ql_first s # ps)\<rparr>))" "vec_holds v ?xs"
    using to_vector_collects [OF s(2) xs(2)] by blast
  let ?t = "s\<lparr>ql_current := last (ql_first s # ps)\<rparr>"
  have "ql_holds ?t ps ?xs" "ql_current ?t \<in> set ps" using s(2) ps by (auto simp: ql_holds_def)
  from QList_clear_cases(3) [OF this(1) xs(1) this(2)] obtain u where
    u: "QList_clear ?t = Some (Inr u)" "ql_holds u [] []" by blast
  have "dom ((ql_store u)(ql_first u := None)) = {}" and f: "\<exists>nd. ql_store u (ql_first u) = Some nd"
    using u(2) by (auto simp: ql_holds_def ring_def)
  then have "(ql_store u)(ql_first u := None) = (\<lambda>_. None)" by (simp only: dom_eq_empty_conv)
  then have "\<exists>u'. QList_destroy ?t = Some (Inr u') \<and> ql_store u' = (\<lambda>_. None)"
    using u(1) f by (auto simp: QList_destroy_def ln_get_def)
  moreover have "QList_destroy s = Some (Inl Bad_Node)"
    using QList_clear_cases(1) [OF s(2) xs(1) s(3)] by (simp add: QList_destroy_def)
  ultimately show ?thesis using s(1) v by blast
qed

theorem QList_life_witness:
  "\<exists>s v t. ql_run [Push_Back 2, Push_Front 1, Push_Back 3] (QList_new (0 :: int)) = Inr s
    \<and> to_vector 0 s = Some (Inr (v, t)) \<and> vec_holds v [1, 2, 3]
    \<and> (\<exists>u. QList_destroy t = Some (Inr u) \<and> ql_store u = (\<lambda>_. None))
    \<and> QList_destroy s = Some (Inl Bad_Node)"
  using QList_life [of "[Push_Back 2, Push_Front 1, Push_Back 3]" "0 :: int"] by simp

text \<open>
  When the last element is erased the cursor becomes \<open>NULL\<close> and stays so: a list that is filled again can neither be
  traversed from there nor destroyed, because \<open>erase\<close> does nothing and \<open>clear\<close> does not end.
\<close>

lemma QList_refilled_hangs:
  assumes "ql_holds s [p] [x]" "ql_current s = p"
  shows "\<exists>t u. QList_erase s = Inr t \<and> QList_push_back True y t = Inr u \<and> hasNext u = Inr False \<and> QList_destroy u = None"
proof -
  obtain t where t: "QList_erase s = Inr t" "ql_holds t [] []" "ql_current t = 0"
    using QList_erase_holds [of s "[]" p "[]" "[x]", OF _ assms(2)] assms(1) by auto
  obtain u where u: "QList_push_back True y t = Inr u" "ql_holds u [ql_fresh t] [y]" "ql_current u = 0"
    using QList_push_back_holds [OF t(2), of y] t(3) by auto
  then show ?thesis using t(1) QList_clear_cases(2) [OF u(2)] by (simp add: QList_destroy_def hasNext_def)
qed

end
