(* ===== verification/Allocators.thy ===== *)
theory Allocators
  imports Prelude
begin

text \<open>
  The allocators of \<^verbatim>\<open>src/common/qallocator.h\<close> and the lists of \<^verbatim>\<open>src/common/qlist.h\<close> that are built on one of them.
  A pointer into a block is the number of the block and an offset in it.  Whether the system provides memory
  is an argument of every operation that asks for it.
\<close>

section \<open>QAllocator\<close>

datatype alloc_error = Bad_Block | Freed_Memory

record QAllocator =
  mMaxBlockNum :: int
  mMaxBlockLen :: int
  mNowBlockNum :: int
  mNowBlockLen :: int
  mTotalLen :: int
  pBlockLibrary :: "bool list option"

definition QAllocator_new :: "int \<Rightarrow> int \<Rightarrow> QAllocator" where
  "QAllocator_new maxBlockNum maxBlockLen =
     \<lparr>mMaxBlockNum = maxBlockNum, mMaxBlockLen = maxBlockLen, mNowBlockNum = - 1, mNowBlockLen = maxBlockLen,
      mTotalLen = 0, pBlockLibrary = None\<rparr>"

text \<open>The part of \<open>alloc\<close> that moves on to the next block; the list says which blocks exist.\<close>

definition next_block :: "bool \<Rightarrow> int \<Rightarrow> bool list \<Rightarrow> QAllocator \<Rightarrow> QAllocator option" where
  "next_block mem_ok allocLen lib s =
     (if allocLen > mMaxBlockLen s then None
      else if mNowBlockNum s + 1 \<ge> mMaxBlockNum s then None
      else if \<not> aget lib (mNowBlockNum s + 1) \<and> \<not> mem_ok then None
      else Some (s\<lparr>mNowBlockNum := mNowBlockNum s + 1, mNowBlockLen := 0,
                   pBlockLibrary := Some (aset lib (mNowBlockNum s + 1) True)\<rparr>))"

definition QAllocator_alloc :: "bool \<Rightarrow> bool \<Rightarrow> int \<Rightarrow> QAllocator \<Rightarrow> alloc_error + (int \<times> int) option \<times> QAllocator" where
  "QAllocator_alloc index_ok mem_ok allocLen s =
     (if pBlockLibrary s = None \<and> \<not> index_ok then Inr (None, s)
      else
        let lib = (case pBlockLibrary s of None \<Rightarrow> replicate (nat (mMaxBlockNum s)) False | Some l \<Rightarrow> l);
            s = s\<lparr>pBlockLibrary := Some lib\<rparr>
        in case (if allocLen > mMaxBlockLen s - mNowBlockLen s then next_block mem_ok allocLen lib s else Some s) of
             None \<Rightarrow> Inr (None, s)
           | Some s \<Rightarrow>
               if mNowBlockNum s < 0 then Inl Bad_Block
               else Inr (Some (mNowBlockNum s, mNowBlockLen s),
                         s\<lparr>mNowBlockLen := mNowBlockLen s + allocLen, mTotalLen := mTotalLen s + allocLen\<rparr>))"

definition getBufferLength :: "QAllocator \<Rightarrow> int" where
  "getBufferLength s = mMaxBlockLen s * mNowBlockNum s + mNowBlockLen s"

definition resetAllocator :: "QAllocator \<Rightarrow> QAllocator" where
  "resetAllocator s = s\<lparr>mNowBlockNum := - 1, mNowBlockLen := mMaxBlockLen s, mTotalLen := 0\<rparr>"

definition freeAllocator :: "QAllocator \<Rightarrow> QAllocator" where
  "freeAllocator s = s\<lparr>mNowBlockNum := - 1, mNowBlockLen := mMaxBlockLen s, pBlockLibrary := None, mTotalLen := 0\<rparr>"

section \<open>QAllocatorRecycle\<close>

text \<open>
  Every chunk begins with a pointer, which links the recycled chunks.  \<open>rc_link\<close> is this field of the chunks;
  \<open>Gone\<close> is the index after \<open>freeAllocator\<close>, which frees it but keeps the pointer.
\<close>

datatype block_index = No_Index | Index "bool list" | Gone

record QAllocatorRecycle =
  rc_now_chunk :: int
  rc_max_chunk :: int
  rc_now_len :: int
  rc_max_len :: int
  rc_chunk_size :: int
  rc_now_block :: int
  rc_max_block :: int
  rc_recycled :: int
  rc_allocs :: int
  rc_index :: block_index
  rc_head :: "(int \<times> int) option"
  rc_link :: "int \<times> int \<Rightarrow> (int \<times> int) option"

definition PTR :: int where "PTR = 8"

definition QAllocatorRecycle_new :: QAllocatorRecycle where
  "QAllocatorRecycle_new = \<lparr>rc_now_chunk = 0, rc_max_chunk = 0, rc_now_len = 0, rc_max_len = 0, rc_chunk_size = 0, rc_now_block = 0,
     rc_max_block = 0, rc_recycled = 0, rc_allocs = 0, rc_index = No_Index, rc_head = None, rc_link = (\<lambda>_. None)\<rparr>"

definition rc_init :: "int \<Rightarrow> int \<Rightarrow> int \<Rightarrow> QAllocatorRecycle \<Rightarrow> int \<times> QAllocatorRecycle" where
  "rc_init lChunkSize lMaxBlockNum lPerAllocChunkNum s =
     (if lChunkSize \<le> 0 \<or> lMaxBlockNum \<le> 0 \<or> lPerAllocChunkNum \<le> 0 then (- 1, s)
      else (0, s\<lparr>rc_chunk_size := lChunkSize + PTR, rc_max_block := lMaxBlockNum, rc_now_block := - 1,
                 rc_now_chunk := lPerAllocChunkNum, rc_max_chunk := lPerAllocChunkNum, rc_now_len := 0,
                 rc_max_len := lPerAllocChunkNum * (lChunkSize + PTR), rc_index := No_Index, rc_head := None,
                 rc_recycled := 0, rc_allocs := 0\<rparr>))"

definition rc_next_block :: "bool \<Rightarrow> bool list \<Rightarrow> QAllocatorRecycle \<Rightarrow> QAllocatorRecycle option" where
  "rc_next_block mem_ok lib s =
     (if rc_now_block s + 1 \<ge> rc_max_block s then None
      else if \<not> aget lib (rc_now_block s + 1) \<and> \<not> mem_ok then None
      else Some (s\<lparr>rc_now_block := rc_now_block s + 1, rc_index := Index (aset lib (rc_now_block s + 1) True),
                   rc_now_len := 0, rc_now_chunk := 0\<rparr>))"

definition rc_fresh :: "bool \<Rightarrow> bool list \<Rightarrow> QAllocatorRecycle \<Rightarrow> (int \<times> int) option \<times> QAllocatorRecycle" where
  "rc_fresh mem_ok lib s =
     (let s = s\<lparr>rc_index := Index lib\<rparr> in
      case (if rc_now_chunk s = rc_max_chunk s then rc_next_block mem_ok lib s else Some s) of
        None \<Rightarrow> (None, s)
      | Some s \<Rightarrow> (Some (rc_now_block s, rc_now_len s + PTR),
                   s\<lparr>rc_now_len := rc_now_len s + rc_chunk_size s, rc_now_chunk := rc_now_chunk s + 1, rc_allocs := rc_allocs s + 1\<rparr>))"

definition rc_alloc :: "bool \<Rightarrow> bool \<Rightarrow> QAllocatorRecycle \<Rightarrow> alloc_error + (int \<times> int) option \<times> QAllocatorRecycle" where
  "rc_alloc index_ok mem_ok s =
     (case rc_head s of
        Some (b, off) \<Rightarrow> Inr (Some (b, off + PTR), s\<lparr>rc_head := rc_link s (b, off), rc_recycled := rc_recycled s - 1\<rparr>)
      | None \<Rightarrow>
          (case rc_index s of
             Gone \<Rightarrow> Inl Freed_Memory
           | No_Index \<Rightarrow> if index_ok then Inr (rc_fresh mem_ok (replicate (nat (rc_max_block s)) False) s) else Inr (None, s)
           | Index lib \<Rightarrow> Inr (rc_fresh mem_ok lib s)))"

definition rc_free :: "int \<times> int \<Rightarrow> QAllocatorRecycle \<Rightarrow> QAllocatorRecycle" where
  "rc_free buffer s =
     (let p = (fst buffer, snd buffer - PTR) in
      s\<lparr>rc_link := (rc_link s)(p := rc_head s), rc_head := Some p, rc_recycled := rc_recycled s + 1\<rparr>)"

definition rc_reset :: "QAllocatorRecycle \<Rightarrow> QAllocatorRecycle" where
  "rc_reset s = s\<lparr>rc_head := None, rc_now_chunk := rc_max_chunk s, rc_now_len := 0, rc_now_block := - 1, rc_recycled := 0, rc_allocs := 0\<rparr>"

definition rc_freeAllocator :: "QAllocatorRecycle \<Rightarrow> QAllocatorRecycle" where
  "rc_freeAllocator s =
     (rc_reset s)\<lparr>rc_index := (case rc_index s of No_Index \<Rightarrow> No_Index | _ \<Rightarrow> Gone)\<rparr>"

section \<open>QForwardList\<close>

text \<open>The nodes live in chunks; \<open>fl_cells\<close> holds the data and the link of the node at a pointer.\<close>

record 'a QForwardList =
  fl_alloc :: QAllocatorRecycle
  fl_head :: "(int \<times> int) option"
  fl_size :: int
  fl_cells :: "int \<times> int \<Rightarrow> 'a \<times> (int \<times> int) option"

definition BUFSIZ_1M :: int where "BUFSIZ_1M = 1048576"

definition QForwardList_init :: "int \<Rightarrow> int \<Rightarrow> 'a QForwardList \<Rightarrow> int \<times> 'a QForwardList" where
  "QForwardList_init node_size max_size s =
     (case rc_init node_size max_size (BUFSIZ_1M div node_size) (fl_alloc s) of (r, a) \<Rightarrow> (r, s\<lparr>fl_alloc := a\<rparr>))"

definition QForwardList_get :: "'a QForwardList \<Rightarrow> 'a option \<times> 'a QForwardList" where
  "QForwardList_get s =
     (case fl_head s of
        None \<Rightarrow> (None, s)
      | Some p \<Rightarrow> (case fl_cells s p of (d, n) \<Rightarrow> (Some d, s\<lparr>fl_head := n, fl_size := fl_size s - 1\<rparr>)))"

definition QForwardList_add :: "bool \<Rightarrow> bool \<Rightarrow> 'a \<Rightarrow> 'a QForwardList \<Rightarrow> alloc_error + int \<times> 'a QForwardList" where
  "QForwardList_add index_ok mem_ok d s =
     (case rc_alloc index_ok mem_ok (fl_alloc s) of
        Inl e \<Rightarrow> Inl e
      | Inr (None, a) \<Rightarrow> Inr (- 1, s\<lparr>fl_alloc := a\<rparr>)
      | Inr (Some p, a) \<Rightarrow> Inr (0, s\<lparr>fl_alloc := a, fl_cells := (fl_cells s)(p := (d, fl_head s)), fl_size := fl_size s + 1, fl_head := Some p\<rparr>))"

section \<open>What an allocator promises\<close>

definition region :: "(int \<times> int) \<times> int \<Rightarrow> (int \<times> int) set" where
  "region x = {(fst (fst x), i) | i. snd (fst x) \<le> i \<and> i < snd (fst x) + snd x}"

datatype 'r alloc_op = Alloc 'r | Free "int \<times> int"

text \<open>A client that only frees what it holds; \<open>L\<close> is what it holds, with the lengths.\<close>

fun client :: "('r \<Rightarrow> 's \<Rightarrow> 'e + (int \<times> int) option \<times> 's) \<Rightarrow> ('r \<Rightarrow> int) \<Rightarrow> (int \<times> int \<Rightarrow> 's \<Rightarrow> 's) \<Rightarrow>
    'r alloc_op list \<Rightarrow> 's \<Rightarrow> ((int \<times> int) \<times> int) set \<Rightarrow> 'e + 's \<times> ((int \<times> int) \<times> int) set" where
  "client al len fr [] s L = Inr (s, L)"
| "client al len fr (Alloc r # ops) s L =
     (case al r s of
        Inl e \<Rightarrow> Inl e
      | Inr (None, s') \<Rightarrow> client al len fr ops s' L
      | Inr (Some p, s') \<Rightarrow> client al len fr ops s' (insert (p, len r) L))"
| "client al len fr (Free p # ops) s L =
     (if p \<in> fst ` L then client al len fr ops (fr p s) {x \<in> L. fst x \<noteq> p} else client al len fr ops s L)"

locale allocator =
  fixes ok :: "'s \<Rightarrow> ((int \<times> int) \<times> int) set \<Rightarrow> bool"
    and al :: "'r \<Rightarrow> 's \<Rightarrow> 'e + (int \<times> int) option \<times> 's"
    and len :: "'r \<Rightarrow> int"
    and fr :: "int \<times> int \<Rightarrow> 's \<Rightarrow> 's"
    and may_free :: bool
    and req :: "'r \<Rightarrow> bool"
    and backed :: "'s \<Rightarrow> int \<times> int \<Rightarrow> bool"
  assumes no_error: "ok s L \<Longrightarrow> req r \<Longrightarrow> \<exists>x. al r s = Inr x"
    and refused: "ok s L \<Longrightarrow> req r \<Longrightarrow> al r s = Inr (None, s') \<Longrightarrow> ok s' L"
    and served: "ok s L \<Longrightarrow> req r \<Longrightarrow> al r s = Inr (Some p, s') \<Longrightarrow> ok s' (insert (p, len r) L)"
    and freed: "ok s L \<Longrightarrow> may_free \<Longrightarrow> p \<in> fst ` L \<Longrightarrow> ok (fr p s) {x \<in> L. fst x \<noteq> p}"
    and apart: "ok s L \<Longrightarrow> x \<in> L \<Longrightarrow> y \<in> L \<Longrightarrow> x \<noteq> y \<Longrightarrow> region x \<inter> region y = {}"
    and inside: "ok s L \<Longrightarrow> x \<in> L \<Longrightarrow> c \<in> region x \<Longrightarrow> backed s c"
begin

lemma client_ok:
  assumes "ok s L" "\<And>r. Alloc r \<in> set ops \<Longrightarrow> req r" "\<And>p. Free p \<in> set ops \<Longrightarrow> may_free"
  shows "\<exists>s' L'. client al len fr ops s L = Inr (s', L') \<and> ok s' L'"
  using assms
proof (induction ops arbitrary: s L)
  case (Cons op ops)
  have next_ok: "\<exists>s' L'. client al len fr ops s L = Inr (s', L') \<and> ok s' L'" if "ok s L" for s L
    by (rule Cons.IH [OF that]) (use Cons.prems(2,3) in auto)
  show ?case
  proof (cases op)
    case (Alloc r)
    then have r: "req r" using Cons.prems(2) by simp
    obtain q s' where al: "al r s = Inr (q, s')" using no_error [OF Cons.prems(1) r] by auto
    show ?thesis
    proof (cases q)
      case None
      with al refused [OF Cons.prems(1) r] have "ok s' L" by simp
      from next_ok [OF this] show ?thesis using Alloc al None by simp
    next
      case (Some p)
      with al served [OF Cons.prems(1) r] have "ok s' (insert (p, len r) L)" by simp
      from next_ok [OF this] show ?thesis using Alloc al Some by simp
    qed
  next
    case (Free p)
    then have m: may_free using Cons.prems(3) [of p] by simp
    show ?thesis
    proof (cases "p \<in> fst ` L")
      case True
      from next_ok [OF freed [OF Cons.prems(1) m True]] show ?thesis using Free True by simp
    next
      case False
      then show ?thesis using Free next_ok [OF Cons.prems(1)] by simp
    qed
  qed
qed auto

lemma client_safe:
  assumes "ok s {}" "\<And>r. Alloc r \<in> set ops \<Longrightarrow> req r" "\<And>p. Free p \<in> set ops \<Longrightarrow> may_free"
  shows "\<exists>s' L. client al len fr ops s {} = Inr (s', L) \<and>
    (\<forall>x \<in> L. (\<forall>c \<in> region x. backed s' c) \<and> (\<forall>y \<in> L. x \<noteq> y \<longrightarrow> region x \<inter> region y = {}))"
proof -
  obtain s' L where r: "client al len fr ops s {} = Inr (s', L)" and k: "ok s' L"
    using client_ok [OF assms(1), of ops] assms(2,3) by auto
  have "\<forall>x \<in> L. (\<forall>c \<in> region x. backed s' c) \<and> (\<forall>y \<in> L. x \<noteq> y \<longrightarrow> region x \<inter> region y = {})"
    using inside [OF k] apart [OF k] by simp
  with r show ?thesis by blast
qed

end

section \<open>Chunks are apart\<close>

definition chunk_addr :: "int \<Rightarrow> int \<Rightarrow> int \<Rightarrow> int \<times> int" where
  "chunk_addr mc cs k = (k div mc, k mod mc * cs)"

definition payload :: "int \<times> int \<Rightarrow> int \<times> int" where
  "payload p = (fst p, snd p + PTR)"

definition header :: "int \<times> int \<Rightarrow> int \<times> int" where
  "header p = (fst p, snd p - PTR)"

lemma header_payload [simp]: "header (payload p) = p" "payload (header p) = p"
  by (simp_all add: header_def payload_def)

lemma payload_eq [simp]: "payload p = payload q \<longleftrightarrow> p = q"
  by (metis header_payload(1))

lemma chunk_addr_apart:
  assumes "0 < cs" "chunk_addr mc cs j \<noteq> chunk_addr mc cs k"
  shows "fst (chunk_addr mc cs j) \<noteq> fst (chunk_addr mc cs k) \<or> snd (chunk_addr mc cs j) + cs \<le> snd (chunk_addr mc cs k)
    \<or> snd (chunk_addr mc cs k) + cs \<le> snd (chunk_addr mc cs j)"
proof (cases "j div mc = k div mc")
  case True
  with assms have "j mod mc \<noteq> k mod mc" by (auto simp: chunk_addr_def)
  then consider "j mod mc + 1 \<le> k mod mc" | "k mod mc + 1 \<le> j mod mc" by linarith
  then show ?thesis
  proof cases
    case 1
    then have "(j mod mc + 1) * cs \<le> k mod mc * cs" using assms(1) by (intro mult_right_mono) auto
    then show ?thesis by (simp add: chunk_addr_def algebra_simps)
  next
    case 2
    then have "(k mod mc + 1) * cs \<le> j mod mc * cs" using assms(1) by (intro mult_right_mono) auto
    then show ?thesis by (simp add: chunk_addr_def algebra_simps)
  qed
qed (simp add: chunk_addr_def)

lemma chunk_addr_inj: "0 < mc \<Longrightarrow> 0 < cs \<Longrightarrow> chunk_addr mc cs j = chunk_addr mc cs k \<longleftrightarrow> j = k"
  by (auto simp: chunk_addr_def) (metis div_mod_decomp_int)

lemma chunk_addr_next: "0 \<le> c \<Longrightarrow> c < mc \<Longrightarrow> chunk_addr mc cs (b * mc + c) = (b, c * cs)"
  by (simp add: chunk_addr_def)

text \<open>The recycled chunks form a list through their first words.\<close>

fun links :: "('p \<Rightarrow> 'p option) \<Rightarrow> 'p option \<Rightarrow> 'p list \<Rightarrow> bool" where
  "links l h [] \<longleftrightarrow> h = None"
| "links l h (p # ps) \<longleftrightarrow> h = Some p \<and> links l (l p) ps"

lemma links_upd [simp]: "p \<notin> set ps \<Longrightarrow> links (l(p := x)) h ps = links l h ps"
  by (induction ps arbitrary: h) auto

section \<open>The recycling allocator keeps chunks apart\<close>

definition rc_ready :: "QAllocatorRecycle \<Rightarrow> bool" where
  "rc_ready s \<longleftrightarrow> PTR < rc_chunk_size s \<and> 0 < rc_max_chunk s \<and> - 1 \<le> rc_now_block s \<and> rc_now_block s < rc_max_block s
     \<and> 0 \<le> rc_now_chunk s \<and> rc_now_chunk s \<le> rc_max_chunk s
     \<and> rc_allocs s = rc_now_block s * rc_max_chunk s + rc_now_chunk s \<and> 0 \<le> rc_allocs s
     \<and> (0 \<le> rc_now_block s \<longrightarrow> rc_now_len s = rc_now_chunk s * rc_chunk_size s)
     \<and> rc_max_len s = rc_max_chunk s * rc_chunk_size s
     \<and> (case rc_index s of No_Index \<Rightarrow> rc_now_block s = - 1
        | Index lib \<Rightarrow> alen lib = rc_max_block s \<and> (\<forall>b. 0 \<le> b \<and> b \<le> rc_now_block s \<longrightarrow> aget lib b)
        | Gone \<Rightarrow> False)"

definition rc_ok :: "QAllocatorRecycle \<Rightarrow> ((int \<times> int) \<times> int) set \<Rightarrow> bool" where
  "rc_ok s L \<longleftrightarrow> rc_ready s \<and> (\<forall>x \<in> L. snd x = rc_chunk_size s - PTR)
     \<and> (\<exists>F. links (rc_link s) (rc_head s) F \<and> distinct F \<and> rc_recycled s = int (length F)
          \<and> set F \<inter> (\<lambda>x. header (fst x)) ` L = {}
          \<and> set F \<union> (\<lambda>x. header (fst x)) ` L = chunk_addr (rc_max_chunk s) (rc_chunk_size s) ` {0..<rc_allocs s})"

text \<open>The octets of the blocks that exist.\<close>

definition rc_backed :: "QAllocatorRecycle \<Rightarrow> int \<times> int \<Rightarrow> bool" where
  "rc_backed s c \<longleftrightarrow> 0 \<le> fst c \<and> 0 \<le> snd c \<and> snd c < rc_max_len s \<and>
     (\<exists>lib. rc_index s = Index lib \<and> fst c < alen lib \<and> aget lib (fst c))"

lemma rc_ready_frame [simp]:
  "rc_ready (s\<lparr>rc_head := h, rc_recycled := r\<rparr>) = rc_ready s" "rc_ready (s\<lparr>rc_link := l\<rparr>) = rc_ready s"
  by (cases "rc_index s"; simp add: rc_ready_def)+

lemma rc_ok_init: "rc_init cs mb pc s0 = (0, s) \<Longrightarrow> rc_ok s {}"
  by (auto simp: rc_init_def rc_ok_def rc_ready_def PTR_def split: if_splits intro!: exI [of _ "[]"])

lemma rc_ok_chunk:
  assumes "rc_ok s L" "x \<in> L"
  obtains k where "fst x = payload (chunk_addr (rc_max_chunk s) (rc_chunk_size s) k)" "snd x = rc_chunk_size s - PTR"
    "0 \<le> k" "k < rc_allocs s"
proof -
  have "header (fst x) \<in> chunk_addr (rc_max_chunk s) (rc_chunk_size s) ` {0..<rc_allocs s}"
    using assms by (auto simp: rc_ok_def)
  then obtain k where "header (fst x) = chunk_addr (rc_max_chunk s) (rc_chunk_size s) k" "0 \<le> k" "k < rc_allocs s" by auto
  with that assms show thesis by (metis header_payload(2) rc_ok_def)
qed

lemma rc_fresh_ready:
  assumes "rc_ready s" "alen lib = rc_max_block s" "\<forall>b. 0 \<le> b \<and> b \<le> rc_now_block s \<longrightarrow> aget lib b"
  shows "case rc_fresh m lib s of
      (None, s') \<Rightarrow> rc_ready s' \<and> rc_allocs s' = rc_allocs s
    | (Some p, s') \<Rightarrow> rc_ready s' \<and> p = payload (chunk_addr (rc_max_chunk s) (rc_chunk_size s) (rc_allocs s)) \<and> rc_allocs s' = rc_allocs s + 1"
proof (cases "rc_now_chunk s = rc_max_chunk s")
  case True
  have b: "\<forall>b. 0 \<le> b \<and> b \<le> rc_now_block s + 1 \<longrightarrow> aget (aset lib (rc_now_block s + 1) True) b"
    if "rc_now_block s + 1 < rc_max_block s" using that assms(1,2,3) by (auto simp: aget_aset in_range_def rc_ready_def)
  have a: "rc_allocs s = (rc_now_block s + 1) * rc_max_chunk s + 0" using True assms(1) by (simp add: rc_ready_def algebra_simps)
  have "chunk_addr (rc_max_chunk s) (rc_chunk_size s) (rc_allocs s) = (rc_now_block s + 1, 0)"
    unfolding a by (subst chunk_addr_next) (use assms(1) in \<open>auto simp: rc_ready_def\<close>)
  with True b assms a show ?thesis
    by (auto simp: rc_fresh_def rc_next_block_def rc_ready_def Let_def payload_def algebra_simps)
next
  case False
  then have "chunk_addr (rc_max_chunk s) (rc_chunk_size s) (rc_allocs s) = (rc_now_block s, rc_now_chunk s * rc_chunk_size s)"
    using assms(1) by (simp add: rc_ready_def chunk_addr_next)
  moreover have "0 \<le> rc_now_block s"
  proof (rule ccontr)
    assume "\<not> 0 \<le> rc_now_block s"
    then have "rc_now_block s = - 1" using assms(1) by (simp add: rc_ready_def)
    with False assms(1) show False by (simp add: rc_ready_def)
  qed
  ultimately show ?thesis using False assms by (simp add: rc_fresh_def rc_ready_def Let_def payload_def algebra_simps)
qed

lemma rc_fresh_frame:
  "rc_fresh m lib s = (q, s') \<Longrightarrow> rc_link s' = rc_link s \<and> rc_head s' = rc_head s \<and> rc_recycled s' = rc_recycled s
     \<and> rc_chunk_size s' = rc_chunk_size s \<and> rc_max_chunk s' = rc_max_chunk s \<and> rc_max_block s' = rc_max_block s"
  by (auto simp: rc_fresh_def rc_next_block_def Let_def split: if_splits)

lemma chunks_Suc: "0 \<le> n \<Longrightarrow> chunk_addr a b ` {0..<n + 1} = insert (chunk_addr a b n) (chunk_addr a b ` {0..<n})"
proof -
  assume "0 \<le> n"
  then have "{0..<n + 1} = insert n {0..<n}" by auto
  then show ?thesis by simp
qed

text \<open>A chunk that is not on the recycled list comes from the end of what is in use.\<close>

lemma rc_fresh_ok:
  assumes "rc_ok s L" "alen lib = rc_max_block s" "\<forall>b. 0 \<le> b \<and> b \<le> rc_now_block s \<longrightarrow> aget lib b"
  shows "case rc_fresh m lib s of (None, s') \<Rightarrow> rc_ok s' L | (Some p, s') \<Rightarrow> rc_ok s' (insert (p, rc_chunk_size s' - PTR) L)"
proof -
  have rdy: "rc_ready s" using assms(1) by (simp add: rc_ok_def)
  obtain q s' where q: "rc_fresh m lib s = (q, s')" by (metis surj_pair)
  note step = rc_fresh_ready [OF rdy assms(2,3), of m, unfolded q] and fr = rc_fresh_frame [OF q]
  let ?a = "chunk_addr (rc_max_chunk s) (rc_chunk_size s)" and ?h = "\<lambda>x. header (fst x)"
  from assms(1) obtain F where F: "links (rc_link s) (rc_head s) F" "distinct F" "rc_recycled s = int (length F)"
    "set F \<inter> ?h ` L = {}" "set F \<union> ?h ` L = ?a ` {0..<rc_allocs s}" by (auto simp: rc_ok_def)
  have L: "\<forall>x \<in> L. snd x = rc_chunk_size s - PTR" using assms(1) by (simp add: rc_ok_def)
  show ?thesis
  proof (cases q)
    case None
    then have "rc_ok s' L" unfolding rc_ok_def using step fr F L by (intro conjI exI [of _ F]) simp_all
    then show ?thesis using q None by simp
  next
    case (Some p)
    have "?a (rc_allocs s) \<notin> ?a ` {0..<rc_allocs s}" using rdy by (auto simp: chunk_addr_inj rc_ready_def PTR_def)
    moreover have "0 \<le> rc_allocs s" using rdy by (simp add: rc_ready_def)
    ultimately have "rc_ok s' (insert (p, rc_chunk_size s' - PTR) L)"
      unfolding rc_ok_def using step fr F L Some by (intro conjI exI [of _ F]) (auto simp: chunks_Suc)
    then show ?thesis using q Some by simp
  qed
qed

lemma rc_alloc_ok:
  assumes "rc_ok s L"
  shows "\<exists>q s'. rc_alloc i m s = Inr (q, s') \<and> (case q of None \<Rightarrow> rc_ok s' L | Some p \<Rightarrow> rc_ok s' (insert (p, rc_chunk_size s - PTR) L))"
proof (cases "rc_head s")
  case None
  have rdy: "rc_ready s" using assms by (simp add: rc_ok_def)
  have *: "\<exists>q s'. rc_fresh m lib s = (q, s') \<and> (case q of None \<Rightarrow> rc_ok s' L | Some p \<Rightarrow> rc_ok s' (insert (p, rc_chunk_size s - PTR) L))"
    if "alen lib = rc_max_block s" "\<forall>b. 0 \<le> b \<and> b \<le> rc_now_block s \<longrightarrow> aget lib b" for lib
    using rc_fresh_ok [OF assms that, of m] rc_fresh_frame [of m lib s] by (cases "rc_fresh m lib s") (auto split: option.splits)
  show ?thesis
  proof (cases "rc_index s")
    case No_Index
    let ?lib = "replicate (nat (rc_max_block s)) False"
    have "alen ?lib = rc_max_block s" "\<forall>b. 0 \<le> b \<and> b \<le> rc_now_block s \<longrightarrow> aget ?lib b"
      using No_Index rdy by (auto simp: rc_ready_def alen_def)
    from * [OF this] None No_Index assms show ?thesis by (auto simp: rc_alloc_def)
  next
    case (Index lib)
    with rdy None show ?thesis using * [of lib] by (auto simp: rc_alloc_def rc_ready_def)
  next
    case Gone
    with rdy show ?thesis by (simp add: rc_ready_def)
  qed
next
  case (Some p)
  let ?h = "\<lambda>x. header (fst x)"
  from assms Some obtain G where G: "links (rc_link s) (Some p) G" "distinct G" "rc_recycled s = int (length G)"
    "set G \<inter> ?h ` L = {}" "set G \<union> ?h ` L = chunk_addr (rc_max_chunk s) (rc_chunk_size s) ` {0..<rc_allocs s}"
    by (auto simp: rc_ok_def)
  then obtain F where "G = p # F" by (cases G) auto
  note F = G [unfolded this]
  let ?s = "s\<lparr>rc_head := rc_link s p, rc_recycled := rc_recycled s - 1\<rparr>"
  have "rc_ok ?s (insert (payload p, rc_chunk_size s - PTR) L)"
    unfolding rc_ok_def
  proof (intro conjI exI [of _ F])
    show "rc_ready ?s" using assms by (simp add: rc_ok_def)
    show "\<forall>x \<in> insert (payload p, rc_chunk_size s - PTR) L. snd x = rc_chunk_size ?s - PTR" using assms by (simp add: rc_ok_def)
  qed (use F in auto)
  then show ?thesis using Some by (cases p) (simp add: rc_alloc_def payload_def)
qed

lemma rc_free_ok:
  assumes "rc_ok s L" "p \<in> fst ` L"
  shows "rc_ok (rc_free p s) {x \<in> L. fst x \<noteq> p}"
proof -
  let ?h = "\<lambda>x. header (fst x)"
  from assms(1) obtain F where F: "links (rc_link s) (rc_head s) F" "distinct F" "rc_recycled s = int (length F)"
    "set F \<inter> ?h ` L = {}" "set F \<union> ?h ` L = chunk_addr (rc_max_chunk s) (rc_chunk_size s) ` {0..<rc_allocs s}"
    by (auto simp: rc_ok_def)
  have n: "header p \<notin> set F" using F(4) assms(2) by auto
  have f: "rc_free p s = s\<lparr>rc_link := (rc_link s)(header p := rc_head s), rc_head := Some (header p), rc_recycled := rc_recycled s + 1\<rparr>"
    by (simp add: rc_free_def header_def Let_def)
  have L: "?h ` {x \<in> L. fst x \<noteq> p} = ?h ` L - {header p}"
    by (auto simp: image_iff) (metis header_payload(2))
  show ?thesis
    unfolding rc_ok_def
  proof (intro conjI exI [of _ "header p # F"])
    show "rc_ready (rc_free p s)" using assms(1) by (simp add: f rc_ok_def)
  qed (use F n L assms in \<open>auto simp: f rc_ok_def\<close>)
qed

definition rc_request :: "bool \<times> bool \<Rightarrow> QAllocatorRecycle \<Rightarrow> alloc_error + (int \<times> int) option \<times> QAllocatorRecycle" where
  "rc_request r = rc_alloc (fst r) (snd r)"

definition rc_ok_at :: "int \<Rightarrow> QAllocatorRecycle \<Rightarrow> ((int \<times> int) \<times> int) set \<Rightarrow> bool" where
  "rc_ok_at n s L \<longleftrightarrow> rc_ok s L \<and> rc_chunk_size s = n + PTR"

lemma rc_alloc_chunk_size: "rc_alloc i m s = Inr (q, s') \<Longrightarrow> rc_chunk_size s' = rc_chunk_size s"
  by (auto simp: rc_alloc_def dest!: rc_fresh_frame split: option.splits block_index.splits if_splits)

interpretation recycle: allocator "rc_ok_at n" rc_request "\<lambda>_. n" rc_free True "\<lambda>_. True" rc_backed for n
proof
  fix s L and r :: "bool \<times> bool"
  assume k: "rc_ok_at n s L"
  then obtain q s1 where a: "rc_request r s = Inr (q, s1)" and
    q: "case q of None \<Rightarrow> rc_ok s1 L | Some p \<Rightarrow> rc_ok s1 (insert (p, rc_chunk_size s - PTR) L)"
    using rc_alloc_ok [of s L "fst r" "snd r"] by (auto simp: rc_ok_at_def rc_request_def)
  note c = rc_alloc_chunk_size [OF a [unfolded rc_request_def]]
  show "\<exists>x. rc_request r s = Inr x" using a by simp
  show "rc_ok_at n s' L" if "rc_request r s = Inr (None, s')" for s' using that a q c k by (simp add: rc_ok_at_def)
  show "rc_ok_at n s' (insert (p, n) L)" if "rc_request r s = Inr (Some p, s')" for p s'
    using that a q c k by (simp add: rc_ok_at_def)
next
  fix s L p assume "rc_ok_at n s L" "p \<in> fst ` L"
  then show "rc_ok_at n (rc_free p s) {x \<in> L. fst x \<noteq> p}"
    using rc_free_ok by (simp add: rc_ok_at_def) (simp add: rc_free_def Let_def)
next
  fix s L x y assume k: "rc_ok_at n s L" and x: "x \<in> L" and y: "y \<in> L" and xy: "x \<noteq> y"
  let ?a = "chunk_addr (rc_max_chunk s) (rc_chunk_size s)"
  have ok: "rc_ok s L" using k by (simp add: rc_ok_at_def)
  obtain i where i: "fst x = payload (?a i)" "snd x = rc_chunk_size s - PTR" using rc_ok_chunk [OF ok x] by metis
  obtain j where j: "fst y = payload (?a j)" "snd y = rc_chunk_size s - PTR" using rc_ok_chunk [OF ok y] by metis
  have "?a i \<noteq> ?a j" using i j xy by (metis prod_eqI)
  from chunk_addr_apart [OF _ this] ok show "region x \<inter> region y = {}"
    using i j by (auto simp: region_def payload_def rc_ok_def rc_ready_def PTR_def)
next
  fix s L x c assume k: "rc_ok_at n s L" and x: "x \<in> L" and c: "c \<in> region x"
  have ok: "rc_ok s L" using k by (simp add: rc_ok_at_def)
  let ?mc = "rc_max_chunk s" and ?cs = "rc_chunk_size s"
  obtain i where i: "fst x = payload (chunk_addr ?mc ?cs i)" "snd x = ?cs - PTR" "0 \<le> i" "i < rc_allocs s"
    using rc_ok_chunk [OF ok x] by metis
  have r: "rc_ready s" using ok by (simp add: rc_ok_def)
  have mc: "0 < ?mc" using r by (simp add: rc_ready_def)
  then have "i mod ?mc + 1 \<le> ?mc" using pos_mod_bound [of ?mc i] by linarith
  then have "(i mod ?mc + 1) * ?cs \<le> ?mc * ?cs" using r by (intro mult_right_mono) (auto simp: rc_ready_def PTR_def)
  moreover have "0 \<le> i mod ?mc * ?cs" using mc r by (intro mult_nonneg_nonneg) (auto simp: rc_ready_def PTR_def)
  moreover have "0 \<le> i div ?mc" using mc i(3) by (simp add: pos_imp_zdiv_nonneg_iff)
  moreover have "i div ?mc \<le> rc_now_block s"
  proof -
    have "i div ?mc * ?mc \<le> i" using mc by (metis pos_mod_sign le_add_same_cancel1 div_mult_mod_eq)
    also have "i < (rc_now_block s + 1) * ?mc" using r i(4) by (simp add: rc_ready_def distrib_right)
    finally show ?thesis using mc by (simp add: mult_less_cancel_right)
  qed
  moreover obtain lib where "rc_index s = Index lib" "alen lib = rc_max_block s" "\<forall>b. 0 \<le> b \<and> b \<le> rc_now_block s \<longrightarrow> aget lib b"
    using r calculation(3,4) by (cases "rc_index s") (auto simp: rc_ready_def)
  moreover have "rc_max_len s = ?mc * ?cs" "rc_now_block s < rc_max_block s" using r by (simp_all add: rc_ready_def)
  moreover have "fst c = i div ?mc" "i mod ?mc * ?cs + PTR \<le> snd c" "snd c < i mod ?mc * ?cs + ?cs"
    using c i(1,2) by (auto simp: region_def payload_def chunk_addr_def)
  ultimately show "rc_backed s c" by (simp add: rc_backed_def PTR_def distrib_right)
qed



text \<open>
  \<open>freeAllocator\<close> frees the index but keeps the pointer to it, so that the next request that is not served from
  the recycled chunks reads freed memory.
\<close>

lemma rc_freeAllocator_dangles:
  "rc_index s \<noteq> No_Index \<Longrightarrow> rc_alloc i m (rc_freeAllocator s) = Inl Freed_Memory"
  by (cases "rc_index s") (simp_all add: rc_alloc_def rc_freeAllocator_def rc_reset_def)

text \<open>After \<open>resetAllocator\<close> the allocator starts again, with the blocks it has.\<close>

lemma rc_reset_ok:
  assumes "rc_ok s L"
  shows "rc_ok (rc_reset s) {}"
  using assms by (cases "rc_index s") (auto simp: rc_ok_def rc_ready_def rc_reset_def intro!: exI [of _ "[]"])

section \<open>The plain allocator\<close>

definition qa_ready :: "QAllocator \<Rightarrow> bool" where
  "qa_ready s \<longleftrightarrow> - 1 \<le> mNowBlockNum s \<and> 0 \<le> mMaxBlockNum s \<and> mNowBlockNum s < max 0 (mMaxBlockNum s)
     \<and> 0 \<le> mNowBlockLen s \<and> mNowBlockLen s \<le> mMaxBlockLen s \<and> (mNowBlockNum s = - 1 \<longrightarrow> mNowBlockLen s = mMaxBlockLen s)
     \<and> (case pBlockLibrary s of None \<Rightarrow> mNowBlockNum s = - 1
        | Some lib \<Rightarrow> alen lib = mMaxBlockNum s \<and> (\<forall>b. 0 \<le> b \<and> b \<le> mNowBlockNum s \<longrightarrow> aget lib b))"

definition qa_used :: "QAllocator \<Rightarrow> int \<Rightarrow> int" where
  "qa_used s b = (if b < 0 \<or> mNowBlockNum s < b then 0 else if b = mNowBlockNum s then mNowBlockLen s else mMaxBlockLen s)"

definition qa_ok :: "QAllocator \<Rightarrow> ((int \<times> int) \<times> int) set \<Rightarrow> bool" where
  "qa_ok s L \<longleftrightarrow> qa_ready s \<and> (\<forall>x \<in> L. 0 \<le> snd (fst x) \<and> 0 < snd x \<and> snd (fst x) + snd x \<le> qa_used s (fst (fst x)))
     \<and> (\<forall>x \<in> L. \<forall>y \<in> L. x \<noteq> y \<longrightarrow> region x \<inter> region y = {})"

definition qa_backed :: "QAllocator \<Rightarrow> int \<times> int \<Rightarrow> bool" where
  "qa_backed s c \<longleftrightarrow> 0 \<le> fst c \<and> 0 \<le> snd c \<and> snd c < mMaxBlockLen s \<and>
     (\<exists>lib. pBlockLibrary s = Some lib \<and> fst c < alen lib \<and> aget lib (fst c))"

definition qa_request :: "bool \<times> bool \<times> int \<Rightarrow> QAllocator \<Rightarrow> alloc_error + (int \<times> int) option \<times> QAllocator" where
  "qa_request r = QAllocator_alloc (fst r) (fst (snd r)) (snd (snd r))"

text \<open>A request only moves the end of what is in use, and gets the place before it.\<close>

lemma QAllocator_alloc_step:
  assumes "qa_ready s" "0 < n"
  shows "\<exists>q s'. QAllocator_alloc i m n s = Inr (q, s') \<and> qa_ready s' \<and> (\<forall>b. qa_used s b \<le> qa_used s' b) \<and>
    (case q of None \<Rightarrow> True | Some (b, off) \<Rightarrow> qa_used s b \<le> off \<and> 0 \<le> off \<and> off + n \<le> qa_used s' b)"
proof -
  define lib where "lib = (case pBlockLibrary s of None \<Rightarrow> replicate (nat (mMaxBlockNum s)) False | Some l \<Rightarrow> l)"
  have lib: "alen lib = mMaxBlockNum s" "\<forall>b. 0 \<le> b \<and> b \<le> mNowBlockNum s \<longrightarrow> aget lib b"
    using assms(1) by (auto simp: lib_def qa_ready_def alen_def split: option.splits)
  have b: "\<forall>b. 0 \<le> b \<and> b \<le> mNowBlockNum s + 1 \<longrightarrow> aget (aset lib (mNowBlockNum s + 1) True) b"
    if "mNowBlockNum s + 1 < mMaxBlockNum s" using that assms(1) lib by (auto simp: aget_aset in_range_def qa_ready_def)
  show ?thesis
  proof (cases "pBlockLibrary s = None \<and> \<not> i")
    case True
    then show ?thesis using assms by (simp add: QAllocator_alloc_def)
  next
    case False
    then have a: "QAllocator_alloc i m n s =
      (case (if n > mMaxBlockLen s - mNowBlockLen s then next_block m n lib (s\<lparr>pBlockLibrary := Some lib\<rparr>) else Some (s\<lparr>pBlockLibrary := Some lib\<rparr>)) of
             None \<Rightarrow> Inr (None, s\<lparr>pBlockLibrary := Some lib\<rparr>)
           | Some s \<Rightarrow>
               if mNowBlockNum s < 0 then Inl Bad_Block
               else Inr (Some (mNowBlockNum s, mNowBlockLen s),
                         s\<lparr>mNowBlockLen := mNowBlockLen s + n, mTotalLen := mTotalLen s + n\<rparr>))"
      by (auto simp: QAllocator_alloc_def lib_def Let_def split: option.split)
    show ?thesis
      using assms lib b unfolding a next_block_def by (auto simp: qa_ready_def qa_used_def)
  qed
qed

lemma region_apart:
  "snd (fst x) + snd x \<le> u \<Longrightarrow> u \<le> snd (fst y) \<Longrightarrow> fst (fst x) = fst (fst y) \<Longrightarrow> region x \<inter> region y = {}"
  by (auto simp: region_def)

lemma qa_ok_grow:
  assumes "qa_ok s L" "qa_ready s'" "\<forall>b. qa_used s b \<le> qa_used s' b"
  shows "qa_ok s' L"
  using assms by (auto simp: qa_ok_def intro: order_trans)

lemma qa_ok_insert:
  assumes "qa_ok s L" "qa_ready s'" "\<forall>b. qa_used s b \<le> qa_used s' b"
    and p: "qa_used s (fst p) \<le> snd p" "0 \<le> snd p" "snd p + n \<le> qa_used s' (fst p)" "0 < n"
  shows "qa_ok s' (insert (p, n) L)"
proof -
  have "region x \<inter> region (p, n) = {}" if x: "x \<in> L" for x
  proof (cases "fst (fst x) = fst p")
    case True
    have "snd (fst x) + snd x \<le> qa_used s (fst p)" using assms(1) x True by (auto simp: qa_ok_def)
    then show ?thesis using p(1) True by (intro region_apart [where u = "qa_used s (fst p)"]) simp_all
  qed (auto simp: region_def)
  moreover from this have "region (p, n) \<inter> region x = {}" if "x \<in> L" for x using that by (simp add: Int_commute)
  ultimately show ?thesis using qa_ok_grow [OF assms(1-3)] p by (simp add: qa_ok_def)
qed

interpretation plain: allocator qa_ok qa_request "\<lambda>r. snd (snd r)" "\<lambda>_ s. s" False "\<lambda>r. 0 < snd (snd r)" qa_backed
proof
  fix s L and r :: "bool \<times> bool \<times> int"
  assume k: "qa_ok s L" and n: "0 < snd (snd r)"
  then have "qa_ready s" by (simp add: qa_ok_def)
  from QAllocator_alloc_step [OF this n, of "fst r" "fst (snd r)"] obtain q s1 where
    a: "qa_request r s = Inr (q, s1)" and r: "qa_ready s1" "\<forall>b. qa_used s b \<le> qa_used s1 b"
    and q: "case q of None \<Rightarrow> True | Some (b, off) \<Rightarrow> qa_used s b \<le> off \<and> 0 \<le> off \<and> off + snd (snd r) \<le> qa_used s1 b"
    unfolding qa_request_def by blast
  show "\<exists>x. qa_request r s = Inr x" using a by simp
  show "qa_ok s' L" if "qa_request r s = Inr (None, s')" for s' using that a qa_ok_grow [OF k r] by simp
  show "qa_ok s' (insert (p, snd (snd r)) L)" if "qa_request r s = Inr (Some p, s')" for p s'
    using that a q qa_ok_insert [OF k r, of p] n by (auto split: prod.splits)
next
  fix s L x c assume k: "qa_ok s L" and x: "x \<in> L" and c: "c \<in> region x"
  have r: "qa_ready s" using k by (simp add: qa_ok_def)
  have b: "0 \<le> snd (fst x)" "0 < snd x" "snd (fst x) + snd x \<le> qa_used s (fst (fst x))" using k x by (auto simp: qa_ok_def)
  then have f: "0 \<le> fst (fst x)" "fst (fst x) \<le> mNowBlockNum s" "qa_used s (fst (fst x)) \<le> mMaxBlockLen s"
    using r by (auto simp: qa_used_def qa_ready_def split: if_splits)
  then show "qa_backed s c" using r b c
    by (auto simp: qa_backed_def region_def qa_ready_def split: option.splits)
qed (auto simp: qa_ok_def)

lemma QAllocator_pieces_apart:
  assumes "0 \<le> maxBlockNum" "0 \<le> maxBlockLen" "\<forall>op \<in> set ops. \<exists>i m n. op = Alloc (i, m, n) \<and> 0 < n"
  shows "\<exists>s' L. client qa_request (\<lambda>r. snd (snd r)) (\<lambda>_ s. s) ops (QAllocator_new maxBlockNum maxBlockLen) {} = Inr (s', L) \<and>
    (\<forall>x \<in> L. (\<forall>c \<in> region x. qa_backed s' c) \<and> (\<forall>y \<in> L. x \<noteq> y \<longrightarrow> region x \<inter> region y = {}))"
proof (rule plain.client_safe)
  show "qa_ok (QAllocator_new maxBlockNum maxBlockLen) {}"
    using assms(1,2) by (simp add: qa_ok_def qa_ready_def QAllocator_new_def)
qed (use assms(3) in fastforce)+

text \<open>A request for no octets before any other uses block \<open>-1\<close>.\<close>

lemma QAllocator_alloc_zero: "QAllocator_alloc True m 0 (QAllocator_new n l) = Inl Bad_Block"
  by (simp add: QAllocator_alloc_def QAllocator_new_def)

section \<open>The forward list never gives a node back\<close>

definition QForwardList_new :: "'a \<Rightarrow> 'a QForwardList" where
  "QForwardList_new any = \<lparr>fl_alloc = QAllocatorRecycle_new, fl_head = None, fl_size = 0, fl_cells = (\<lambda>_. (any, None))\<rparr>"

text \<open>\<open>n\<close> times an element is added and taken out again; the codes of \<open>add\<close> and what \<open>get\<close> finds.\<close>

fun add_get :: "nat \<Rightarrow> 'a \<Rightarrow> 'a QForwardList \<Rightarrow> alloc_error + (int \<times> 'a option) list" where
  "add_get 0 d s = Inr []"
| "add_get (Suc n) d s =
     (case QForwardList_add True True d s of
        Inl e \<Rightarrow> Inl e
      | Inr (r, s) \<Rightarrow>
          let (x, s) = QForwardList_get s in
          (case add_get n d s of Inl e \<Rightarrow> Inl e | Inr rs \<Rightarrow> Inr ((r, x) # rs)))"

lemma rc_fresh_full:
  assumes "rc_ready s"
  shows "fst (rc_fresh True lib s) = None \<longleftrightarrow> rc_allocs s = rc_max_block s * rc_max_chunk s"
proof -
  have *: "rc_now_chunk s = rc_max_chunk s \<and> rc_max_block s \<le> rc_now_block s + 1" if e: "rc_allocs s = rc_max_block s * rc_max_chunk s"
  proof -
    have "(rc_now_block s + 1) * rc_max_chunk s \<le> rc_max_block s * rc_max_chunk s"
      using assms by (intro mult_right_mono) (auto simp: rc_ready_def)
    then have "rc_now_chunk s = rc_max_chunk s" using e assms by (auto simp: rc_ready_def distrib_right)
    then have "rc_max_block s * rc_max_chunk s = (rc_now_block s + 1) * rc_max_chunk s"
      using e assms by (auto simp: rc_ready_def distrib_right)
    then show ?thesis using assms \<open>rc_now_chunk s = rc_max_chunk s\<close> by (auto simp: rc_ready_def)
  qed
  have "rc_allocs s = rc_max_block s * rc_max_chunk s" if "rc_now_chunk s = rc_max_chunk s" "rc_max_block s \<le> rc_now_block s + 1"
  proof -
    have "rc_max_block s = rc_now_block s + 1" using that assms by (simp add: rc_ready_def)
    then show ?thesis using that assms by (simp add: rc_ready_def distrib_right)
  qed
  with * show ?thesis by (auto simp: rc_fresh_def rc_next_block_def Let_def)
qed

lemma rc_alloc_unused:
  assumes "rc_ready s" "rc_head s = None"
  shows "\<exists>q s'. rc_alloc True True s = Inr (q, s') \<and> (q = None \<longleftrightarrow> rc_allocs s = rc_max_block s * rc_max_chunk s)
    \<and> rc_ready s' \<and> rc_head s' = None \<and> rc_allocs s' = rc_allocs s + (if q = None then 0 else 1)
    \<and> rc_max_block s' * rc_max_chunk s' = rc_max_block s * rc_max_chunk s"
proof -
  define lib where "lib = (case rc_index s of Index l \<Rightarrow> l | _ \<Rightarrow> replicate (nat (rc_max_block s)) False)"
  have lib: "alen lib = rc_max_block s" "\<forall>b. 0 \<le> b \<and> b \<le> rc_now_block s \<longrightarrow> aget lib b"
    using assms(1) by (auto simp: lib_def rc_ready_def alen_def split: block_index.splits)
  have a: "rc_alloc True True s = Inr (rc_fresh True lib s)"
    using assms by (cases "rc_index s") (auto simp: rc_alloc_def lib_def rc_ready_def)
  obtain q s' where q: "rc_fresh True lib s = (q, s')" by (metis surj_pair)
  show ?thesis
    using rc_fresh_ready [OF assms(1) lib, of True] rc_fresh_frame [OF q] rc_fresh_full [OF assms(1), of lib] assms(2) a q
    by (auto split: option.splits)
qed

lemma add_get_codes:
  assumes "rc_ready (fl_alloc s)" "rc_head (fl_alloc s) = None" "fl_head s = None"
    and "rc_max_block (fl_alloc s) * rc_max_chunk (fl_alloc s) - rc_allocs (fl_alloc s) = int k"
  shows "add_get n d s = Inr (replicate (min n k) (0, Some d) @ replicate (n - k) (- 1, None))"
  using assms
proof (induction n arbitrary: s k)
  case (Suc n)
  from rc_alloc_unused [OF Suc.prems(1,2)] obtain q a where q: "rc_alloc True True (fl_alloc s) = Inr (q, a)"
    "q = None \<longleftrightarrow> k = 0" "rc_ready a" "rc_head a = None" "rc_allocs a = rc_allocs (fl_alloc s) + (if q = None then 0 else 1)"
    "rc_max_block a * rc_max_chunk a = rc_max_block (fl_alloc s) * rc_max_chunk (fl_alloc s)"
    using Suc.prems(4) by auto
  show ?case
  proof (cases k)
    case 0
    then have "QForwardList_add True True d s = Inr (- 1, s\<lparr>fl_alloc := a\<rparr>)" using q by (simp add: QForwardList_add_def)
    moreover have "add_get n d (s\<lparr>fl_alloc := a\<rparr>) = Inr (replicate (min n 0) (0, Some d) @ replicate (n - 0) (- 1, None))"
      by (rule Suc.IH) (use q Suc.prems 0 in auto)
    ultimately show ?thesis using 0 Suc.prems(3) by (simp add: QForwardList_get_def)
  next
    case (Suc j)
    then obtain p where p: "q = Some p" using q(2) by auto
    let ?s = "s\<lparr>fl_alloc := a, fl_cells := (fl_cells s)(p := (d, None)), fl_size := fl_size s + 1, fl_head := Some p\<rparr>"
    let ?t = "?s\<lparr>fl_head := None, fl_size := fl_size s\<rparr>"
    have "QForwardList_add True True d s = Inr (0, ?s)" using q p Suc.prems(3) by (simp add: QForwardList_add_def)
    moreover have "QForwardList_get ?s = (Some d, ?t)" by (simp add: QForwardList_get_def)
    moreover have "add_get n d ?t = Inr (replicate (min n j) (0, Some d) @ replicate (n - j) (- 1, None))"
      by (rule Suc.IH) (use q Suc.prems Suc p in auto)
    ultimately show ?thesis using Suc by simp
  qed
qed simp

text \<open>
  \<open>QForwardList\<close> loses its memory.  \<open>get\<close> does not give the node back to the allocator, so a list that holds
  at most one element serves only as many \<open>add\<close>s as the allocator has chunks in all; every later \<open>add\<close> is
  refused, although the list is empty and the system has memory.
\<close>

lemma QForwardList_exhausted:
  assumes "QForwardList_init node_size max_size (QForwardList_new any) = (0, s)"
  shows "add_get n d s = Inr (replicate (min n (nat (max_size * (BUFSIZ_1M div node_size)))) (0, Some d)
      @ replicate (n - nat (max_size * (BUFSIZ_1M div node_size))) (- 1, None))"
proof -
  obtain a where a: "rc_init node_size max_size (BUFSIZ_1M div node_size) QAllocatorRecycle_new = (0, a)"
    and s: "s = (QForwardList_new any)\<lparr>fl_alloc := a\<rparr>"
    using assms by (auto simp: QForwardList_init_def QForwardList_new_def split: prod.splits)
  have "rc_ready a" using rc_ok_init [OF a] by (simp add: rc_ok_def)
  moreover have "rc_head a = None" "rc_allocs a = 0" "rc_max_block a * rc_max_chunk a = max_size * (BUFSIZ_1M div node_size)"
    "0 \<le> max_size * (BUFSIZ_1M div node_size)"
    using a by (auto simp: rc_init_def split: if_splits)
  ultimately show ?thesis by (intro add_get_codes) (auto simp: s QForwardList_new_def)
qed

end
