(* ===== verification/HashSearch.thy ===== *)
theory HashSearch
  imports Allocators
begin

text \<open>
  \<open>QHashSearch\<close> of \<^verbatim>\<open>src/common/qhashsearch.h\<close>: a table of chains whose nodes are chunks of one of the allocators.  An address is
  that of the allocators, a block and an offset; \<open>hs_mem\<close> is what the chunk at an address holds.  A key is the integer
  it denotes, a datum the list of its octets.
\<close>

section \<open>The table\<close>

type_synonym addr = "int \<times> int"

record 'd HashNode =
  hn_link :: "addr option"
  hn_key :: int
  hn_data :: "'d list"

record 'd QHashSearch =
  hs_data_len :: int
  hs_data_num :: int
  hs_bucket_size :: int
  hs_table :: "addr option list option"
  hs_FL :: "QAllocatorRecycle option"
  hs_VL :: "QAllocator option"
  hs_trav_index :: int
  hs_trav_pos :: "addr option"
  hs_initialized :: int
  hs_mem :: "addr \<Rightarrow> 'd HashNode"

datatype hs_error = Null_Pointer | Div_By_Zero | Alloc_Error alloc_error

definition QHashSearch_new :: "(addr \<Rightarrow> 'd HashNode) \<Rightarrow> 'd QHashSearch" where
  "QHashSearch_new junk = \<lparr>hs_data_len = - 1, hs_data_num = 0, hs_bucket_size = 0, hs_table = None, hs_FL = None, hs_VL = None,
     hs_trav_index = - 1, hs_trav_pos = None, hs_initialized = 0, hs_mem = junk\<rparr>"

text \<open>
  \<open>key_size\<close> is \<open>sizeof(Key)\<close>; the booleans say whether the table and the allocator object get their memory.  The
  allocators get the default sizes.
\<close>

definition QHashSearch_init :: "bool \<Rightarrow> bool \<Rightarrow> int \<Rightarrow> int \<Rightarrow> int \<Rightarrow> 'd QHashSearch \<Rightarrow> int \<times> 'd QHashSearch" where
  "QHashSearch_init table_ok alloc_ok key_size bucket_size data_len s =
     (let s = s\<lparr>hs_data_len := data_len, hs_data_num := 0, hs_bucket_size := bucket_size,
                hs_table := (if table_ok then Some (replicate (nat bucket_size) None) else None)\<rparr>
      in if \<not> table_ok then (- 1, s)
         else if data_len < 0 then
           if \<not> alloc_ok then (- 2, s\<lparr>hs_VL := None\<rparr>)
           else (0, s\<lparr>hs_VL := Some (QAllocator_new 2000 1048576), hs_trav_index := 0, hs_trav_pos := None, hs_initialized := 1\<rparr>)
         else if \<not> alloc_ok then (- 3, s\<lparr>hs_FL := None\<rparr>)
         else
           case rc_init (PTR + key_size + data_len) 1000000 1000 QAllocatorRecycle_new of (r, a) \<Rightarrow>
           if r \<noteq> 0 then (- 4, s\<lparr>hs_FL := Some a\<rparr>)
           else (0, s\<lparr>hs_FL := Some a, hs_trav_index := 0, hs_trav_pos := None, hs_initialized := 1\<rparr>))"

definition getHashValue :: "int \<Rightarrow> int \<Rightarrow> int" where
  "getHashValue bucket_size key = \<bar>cmod key bucket_size\<bar>"

text \<open>The bucket of a key: given by the caller or computed.  An error is a division by zero or the missing table.\<close>

definition hs_bucket :: "int \<Rightarrow> int \<Rightarrow> 'd QHashSearch \<Rightarrow> hs_error + int \<times> addr option list" where
  "hs_bucket iIndex key s =
     (if iIndex < 0 \<and> hs_bucket_size s = 0 then Inl Div_By_Zero
      else case hs_table s of
        None \<Rightarrow> Inl Null_Pointer
      | Some tb \<Rightarrow> Inr (if iIndex < 0 then getHashValue (hs_bucket_size s) key else iIndex, tb))"

text \<open>The walk along a chain: the node with the key and the node before it.\<close>

partial_function (option) hs_walk :: "(addr \<Rightarrow> 'd HashNode) \<Rightarrow> int \<Rightarrow> addr option \<Rightarrow> addr option \<Rightarrow> (addr option \<times> addr option) option" where
  "hs_walk mem key q p =
     (case p of
        None \<Rightarrow> Some (q, None)
      | Some a \<Rightarrow> if hn_key (mem a) = key then Some (q, Some a) else hs_walk mem key (Some a) (hn_link (mem a)))"

text \<open>The pointer to the data of a node of fixed length.\<close>

definition ret_FL :: "'d QHashSearch \<Rightarrow> addr \<Rightarrow> addr option" where
  "ret_FL s a = (if hs_data_len s = 0 then None else Some a)"

definition put_data :: "'d QHashSearch \<Rightarrow> 'd list option \<Rightarrow> 'd list \<Rightarrow> 'd list" where
  "put_data s vpData old = (case vpData of None \<Rightarrow> old | Some d \<Rightarrow> if hs_data_len s > 0 then d else old)"

text \<open>A new node in front of its chain.\<close>

definition hs_link_in :: "int \<Rightarrow> addr option list \<Rightarrow> addr \<Rightarrow> int \<Rightarrow> 'd list \<Rightarrow> 'd QHashSearch \<Rightarrow> 'd QHashSearch" where
  "hs_link_in i tb a key d s =
     s\<lparr>hs_mem := (hs_mem s)(a := \<lparr>hn_link = aget tb i, hn_key = key, hn_data = d\<rparr>),
       hs_table := Some (aset tb i (Some a)), hs_data_num := hs_data_num s + 1\<rparr>"

definition addKey_FL :: "bool \<Rightarrow> bool \<Rightarrow> int \<Rightarrow> 'd list option \<Rightarrow> int \<Rightarrow> 'd QHashSearch \<Rightarrow> (hs_error + int \<times> addr option \<times> 'd QHashSearch) option" where
  "addKey_FL index_ok mem_ok key vpData iIndex s =
     (case hs_bucket iIndex key s of
        Inl e \<Rightarrow> Some (Inl e)
      | Inr (i, tb) \<Rightarrow>
          Option.bind (hs_walk (hs_mem s) key None (aget tb i)) (\<lambda>(q, p).
          case p of
            Some a \<Rightarrow> Some (Inr (1, ret_FL s a, s))
          | None \<Rightarrow>
              (case hs_FL s of
                 None \<Rightarrow> Some (Inl Null_Pointer)
               | Some al \<Rightarrow>
                   (case rc_alloc index_ok mem_ok al of
                      Inl e \<Rightarrow> Some (Inl (Alloc_Error e))
                    | Inr (None, al) \<Rightarrow> Some (Inr (- 1, None, s\<lparr>hs_FL := Some al\<rparr>))
                    | Inr (Some a, al) \<Rightarrow>
                        Some (Inr (0, ret_FL s a, hs_link_in i tb a key (put_data s vpData (hn_data (hs_mem s a))) (s\<lparr>hs_FL := Some al\<rparr>)))))))"

definition searchKey_FL :: "int \<Rightarrow> int \<Rightarrow> 'd QHashSearch \<Rightarrow> (hs_error + int \<times> addr option) option" where
  "searchKey_FL key iIndex s =
     (case hs_bucket iIndex key s of
        Inl e \<Rightarrow> Some (Inl e)
      | Inr (i, tb) \<Rightarrow>
          Option.bind (hs_walk (hs_mem s) key None (aget tb i)) (\<lambda>(q, p).
          case p of Some a \<Rightarrow> Some (Inr (0, ret_FL s a)) | None \<Rightarrow> Some (Inr (- 1, None))))"

definition updateKey_FL :: "int \<Rightarrow> 'd list option \<Rightarrow> int \<Rightarrow> 'd QHashSearch \<Rightarrow> (hs_error + int \<times> addr option \<times> 'd QHashSearch) option" where
  "updateKey_FL key vpData iIndex s =
     (case hs_bucket iIndex key s of
        Inl e \<Rightarrow> Some (Inl e)
      | Inr (i, tb) \<Rightarrow>
          Option.bind (hs_walk (hs_mem s) key None (aget tb i)) (\<lambda>(q, p).
          case p of
            None \<Rightarrow> Some (Inr (- 1, None, s))
          | Some a \<Rightarrow>
              let nd = hs_mem s a in
              Some (Inr (0, ret_FL s a, s\<lparr>hs_mem := (hs_mem s)(a := nd\<lparr>hn_data := put_data s vpData (hn_data nd)\<rparr>)\<rparr>))))"

text \<open>The node behind \<open>q\<close>, or at the head of its bucket, leaves its chain.\<close>

definition unlink_node :: "int \<Rightarrow> addr option list \<Rightarrow> addr option \<Rightarrow> addr \<Rightarrow> 'd QHashSearch \<Rightarrow> 'd QHashSearch" where
  "unlink_node i tb q a s =
     (let n = hn_link (hs_mem s a);
          s = (case q of
                 None \<Rightarrow> s\<lparr>hs_table := Some (aset tb i n)\<rparr>
               | Some b \<Rightarrow> s\<lparr>hs_mem := (hs_mem s)(b := (hs_mem s b)\<lparr>hn_link := n\<rparr>)\<rparr>)
      in s\<lparr>hs_mem := (hs_mem s)(a := (hs_mem s a)\<lparr>hn_link := None\<rparr>), hs_data_num := hs_data_num s - 1\<rparr>)"

definition deleteKey_FL :: "int \<Rightarrow> int \<Rightarrow> 'd QHashSearch \<Rightarrow> (hs_error + int \<times> 'd QHashSearch) option" where
  "deleteKey_FL key iIndex s =
     (case hs_bucket iIndex key s of
        Inl e \<Rightarrow> Some (Inl e)
      | Inr (i, tb) \<Rightarrow>
          Option.bind (hs_walk (hs_mem s) key None (aget tb i)) (\<lambda>(q, p).
          case p of
            None \<Rightarrow> Some (Inr (- 1, s))
          | Some a \<Rightarrow>
              (case hs_FL s of
                 None \<Rightarrow> Some (Inl Null_Pointer)
               | Some al \<Rightarrow> Some (Inr (0, (unlink_node i tb q a s)\<lparr>hs_FL := Some (rc_free a al)\<rparr>)))))"

text \<open>\<open>addKey_VL\<close> copies the first \<open>data_len\<close> octets of its datum, and refuses a negative length.\<close>

definition addKey_VL :: "bool \<Rightarrow> bool \<Rightarrow> int \<Rightarrow> int \<Rightarrow> 'd list \<Rightarrow> int \<Rightarrow> 'd QHashSearch \<Rightarrow> (hs_error + int \<times> addr option \<times> int \<times> 'd QHashSearch) option" where
  "addKey_VL index_ok mem_ok key_size key vpData data_len s =
     (if data_len < 0 then Some (Inr (- 1, None, 0, s))
      else case hs_bucket (- 1) key s of
        Inl e \<Rightarrow> Some (Inl e)
      | Inr (i, tb) \<Rightarrow>
          Option.bind (hs_walk (hs_mem s) key None (aget tb i)) (\<lambda>(q, p).
          case p of
            Some a \<Rightarrow> Some (Inr (1, (if hn_data (hs_mem s a) = [] then None else Some a), int (length (hn_data (hs_mem s a))), s))
          | None \<Rightarrow>
              (case hs_VL s of
                 None \<Rightarrow> Some (Inl Null_Pointer)
               | Some al \<Rightarrow>
                   (case QAllocator_alloc index_ok mem_ok (PTR + key_size + 4 + data_len) al of
                      Inl e \<Rightarrow> Some (Inl (Alloc_Error e))
                    | Inr (None, al) \<Rightarrow> Some (Inr (- 1, None, 0, s\<lparr>hs_VL := Some al\<rparr>))
                    | Inr (Some a, al) \<Rightarrow>
                        Some (Inr (0, (if data_len = 0 then None else Some a), data_len,
                                   hs_link_in i tb a key (take (nat data_len) vpData) (s\<lparr>hs_VL := Some al\<rparr>)))))))"

definition searchKey_VL :: "int \<Rightarrow> 'd QHashSearch \<Rightarrow> (hs_error + int \<times> addr option \<times> int) option" where
  "searchKey_VL key s =
     (case hs_bucket (- 1) key s of
        Inl e \<Rightarrow> Some (Inl e)
      | Inr (i, tb) \<Rightarrow>
          Option.bind (hs_walk (hs_mem s) key None (aget tb i)) (\<lambda>(q, p).
          case p of
            Some a \<Rightarrow> Some (Inr (0, (if hn_data (hs_mem s a) = [] then None else Some a), int (length (hn_data (hs_mem s a)))))
          | None \<Rightarrow> Some (Inr (- 1, None, 0))))"

definition QHashSearch_clear :: "'d QHashSearch \<Rightarrow> hs_error + 'd QHashSearch" where
  "QHashSearch_clear s =
     (case hs_table s of
        None \<Rightarrow> Inl Null_Pointer
      | Some tb \<Rightarrow> Inr (s\<lparr>hs_data_num := 0, hs_VL := map_option resetAllocator (hs_VL s), hs_FL := map_option rc_reset (hs_FL s),
                        hs_table := Some (replicate (length tb) None), hs_trav_index := 0, hs_trav_pos := None\<rparr>))"

definition hs_prepareTraversal :: "'d QHashSearch \<Rightarrow> hs_error + 'd QHashSearch" where
  "hs_prepareTraversal s =
     (case hs_table s of None \<Rightarrow> Inl Null_Pointer | Some tb \<Rightarrow> Inr (s\<lparr>hs_trav_index := 0, hs_trav_pos := aget tb 0\<rparr>))"

text \<open>The next bucket with a chain, from index \<open>i\<close> on.\<close>

fun next_chain :: "addr option list \<Rightarrow> nat \<Rightarrow> int \<Rightarrow> int \<times> addr option" where
  "next_chain tb 0 i = (i, None)"
| "next_chain tb (Suc n) i = (if aget tb i = None then next_chain tb n (i + 1) else (i, aget tb i))"

definition hs_traverse :: "'d QHashSearch \<Rightarrow> hs_error + (int \<times> 'd list) option \<times> 'd QHashSearch" where
  "hs_traverse s =
     (case hs_table s of
        None \<Rightarrow> Inl Null_Pointer
      | Some tb \<Rightarrow>
          let (i, p) = (if hs_trav_pos s = None
                        then next_chain tb (nat (hs_bucket_size s - (hs_trav_index s + 1))) (hs_trav_index s + 1)
                        else (hs_trav_index s, hs_trav_pos s));
              s = s\<lparr>hs_trav_index := i, hs_trav_pos := p\<rparr>
          in case p of
               None \<Rightarrow> if i = hs_bucket_size s then Inr (None, s) else Inl Null_Pointer
             | Some a \<Rightarrow> Inr (Some (hn_key (hs_mem s a), hn_data (hs_mem s a)), s\<lparr>hs_trav_pos := hn_link (hs_mem s a)\<rparr>))"

section \<open>Walking a chain\<close>

abbreviation chain_in :: "(addr \<Rightarrow> 'd HashNode) \<Rightarrow> addr option \<Rightarrow> addr list \<Rightarrow> bool" where
  "chain_in mem \<equiv> links (\<lambda>a. hn_link (mem a))"

lemma hs_walk_missing:
  "chain_in mem p ps \<Longrightarrow> key \<notin> hn_key ` mem ` set ps \<Longrightarrow> \<exists>q'. hs_walk mem key q p = Some (q', None)"
proof (induction ps arbitrary: p q)
  case Nil
  then show ?case by (subst hs_walk.simps) simp
next
  case (Cons a ps)
  then show ?case by (subst hs_walk.simps) auto
qed

lemma hs_walk_found:
  "chain_in mem p (ys @ a # zs) \<Longrightarrow> key \<notin> hn_key ` mem ` set ys \<Longrightarrow> hn_key (mem a) = key \<Longrightarrow>
     hs_walk mem key q p = Some (if ys = [] then q else Some (last ys), Some a)"
proof (induction ys arbitrary: p q)
  case Nil
  then show ?case by (subst hs_walk.simps) simp
next
  case (Cons y ys)
  then show ?case by (subst hs_walk.simps) auto
qed

lemma split_at_key:
  assumes "key \<in> hn_key ` mem ` set ps"
  obtains ys a zs where "ps = ys @ a # zs" "hn_key (mem a) = key" "key \<notin> hn_key ` mem ` set ys"
proof -
  have "\<exists>a \<in> set ps. hn_key (mem a) = key" using assms by auto
  from split_list_first_prop [OF this] obtain ys a zs where
    "ps = ys @ a # zs" "hn_key (mem a) = key" "\<forall>y \<in> set ys. hn_key (mem y) \<noteq> key" by blast
  then show thesis by (intro that [of ys a zs]) auto
qed

lemma chain_cong: "(\<And>a. a \<in> set ps \<Longrightarrow> hn_link (mem a) = hn_link (mem' a)) \<Longrightarrow> chain_in mem p ps = chain_in mem' p ps"
  by (induction ps arbitrary: p) auto

text \<open>Taking a node out of a chain.\<close>

lemma chain_remove:
  assumes "chain_in mem p (ys @ a # zs)" "distinct (ys @ a # zs)"
  shows "ys = [] \<Longrightarrow> chain_in mem (hn_link (mem a)) zs"
    and "ys \<noteq> [] \<Longrightarrow> chain_in (mem(last ys := (mem (last ys))\<lparr>hn_link := hn_link (mem a)\<rparr>)) p (ys @ zs)"
  using assms
proof (induction ys arbitrary: p)
  case (Cons y ys)
  {
    case 2
    show ?case
    proof (cases "ys = []")
      case True
      have "chain_in (mem(y := (mem y)\<lparr>hn_link := hn_link (mem a)\<rparr>)) q zs = chain_in mem q zs" for q
        by (rule chain_cong) (use 2 in auto)
      then show ?thesis using True 2 by auto
    next
      case False
      then have "last ys \<noteq> y" using 2 last_in_set by fastforce
      then show ?thesis using False Cons.IH(2) [of "hn_link (mem y)"] 2 by auto
    qed
  }
qed auto

section \<open>The table holds a map\<close>

definition hs_chains :: "'d QHashSearch \<Rightarrow> addr list list \<Rightarrow> bool" where
  "hs_chains s cs \<longleftrightarrow> 0 < hs_bucket_size s \<and>
     (\<exists>tb. hs_table s = Some tb \<and> alen tb = hs_bucket_size s \<and> length cs = length tb \<and>
        (\<forall>i < length tb. chain_in (hs_mem s) (tb ! i) (cs ! i) \<and>
           (\<forall>a \<in> set (cs ! i). getHashValue (hs_bucket_size s) (hn_key (hs_mem s a)) = int i))) \<and>
     distinct (concat cs) \<and> inj_on (\<lambda>a. hn_key (hs_mem s a)) (set (concat cs)) \<and> hs_data_num s = int (length (concat cs))"

definition hs_content :: "'d QHashSearch \<Rightarrow> addr list list \<Rightarrow> int \<Rightarrow> 'd list option" where
  "hs_content s cs = map_of (map (\<lambda>a. (hn_key (hs_mem s a), hn_data (hs_mem s a))) (concat cs))"

lemma getHashValue_range: "0 < b \<Longrightarrow> 0 \<le> getHashValue b key \<and> getHashValue b key < b"
proof -
  assume b: "0 < b"
  have "\<bar>cmod key b\<bar> < b"
  proof (cases "0 \<le> key")
    case True
    then show ?thesis using b by simp
  next
    case False
    then have "cmod key b = - ((- key) mod b)" using b by (simp add: cmod_def cdiv_def minus_mult_div_eq_mod [symmetric])
    then show ?thesis using b by simp
  qed
  then show ?thesis by (simp add: getHashValue_def)
qed

lemma hs_bucket_at:
  assumes "hs_chains s cs"
  obtains tb i where "hs_bucket (- 1) key s = Inr (int i, tb)" "hs_table s = Some tb" "i < length tb" "length cs = length tb"
    "int i = getHashValue (hs_bucket_size s) key" "chain_in (hs_mem s) (tb ! i) (cs ! i)"
proof -
  obtain tb where tb: "hs_table s = Some tb" "alen tb = hs_bucket_size s" "length cs = length tb"
    "\<forall>i < length tb. chain_in (hs_mem s) (tb ! i) (cs ! i)" and b: "0 < hs_bucket_size s" using assms by (auto simp: hs_chains_def)
  define i where "i = nat (getHashValue (hs_bucket_size s) key)"
  have i: "int i = getHashValue (hs_bucket_size s) key" "i < length tb"
    using getHashValue_range [OF b, of key] tb(2) by (auto simp: i_def alen_def)
  then show thesis using that [of i tb] tb b by (auto simp: hs_bucket_def)
qed

lemma hs_key_bucket:
  assumes "hs_chains s cs" "a \<in> set (concat cs)" "int i = getHashValue (hs_bucket_size s) (hn_key (hs_mem s a))"
  shows "a \<in> set (cs ! i)"
proof -
  obtain j where j: "j < length cs" "a \<in> set (cs ! j)" using assms(2) by (metis (no_types, lifting) UN_E in_set_conv_nth set_concat)
  with assms(1) have "getHashValue (hs_bucket_size s) (hn_key (hs_mem s a)) = int j" by (auto simp: hs_chains_def)
  with assms(3) j show ?thesis by simp
qed

lemma hs_content_iff:
  assumes "hs_chains s cs"
  shows "hs_content s cs k = Some d \<longleftrightarrow> (\<exists>a \<in> set (concat cs). hn_key (hs_mem s a) = k \<and> hn_data (hs_mem s a) = d)"
proof -
  have "distinct (map fst (map (\<lambda>a. (hn_key (hs_mem s a), hn_data (hs_mem s a))) (concat cs)))"
    using assms by (simp add: hs_chains_def comp_def distinct_map)
  from map_of_eq_Some_iff [OF this, of k d] show ?thesis by (auto simp: hs_content_def)
qed

lemma hs_content_None:
  "hs_content s cs k = None \<longleftrightarrow> (\<forall>a \<in> set (concat cs). hn_key (hs_mem s a) \<noteq> k)"
  by (auto simp: hs_content_def map_of_eq_None_iff image_iff)

lemma hs_lookup:
  assumes "hs_chains s cs"
  obtains
    (missing) tb i q where "hs_bucket (- 1) key s = Inr (int i, tb)" "hs_table s = Some tb" "i < length tb" "length cs = length tb"
      "int i = getHashValue (hs_bucket_size s) key"
      "hs_walk (hs_mem s) key None (aget tb (int i)) = Some (q, None)" "hs_content s cs key = None"
  | (found) tb i ys a zs where "hs_bucket (- 1) key s = Inr (int i, tb)" "hs_table s = Some tb" "i < length tb" "length cs = length tb"
      "cs ! i = ys @ a # zs" "hn_key (hs_mem s a) = key" "chain_in (hs_mem s) (tb ! i) (ys @ a # zs)"
      "hs_walk (hs_mem s) key None (aget tb (int i)) = Some (if ys = [] then None else Some (last ys), Some a)"
      "hs_content s cs key = Some (hn_data (hs_mem s a))"
proof -
  obtain tb i where b: "hs_bucket (- 1) key s = Inr (int i, tb)" "hs_table s = Some tb" "i < length tb" "length cs = length tb"
    "int i = getHashValue (hs_bucket_size s) key" "chain_in (hs_mem s) (tb ! i) (cs ! i)" using hs_bucket_at [OF assms] by blast
  show thesis
  proof (cases "key \<in> hn_key ` hs_mem s ` set (cs ! i)")
    case False
    have "hs_content s cs key = None"
    proof (rule ccontr)
      assume "hs_content s cs key \<noteq> None"
      then obtain a where "a \<in> set (concat cs)" "hn_key (hs_mem s a) = key" unfolding hs_content_None by blast
      then have "a \<in> set (cs ! i)" using hs_key_bucket [OF assms, of a i] b(5) by simp
      with False \<open>hn_key (hs_mem s a) = key\<close> show False by blast
    qed
    moreover obtain q where "hs_walk (hs_mem s) key None (aget tb (int i)) = Some (q, None)"
      using hs_walk_missing [OF b(6) False] by (auto simp: aget_def)
    ultimately show thesis using missing b by blast
  next
    case True
    then obtain ys a zs where y: "cs ! i = ys @ a # zs" "hn_key (hs_mem s a) = key" "key \<notin> hn_key ` hs_mem s ` set ys"
      by (rule split_at_key)
    have "cs ! i \<in> set cs" using b(3,4) by simp
    then have "a \<in> set (concat cs)" using y(1) by (metis UN_I in_set_conv_decomp set_concat)
    then have "hs_content s cs key = Some (hn_data (hs_mem s a))" using hs_content_iff [OF assms] y(2) by blast
    moreover have "hs_walk (hs_mem s) key None (aget tb (int i)) = Some (if ys = [] then None else Some (last ys), Some a)"
      using hs_walk_found [OF b(6) [unfolded y(1)] y(3,2)] by (simp add: aget_def)
    ultimately show thesis using found [OF b(1-4) y(1,2)] b(6) y(1) by simp
  qed
qed

lemma map_ext_Some: "(\<And>x y. f x = Some y \<longleftrightarrow> g x = Some y) \<Longrightarrow> f = g"
  by (rule ext) (metis not_Some_eq)

text \<open>Where a list of chains is cut at one of them.\<close>

lemma concat_at: "i < length cs \<Longrightarrow> concat cs = concat (take i cs) @ cs ! i @ concat (drop (Suc i) cs)"
  by (metis concat.simps(2) concat_append id_take_nth_drop)

lemma concat_upd: "i < length cs \<Longrightarrow> concat (cs[i := c]) = concat (take i cs) @ c @ concat (drop (Suc i) cs)"
  by (simp add: upd_conv_take_nth_drop)

text \<open>A node that is not in the table is put in front of the chain of its key.\<close>

lemma hs_link_in_chains:
  assumes h: "hs_chains s cs" and tb: "hs_table s = Some tb" "i < length tb" "length cs = length tb"
    and k: "int i = getHashValue (hs_bucket_size s) key" "hs_content s cs key = None" and a: "a \<notin> set (concat cs)"
  shows "hs_chains (hs_link_in (int i) tb a key d s) (cs[i := a # cs ! i])"
    and "hs_content (hs_link_in (int i) tb a key d s) (cs[i := a # cs ! i]) = (hs_content s cs)(key \<mapsto> d)"
proof -
  let ?s = "hs_link_in (int i) tb a key d s" and ?cs = "cs[i := a # cs ! i]"
  have mem: "hs_mem ?s b = hs_mem s b" if "b \<in> set (concat cs)" for b using that a by (auto simp: hs_link_in_def)
  have mem': "hs_mem ?s b = hs_mem s b" if "j < length cs" "b \<in> set (cs ! j)" for b j using mem [of b] that nth_mem by fastforce
  have ma: "hs_mem ?s a = \<lparr>hn_link = tb ! i, hn_key = key, hn_data = d\<rparr>" by (simp add: hs_link_in_def aget_def)
  have st: "set (concat ?cs) = insert a (set (concat cs))" using tb unfolding concat_upd [OF tb(2) [folded tb(3)]]
    by (simp add: concat_at [OF tb(2) [folded tb(3)]] del: set_concat)
  have as: "aset tb (int i) (Some a) = tb[i := Some a]" by (simp add: aset_def)
  have ch: "chain_in (hs_mem ?s) (tb[i := Some a] ! j) (?cs ! j) \<and>
      (\<forall>b \<in> set (?cs ! j). getHashValue (hs_bucket_size s) (hn_key (hs_mem ?s b)) = int j)" if "j < length tb" for j
  proof -
    have old: "chain_in (hs_mem ?s) q (cs ! j) = chain_in (hs_mem s) q (cs ! j)" for q
      by (rule chain_cong) (use mem' [of j] that tb(3) in auto)
    show ?thesis using h that tb k(1) [symmetric] old mem' [of j] ma
      by (cases "j = i") (auto simp: hs_chains_def)
  qed
  have d: "distinct (concat ?cs)" "length (concat ?cs) = Suc (length (concat cs))"
    using h a unfolding concat_upd [OF tb(2) [folded tb(3)]] hs_chains_def
    by (auto simp: concat_at [OF tb(2) [folded tb(3)]])
  have nk: "hn_key (hs_mem s b) \<noteq> key" if "b \<in> set (concat cs)" for b using k(2) that unfolding hs_content_None by blast
  have "inj_on (\<lambda>b. hn_key (hs_mem ?s b)) (set (concat cs))"
    using h mem unfolding hs_chains_def inj_on_def by metis
  then have kd: "inj_on (\<lambda>b. hn_key (hs_mem ?s b)) (set (concat ?cs))"
    unfolding st inj_on_insert using nk mem ma by auto
  show c: "hs_chains ?s ?cs"
    using h ch d kd tb unfolding hs_chains_def by (auto simp: hs_link_in_def as alen_def)
  show "hs_content ?s ?cs = (hs_content s cs)(key \<mapsto> d)"
  proof (rule map_ext_Some)
    fix q d'
    show "hs_content ?s ?cs q = Some d' \<longleftrightarrow> ((hs_content s cs)(key \<mapsto> d)) q = Some d'"
      using ma mem nk hs_content_iff [OF h, of q d'] unfolding hs_content_iff [OF c] st fun_upd_apply
      by (cases "q = key") (auto simp del: set_concat)
  qed
qed

text \<open>Data of a node may change, and a node may leave its chain.\<close>

lemma hs_update_chains:
  assumes h: "hs_chains s cs" and a: "a \<in> set (concat cs)" and nd: "hn_link nd = hn_link (hs_mem s a)" "hn_key nd = hn_key (hs_mem s a)"
  shows "hs_chains (s\<lparr>hs_mem := (hs_mem s)(a := nd)\<rparr>) cs"
    and "hs_content (s\<lparr>hs_mem := (hs_mem s)(a := nd)\<rparr>) cs = (hs_content s cs)(hn_key nd \<mapsto> hn_data nd)"
proof -
  let ?s = "s\<lparr>hs_mem := (hs_mem s)(a := nd)\<rparr>"
  have key: "hn_key (hs_mem ?s b) = hn_key (hs_mem s b)" for b using nd by simp
  have ch: "chain_in (hs_mem ?s) q ps = chain_in (hs_mem s) q ps" for q ps by (rule chain_cong) (use nd in simp)
  show c: "hs_chains ?s cs"
    using h unfolding hs_chains_def key ch by simp
  show "hs_content ?s cs = (hs_content s cs)(hn_key nd \<mapsto> hn_data nd)"
  proof (rule map_ext_Some)
    fix q d'
    have "b = a" if "b \<in> set (concat cs)" "hn_key (hs_mem s b) = hn_key (hs_mem s a)" for b
      using h that a unfolding hs_chains_def inj_on_def by blast
    then have "(\<exists>b \<in> set (concat cs). hn_key (hs_mem s b) = q \<and> hn_data (hs_mem ?s b) = d') \<longleftrightarrow> hn_data nd = d'" if "q = hn_key nd"
      using a nd(2) that by (auto simp del: set_concat)
    moreover have "(\<exists>b \<in> set (concat cs). hn_key (hs_mem s b) = q \<and> hn_data (hs_mem ?s b) = d') \<longleftrightarrow>
        (\<exists>b \<in> set (concat cs). hn_key (hs_mem s b) = q \<and> hn_data (hs_mem s b) = d')" if "q \<noteq> hn_key nd"
      using that nd(2) by (intro bex_cong refl) auto
    ultimately show "hs_content ?s cs q = Some d' \<longleftrightarrow> ((hs_content s cs)(hn_key nd \<mapsto> hn_data nd)) q = Some d'"
      using hs_content_iff [OF h, of q d'] unfolding hs_content_iff [OF c] fun_upd_apply key by simp
  qed
qed

lemma unlink_chains:
  assumes h: "hs_chains s cs" and tb: "hs_table s = Some tb" "i < length tb" "length cs = length tb"
    and c: "cs ! i = ys @ a # zs" "chain_in (hs_mem s) (tb ! i) (ys @ a # zs)"
  defines "s' \<equiv> unlink_node (int i) tb (if ys = [] then None else Some (last ys)) a s"
  shows "hs_chains s' (cs[i := ys @ zs])" and "hs_content s' (cs[i := ys @ zs]) = (hs_content s cs)(hn_key (hs_mem s a) := None)"
proof -
  let ?cs = "cs[i := ys @ zs]"
  have i: "i < length cs" using tb by simp
  have dist: "distinct (concat cs)" using h by (simp add: hs_chains_def)
  have cut: "concat cs = concat (take i cs) @ (ys @ a # zs) @ concat (drop (Suc i) cs)" using concat_at [OF i] c(1) by simp
  have st: "set (concat ?cs) = set (concat cs) - {a}" "a \<in> set (concat cs)"
    using dist unfolding concat_upd [OF i] cut by auto
  have d: "distinct (concat ?cs)" "length (concat cs) = Suc (length (concat ?cs))" using dist unfolding concat_upd [OF i] cut by auto
  have key: "hn_key (hs_mem s' b) = hn_key (hs_mem s b)" "hn_data (hs_mem s' b) = hn_data (hs_mem s b)" for b
    by (simp_all add: s'_def unlink_node_def Let_def)
  have b: "hs_bucket_size s' = hs_bucket_size s" "hs_data_num s' = hs_data_num s - 1" by (simp_all add: s'_def unlink_node_def Let_def)
  define tb' where "tb' = (if ys = [] then tb[i := hn_link (hs_mem s a)] else tb)"
  have t: "hs_table s' = Some tb'" "length tb' = length tb" "alen tb' = alen tb" using tb(1)
    by (simp_all add: s'_def unlink_node_def Let_def tb'_def aset_def alen_def)
  have other: "chain_in (hs_mem s') (tb' ! j) (cs ! j)" if j: "j < length tb" "j \<noteq> i" for j
  proof -
    have "set (cs ! j) \<inter> set (cs ! i) = {}"
    proof (cases "j < i")
      case True
      then have "cs ! j \<in> set (take i cs)" using i by (auto simp: in_set_conv_nth intro!: exI [of _ j])
      then show ?thesis using dist unfolding concat_at [OF i] by auto
    next
      case False
      then have "cs ! j \<in> set (drop (Suc i) cs)" using j tb(3) by (auto simp: in_set_conv_nth intro!: exI [of _ "j - Suc i"])
      then show ?thesis using dist unfolding concat_at [OF i] by auto
    qed
    then have "hs_mem s' x = hs_mem s x" if "x \<in> set (cs ! j)" for x
      using that c(1) by (auto simp: s'_def unlink_node_def Let_def)
    then have "chain_in (hs_mem s') (tb ! j) (cs ! j)" using h j tb
      by (subst chain_cong [of _ _ "hs_mem s"]) (auto simp: hs_chains_def)
    then show ?thesis using j by (simp add: tb'_def)
  qed
  have here: "chain_in (hs_mem s') (tb' ! i) (ys @ zs)"
  proof (cases "ys = []")
    case True
    have "chain_in (hs_mem s') q zs = chain_in (hs_mem s) q zs" for q
      by (rule chain_cong) (use dist True in \<open>auto simp: cut s'_def unlink_node_def Let_def\<close>)
    then show ?thesis using True c(2) tb(2) by (simp add: tb'_def)
  next
    case False
    have "distinct (ys @ a # zs)" using dist unfolding cut by auto
    note m = chain_remove(2) [OF c(2) this False]
    have "chain_in ((hs_mem s)(last ys := (hs_mem s (last ys))\<lparr>hn_link := hn_link (hs_mem s a)\<rparr>)) (tb ! i) (ys @ zs) =
        chain_in (hs_mem s') (tb ! i) (ys @ zs)"
    proof (rule chain_cong)
      fix x assume "x \<in> set (ys @ zs)"
      then have "x \<noteq> a" using dist unfolding cut by auto
      then show "hn_link (((hs_mem s)(last ys := (hs_mem s (last ys))\<lparr>hn_link := hn_link (hs_mem s a)\<rparr>)) x) = hn_link (hs_mem s' x)"
        using False by (simp add: s'_def unlink_node_def Let_def)
    qed
    with m show ?thesis using False by (simp add: tb'_def)
  qed
  have "\<forall>j < length tb'. chain_in (hs_mem s') (tb' ! j) (?cs ! j) \<and>
      (\<forall>b \<in> set (?cs ! j). getHashValue (hs_bucket_size s') (hn_key (hs_mem s' b)) = int j)"
  proof (intro allI impI conjI ballI)
    fix j assume j: "j < length tb'"
    show "chain_in (hs_mem s') (tb' ! j) (?cs ! j)" using other [of j] here j t(2) i by (cases "j = i") simp_all
    have sub: "set (?cs ! j) \<subseteq> set (cs ! j)" using c(1) i by (cases "j = i") auto
    show "getHashValue (hs_bucket_size s') (hn_key (hs_mem s' x)) = int j" if "x \<in> set (?cs ! j)" for x
    proof -
      have "x \<in> set (cs ! j)" using sub that by blast
      then show ?thesis using h j t(2) tb(1) unfolding key b hs_chains_def by auto
    qed
  qed
  moreover have "inj_on (\<lambda>b. hn_key (hs_mem s' b)) (set (concat ?cs))"
    using h unfolding key hs_chains_def st(1) by (blast intro: inj_on_subset)
  ultimately show chs: "hs_chains s' ?cs"
    using h d t tb(1,3) unfolding hs_chains_def b by auto
  have "x = a" if "x \<in> set (concat cs)" "hn_key (hs_mem s x) = hn_key (hs_mem s a)" for x
    using h that st(2) unfolding hs_chains_def inj_on_def by blast
  then show "hs_content s' ?cs = (hs_content s cs)(hn_key (hs_mem s a) := None)"
    using hs_content_iff [OF h] hs_content_iff [OF chs] unfolding key st(1)
    by (intro map_ext_Some) (auto simp del: set_concat)
qed

section \<open>Nodes in recycled chunks\<close>

text \<open>What the allocator serves is not in use.\<close>

lemma rc_alloc_new:
  assumes "rc_ok s L" "rc_alloc i m s = Inr (Some p, s')"
  shows "p \<notin> fst ` L"
proof
  assume p: "p \<in> fst ` L"
  let ?h = "\<lambda>x. header (fst x)"
  from assms(1) obtain F where F: "links (rc_link s) (rc_head s) F" "set F \<inter> ?h ` L = {}"
    "set F \<union> ?h ` L = chunk_addr (rc_max_chunk s) (rc_chunk_size s) ` {0..<rc_allocs s}" by (auto simp: rc_ok_def)
  have rdy: "rc_ready s" using assms(1) by (simp add: rc_ok_def)
  have hp: "header p \<in> ?h ` L" using p by auto
  show False
  proof (cases "rc_head s")
    case (Some h)
    then have "h \<in> set F" using F(1) by (cases F) auto
    moreover have "p = payload h" using assms(2) Some by (cases h) (auto simp: rc_alloc_def payload_def)
    ultimately show False using hp F(2) by auto
  next
    case None
    define lib where "lib = (case rc_index s of Index l \<Rightarrow> l | _ \<Rightarrow> replicate (nat (rc_max_block s)) False)"
    have lib: "alen lib = rc_max_block s" "\<forall>b. 0 \<le> b \<and> b \<le> rc_now_block s \<longrightarrow> aget lib b"
      using rdy by (auto simp: lib_def rc_ready_def alen_def split: block_index.splits)
    have "rc_fresh m lib s = (Some p, s')"
      using assms(2) None by (auto simp: rc_alloc_def lib_def split: block_index.splits if_splits)
    then have "header p = chunk_addr (rc_max_chunk s) (rc_chunk_size s) (rc_allocs s)"
      using rc_fresh_ready [OF rdy lib, of m] by simp
    then have "chunk_addr (rc_max_chunk s) (rc_chunk_size s) (rc_allocs s) \<in> chunk_addr (rc_max_chunk s) (rc_chunk_size s) ` {0..<rc_allocs s}"
      using hp F(3) by auto
    then show False using rdy by (auto simp: chunk_addr_inj rc_ready_def PTR_def)
  qed
qed

definition hs_ok :: "int \<Rightarrow> 'd QHashSearch \<Rightarrow> addr list list \<Rightarrow> bool" where
  "hs_ok n s cs \<longleftrightarrow> hs_chains s cs \<and> 0 < hs_data_len s \<and>
     (\<exists>al. hs_FL s = Some al \<and> rc_ok_at n al ((\<lambda>a. (a, n)) ` set (concat cs)))"

lemma hs_chains_FL [simp]: "hs_chains (s\<lparr>hs_FL := x\<rparr>) cs = hs_chains s cs" "hs_content (s\<lparr>hs_FL := x\<rparr>) cs = hs_content s cs"
  by (simp_all add: hs_chains_def hs_content_def)

lemma hs_link_in_FL: "hs_link_in i tb a k d (s\<lparr>hs_FL := x\<rparr>) = (hs_link_in i tb a k d s)\<lparr>hs_FL := x\<rparr>"
  by (simp add: hs_link_in_def)

lemma searchKey_FL_spec:
  assumes "hs_ok n s cs"
  shows "case hs_content s cs key of
      None \<Rightarrow> searchKey_FL key (- 1) s = Some (Inr (- 1, None))
    | Some d \<Rightarrow> \<exists>a. searchKey_FL key (- 1) s = Some (Inr (0, Some a)) \<and> hn_data (hs_mem s a) = d"
proof -
  have h: "hs_chains s cs" "hs_data_len s \<noteq> 0" using assms by (auto simp: hs_ok_def)
  from h(1) show ?thesis by (cases rule: hs_lookup [of s cs key]) (use h(2) in \<open>simp_all add: searchKey_FL_def ret_FL_def\<close>)
qed

lemma updateKey_FL_spec:
  assumes "hs_ok n s cs"
  shows "\<exists>r s'. updateKey_FL key (Some d) (- 1) s = Some (Inr (if hs_content s cs key = None then - 1 else 0, r, s'))
    \<and> hs_ok n s' cs \<and> hs_content s' cs = (if hs_content s cs key = None then hs_content s cs else (hs_content s cs)(key \<mapsto> d))"
proof -
  have h: "hs_chains s cs" "0 < hs_data_len s" using assms by (auto simp: hs_ok_def)
  from h(1) show ?thesis
  proof (cases rule: hs_lookup [of s cs key])
    case (missing tb i q)
    then show ?thesis using assms by (simp add: updateKey_FL_def)
  next
    case (found tb i ys a zs)
    have "cs ! i \<in> set cs" using found(3,4) by simp
    then have a: "a \<in> set (concat cs)" using found(5) by (metis UN_I in_set_conv_decomp set_concat)
    let ?nd = "(hs_mem s a)\<lparr>hn_data := d\<rparr>"
    note u = hs_update_chains [OF h(1) a, of ?nd, simplified]
    show ?thesis using found h(2) u assms by (simp add: updateKey_FL_def put_data_def hs_ok_def Let_def)
  qed
qed

lemma deleteKey_FL_spec:
  assumes "hs_ok n s cs"
  shows "\<exists>s' cs'. deleteKey_FL key (- 1) s = Some (Inr (if hs_content s cs key = None then - 1 else 0, s'))
    \<and> hs_ok n s' cs' \<and> hs_content s' cs' = (hs_content s cs)(key := None)"
proof -
  have h: "hs_chains s cs" "0 < hs_data_len s" using assms by (auto simp: hs_ok_def)
  obtain al where al: "hs_FL s = Some al" "rc_ok_at n al ((\<lambda>a. (a, n)) ` set (concat cs))" using assms by (auto simp: hs_ok_def)
  from h(1) show ?thesis
  proof (cases rule: hs_lookup [of s cs key])
    case (missing tb i q)
    then show ?thesis using assms by (intro exI [of _ s] exI [of _ cs]) (simp add: deleteKey_FL_def fun_upd_idem)
  next
    case (found tb i ys a zs)
    let ?s = "unlink_node (int i) tb (if ys = [] then None else Some (last ys)) a s" and ?cs = "cs[i := ys @ zs]"
    note u = unlink_chains [OF h(1) found(2,3,4,5,7)]
    have i: "i < length cs" using found by simp
    have dist: "distinct (concat cs)" using h by (simp add: hs_chains_def)
    have cut: "concat cs = concat (take i cs) @ (ys @ a # zs) @ concat (drop (Suc i) cs)" using concat_at [OF i] found(5) by simp
    have st: "set (concat ?cs) = set (concat cs) - {a}" "a \<in> set (concat cs)" using dist unfolding concat_upd [OF i] cut by auto
    have "{x \<in> (\<lambda>a. (a, n)) ` set (concat cs). fst x \<noteq> a} = (\<lambda>a. (a, n)) ` set (concat ?cs)" unfolding st by auto
    then have "rc_ok_at n (rc_free a al) ((\<lambda>a. (a, n)) ` set (concat ?cs))"
      using recycle.freed [OF al(2) TrueI, of a] st(2) by (simp add: image_image del: set_concat)
    moreover have "0 < hs_data_len ?s" using h(2) by (simp add: unlink_node_def Let_def)
    ultimately have "hs_ok n (?s\<lparr>hs_FL := Some (rc_free a al)\<rparr>) ?cs" using u(1) by (simp add: hs_ok_def del: set_concat)
    moreover have "deleteKey_FL key (- 1) s = Some (Inr (0, ?s\<lparr>hs_FL := Some (rc_free a al)\<rparr>))"
      using found al(1) by (simp add: deleteKey_FL_def)
    ultimately show ?thesis using u(2) found(6,9) by (intro exI [of _ "?s\<lparr>hs_FL := Some (rc_free a al)\<rparr>"] exI [of _ ?cs]) simp
  qed
qed

lemma addKey_FL_spec:
  assumes "hs_ok n s cs"
  shows "\<exists>c r s' cs'. addKey_FL index_ok mem_ok key (Some d) (- 1) s = Some (Inr (c, r, s')) \<and> hs_ok n s' cs'
    \<and> (if hs_content s cs key = None then c = 0 \<or> c = - 1 else c = 1)
    \<and> hs_content s' cs' = (if c = 0 then (hs_content s cs)(key \<mapsto> d) else hs_content s cs)"
proof -
  have h: "hs_chains s cs" "0 < hs_data_len s" using assms by (auto simp: hs_ok_def)
  obtain al where al: "hs_FL s = Some al" "rc_ok_at n al ((\<lambda>a. (a, n)) ` set (concat cs))" using assms by (auto simp: hs_ok_def)
  from h(1) show ?thesis
  proof (cases rule: hs_lookup [of s cs key])
    case (found tb i ys a zs)
    then show ?thesis using assms by (intro exI [of _ 1] exI [of _ "Some a"] exI [of _ s] exI [of _ cs]) (use h(2) in \<open>simp add: addKey_FL_def ret_FL_def\<close>)
  next
    case (missing tb i q)
    obtain p al' where p: "rc_alloc index_ok mem_ok al = Inr (p, al')"
      using recycle.no_error [OF al(2) TrueI, of "(index_ok, mem_ok)"] by (auto simp: rc_request_def)
    show ?thesis
    proof (cases p)
      case None
      have "rc_ok_at n al' ((\<lambda>a. (a, n)) ` set (concat cs))"
        using recycle.refused [OF al(2) TrueI, of "(index_ok, mem_ok)" al'] p None by (simp add: rc_request_def)
      then have "hs_ok n (s\<lparr>hs_FL := Some al'\<rparr>) cs" using h by (simp add: hs_ok_def del: set_concat)
      then show ?thesis using missing p None al(1)
        by (intro exI [of _ "- 1"] exI [of _ None] exI [of _ "s\<lparr>hs_FL := Some al'\<rparr>"] exI [of _ cs]) (simp add: addKey_FL_def)
    next
      case (Some a)
      have ok: "rc_ok_at n al' (insert (a, n) ((\<lambda>a. (a, n)) ` set (concat cs)))"
        using recycle.served [OF al(2) TrueI, of "(index_ok, mem_ok)" a al'] p Some by (simp add: rc_request_def)
      have a: "a \<notin> set (concat cs)"
        using rc_alloc_new [of al "(\<lambda>a. (a, n)) ` set (concat cs)" index_ok mem_ok a al'] al(2) p Some by (auto simp: rc_ok_at_def image_image)
      let ?s = "(hs_link_in (int i) tb a key d s)\<lparr>hs_FL := Some al'\<rparr>" and ?cs = "cs[i := a # cs ! i]"
      note l = hs_link_in_chains [OF h(1) missing(2,3,4,5,7) a, of d]
      have i: "i < length cs" using missing by simp
      have "set (concat ?cs) = insert a (set (concat cs))" unfolding concat_upd [OF i] by (simp add: concat_at [OF i] del: set_concat)
      then have "hs_ok n ?s ?cs" using l(1) ok h(2) by (simp add: hs_ok_def hs_link_in_def del: set_concat)
      then show ?thesis using missing p Some al(1) h(2) l(2)
        by (intro exI [of _ 0] exI [of _ "Some a"] exI [of _ ?s] exI [of _ ?cs])
          (simp add: addKey_FL_def ret_FL_def put_data_def hs_link_in_FL del: set_concat)
    qed
  qed
qed

text \<open>Whether a new key is refused, and what becomes of the allocator, depends on the allocator alone.\<close>

lemma addKey_FL_alloc:
  assumes "hs_ok n s cs" "hs_FL s = Some al" "hs_content s cs key = None"
    and "addKey_FL index_ok mem_ok key (Some d) (- 1) s = Some (Inr (c, r, s'))"
  shows "\<exists>p al'. rc_alloc index_ok mem_ok al = Inr (p, al') \<and> hs_FL s' = Some al' \<and> c = (if p = None then - 1 else 0)"
proof -
  have h: "hs_chains s cs" using assms(1) by (simp add: hs_ok_def)
  then show ?thesis
  proof (cases rule: hs_lookup [of s cs key])
    case (found tb i ys a zs)
    then show ?thesis using assms(3) by simp
  next
    case (missing tb i q)
    obtain p al' where p: "rc_alloc index_ok mem_ok al = Inr (p, al')"
      using assms(2,4) missing by (cases "rc_alloc index_ok mem_ok al") (auto simp: addKey_FL_def)
    show ?thesis
      by (intro exI [of _ p] exI [of _ al']) (use missing p assms(2,4) in \<open>cases p; auto simp: addKey_FL_def hs_link_in_def\<close>)
  qed
qed

section \<open>Any sequence of calls\<close>

datatype 'd hs_op = HAdd bool bool int "'d list" | HUpdate int "'d list" | HDelete int

fun hs_do :: "'d hs_op \<Rightarrow> 'd QHashSearch \<Rightarrow> (hs_error + int \<times> 'd QHashSearch) option" where
  "hs_do (HAdd index_ok mem_ok k d) s = map_option (map_sum id (\<lambda>(c, r, s'). (c, s'))) (addKey_FL index_ok mem_ok k (Some d) (- 1) s)"
| "hs_do (HUpdate k d) s = map_option (map_sum id (\<lambda>(c, r, s'). (c, s'))) (updateKey_FL k (Some d) (- 1) s)"
| "hs_do (HDelete k) s = deleteKey_FL k (- 1) s"

fun hs_run :: "'d hs_op list \<Rightarrow> 'd QHashSearch \<Rightarrow> (hs_error + int list \<times> 'd QHashSearch) option" where
  "hs_run [] s = Some (Inr ([], s))"
| "hs_run (x # ops) s =
     Option.bind (hs_do x s) (\<lambda>r. case r of
       Inl e \<Rightarrow> Some (Inl e)
     | Inr (c, s') \<Rightarrow> map_option (map_sum id (\<lambda>(cs, t). (c # cs, t))) (hs_run ops s'))"

text \<open>The calls on a map: the codes that are possible and what they do.  An addition may be refused (\<open>-1\<close>).\<close>

fun code_ok :: "'d hs_op \<Rightarrow> (int \<rightharpoonup> 'd list) \<Rightarrow> int \<Rightarrow> bool" where
  "code_ok (HAdd _ _ k d) m c \<longleftrightarrow> (if m k = None then c = 0 \<or> c = - 1 else c = 1)"
| "code_ok (HUpdate k d) m c \<longleftrightarrow> c = (if m k = None then - 1 else 0)"
| "code_ok (HDelete k) m c \<longleftrightarrow> c = (if m k = None then - 1 else 0)"

fun map_do :: "'d hs_op \<Rightarrow> int \<Rightarrow> (int \<rightharpoonup> 'd list) \<Rightarrow> (int \<rightharpoonup> 'd list)" where
  "map_do (HAdd _ _ k d) c m = (if c = 0 then m(k \<mapsto> d) else m)"
| "map_do (HUpdate k d) c m = (if c = 0 then m(k \<mapsto> d) else m)"
| "map_do (HDelete k) c m = m(k := None)"

fun map_runs :: "'d hs_op list \<Rightarrow> int list \<Rightarrow> (int \<rightharpoonup> 'd list) \<Rightarrow> (int \<rightharpoonup> 'd list) \<Rightarrow> bool" where
  "map_runs [] [] m m' \<longleftrightarrow> m' = m"
| "map_runs (x # ops) (c # cs) m m' \<longleftrightarrow> code_ok x m c \<and> map_runs ops cs (map_do x c m) m'"
| "map_runs _ _ m m' \<longleftrightarrow> False"

lemma hs_do_spec:
  assumes "hs_ok n s cs"
  shows "\<exists>c s' cs'. hs_do x s = Some (Inr (c, s')) \<and> hs_ok n s' cs' \<and> code_ok x (hs_content s cs) c
    \<and> hs_content s' cs' = map_do x c (hs_content s cs)"
proof (cases x)
  case (HAdd i m k d)
  then show ?thesis using addKey_FL_spec [OF assms, of i m k d] by fastforce
next
  case (HUpdate k d)
  then show ?thesis using updateKey_FL_spec [OF assms, of k d] by fastforce
next
  case (HDelete k)
  then show ?thesis using deleteKey_FL_spec [OF assms, of k] by fastforce
qed

lemma hs_run_spec:
  "hs_ok n s cs \<Longrightarrow> \<exists>codes s' cs'. hs_run ops s = Some (Inr (codes, s')) \<and> hs_ok n s' cs'
     \<and> map_runs ops codes (hs_content s cs) (hs_content s' cs')"
proof (induction ops arbitrary: s cs)
  case Nil
  then show ?case by auto
next
  case (Cons x ops)
  obtain c s1 cs1 where x: "hs_do x s = Some (Inr (c, s1))" "hs_ok n s1 cs1" "code_ok x (hs_content s cs) c"
    "hs_content s1 cs1 = map_do x c (hs_content s cs)" using hs_do_spec [OF Cons.prems] by blast
  from Cons.IH [OF x(2)] obtain codes s' cs' where r: "hs_run ops s1 = Some (Inr (codes, s'))" "hs_ok n s' cs'"
    "map_runs ops codes (hs_content s1 cs1) (hs_content s' cs')" by blast
  show ?case by (intro exI [of _ "c # codes"] exI [of _ s'] exI [of _ cs']) (use x r in simp)
qed



end
