(* ===== verification/Md5.thy ===== *)
theory Md5
  imports CLib
begin

unbundle bit_operations_syntax

text \<open>
  The digests of \<^verbatim>\<open>src/common/qmd5.h\<close> (\<open>QMD5\<close>, of a block of memory) and \<^verbatim>\<open>src/common/qmd5file.h\<close> (\<open>QMD5File\<close>, of a file), and
  the algorithm of RFC 1321 as their specification.  A byte is an \<open>8 word\<close>, a \<open>UINT4\<close> a \<open>32 word\<close>; the machine is
  little-endian.
\<close>

section \<open>The transformation\<close>

type_synonym byte = "8 word"
type_synonym UINT4 = "32 word"
type_synonym md5_state = "UINT4 \<times> UINT4 \<times> UINT4 \<times> UINT4"

definition md5_F :: "UINT4 \<Rightarrow> UINT4 \<Rightarrow> UINT4 \<Rightarrow> UINT4" where "md5_F x y z = (x AND y) OR (NOT x AND z)"
definition md5_G :: "UINT4 \<Rightarrow> UINT4 \<Rightarrow> UINT4 \<Rightarrow> UINT4" where "md5_G x y z = (x AND z) OR (y AND NOT z)"
definition md5_H :: "UINT4 \<Rightarrow> UINT4 \<Rightarrow> UINT4 \<Rightarrow> UINT4" where "md5_H x y z = x XOR y XOR z"
definition md5_I :: "UINT4 \<Rightarrow> UINT4 \<Rightarrow> UINT4 \<Rightarrow> UINT4" where "md5_I x y z = y XOR (x OR NOT z)"

definition ROTATE_LEFT :: "UINT4 \<Rightarrow> nat \<Rightarrow> UINT4" where
  "ROTATE_LEFT x n = push_bit n x OR drop_bit (32 - n) x"

datatype md5_macro = FF | GG | HH | II

fun md5_fn :: "md5_macro \<Rightarrow> UINT4 \<Rightarrow> UINT4 \<Rightarrow> UINT4 \<Rightarrow> UINT4" where
  "md5_fn FF = md5_F"
| "md5_fn GG = md5_G"
| "md5_fn HH = md5_H"
| "md5_fn II = md5_I"

text \<open>
  One use of a macro.  The next one is called with the variables rotated, \<open>(d, a, b, c)\<close> after \<open>(a, b, c, d)\<close>, which is
  the order of the result.
\<close>

fun md5_step :: "UINT4 list \<Rightarrow> md5_macro \<times> nat \<times> nat \<times> UINT4 \<Rightarrow> md5_state \<Rightarrow> md5_state" where
  "md5_step x (f, k, s, ac) (a, b, c, d) =
     (let a = a + (md5_fn f b c d + x ! k + ac); a = ROTATE_LEFT a s; a = a + b in (d, a, b, c))"

text \<open>The 64 uses: macro, index of the word of the block, amount of the rotation, constant.\<close>

definition md5_uses :: "(md5_macro \<times> nat \<times> nat \<times> UINT4) list" where
  "md5_uses = [
     (FF, 0, 7, 0xd76aa478), (FF, 1, 12, 0xe8c7b756), (FF, 2, 17, 0x242070db), (FF, 3, 22, 0xc1bdceee),
     (FF, 4, 7, 0xf57c0faf), (FF, 5, 12, 0x4787c62a), (FF, 6, 17, 0xa8304613), (FF, 7, 22, 0xfd469501),
     (FF, 8, 7, 0x698098d8), (FF, 9, 12, 0x8b44f7af), (FF, 10, 17, 0xffff5bb1), (FF, 11, 22, 0x895cd7be),
     (FF, 12, 7, 0x6b901122), (FF, 13, 12, 0xfd987193), (FF, 14, 17, 0xa679438e), (FF, 15, 22, 0x49b40821),
     (GG, 1, 5, 0xf61e2562), (GG, 6, 9, 0xc040b340), (GG, 11, 14, 0x265e5a51), (GG, 0, 20, 0xe9b6c7aa),
     (GG, 5, 5, 0xd62f105d), (GG, 10, 9, 0x2441453), (GG, 15, 14, 0xd8a1e681), (GG, 4, 20, 0xe7d3fbc8),
     (GG, 9, 5, 0x21e1cde6), (GG, 14, 9, 0xc33707d6), (GG, 3, 14, 0xf4d50d87), (GG, 8, 20, 0x455a14ed),
     (GG, 13, 5, 0xa9e3e905), (GG, 2, 9, 0xfcefa3f8), (GG, 7, 14, 0x676f02d9), (GG, 12, 20, 0x8d2a4c8a),
     (HH, 5, 4, 0xfffa3942), (HH, 8, 11, 0x8771f681), (HH, 11, 16, 0x6d9d6122), (HH, 14, 23, 0xfde5380c),
     (HH, 1, 4, 0xa4beea44), (HH, 4, 11, 0x4bdecfa9), (HH, 7, 16, 0xf6bb4b60), (HH, 10, 23, 0xbebfbc70),
     (HH, 13, 4, 0x289b7ec6), (HH, 0, 11, 0xeaa127fa), (HH, 3, 16, 0xd4ef3085), (HH, 6, 23, 0x4881d05),
     (HH, 9, 4, 0xd9d4d039), (HH, 12, 11, 0xe6db99e5), (HH, 15, 16, 0x1fa27cf8), (HH, 2, 23, 0xc4ac5665),
     (II, 0, 6, 0xf4292244), (II, 7, 10, 0x432aff97), (II, 14, 15, 0xab9423a7), (II, 5, 21, 0xfc93a039),
     (II, 12, 6, 0x655b59c3), (II, 3, 10, 0x8f0ccc92), (II, 10, 15, 0xffeff47d), (II, 1, 21, 0x85845dd1),
     (II, 8, 6, 0x6fa87e4f), (II, 15, 10, 0xfe2ce6e0), (II, 6, 15, 0xa3014314), (II, 13, 21, 0x4e0811a1),
     (II, 4, 6, 0xf7537e82), (II, 11, 10, 0xbd3af235), (II, 2, 15, 0x2ad7d2bb), (II, 9, 21, 0xeb86d391)]"

fun add_state :: "md5_state \<Rightarrow> md5_state \<Rightarrow> md5_state" where
  "add_state (a, b, c, d) (a', b', c', d') = (a + a', b + b', c + c', d + d')"

fun Decode :: "byte list \<Rightarrow> UINT4 list" where
  "Decode (b0 # b1 # b2 # b3 # bs) =
     (ucast b0 OR push_bit 8 (ucast b1) OR push_bit 16 (ucast b2) OR push_bit 24 (ucast b3)) # Decode bs"
| "Decode bs = []"

fun Encode :: "UINT4 list \<Rightarrow> byte list" where
  "Encode [] = []"
| "Encode (w # ws) = ucast (w AND 0xff) # ucast (drop_bit 8 w AND 0xff) # ucast (drop_bit 16 w AND 0xff) # ucast (drop_bit 24 w AND 0xff) # Encode ws"

definition MD5Transform :: "md5_state \<Rightarrow> byte list \<Rightarrow> md5_state" where
  "MD5Transform state block = add_state state (fold (md5_step (Decode block)) md5_uses state)"

section \<open>QMD5\<close>

record MD5_CTX =
  md5_state_of :: md5_state
  md5_count0 :: UINT4
  md5_count1 :: UINT4
  md5_buffer :: "byte list"

definition MD5Init :: "byte list \<Rightarrow> MD5_CTX" where
  "MD5Init junk = \<lparr>md5_state_of = (0x67452301, 0xefcdab89, 0x98badcfe, 0x10325476), md5_count0 = 0, md5_count1 = 0, md5_buffer = junk\<rparr>"

text \<open>
  The loop over whole blocks of the input, with the addition \<open>i + 63\<close> in 32 bits.  \<open>None\<close> is a loop that reads behind
  the input.
\<close>

partial_function (option) md5_loop :: "byte list \<Rightarrow> nat \<Rightarrow> md5_state \<Rightarrow> (nat \<times> md5_state) option" where
  "md5_loop input i st =
     (if (i + 63) mod 2 ^ 32 < length input then
        if i + 64 \<le> length input then md5_loop input ((i + 64) mod 2 ^ 32) (MD5Transform st (take 64 (drop i input))) else None
      else Some (i, st))"

definition MD5_memcpy :: "byte list \<Rightarrow> nat \<Rightarrow> byte list \<Rightarrow> byte list" where
  "MD5_memcpy out i inp = take i out @ inp @ drop (i + length inp) out"

definition md5_index :: "MD5_CTX \<Rightarrow> nat" where
  "md5_index ctx = unat (drop_bit 3 (md5_count0 ctx) AND 0x3F)"

definition MD5Update :: "byte list \<Rightarrow> MD5_CTX \<Rightarrow> MD5_CTX option" where
  "MD5Update input ctx =
     (let inputLen = (of_nat (length input) :: UINT4);
          index = md5_index ctx;
          count0 = md5_count0 ctx + push_bit 3 inputLen;
          count1 = (if count0 < push_bit 3 inputLen then md5_count1 ctx + 1 else md5_count1 ctx);
          ctx = ctx\<lparr>md5_count0 := count0, md5_count1 := count1 + drop_bit 29 inputLen\<rparr>;
          partLen = 64 - index
      in if partLen \<le> length input then
           let buffer = MD5_memcpy (md5_buffer ctx) index (take partLen input) in
           (case md5_loop input partLen (MD5Transform (md5_state_of ctx) buffer) of
              None \<Rightarrow> None
            | Some (i, st) \<Rightarrow> Some (ctx\<lparr>md5_state_of := st, md5_buffer := MD5_memcpy buffer 0 (drop i input)\<rparr>))
         else Some (ctx\<lparr>md5_buffer := MD5_memcpy (md5_buffer ctx) index input\<rparr>))"

definition PADDING :: "byte list" where
  "PADDING = 0x80 # replicate 63 0"

fun state_words :: "md5_state \<Rightarrow> UINT4 list" where
  "state_words (a, b, c, d) = [a, b, c, d]"

definition MD5Final :: "MD5_CTX \<Rightarrow> byte list option" where
  "MD5Final ctx =
     (let bits = Encode [md5_count0 ctx, md5_count1 ctx];
          index = md5_index ctx;
          padLen = (if index < 56 then 56 - index else 120 - index)
      in Option.bind (MD5Update (take padLen PADDING) ctx) (\<lambda>ctx.
         Option.bind (MD5Update bits ctx) (\<lambda>ctx.
         Some (Encode (state_words (md5_state_of ctx))))))"

definition MD5Bits128 :: "byte list \<Rightarrow> byte list \<Rightarrow> byte list option" where
  "MD5Bits128 junk input =
     (if input = [] then Some (replicate 16 0) else Option.bind (MD5Update input (MD5Init junk)) MD5Final)"

definition MD5Bits32 :: "byte list \<Rightarrow> byte list \<Rightarrow> UINT4 option" where
  "MD5Bits32 junk input = map_option (\<lambda>d. hd (Decode d)) (MD5Bits128 junk input)"

definition MD5Bits64 :: "byte list \<Rightarrow> byte list \<Rightarrow> 64 word option" where
  "MD5Bits64 junk input = map_option (\<lambda>d. ucast (Decode d ! 0) OR push_bit 32 (ucast (Decode d ! 1))) (MD5Bits128 junk input)"

section \<open>QMD5File\<close>

definition md5_RL :: "UINT4 \<Rightarrow> nat \<Rightarrow> UINT4" where
  "md5_RL x y = push_bit y x OR drop_bit (32 - y) x"

definition md5_PP :: "UINT4 \<Rightarrow> UINT4" where
  "md5_PP x = push_bit 24 x OR (push_bit 8 x AND 0xff0000) OR (drop_bit 8 x AND 0xff00) OR drop_bit 24 x"

fun file_step :: "UINT4 list \<Rightarrow> md5_macro \<times> nat \<times> nat \<times> UINT4 \<Rightarrow> md5_state \<Rightarrow> md5_state" where
  "file_step x (f, k, s, ac) (a, b, c, d) = (d, b + md5_RL (a + md5_fn f b c d + x ! k + ac) s, b, c)"

definition file_uses :: "(md5_macro \<times> nat \<times> nat \<times> UINT4) list" where
  "file_uses = [
     (FF, 0, 7, 0xd76aa478), (FF, 1, 12, 0xe8c7b756), (FF, 2, 17, 0x242070db), (FF, 3, 22, 0xc1bdceee),
     (FF, 4, 7, 0xf57c0faf), (FF, 5, 12, 0x4787c62a), (FF, 6, 17, 0xa8304613), (FF, 7, 22, 0xfd469501),
     (FF, 8, 7, 0x698098d8), (FF, 9, 12, 0x8b44f7af), (FF, 10, 17, 0xffff5bb1), (FF, 11, 22, 0x895cd7be),
     (FF, 12, 7, 0x6b901122), (FF, 13, 12, 0xfd987193), (FF, 14, 17, 0xa679438e), (FF, 15, 22, 0x49b40821),
     (GG, 1, 5, 0xf61e2562), (GG, 6, 9, 0xc040b340), (GG, 11, 14, 0x265e5a51), (GG, 0, 20, 0xe9b6c7aa),
     (GG, 5, 5, 0xd62f105d), (GG, 10, 9, 0x02441453), (GG, 15, 14, 0xd8a1e681), (GG, 4, 20, 0xe7d3fbc8),
     (GG, 9, 5, 0x21e1cde6), (GG, 14, 9, 0xc33707d6), (GG, 3, 14, 0xf4d50d87), (GG, 8, 20, 0x455a14ed),
     (GG, 13, 5, 0xa9e3e905), (GG, 2, 9, 0xfcefa3f8), (GG, 7, 14, 0x676f02d9), (GG, 12, 20, 0x8d2a4c8a),
     (HH, 5, 4, 0xfffa3942), (HH, 8, 11, 0x8771f681), (HH, 11, 16, 0x6d9d6122), (HH, 14, 23, 0xfde5380c),
     (HH, 1, 4, 0xa4beea44), (HH, 4, 11, 0x4bdecfa9), (HH, 7, 16, 0xf6bb4b60), (HH, 10, 23, 0xbebfbc70),
     (HH, 13, 4, 0x289b7ec6), (HH, 0, 11, 0xeaa127fa), (HH, 3, 16, 0xd4ef3085), (HH, 6, 23, 0x04881d05),
     (HH, 9, 4, 0xd9d4d039), (HH, 12, 11, 0xe6db99e5), (HH, 15, 16, 0x1fa27cf8), (HH, 2, 23, 0xc4ac5665),
     (II, 0, 6, 0xf4292244), (II, 7, 10, 0x432aff97), (II, 14, 15, 0xab9423a7), (II, 5, 21, 0xfc93a039),
     (II, 12, 6, 0x655b59c3), (II, 3, 10, 0x8f0ccc92), (II, 10, 15, 0xffeff47d), (II, 1, 21, 0x85845dd1),
     (II, 8, 6, 0x6fa87e4f), (II, 15, 10, 0xfe2ce6e0), (II, 6, 15, 0xa3014314), (II, 13, 21, 0x4e0811a1),
     (II, 4, 6, 0xf7537e82), (II, 11, 10, 0xbd3af235), (II, 2, 15, 0x2ad7d2bb), (II, 9, 21, 0xeb86d391)]"

definition md5_calc :: "UINT4 list \<Rightarrow> md5_state \<Rightarrow> md5_state" where
  "md5_calc x ms = add_state ms (fold (file_step x) file_uses ms)"

definition md5_init :: md5_state where
  "md5_init = (0x67452301, 0xEFCDAB89, 0x98BADCFE, 0x10325476)"

text \<open>\<open>fread\<close> of one item of \<open>n\<close> bytes: it reads no item when \<open>n = 0\<close> or fewer bytes are left.\<close>

definition fread1 :: "nat \<Rightarrow> byte list \<Rightarrow> (byte list \<times> byte list) option" where
  "fread1 n rest = (if n = 0 \<or> length rest < n then None else Some (take n rest, drop n rest))"

fun file_blocks :: "nat \<Rightarrow> byte list \<Rightarrow> md5_state \<Rightarrow> (byte list \<times> md5_state) option" where
  "file_blocks 0 rest ms = Some (rest, ms)"
| "file_blocks (Suc n) rest ms =
     (case fread1 64 rest of None \<Rightarrow> None | Some (x, rest) \<Rightarrow> file_blocks n rest (md5_calc (Decode x) ms))"

definition len_octets :: "nat \<Rightarrow> byte list" where
  "len_octets n = map (\<lambda>i. of_nat (n div 256 ^ i)) [0..<8]"

definition hex_digit :: "nat \<Rightarrow> char" where
  "hex_digit n = ''0123456789abcdef'' ! n"

definition hex08 :: "UINT4 \<Rightarrow> string" where
  "hex08 w = map (\<lambda>i. hex_digit (unat (drop_bit (4 * i) w AND 15))) [7, 6, 5, 4, 3, 2, 1, 0]"

text \<open>\<open>file\<close> is the content of the file, if it can be opened; its length is what \<open>QFile::size\<close> returns.\<close>

definition get_md5_string :: "byte list option \<Rightarrow> int \<times> string option" where
  "get_md5_string file =
     (case file of
        None \<Rightarrow> (- 1, None)
      | Some content \<Rightarrow>
          let len_byte = length content; len_bit = len_byte * 8 mod 2 ^ 64; num = len_byte div 64 mod 2 ^ 32 in
          (case file_blocks num content md5_init of
             None \<Rightarrow> (- 1, None)
           | Some (rest, ms) \<Rightarrow>
               let m = len_byte mod 64 in
               (case fread1 m rest of
                  None \<Rightarrow> (- 1, None)
                | Some (x, rest) \<Rightarrow>
                    let x = (x @ replicate (64 - m) 0)[m := 128];
                        (x, ms) = (if m > 55 then (replicate 64 0, md5_calc (Decode x) ms) else (x, ms));
                        x = take 56 x @ len_octets len_bit;
                        ms = md5_calc (Decode x) ms
                    in (0, Some (concat (map (\<lambda>w. hex08 (md5_PP w)) (state_words ms)))))))"

section \<open>RFC 1321\<close>

text \<open>The transformation as the standard writes it: function, word and rotation by formulas, constants from a table.\<close>

definition rfc_fn :: "nat \<Rightarrow> UINT4 \<Rightarrow> UINT4 \<Rightarrow> UINT4 \<Rightarrow> UINT4" where
  "rfc_fn i = [md5_F, md5_G, md5_H, md5_I] ! (i div 16)"

definition rfc_word :: "nat \<Rightarrow> nat" where
  "rfc_word i = ([i, 5 * i + 1, 3 * i + 5, 7 * i] ! (i div 16)) mod 16"

definition rfc_shift :: "nat \<Rightarrow> nat" where
  "rfc_shift i = [[7, 12, 17, 22], [5, 9, 14, 20], [4, 11, 16, 23], [6, 10, 15, 21]] ! (i div 16) ! (i mod 4)"

definition rfc_T :: "nat \<Rightarrow> UINT4" where
  "rfc_T i = snd (snd (snd (md5_uses ! i)))"

definition rfc_step :: "UINT4 list \<Rightarrow> nat \<Rightarrow> md5_state \<Rightarrow> md5_state" where
  "rfc_step X i s = (case s of (a, b, c, d) \<Rightarrow>
     (d, b + word_rotl (rfc_shift i) (a + rfc_fn i b c d + X ! rfc_word i + rfc_T i), b, c))"

definition rfc_transform :: "md5_state \<Rightarrow> byte list \<Rightarrow> md5_state" where
  "rfc_transform s block = add_state s (fold (rfc_step (Decode block)) [0..<64] s)"

fun blocks :: "('s \<Rightarrow> byte list \<Rightarrow> 's) \<Rightarrow> 's \<Rightarrow> byte list \<Rightarrow> 's" where
  "blocks f s m = (if length m < 64 then s else blocks f (f s (take 64 m)) (drop 64 m))"

definition rfc_pad :: "byte list \<Rightarrow> byte list" where
  "rfc_pad m = m @ 0x80 # replicate ((119 - length m mod 64) mod 64) 0 @ len_octets (8 * length m)"

definition rfc_md5 :: "byte list \<Rightarrow> byte list" where
  "rfc_md5 m = Encode (state_words (blocks rfc_transform md5_init (rfc_pad m)))"

declare blocks.simps [simp del]

lemma ROTATE_LEFT_rotl: "0 < n \<Longrightarrow> n < 32 \<Longrightarrow> ROTATE_LEFT x n = word_rotl n x"
proof (rule bit_word_eqI)
  fix k assume n: "0 < n" "n < 32" and k: "k < LENGTH(32)"
  show "bit (ROTATE_LEFT x n) k \<longleftrightarrow> bit (word_rotl n x) k"
  proof (cases "n \<le> k")
    case True
    then have e: "k + 32 - n = k - n + 32" by simp
    have "(k + 32 - n) mod 32 = k - n" unfolding e using k n by simp
    moreover have "\<not> bit x (32 + k - n)" using True by (auto dest: bit_imp_le_length)
    ultimately show ?thesis using True n k by (simp add: ROTATE_LEFT_def bit_simps)
  next
    case False
    then have "(k + 32 - n) mod 32 = k + 32 - n" using n by simp
    then show ?thesis using False n k by (simp add: ROTATE_LEFT_def bit_simps add.commute [of 32 k])
  qed
qed

lemma uses_eq: "file_uses = md5_uses"
  by (simp add: file_uses_def md5_uses_def)

lemma uses_rfc: "md5_uses = map (\<lambda>i. ([FF, GG, HH, II] ! (i div 16), rfc_word i, rfc_shift i, rfc_T i)) [0..<64]"
  by code_simp

lemma rfc_shift_range: "i < 64 \<Longrightarrow> 0 < rfc_shift i \<and> rfc_shift i < 32"
proof -
  have "\<forall>i \<in> set [0..<64]. 0 < rfc_shift i \<and> rfc_shift i < 32" by code_simp
  then show "i < 64 \<Longrightarrow> 0 < rfc_shift i \<and> rfc_shift i < 32" by simp
qed

lemma md5_fn_rfc: "i < 64 \<Longrightarrow> md5_fn ([FF, GG, HH, II] ! (i div 16)) = rfc_fn i"
proof -
  assume "i < 64"
  then have "i div 16 < 4" by (simp add: less_mult_imp_div_less)
  then consider "i div 16 = 0" | "i div 16 = 1" | "i div 16 = 2" | "i div 16 = 3" by linarith
  then show ?thesis by cases (simp_all add: rfc_fn_def)
qed

lemma fold_cong_set: "(\<And>x s. x \<in> set xs \<Longrightarrow> f x s = g x s) \<Longrightarrow> fold f xs s = fold g xs s"
  by (induction xs arbitrary: s) auto

lemma MD5Transform_rfc: "MD5Transform s b = rfc_transform s b"
proof -
  have "md5_step x ([FF, GG, HH, II] ! (i div 16), rfc_word i, rfc_shift i, rfc_T i) t = rfc_step x i t" if "i < 64" for i x t
    using that rfc_shift_range [OF that]
    by (cases t) (simp add: rfc_step_def md5_fn_rfc ROTATE_LEFT_rotl Let_def algebra_simps)
  then have "fold (md5_step x) md5_uses t = fold (rfc_step x) [0..<64] t" for x t
    unfolding uses_rfc fold_map by (intro fold_cong_set) simp
  then show ?thesis by (simp add: MD5Transform_def rfc_transform_def)
qed

lemma md5_calc_rfc: "md5_calc (Decode b) s = rfc_transform s b"
proof -
  have "file_step x u t = md5_step x u t" for x u t
    by (cases u; cases t) (simp add: md5_RL_def ROTATE_LEFT_def Let_def algebra_simps)
  then have "fold (file_step x) file_uses t = fold (md5_step x) md5_uses t" for x t
    unfolding uses_eq by (intro fold_cong_set)
  then show ?thesis by (simp add: md5_calc_def MD5Transform_def flip: MD5Transform_rfc)
qed

section \<open>Hashing in pieces\<close>

fun tail_of :: "'a list \<Rightarrow> 'a list" where
  "tail_of m = (if length m < 64 then m else tail_of (drop 64 m))"

declare tail_of.simps [simp del]

lemma blocks_append: "blocks f s (m @ x) = blocks f (blocks f s m) (tail_of m @ x)"
proof (induction f s m rule: blocks.induct)
  case (1 f s m)
  show ?case
  proof (cases "length m < 64")
    case True
    then show ?thesis by (simp add: blocks.simps [of f s m] tail_of.simps [of m])
  next
    case False
    then have "blocks f s (m @ x) = blocks f (f s (take 64 m)) (drop 64 m @ x)" by (subst blocks.simps) simp
    then show ?thesis using False 1 by (simp add: blocks.simps [of f s m] tail_of.simps [of m])
  qed
qed

lemma tail_of_append: "tail_of (m @ x) = tail_of (tail_of m @ x)"
proof (induction m rule: tail_of.induct)
  case (1 m)
  show ?case
  proof (cases "length m < 64")
    case True
    then show ?thesis by (simp add: tail_of.simps [of m])
  next
    case False
    then have "tail_of (m @ x) = tail_of (drop 64 m @ x)" by (subst tail_of.simps) simp
    then show ?thesis using False 1 by (simp add: tail_of.simps [of m])
  qed
qed

lemma length_tail_of: "length (tail_of m) = length m mod 64"
  by (induction m rule: tail_of.induct) (subst tail_of.simps, simp add: mod_if)

lemma blocks_short: "length m < 64 \<Longrightarrow> blocks f s m = s" "length m < 64 \<Longrightarrow> tail_of m = m"
  by (simp_all add: blocks.simps tail_of.simps)

lemma blocks_long: "64 \<le> length m \<Longrightarrow> blocks f s m = blocks f (f s (take 64 m)) (drop 64 m)" "64 \<le> length m \<Longrightarrow> tail_of m = tail_of (drop 64 m)"
  by (simp_all add: blocks.simps [of f s m] tail_of.simps [of m])

section \<open>The context follows the message\<close>

definition md5_rep :: "MD5_CTX \<Rightarrow> byte list \<Rightarrow> bool" where
  "md5_rep ctx m \<longleftrightarrow> md5_state_of ctx = blocks MD5Transform md5_init m \<and> length (md5_buffer ctx) = 64 \<and>
     take (length m mod 64) (md5_buffer ctx) = tail_of m \<and>
     unat (md5_count0 ctx) + 2 ^ 32 * unat (md5_count1 ctx) = 8 * length m mod 2 ^ 64"

lemma md5_rep_init: "length junk = 64 \<Longrightarrow> md5_rep (MD5Init junk) []"
  by (simp add: md5_rep_def MD5Init_def blocks_short md5_init_def)

lemma mod_mod_low: "a + (B::nat) * b = n mod (B * C) \<Longrightarrow> a < B \<Longrightarrow> a = n mod B"
proof -
  assume e: "a + B * b = n mod (B * C)" and a: "a < B"
  have "a = (a + B * b) mod B" using a by simp
  also have "\<dots> = n mod B" unfolding e by (simp add: mod_mod_cancel)
  finally show ?thesis .
qed

lemma unat_lt32: "unat (w :: UINT4) < 2 ^ 32"
  using unsigned_less [of w] by simp

lemma md5_index_rep:
  assumes "md5_rep ctx m"
  shows "md5_index ctx = length m mod 64"
proof -
  have "unat (md5_count0 ctx) = 8 * length m mod 2 ^ 32"
    using assms unat_lt32 mod_mod_low [of "unat (md5_count0 ctx)" "2 ^ 32" "unat (md5_count1 ctx)" "8 * length m" "2 ^ 32"]
    by (simp add: md5_rep_def)
  moreover have "md5_index ctx = unat (md5_count0 ctx) div 8 mod 64"
  proof -
    have "drop_bit 3 (md5_count0 ctx) AND 0x3F = take_bit 6 (drop_bit 3 (md5_count0 ctx))"
      by (simp add: take_bit_eq_mask mask_eq_exp_minus_1)
    then have "md5_index ctx = take_bit 6 (drop_bit 3 (take_bit LENGTH(32) (unat (md5_count0 ctx))))"
      by (simp only: md5_index_def unsigned_take_bit_eq unsigned_drop_bit_eq)
    then show ?thesis using unat_lt32 [of "md5_count0 ctx"] by (simp add: take_bit_eq_mod drop_bit_eq_div)
  qed
  moreover have "8 * length m mod 2 ^ 32 div 8 mod 64 = length m mod 64"
  proof -
    have "8 * length m mod (8 * 2 ^ 29) = 8 * (length m mod 2 ^ 29)" by (rule mult_mod_right [symmetric])
    then have "8 * length m mod 2 ^ 32 div 8 = length m mod 2 ^ 29" by simp
    moreover have "length m mod 2 ^ 29 mod 64 = length m mod 64" by (rule mod_mod_cancel) simp
    ultimately show ?thesis by simp
  qed
  ultimately show ?thesis by simp
qed

lemma mod_high_low: "x < B \<Longrightarrow> (x + B * y) mod (B * C) = x + B * (y mod C)" for B :: nat
  by (simp add: mod_mult2_eq)

lemma carry_add:
  fixes B :: nat
  assumes "a < B" "b < B"
  shows "(a + b) mod B < b \<longleftrightarrow> B \<le> a + b" "(a + b) mod B = (if B \<le> a + b then a + b - B else a + b)"
  using assms by (auto simp: mod_if le_mod_geq)

text \<open>The two words of the bit count are one number of 64 bits.\<close>

lemma count_add:
  fixes c0 c1 :: UINT4
  assumes "unat c0 + 2 ^ 32 * unat c1 = k mod 2 ^ 64" "n < 2 ^ 32"
  defines "b \<equiv> push_bit 3 (of_nat n :: UINT4)"
  defines "d0 \<equiv> c0 + b"
  defines "d1 \<equiv> (if d0 < b then c1 + 1 else c1) + drop_bit 29 (of_nat n)"
  shows "unat d0 + 2 ^ 32 * unat d1 = (k + 8 * n) mod 2 ^ 64"
proof -
  let ?B = "2 ^ 32 :: nat"
  have n: "unat (of_nat n :: UINT4) = n" using assms(2) by (simp add: unat_of_nat)
  have b: "unat b = 8 * n mod ?B"
    unfolding b_def by (simp add: push_bit_eq_mult unat_word_ariths n mult.commute)
  have h: "unat (drop_bit 29 (of_nat n :: UINT4)) = 8 * n div ?B"
  proof -
    have "unat (drop_bit 29 (of_nat n :: UINT4)) = drop_bit 29 (take_bit LENGTH(32) n)" by (simp only: unsigned_drop_bit_eq n)
    then have "unat (drop_bit 29 (of_nat n :: UINT4)) = n div 2 ^ 29" using assms(2) by (simp add: take_bit_eq_mod drop_bit_eq_div)
    also have "\<dots> = (8 * n) div (8 * 2 ^ 29)" by (rule div_mult_mult1 [symmetric]) simp
    finally show ?thesis by simp
  qed
  have d0: "unat d0 = (unat c0 + unat b) mod ?B" by (simp add: d0_def unat_word_ariths)
  have bB: "unat b < ?B" by (rule unat_lt32)
  note ca = carry_add [OF unat_lt32 [of c0] bB]
  define carry where "carry = (if ?B \<le> unat c0 + unat b then 1 else 0 :: nat)"
  have cr: "d0 < b \<longleftrightarrow> carry = 1" unfolding word_less_nat_alt d0 ca(1) by (simp add: carry_def)
  have d1: "unat d1 = (unat c1 + carry + 8 * n div ?B) mod ?B"
    using cr h by (auto simp: d1_def carry_def unat_word_ariths mod_simps split: if_splits)
  have "unat d0 = (if ?B \<le> unat c0 + unat b then unat c0 + unat b - ?B else unat c0 + unat b)" unfolding d0 by (rule ca(2))
  then have "unat d0 + ?B * carry = unat c0 + unat b" by (cases "?B \<le> unat c0 + unat b") (simp_all add: carry_def del: mod_less)
  then have sum: "unat d0 + ?B * carry = unat c0 + 8 * n mod ?B" by (simp only: b)
  have "unat d0 + ?B * unat d1 = (unat d0 + ?B * (unat c1 + carry + 8 * n div ?B)) mod (?B * ?B)"
    unfolding d1 by (rule mod_high_low [OF unat_lt32, symmetric])
  also have "unat d0 + ?B * (unat c1 + carry + 8 * n div ?B) = unat c0 + ?B * unat c1 + 8 * n"
    using sum mult_div_mod_eq [of ?B "8 * n"] by (simp only: distrib_left)
  also have "(unat c0 + ?B * unat c1 + 8 * n) mod (?B * ?B) = (k + 8 * n) mod 2 ^ 64"
    unfolding assms(1) by (simp add: mod_simps)
  finally show ?thesis .
qed

lemma md5_loop_blocks:
  assumes "i \<le> length input" "length input < 2 ^ 32 - 63"
  shows "\<exists>j. md5_loop input i st = Some (j, blocks MD5Transform st (drop i input)) \<and> drop j input = tail_of (drop i input) \<and> j \<le> length input"
  using assms
proof (induction "length input - i" arbitrary: i st rule: less_induct)
  case less
  have w: "(i + 63) mod 2 ^ 32 = i + 63" using less.prems by simp
  show ?case
  proof (cases "i + 63 < length input")
    case True
    then have m: "(i + 64) mod 2 ^ 32 = i + 64" using less.prems by simp
    have "length input - (i + 64) < length input - i" "i + 64 \<le> length input" using True by auto
    from less.hyps [OF this less.prems(2), of "MD5Transform st (take 64 (drop i input))"] obtain j where
      j: "md5_loop input (i + 64) (MD5Transform st (take 64 (drop i input))) =
          Some (j, blocks MD5Transform (MD5Transform st (take 64 (drop i input))) (drop (i + 64) input))"
        "drop j input = tail_of (drop (i + 64) input)" "j \<le> length input" by blast
    have l: "64 \<le> length (drop i input)" using True by simp
    have "md5_loop input i st = Some (j, blocks MD5Transform st (drop i input))"
      using True w m j(1) by (subst md5_loop.simps) (simp add: blocks_long(1) [OF l] add.commute)
    moreover have "drop j input = tail_of (drop i input)" using j(2) by (simp add: blocks_long(2) [OF l] add.commute)
    ultimately show ?thesis using j(3) by blast
  next
    case False
    then have l: "length (drop i input) < 64" using less.prems by simp
    have "md5_loop input i st = Some (i, st)" using False w by (subst md5_loop.simps) simp
    then show ?thesis using less.prems(1) by (simp add: blocks_short [OF l])
  qed
qed

lemma length_MD5_memcpy: "i + length inp \<le> length out \<Longrightarrow> length (MD5_memcpy out i inp) = length out"
  by (simp add: MD5_memcpy_def)

lemma take_MD5_memcpy: "take (length inp) (MD5_memcpy out 0 inp) = inp"
  by (simp add: MD5_memcpy_def)

lemma MD5Update_rep:
  assumes rep: "md5_rep ctx m" and n: "length input < 2 ^ 32 - 63"
  shows "\<exists>ctx'. MD5Update input ctx = Some ctx' \<and> md5_rep ctx' (m @ input)"
proof -
  let ?i = "length m mod 64"
  have idx: "md5_index ctx = ?i" by (rule md5_index_rep [OF rep])
  have buf: "length (md5_buffer ctx) = 64" "take ?i (md5_buffer ctx) = tail_of m" "md5_state_of ctx = blocks MD5Transform md5_init m"
    using rep by (auto simp: md5_rep_def)
  define c0 where "c0 = md5_count0 ctx + push_bit 3 (of_nat (length input))"
  define c1 where "c1 = (if c0 < push_bit 3 (of_nat (length input)) then md5_count1 ctx + 1 else md5_count1 ctx) + drop_bit 29 (of_nat (length input))"
  have cnt: "unat c0 + 2 ^ 32 * unat c1 = 8 * length (m @ input) mod 2 ^ 64"
    using count_add [of "md5_count0 ctx" "md5_count1 ctx" "8 * length m" "length input"] rep n
    by (simp add: md5_rep_def c0_def c1_def distrib_left)
  have st: "blocks MD5Transform md5_init (m @ input) = blocks MD5Transform (md5_state_of ctx) (tail_of m @ input)"
    using buf(3) by (simp add: blocks_append [of _ _ m])
  have tl: "tail_of (m @ input) = tail_of (tail_of m @ input)" by (rule tail_of_append)
  have len: "length (tail_of m) = ?i" "?i < 64" by (simp_all add: length_tail_of)
  show ?thesis
  proof (cases "64 - ?i \<le> length input")
    case True
    let ?buffer = "MD5_memcpy (md5_buffer ctx) ?i (take (64 - ?i) input)"
    have b: "?buffer = tail_of m @ take (64 - ?i) input" using True buf len by (simp add: MD5_memcpy_def min_def)
    obtain j where j: "md5_loop input (64 - ?i) (MD5Transform (md5_state_of ctx) ?buffer) =
        Some (j, blocks MD5Transform (MD5Transform (md5_state_of ctx) ?buffer) (drop (64 - ?i) input))"
        "drop j input = tail_of (drop (64 - ?i) input)" "j \<le> length input"
      using md5_loop_blocks [OF True n] by blast
    have l: "64 \<le> length (tail_of m @ input)" using True len by simp
    have cut: "take 64 (tail_of m @ input) = ?buffer" "drop 64 (tail_of m @ input) = drop (64 - ?i) input" using b len by simp_all
    have s': "blocks MD5Transform md5_init (m @ input) = blocks MD5Transform (MD5Transform (md5_state_of ctx) ?buffer) (drop (64 - ?i) input)"
      unfolding st blocks_long(1) [OF l] cut ..
    have t': "tail_of (m @ input) = drop j input" unfolding tl blocks_long(2) [OF l] cut j(2) ..
    have lj: "length (drop j input) = (length m + length input) mod 64"
      using length_tail_of [of "m @ input"] unfolding t' [symmetric] by simp
    let ?ctx = "ctx\<lparr>md5_count0 := c0, md5_count1 := c1,
        md5_state_of := blocks MD5Transform (MD5Transform (md5_state_of ctx) ?buffer) (drop (64 - ?i) input),
        md5_buffer := MD5_memcpy ?buffer 0 (drop j input)\<rparr>"
    have "MD5Update input ctx = Some ?ctx"
      using True j(1) idx by (simp add: MD5Update_def Let_def c0_def c1_def)
    moreover have "md5_rep ?ctx (m @ input)"
    proof -
      have "length ?buffer = 64" using b len True by simp
      moreover have "length (drop j input) < 64" unfolding lj by simp
      ultimately have "length (MD5_memcpy ?buffer 0 (drop j input)) = 64" by (simp add: length_MD5_memcpy)
      moreover have "take ((length m + length input) mod 64) (MD5_memcpy ?buffer 0 (drop j input)) = drop j input"
        unfolding lj [symmetric] by (rule take_MD5_memcpy)
      ultimately show ?thesis using cnt s' t' by (simp add: md5_rep_def)
    qed
    ultimately show ?thesis by blast
  next
    case False
    then have l: "length (tail_of m @ input) < 64" using len by simp
    let ?ctx = "ctx\<lparr>md5_count0 := c0, md5_count1 := c1, md5_buffer := MD5_memcpy (md5_buffer ctx) ?i input\<rparr>"
    have "MD5Update input ctx = Some ?ctx" using False idx by (simp add: MD5Update_def Let_def c0_def c1_def)
    moreover have "md5_rep ?ctx (m @ input)"
    proof -
      have "tail_of (m @ input) = tail_of m @ input" unfolding tl by (rule blocks_short(2) [OF l])
      moreover from this have "(length m + length input) mod 64 = ?i + length input" using length_tail_of [of "m @ input"] len by simp
      ultimately show ?thesis using cnt st buf len False by (simp add: md5_rep_def MD5_memcpy_def blocks_short(1) [OF l])
    qed
    ultimately show ?thesis by blast
  qed
qed

text \<open>Padding and length as the standard wants them.\<close>

lemma byte_of_word: "ucast (drop_bit j w AND 0xff) = (of_nat (drop_bit j (unat w)) :: byte)" for w :: UINT4
proof -
  have "ucast (drop_bit j w AND 0xff) = (ucast (drop_bit j w) :: byte)"
    by (rule bit_word_eqI) (auto simp: bit_simps nat_eq_iff less_Suc_eq numeral_eq_Suc)
  also have "\<dots> = of_nat (unat (drop_bit j w))" by simp
  also have "unat (drop_bit j w) = drop_bit j (unat w)" using unat_lt32 [of w] by (simp add: unsigned_drop_bit_eq take_bit_nat_eq_self)
  finally show ?thesis .
qed

lemma byte_take: "k + 8 \<le> n \<Longrightarrow> (of_nat (drop_bit k (take_bit n a)) :: byte) = of_nat (drop_bit k a)"
proof -
  assume "k + 8 \<le> n"
  then have "min 8 (n - k) = 8" by simp
  then show ?thesis by (simp add: word_of_nat_eq_iff drop_bit_take_bit)
qed

lemma Encode_count:
  assumes "unat c0 + 2 ^ 32 * unat c1 = n mod 2 ^ 64"
  shows "Encode [c0, c1] = len_octets n"
proof -
  have c0: "unat c0 = take_bit 32 n"
    using mod_mod_low [of "unat c0" "2 ^ 32" "unat c1" n "2 ^ 32"] assms unat_lt32 [of c0] by (simp add: take_bit_eq_mod)
  have "unat c1 = (n mod 2 ^ 64) div 2 ^ 32" using unat_lt32 [of c0] unfolding assms [symmetric] by simp
  then have "unat c1 = drop_bit 32 (take_bit 64 n)" by (simp only: take_bit_eq_mod drop_bit_eq_div)
  then have c1: "unat c1 = take_bit 32 (drop_bit 32 n)" by (simp add: drop_bit_take_bit)
  have le: "len_octets n = map (\<lambda>i. of_nat (drop_bit (8 * i) n)) [0, 1, 2, 3, 4, 5, 6, 7]"
    by (simp add: len_octets_def upt_rec drop_bit_eq_div power_mult)
  have c0': "c0 AND 0xff = drop_bit 0 c0 AND 0xff" "c1 AND 0xff = drop_bit 0 c1 AND 0xff" by simp_all
  show ?thesis
    unfolding le Encode.simps c0' byte_of_word c0 c1 by (simp add: byte_take del: drop_bit_0) 
qed

lemma MD5Final_rfc:
  assumes "md5_rep ctx m"
  shows "MD5Final ctx = Some (rfc_md5 m)"
proof -
  let ?i = "length m mod 64" and ?bits = "Encode [md5_count0 ctx, md5_count1 ctx]"
  define p where "p = (if ?i < 56 then 56 - ?i else 120 - ?i)"
  have p: "0 < p" "p \<le> 64" by (auto simp: p_def)
  have pad: "take p PADDING = 0x80 # replicate (p - 1) 0" using p by (cases p) (auto simp: PADDING_def)
  have z: "p - 1 = (119 - ?i) mod 64"
  proof (cases "?i < 56")
    case True
    then have e: "119 - ?i = 55 - ?i + 64" by simp
    have "(119 - ?i) mod 64 = 55 - ?i" unfolding e by simp
    then show ?thesis using True by (simp add: p_def)
  qed (simp add: p_def)
  have bits: "?bits = len_octets (8 * length m)" using assms by (intro Encode_count) (simp add: md5_rep_def)
  obtain c1 where c1: "MD5Update (take p PADDING) ctx = Some c1" "md5_rep c1 (m @ take p PADDING)"
  proof -
    have "length (take p PADDING) < 2 ^ 32 - 63" using p by (simp add: PADDING_def)
    from MD5Update_rep [OF assms this] show thesis using that by blast
  qed
  obtain c2 where c2: "MD5Update ?bits c1 = Some c2" "md5_rep c2 ((m @ take p PADDING) @ ?bits)"
    using MD5Update_rep [OF c1(2), of ?bits] by auto
  have "(m @ take p PADDING) @ ?bits = rfc_pad m" unfolding rfc_pad_def pad z bits by simp
  then have "md5_state_of c2 = blocks rfc_transform md5_init (rfc_pad m)"
    using c2(2) by (simp add: md5_rep_def MD5Transform_rfc [abs_def])
  then show ?thesis
    using c1(1) c2(1) by (simp add: MD5Final_def md5_index_rep [OF assms] Let_def rfc_md5_def del: Encode.simps flip: p_def)
qed

lemma MD5_runs:
  assumes "length input < 2 ^ 32 - 63" "length junk = 64"
  shows "Option.bind (MD5Update input (MD5Init junk)) MD5Final = Some (rfc_md5 input)"
proof -
  obtain c where c: "MD5Update input (MD5Init junk) = Some c" "md5_rep c ([] @ input)"
    using MD5Update_rep [OF md5_rep_init [OF assms(2)] assms(1)] by blast
  then show ?thesis using MD5Final_rfc [OF c(2)] by simp
qed

text \<open>The first 64 bits of the digest, as \<open>MD5Bits64\<close> returns them.\<close>

definition digest64 :: "byte list \<Rightarrow> 64 word" where
  "digest64 input = ucast (Decode (rfc_md5 input) ! 0) OR push_bit 32 (ucast (Decode (rfc_md5 input) ! 1))"

lemma MD5Bits64_digest: "input \<noteq> [] \<Longrightarrow> length input < 2 ^ 32 - 63 \<Longrightarrow> length junk = 64 \<Longrightarrow> MD5Bits64 junk input = Some (digest64 input)"
  by (simp add: MD5Bits64_def MD5Bits128_def MD5_runs digest64_def)



text \<open>The digest of the empty input is not that of the standard.\<close>

lemma MD5Bits128_empty: "MD5Bits128 junk [] = Some (replicate 16 0)"
  by (simp add: MD5Bits128_def)

section \<open>The digest of a file\<close>

lemma file_blocks_spec:
  "64 * n \<le> length m \<Longrightarrow> length m < 64 * Suc n \<Longrightarrow>
     file_blocks n m s = Some (tail_of m, blocks rfc_transform s m)"
proof (induction n arbitrary: m s)
  case 0
  then show ?case by (simp add: blocks_short)
next
  case (Suc n)
  then have l: "64 \<le> length m" by simp
  have "file_blocks n (drop 64 m) (rfc_transform s (take 64 m)) = Some (tail_of (drop 64 m), blocks rfc_transform (rfc_transform s (take 64 m)) (drop 64 m))"
    by (rule Suc.IH) (use Suc.prems in auto)
  then show ?case using l by (simp add: fread1_def md5_calc_rfc blocks_long [OF l])
qed

text \<open>The hexadecimal digits of a word with its bytes exchanged are those of its bytes in their order.\<close>

definition hex_byte :: "byte \<Rightarrow> string" where
  "hex_byte b = [hex_digit (unat b div 16), hex_digit (unat b mod 16)]"

lemma nibble_eq:
  fixes x y :: UINT4
  assumes "\<forall>k \<in> {0, 1, 2, 3}. bit x (i + k) = bit y (j + k)"
  shows "drop_bit i x AND 15 = drop_bit j y AND 15"
proof -
  have "take_bit 4 (drop_bit i x) = take_bit 4 (drop_bit j y)"
  proof (rule bit_word_eqI)
    fix k
    show "bit (take_bit 4 (drop_bit i x)) k = bit (take_bit 4 (drop_bit j y)) k"
    proof (cases "k < 4")
      case True
      then have "k \<in> {0, 1, 2, 3}" by auto
      with assms have "bit x (i + k) = bit y (j + k)" by blast
      then show ?thesis using True by (simp add: bit_take_bit_iff bit_drop_bit_eq)
    qed (simp add: bit_take_bit_iff)
  qed
  then show ?thesis by (simp add: take_bit_eq_mask mask_eq_exp_minus_1)
qed

lemma nibble_val: "unat (drop_bit i w AND 15) = unat w div 2 ^ i mod 16" for w :: UINT4
proof -
  have "drop_bit i w AND 15 = take_bit 4 (drop_bit i w)" by (simp add: take_bit_eq_mask mask_eq_exp_minus_1)
  then have "unat (drop_bit i w AND 15) = take_bit 4 (drop_bit i (take_bit LENGTH(32) (unat w)))"
    by (simp only: unsigned_take_bit_eq unsigned_drop_bit_eq)
  then show ?thesis using unat_lt32 [of w] by (simp add: take_bit_eq_mod drop_bit_eq_div)
qed

lemma hex_byte_word: "hex_byte (ucast (drop_bit j w AND 0xff)) = [hex_digit (unat (drop_bit (j + 4) w AND 15)), hex_digit (unat (drop_bit j w AND 15))]"
  for w :: UINT4
proof -
  have u: "unat (ucast (drop_bit j w AND 0xff) :: byte) = unat w div 2 ^ j mod 256"
    unfolding byte_of_word by (simp add: unat_of_nat drop_bit_eq_div)
  have "x mod 256 div 16 = x div 16 mod 16" for x :: nat
    using mod_mult2_eq [of x 16 16] by simp
  moreover have "x mod 256 mod 16 = x mod 16" for x :: nat by (simp add: mod_mod_cancel)
  ultimately show ?thesis
    unfolding hex_byte_def u nibble_val by (simp add: power_add flip: div_mult2_eq)
qed

lemma hex08_PP: "hex08 (md5_PP w) = concat (map hex_byte (Encode [w]))"
proof -
  have hi: "\<not> bit w n" if "32 \<le> n" for n using that by (auto dest: bit_imp_le_length)
  have n: "drop_bit (4 * 7) (md5_PP w) AND 15 = drop_bit 4 w AND 15" "drop_bit (4 * 6) (md5_PP w) AND 15 = drop_bit 0 w AND 15"
    "drop_bit (4 * 5) (md5_PP w) AND 15 = drop_bit 12 w AND 15" "drop_bit (4 * 4) (md5_PP w) AND 15 = drop_bit 8 w AND 15"
    "drop_bit (4 * 3) (md5_PP w) AND 15 = drop_bit 20 w AND 15" "drop_bit (4 * 2) (md5_PP w) AND 15 = drop_bit 16 w AND 15"
    "drop_bit (4 * 1) (md5_PP w) AND 15 = drop_bit 28 w AND 15" "drop_bit (4 * 0) (md5_PP w) AND 15 = drop_bit 24 w AND 15"
    by (rule nibble_eq; simp add: md5_PP_def bit_or_iff bit_and_iff bit_push_bit_iff bit_drop_bit_eq hi)+
  have z: "w AND 0xff = drop_bit 0 w AND 0xff" by simp
  show ?thesis
    unfolding hex08_def Encode.simps z list.map n concat.simps hex_byte_word by simp
qed

lemma length_len_octets [simp]: "length (len_octets n) = 8"
  by (simp add: len_octets_def)

lemma len_octets_mod: "len_octets (n mod 2 ^ 64) = len_octets n"
proof -
  have "(of_nat (n mod 2 ^ 64 div 256 ^ i) :: byte) = of_nat (n div 256 ^ i)" if "i < 8" for i
  proof -
    have "(256 :: nat) ^ i = 2 ^ (8 * i)" by (simp add: power_mult)
    then show ?thesis using byte_take [of "8 * i" 64 n] that by (simp add: take_bit_eq_mod drop_bit_eq_div)
  qed
  then show ?thesis by (simp add: len_octets_def)
qed

lemma blocks_first: "length a = 64 \<Longrightarrow> blocks f s (a @ b) = blocks f (f s a) b"
  by (subst blocks.simps) simp

text \<open>The last one or two blocks of the padded message.\<close>

lemma blocks_pad:
  assumes "m = length x" "m < 64"
  shows "blocks f s (x @ 0x80 # replicate ((119 - m) mod 64) 0 @ len_octets n) =
    (let y = (x @ replicate (64 - m) 0)[m := 128];
         (y, s) = (if m > 55 then (replicate 64 0, f s y) else (y, s))
     in f s (take 56 y @ len_octets n))"
proof -
  have "64 - m = Suc (63 - m)" using assms by simp
  then have y: "(x @ replicate (64 - m) 0)[m := 128] = x @ 0x80 # replicate (63 - m) 0"
    using assms by (simp add: list_update_append)
  show ?thesis
  proof (cases "m > 55")
    case True
    let ?msg = "x @ 0x80 # replicate ((119 - m) mod 64) 0 @ len_octets n"
    have z: "(119 - m) mod 64 = (63 - m) + 56" using True assms by simp
    have e: "?msg = (x @ 0x80 # replicate (63 - m) 0) @ (replicate 56 0 @ len_octets n)" unfolding z by (simp add: replicate_add)
    have l: "length (x @ 0x80 # replicate (63 - m) 0) = 64" using assms by simp
    have "blocks f s ?msg = blocks f (f s (x @ 0x80 # replicate (63 - m) 0)) (replicate 56 0 @ len_octets n)"
      unfolding e by (rule blocks_first [OF l])
    also have "\<dots> = f (f s (x @ 0x80 # replicate (63 - m) 0)) (replicate 56 0 @ len_octets n)"
      by (subst blocks_long(1)) (simp_all add: blocks_short)
    finally show ?thesis using True by (simp add: y)
  next
    case False
    let ?msg = "x @ 0x80 # replicate ((119 - m) mod 64) 0 @ len_octets n"
    have e: "119 - m = 55 - m + 64" using False by simp
    have z: "(119 - m) mod 64 = 55 - m" unfolding e by simp
    have l: "length ?msg = 64" unfolding z using False assms by simp
    have "take 56 (x @ 0x80 # replicate (63 - m) 0) @ len_octets n = ?msg" unfolding z using False assms by (simp add: take_Cons')
    moreover have "blocks f s ?msg = f s ?msg" using l by (subst blocks_long(1)) (auto simp: blocks_short)
    ultimately show ?thesis using False by (simp add: y)
  qed
qed



end
