(* ===== verification/StrIDAllocator.thy ===== *)
theory StrIDAllocator
  imports HashSearch Serialization Md5
begin

text \<open>
  \<open>QStrIDAllocator\<close> of \<^verbatim>\<open>src/common/qstridallocator.h\<close>: numbers for strings, kept in memory and in a file from which a
  restarted process gets them back.  The records are pieces of a \<open>QAllocator\<close>, found by number through an array
  and by the first 64 bits of the MD5 digest through a \<open>QHashSearch\<close>.  \<open>sid_mem\<close> is what has been written to a piece.
  The file is the list of its octets; the object writes at its end.  A call runs under the object's mutex and is one step.
\<close>

section \<open>The object\<close>

record QStrIDAllocator =
  sid_max :: int
  sid_cur :: int
  sid_file_len :: int
  sid_i2s :: "addr option list"
  sid_s2i :: "addr QHashSearch"
  sid_alloc :: QAllocator
  sid_mem :: "addr \<Rightarrow> octets option"

datatype sid_error = Overrun | Assert_Failed | Wild_Read | No_Digest | Table_Error hs_error | Piece_Error alloc_error

text \<open>
  The environment of a call: whether the allocators of the pieces and of the nodes get the memory they ask for, and how
  much reaches the file when the write or the flush fails.
\<close>

record sid_env =
  piece_ok :: "bool \<times> bool"
  node_ok :: "bool \<times> bool"
  write_cut :: "nat option"
  flush_cut :: "nat option"

definition calm :: sid_env where
  "calm = \<lparr>piece_ok = (True, True), node_ok = (True, True), write_cut = None, flush_cut = None\<rparr>"

text \<open>The members with constructors; \<open>init\<close> sets the numbers before they are read.\<close>

definition QStrIDAllocator_new :: "(addr \<Rightarrow> addr HashNode) \<Rightarrow> QStrIDAllocator" where
  "QStrIDAllocator_new junk = \<lparr>sid_max = 0, sid_cur = 0, sid_file_len = 0, sid_i2s = [], sid_s2i = QHashSearch_new junk,
     sid_alloc = QAllocator_new 2000 1048576, sid_mem = Map.empty\<rparr>"

definition record_id :: "octets \<Rightarrow> int" where
  "record_id buf = uint (le_val (take 4 buf) :: 32 word)"

definition record_md5 :: "octets \<Rightarrow> 64 word" where
  "record_md5 buf = le_val (take 8 (drop 4 buf))"

definition record_len :: "octets \<Rightarrow> 32 word" where
  "record_len buf = le_val (take 4 (drop 12 buf))"

text \<open>The eight octets of \<open>!@#$$#@!\<close> end a record.\<close>

definition marker :: octets where
  "marker = [0x21, 0x40, 0x23, 0x24, 0x24, 0x23, 0x40, 0x21]"

definition make_record :: "int \<Rightarrow> 64 word \<Rightarrow> octets \<Rightarrow> octets" where
  "make_record i md5 str =
     le_bytes 4 (word_of_int i :: 32 word) @ le_bytes 8 md5 @ le_bytes 4 (of_nat (length str) :: 32 word) @ str @ marker"

section \<open>Loading the file\<close>

text \<open>One pass of the loop of \<open>init\<close>: the code, the rest of the file and the object.\<close>

definition load_record :: "sid_env \<Rightarrow> octets \<Rightarrow> QStrIDAllocator \<Rightarrow> (sid_error + int \<times> octets \<times> QStrIDAllocator) option" where
  "load_record env file s =
     (let read_buf = take 16 file; len = sint (record_len read_buf); size = s32 (16 + len + 8)
      in case QAllocator_alloc (fst (piece_ok env)) (snd (piece_ok env)) size (sid_alloc s) of
           Inl e \<Rightarrow> Some (Inl (Piece_Error e))
         | Inr (None, al) \<Rightarrow> Some (Inr (- 6, drop 16 file, s\<lparr>sid_alloc := al\<rparr>))
         | Inr (Some ptr, al) \<Rightarrow>
             if len + 8 < 0 \<or> size < 16 + (len + 8) then Some (Inl Overrun)
             else
               let n = nat (len + 8); body = take n (drop 16 file); rest = drop (16 + n) file;
                   s = s\<lparr>sid_alloc := al, sid_mem := (sid_mem s)(ptr \<mapsto> read_buf @ body)\<rparr>
               in if n = 0 \<or> length body < n then Some (Inr (- 7, rest, s))
                  else if sid_cur s \<noteq> record_id read_buf then Some (Inl Assert_Failed)
                  else Option.bind (addKey_FL (fst (node_ok env)) (snd (node_ok env)) (uint (record_md5 read_buf)) (Some [ptr]) (- 1) (sid_s2i s))
                    (\<lambda>r. case r of
                       Inl e \<Rightarrow> Some (Inl (Table_Error e))
                     | Inr (c, _, m) \<Rightarrow>
                         if c < 0 then Some (Inr (- 8, rest, s\<lparr>sid_s2i := m\<rparr>))
                         else if sid_cur s \<ge> sid_max s then Some (Inl Overrun)
                         else Some (Inr (0, rest, s\<lparr>sid_s2i := m, sid_i2s := aset (sid_i2s s) (sid_cur s) (Some ptr),
                                                   sid_cur := sid_cur s + 1, sid_file_len := sid_file_len s + size\<rparr>))))"

partial_function (option) load_records :: "(int \<Rightarrow> sid_env) \<Rightarrow> octets \<Rightarrow> QStrIDAllocator \<Rightarrow> (sid_error + int \<times> octets \<times> QStrIDAllocator) option" where
  "load_records env file s =
     (if length file < 16 then Some (Inr (0, file, s))
      else Option.bind (load_record (env (sid_cur s)) file s) (\<lambda>r. case r of
        Inl e \<Rightarrow> Some (Inl e)
      | Inr (c, rest, s') \<Rightarrow> if c \<noteq> 0 then Some (Inr (c, rest, s')) else load_records env rest s'))"

text \<open>
  The booleans say whether the array, the table, its allocator and the file stream are there; \<open>disk\<close> is the file, if it
  exists.  At the end \<open>ftell\<close> is the length of the file, also when octets are left that are no record.
\<close>

definition StrID_init :: "(int \<Rightarrow> sid_env) \<Rightarrow> bool \<Rightarrow> bool \<Rightarrow> bool \<Rightarrow> bool \<Rightarrow> int \<Rightarrow> string option \<Rightarrow> octets option \<Rightarrow> QStrIDAllocator \<Rightarrow>
    (sid_error + int \<times> QStrIDAllocator \<times> octets option) option" where
  "StrID_init env map_ok table_ok nodes_ok fopen_ok max_str_num save_file disk s =
     (case save_file of
        None \<Rightarrow> Some (Inr (- 1, s, disk))
      | Some path \<Rightarrow>
          if max_str_num = 0 then Some (Inr (- 1, s, disk))
          else if 256 \<le> length path then Some (Inl Overrun)
          else if \<not> map_ok then Some (Inr (- 2, s\<lparr>sid_max := max_str_num\<rparr>, disk))
          else
            let hash_size = s32 (max_str_num div 2 + 1);
                (r, m) = QHashSearch_init (table_ok \<and> 0 \<le> hash_size) nodes_ok 8 hash_size PTR (sid_s2i s);
                s = s\<lparr>sid_max := max_str_num, sid_i2s := replicate (nat max_str_num) None, sid_s2i := m\<rparr>
            in if r \<noteq> 0 then Some (Inr (- 3, s, disk))
               else
                 let s = s\<lparr>sid_file_len := 0, sid_cur := 0\<rparr> in
                 case disk of
                   None \<Rightarrow> if fopen_ok then Some (Inr (0, s, Some [])) else Some (Inr (- 4, s, None))
                 | Some file \<Rightarrow>
                     if \<not> fopen_ok then Some (Inr (- 5, s, disk))
                     else Option.bind (load_records env file s) (\<lambda>r. case r of
                       Inl e \<Rightarrow> Some (Inl e)
                     | Inr (c, _, s) \<Rightarrow>
                         if c \<noteq> 0 then Some (Inr (c, s, disk))
                         else if sid_file_len s \<noteq> int (length file) then Some (Inl Assert_Failed)
                         else Some (Inr (0, s, disk))))"

section \<open>Strings and numbers\<close>

text \<open>A record in memory is written to the file and entered in the table and the array.\<close>

definition store_record :: "sid_env \<Rightarrow> 64 word \<Rightarrow> octets \<Rightarrow> int \<Rightarrow> addr \<Rightarrow> QStrIDAllocator \<Rightarrow> octets \<Rightarrow>
    (sid_error + int \<times> int option \<times> QStrIDAllocator \<times> octets) option" where
  "store_record env md5 rec sz buf s file =
     (case write_cut env of
        Some k \<Rightarrow> Some (Inr (- 4, None, s, file @ take k rec))
      | None \<Rightarrow>
          (case flush_cut env of
             Some k \<Rightarrow> Some (Inr (- 5, None, s, file @ take k rec))
           | None \<Rightarrow>
               Option.bind (addKey_FL (fst (node_ok env)) (snd (node_ok env)) (uint md5) (Some [buf]) (- 1) (sid_s2i s)) (\<lambda>r. case r of
                 Inl e \<Rightarrow> Some (Inl (Table_Error e))
               | Inr (c, _, m) \<Rightarrow>
                   if c \<noteq> 0 then Some (Inr (- 6, None, s\<lparr>sid_s2i := m\<rparr>, file @ rec))
                   else Some (Inr (0, Some (sid_cur s),
                     s\<lparr>sid_s2i := m, sid_i2s := aset (sid_i2s s) (sid_cur s) (Some buf),
                       sid_cur := sid_cur s + 1, sid_file_len := sid_file_len s + sz\<rparr>, file @ rec)))))"

text \<open>The code, the number if it is assigned, the object and the file.  \<open>junk\<close> is what the buffer of the digest held before.\<close>

definition str2id :: "sid_env \<Rightarrow> octets \<Rightarrow> octets option \<Rightarrow> QStrIDAllocator \<Rightarrow> octets \<Rightarrow>
    (sid_error + int \<times> int option \<times> QStrIDAllocator \<times> octets) option" where
  "str2id env junk str s file =
     (case str of
        None \<Rightarrow> Some (Inr (- 1, None, s, file))
      | Some str \<Rightarrow>
          if str = [] then Some (Inr (- 1, None, s, file))
          else case MD5Bits64 junk str of
            None \<Rightarrow> Some (Inl No_Digest)
          | Some md5 \<Rightarrow>
              Option.bind (searchKey_FL (uint md5) (- 1) (sid_s2i s)) (\<lambda>r. case r of
                Inl e \<Rightarrow> Some (Inl (Table_Error e))
              | Inr (c, val) \<Rightarrow>
                  if c = 0 then
                    (case Option.bind val (\<lambda>a. sid_mem s (hd (hn_data (hs_mem (sid_s2i s) a)))) of
                       None \<Rightarrow> Some (Inl Wild_Read)
                     | Some buf \<Rightarrow> Some (Inr (1, Some (record_id buf), s, file)))
                  else if sid_cur s \<ge> sid_max s then Some (Inr (- 2, None, s, file))
                  else
                    let size = (4 + 8 + 4 + int (length str) + 8) mod 2 ^ 32
                    in case QAllocator_alloc (fst (piece_ok env)) (snd (piece_ok env)) size (sid_alloc s) of
                         Inl e \<Rightarrow> Some (Inl (Piece_Error e))
                       | Inr (None, al) \<Rightarrow> Some (Inr (- 3, None, s\<lparr>sid_alloc := al\<rparr>, file))
                       | Inr (Some buf, al) \<Rightarrow>
                           if size < 24 + int (length str) then Some (Inl Overrun)
                           else
                             let rec = make_record (sid_cur s) md5 str
                             in store_record env md5 rec size buf (s\<lparr>sid_alloc := al, sid_mem := (sid_mem s)(buf \<mapsto> rec)\<rparr>) file))"

definition id2str :: "int \<Rightarrow> QStrIDAllocator \<Rightarrow> sid_error + int \<times> (octets \<times> 64 word) option" where
  "id2str i s =
     (if i \<ge> sid_cur s then Inr (- 1, None)
      else case aget (sid_i2s s) i of
        None \<Rightarrow> Inr (- 2, None)
      | Some p \<Rightarrow>
          (case sid_mem s p of
             None \<Rightarrow> Inl Wild_Read
           | Some buf \<Rightarrow>
               if i \<noteq> record_id buf then Inl Assert_Failed
               else Inr (0, Some (take (unat (record_len buf)) (drop 16 buf), record_md5 buf))))"

section \<open>Records\<close>

abbreviation record_of :: "nat \<Rightarrow> 64 word \<times> octets \<Rightarrow> octets" where
  "record_of i x \<equiv> make_record (int i) (fst x) (snd x)"

lemma length_make_record [simp]: "length (make_record i d str) = 24 + length str"
  by (simp add: make_record_def marker_def)

lemma uint32_of_int: "0 \<le> i \<Longrightarrow> i < 2 ^ 32 \<Longrightarrow> uint (word_of_int i :: 32 word) = i"
  by (simp add: uint_word_of_int_eq take_bit_int_eq_self)

lemma record_parts:
  "record_md5 (take 16 (make_record i d str @ g)) = d" "record_len (take 16 (make_record i d str @ g)) = of_nat (length str)"
  "0 \<le> i \<Longrightarrow> i < 2 ^ 32 \<Longrightarrow> record_id (take 16 (make_record i d str @ g)) = i"
  by (simp_all add: make_record_def record_md5_def record_len_def record_id_def le_val_bytes uint32_of_int)

lemma record_parts':
  "record_md5 (make_record i d str) = d" "record_len (make_record i d str) = of_nat (length str)"
  "0 \<le> i \<Longrightarrow> i < 2 ^ 32 \<Longrightarrow> record_id (make_record i d str) = i"
  "length str < 2 ^ 32 \<Longrightarrow> take (unat (of_nat (length str) :: 32 word)) (drop 16 (make_record i d str)) = str"
  by (simp_all add: make_record_def record_md5_def record_len_def record_id_def le_val_bytes uint32_of_int unat_of_nat take_bit_nat_eq_self)

section \<open>What a call does, with the state of the allocators\<close>

definition find_id :: "64 word \<Rightarrow> (64 word \<times> octets) list \<Rightarrow> nat option" where
  "find_id d xs = find (\<lambda>i. fst (xs ! i) = d) [0..<length xs]"

text \<open>The strings with their digests, in the order of their numbers, and the two allocators.\<close>

record ids =
  id_strings :: "(64 word \<times> octets) list"
  id_pieces :: QAllocator
  id_nodes :: QAllocatorRecycle

definition piece :: "sid_env \<Rightarrow> octets \<Rightarrow> QAllocator \<Rightarrow> addr option \<times> QAllocator" where
  "piece env str al = projr (QAllocator_alloc (fst (piece_ok env)) (snd (piece_ok env)) (24 + int (length str)) al)"

definition new_node :: "sid_env \<Rightarrow> QAllocatorRecycle \<Rightarrow> addr option \<times> QAllocatorRecycle" where
  "new_node env rc = projr (rc_alloc (fst (node_ok env)) (snd (node_ok env)) rc)"

definition cut :: "sid_env \<Rightarrow> octets \<Rightarrow> octets" where
  "cut env rec = (case write_cut env of Some k \<Rightarrow> take k rec | None \<Rightarrow> (case flush_cut env of Some k \<Rightarrow> take k rec | None \<Rightarrow> rec))"

text \<open>The code, the number, what is written to the file, and the new state.\<close>

definition ids_str2id :: "sid_env \<Rightarrow> int \<Rightarrow> octets option \<Rightarrow> ids \<Rightarrow> int \<times> int option \<times> octets \<times> ids" where
  "ids_str2id env mx str t =
     (let xs = id_strings t; st = the str; d = digest64 st; rec = record_of (length xs) (d, st);
          (p, al) = piece env st (id_pieces t); t1 = t\<lparr>id_pieces := al\<rparr>;
          (q, rc) = new_node env (id_nodes t); t2 = t1\<lparr>id_nodes := rc\<rparr>
      in if str = None \<or> st = [] then (- 1, None, [], t)
         else case find_id d xs of
           Some i \<Rightarrow> (1, Some (int i), [], t)
         | None \<Rightarrow>
             if mx \<le> int (length xs) then (- 2, None, [], t)
             else if p = None then (- 3, None, [], t1)
             else if write_cut env \<noteq> None then (- 4, None, cut env rec, t1)
             else if flush_cut env \<noteq> None then (- 5, None, cut env rec, t1)
             else if q = None then (- 6, None, rec, t2)
             else (0, Some (int (length xs)), rec, t2\<lparr>id_strings := xs @ [(d, st)]\<rparr>))"

definition sid_ok :: "QStrIDAllocator \<Rightarrow> ids \<Rightarrow> bool" where
  "sid_ok s t \<longleftrightarrow>
     (let xs = id_strings t in
      sid_alloc s = id_pieces t \<and> hs_FL (sid_s2i s) = Some (id_nodes t) \<and> mMaxBlockLen (id_pieces t) = 1048576 \<and>
      sid_cur s = int (length xs) \<and> int (length xs) \<le> sid_max s \<and> sid_max s < 2 ^ 32 \<and> alen (sid_i2s s) = sid_max s \<and>
      distinct (map fst xs) \<and> (\<forall>x \<in> set xs. length (snd x) < 1048576) \<and>
      (\<exists>ps L cs. length ps = length xs \<and> qa_ok (id_pieces t) L \<and> set ps \<subseteq> fst ` L \<and>
        (\<forall>i < length xs. aget (sid_i2s s) (int i) = Some (ps ! i) \<and> sid_mem s (ps ! i) = Some (record_of i (xs ! i))) \<and>
        hs_ok 24 (sid_s2i s) cs \<and> hs_content (sid_s2i s) cs = map_of (zip (map (\<lambda>x. uint (fst x)) xs) (map (\<lambda>p. [p]) ps))))"

lemma map_of_snoc: "map_of zs k = None \<Longrightarrow> map_of (zs @ [(k, v)]) = (map_of zs)(k \<mapsto> v)"
  by (auto simp: map_add_def fun_eq_iff split: option.splits)

lemma find_id_None: "find_id d xs = None \<longleftrightarrow> d \<notin> fst ` set xs"
proof -
  have "(\<forall>i < length xs. fst (xs ! i) \<noteq> d) \<longleftrightarrow> d \<notin> fst ` set xs" by (metis (no_types, lifting) image_iff in_set_conv_nth)
  then show ?thesis by (simp add: find_id_def find_None_iff)
qed

lemma find_id_Some: "find_id d xs = Some i \<Longrightarrow> i < length xs \<and> fst (xs ! i) = d"
  by (auto simp: find_id_def find_Some_iff)

lemma sid_table:
  assumes "length ps = length xs" "distinct (map fst xs)" "m = map_of (zip (map (\<lambda>x. uint (fst x)) xs) (map (\<lambda>p. [p]) ps))"
  shows "m (uint d) = map_option (\<lambda>i. [ps ! i]) (find_id d xs)"
proof (cases "find_id d xs")
  case None
  then have "uint d \<notin> (\<lambda>x. uint (fst x)) ` set xs" by (force simp: find_id_None dest!: unsigned_word_eqI)
  then have "m (uint d) = None" using assms(1,3) by (simp add: map_of_zip_is_None)
  then show ?thesis using None by simp
next
  case (Some i)
  note i = find_id_Some [OF Some]
  have "distinct (map (\<lambda>x. uint (fst x)) xs)" using assms(2) by (auto simp: distinct_map inj_on_def dest!: unsigned_word_eqI)
  then have "map_of (zip (map (\<lambda>x. uint (fst x)) xs) (map (\<lambda>p. [p]) ps)) (map (\<lambda>x. uint (fst x)) xs ! i) = Some (map (\<lambda>p. [p]) ps ! i)"
    using i assms(1) by (intro map_of_zip_nth) simp_all
  then show ?thesis using i assms(1,3) Some by simp
qed

lemma piece_ok:
  assumes "qa_ok al L"
  obtains p al' where "QAllocator_alloc (fst (piece_ok env)) (snd (piece_ok env)) (24 + int (length str)) al = Inr (p, al')"
    "piece env str al = (p, al')" "mMaxBlockLen al' = mMaxBlockLen al"
    "p = None \<Longrightarrow> qa_ok al' L"
    "\<And>a. p = Some a \<Longrightarrow> qa_ok al' (insert (a, 24 + int (length str)) L) \<and> a \<notin> fst ` L \<and> 24 + int (length str) \<le> mMaxBlockLen al"
proof -
  let ?n = "24 + int (length str)"
  have rdy: "qa_ready al" using assms by (simp add: qa_ok_def)
  obtain p al' where a: "QAllocator_alloc (fst (piece_ok env)) (snd (piece_ok env)) ?n al = Inr (p, al')" and r: "qa_ready al'"
    and g: "\<forall>b. qa_used al b \<le> qa_used al' b"
    and p: "case p of None \<Rightarrow> True | Some (b, off) \<Rightarrow> qa_used al b \<le> off \<and> 0 \<le> off \<and> off + ?n \<le> qa_used al' b"
    using QAllocator_alloc_step [OF rdy, of ?n] by fastforce
  have m: "mMaxBlockLen al' = mMaxBlockLen al" using a
    by (auto simp: QAllocator_alloc_def next_block_def Let_def split: option.splits if_splits)
  show thesis
  proof (rule that [OF a])
    show "piece env str al = (p, al')" using a by (simp add: piece_def)
    show "mMaxBlockLen al' = mMaxBlockLen al" by (fact m)
    show "qa_ok al' L" using qa_ok_grow [OF assms r g] .
    fix x assume x: "p = Some x"
    have u: "qa_used al (fst x) \<le> snd x" "0 \<le> snd x" "snd x + ?n \<le> qa_used al' (fst x)" using p x by (auto split: prod.splits)
    have "x \<noteq> fst y" if "y \<in> L" for y
    proof -
      have "0 < snd y" "snd (fst y) + snd y \<le> qa_used al (fst (fst y))" using assms that by (auto simp: qa_ok_def)
      then show ?thesis using u(1) by auto
    qed
    moreover have "qa_used al' (fst x) \<le> mMaxBlockLen al" using r m by (auto simp: qa_used_def qa_ready_def)
    ultimately show "qa_ok al' (insert (x, ?n) L) \<and> x \<notin> fst ` L \<and> ?n \<le> mMaxBlockLen al"
      using qa_ok_insert [OF assms r g u] u(2,3) by auto
  qed
qed

lemma sid_search:
  assumes "sid_ok s t"
  shows "case find_id d (id_strings t) of
      None \<Rightarrow> searchKey_FL (uint d) (- 1) (sid_s2i s) = Some (Inr (- 1, None))
    | Some i \<Rightarrow> \<exists>a buf. searchKey_FL (uint d) (- 1) (sid_s2i s) = Some (Inr (0, Some a)) \<and>
        sid_mem s (hd (hn_data (hs_mem (sid_s2i s) a))) = Some buf \<and> record_id buf = int i"
proof -
  let ?xs = "id_strings t"
  obtain ps cs where ps: "length ps = length ?xs" and dist: "distinct (map fst ?xs)" and len: "int (length ?xs) < 2 ^ 32"
    and mem: "\<forall>i < length ?xs. sid_mem s (ps ! i) = Some (record_of i (?xs ! i))"
    and h: "hs_ok 24 (sid_s2i s) cs" and
    c: "hs_content (sid_s2i s) cs = map_of (zip (map (\<lambda>x. uint (fst x)) ?xs) (map (\<lambda>p. [p]) ps))"
    using assms by (auto simp: sid_ok_def Let_def)
  note f = searchKey_FL_spec [OF h, of "uint d", unfolded sid_table [OF ps dist c]]
  show ?thesis
  proof (cases "find_id d ?xs")
    case None
    then show ?thesis using f by simp
  next
    case (Some i)
    with f obtain a where a: "searchKey_FL (uint d) (- 1) (sid_s2i s) = Some (Inr (0, Some a))" "hn_data (hs_mem (sid_s2i s) a) = [ps ! i]" by auto
    have i: "i < length ?xs" using find_id_Some [OF Some] by simp
    with len have "int i < 2 ^ 32" by linarith
    then have "record_id (record_of i (?xs ! i)) = int i" by (simp add: record_parts')
    then show ?thesis using a i mem Some by auto
  qed
qed

text \<open>A new piece does not touch the records there are.\<close>

lemma sid_new_piece:
  assumes "sid_ok s t" "piece env str (id_pieces t) = (p, al)"
  shows "sid_ok (s\<lparr>sid_alloc := al, sid_mem := (case p of None \<Rightarrow> sid_mem s | Some a \<Rightarrow> (sid_mem s)(a \<mapsto> buf))\<rparr>) (t\<lparr>id_pieces := al\<rparr>)"
    and "p \<noteq> None \<Longrightarrow> length str < 1048576"
proof -
  let ?xs = "id_strings t"
  obtain ps L cs where ps: "length ps = length ?xs" "qa_ok (id_pieces t) L" "set ps \<subseteq> fst ` L"
    and mem: "\<forall>i < length ?xs. aget (sid_i2s s) (int i) = Some (ps ! i) \<and> sid_mem s (ps ! i) = Some (record_of i (?xs ! i))"
    and h: "hs_ok 24 (sid_s2i s) cs"
    "hs_content (sid_s2i s) cs = map_of (zip (map (\<lambda>x. uint (fst x)) ?xs) (map (\<lambda>p. [p]) ps))"
    using assms by (auto simp: sid_ok_def Let_def)
  have m: "mMaxBlockLen (id_pieces t) = 1048576" using assms(1) by (simp add: sid_ok_def Let_def)
  obtain p' al' where a: "piece env str (id_pieces t) = (p', al')" "mMaxBlockLen al' = mMaxBlockLen (id_pieces t)"
    "p' = None \<Longrightarrow> qa_ok al' L"
    "\<And>a. p' = Some a \<Longrightarrow> qa_ok al' (insert (a, 24 + int (length str)) L) \<and> a \<notin> fst ` L \<and> 24 + int (length str) \<le> mMaxBlockLen (id_pieces t)"
    using piece_ok [OF ps(2), of env str] by metis
  then have eq: "p' = p" "al' = al" using assms(2) by simp_all
  note a = a [unfolded eq]
  show "length str < 1048576" if "p \<noteq> None" using that a(4) m by auto
  obtain L' where L: "qa_ok al L'" "set ps \<subseteq> fst ` L'" "\<And>a. p = Some a \<Longrightarrow> a \<notin> set ps"
    using a(3,4) ps(3) by (cases p) (auto intro!: that)
  have "sid_mem (s\<lparr>sid_alloc := al, sid_mem := (case p of None \<Rightarrow> sid_mem s | Some a \<Rightarrow> (sid_mem s)(a \<mapsto> buf))\<rparr>) (ps ! i) = Some (record_of i (?xs ! i))"
    if "i < length ?xs" for i
  proof -
    have "ps ! i \<in> set ps" using that ps(1) by simp
    then show ?thesis using mem that L(3) by (cases p) auto
  qed
  then show "sid_ok (s\<lparr>sid_alloc := al, sid_mem := (case p of None \<Rightarrow> sid_mem s | Some a \<Rightarrow> (sid_mem s)(a \<mapsto> buf))\<rparr>) (t\<lparr>id_pieces := al\<rparr>)"
    using assms(1) ps(1) L(1,2) h mem m a(2) unfolding sid_ok_def Let_def
    by (intro conjI exI [of _ ps] exI [of _ L'] exI [of _ cs]) simp_all
qed

text \<open>A new digest in the table: refused, or the string gets the next number.\<close>

lemma sid_new_id:
  assumes "sid_ok s t" "piece env str (id_pieces t) = (Some a, al)" "find_id d (id_strings t) = None"
    and s1: "s1 = s\<lparr>sid_alloc := al, sid_mem := (sid_mem s)(a \<mapsto> record_of (length (id_strings t)) (d, str))\<rparr>"
  obtains c r m q rc where
    "addKey_FL (fst (node_ok env)) (snd (node_ok env)) (uint d) (Some [a]) (- 1) (sid_s2i s) = Some (Inr (c, r, m))"
    "new_node env (id_nodes t) = (q, rc)" "c = (if q = None then - 1 else 0)"
    "q = None \<Longrightarrow> sid_ok (s1\<lparr>sid_s2i := m\<rparr>) (t\<lparr>id_pieces := al, id_nodes := rc\<rparr>)"
    "\<And>z. q \<noteq> None \<Longrightarrow> int (length (id_strings t)) < sid_max s \<Longrightarrow>
       sid_ok (s1\<lparr>sid_s2i := m, sid_i2s := aset (sid_i2s s) (sid_cur s) (Some a), sid_cur := sid_cur s + 1, sid_file_len := z\<rparr>)
         (t\<lparr>id_pieces := al, id_nodes := rc, id_strings := id_strings t @ [(d, str)]\<rparr>)"
proof -
  let ?xs = "id_strings t"
  let ?r = "record_of (length ?xs) (d, str)"
  have new: "length str < 1048576" using sid_new_piece(2) [OF assms(1,2)] by simp
  have fl: "hs_FL (sid_s2i s) = Some (id_nodes t)" using assms(1) by (simp add: sid_ok_def Let_def)
  have cur: "sid_cur s = int (length ?xs)" "alen (sid_i2s s) = sid_max s" "distinct (map fst ?xs)" "\<forall>x \<in> set ?xs. length (snd x) < 1048576"
    using assms(1) by (simp_all add: sid_ok_def Let_def)
  obtain ps L cs where ps: "length ps = length ?xs" "qa_ok (id_pieces t) L" "set ps \<subseteq> fst ` L"
    and mem: "\<forall>i < length ?xs. aget (sid_i2s s) (int i) = Some (ps ! i) \<and> sid_mem s (ps ! i) = Some (record_of i (?xs ! i))"
    and h: "hs_ok 24 (sid_s2i s) cs" and
    ct: "hs_content (sid_s2i s) cs = map_of (zip (map (\<lambda>x. uint (fst x)) ?xs) (map (\<lambda>p. [p]) ps))"
    using assms(1) by (auto simp: sid_ok_def Let_def)
  have none: "hs_content (sid_s2i s) cs (uint d) = None" using sid_table [OF ps(1) cur(3) ct] assms(3) by simp
  obtain c r m cs' where k: "addKey_FL (fst (node_ok env)) (snd (node_ok env)) (uint d) (Some [a]) (- 1) (sid_s2i s) = Some (Inr (c, r, m))"
    "hs_ok 24 m cs'" "hs_content m cs' = (if c = 0 then (hs_content (sid_s2i s) cs)(uint d \<mapsto> [a]) else hs_content (sid_s2i s) cs)"
    using addKey_FL_spec [OF h, of "fst (node_ok env)" "snd (node_ok env)" "uint d" "[a]"] by blast
  obtain q rc where q: "rc_alloc (fst (node_ok env)) (snd (node_ok env)) (id_nodes t) = Inr (q, rc)" "hs_FL m = Some rc" "c = (if q = None then - 1 else 0)"
    using addKey_FL_alloc [OF h fl none k(1)] by blast
  obtain al' where a: "piece env str (id_pieces t) = (Some a, al)" "mMaxBlockLen al = mMaxBlockLen (id_pieces t)"
    "qa_ok al (insert (a, 24 + int (length str)) L)" "a \<notin> fst ` L"
    using piece_ok [OF ps(2), of env str] assms(2) by (metis fst_conv snd_conv)
  let ?L = "insert (a, 24 + int (length str)) L"
  have anew: "a \<notin> set ps" using a(4) ps(3) by blast
  have psn: "ps ! i \<noteq> a" if "i < length ?xs" for i using that anew ps(1) by (metis nth_mem)
  show thesis
  proof (rule that [OF k(1) _ q(3)])
    show "new_node env (id_nodes t) = (q, rc)" using q(1) by (simp add: new_node_def)
    show "sid_ok (s1\<lparr>sid_s2i := m\<rparr>) (t\<lparr>id_pieces := al, id_nodes := rc\<rparr>)" if "q = None"
      using assms(1) ps(1,3) a(2,3) psn mem k(2,3) q(2,3) ct that unfolding sid_ok_def Let_def s1
      by (intro conjI exI [of _ ps] exI [of _ ?L] exI [of _ cs']) auto
    fix z assume qn: "q \<noteq> None" and room: "int (length ?xs) < sid_max s"
    let ?s = "s1\<lparr>sid_s2i := m, sid_i2s := aset (sid_i2s s) (sid_cur s) (Some a), sid_cur := sid_cur s + 1, sid_file_len := z\<rparr>"
    let ?xs' = "?xs @ [(d, str)]" and ?ps = "ps @ [a]"
    have rng: "in_range (sid_i2s s) (int (length ?xs))" using room cur by (simp add: in_range_def)
    have cells: "aget (sid_i2s ?s) (int i) = Some (?ps ! i) \<and> sid_mem ?s (?ps ! i) = Some (record_of i (?xs' ! i))" if "i < length ?xs'" for i
    proof (cases "i < length ?xs")
      case True
      then have "in_range (sid_i2s s) (int i)" using rng by (auto simp: in_range_def)
      then show ?thesis using True mem psn ps(1) cur(1) rng by (simp add: s1 nth_append aget_aset)
    next
      case False
      then have "i = length ?xs" using that by simp
      then show ?thesis using ps(1) cur(1) rng by (simp add: s1 nth_append aget_aset)
    qed
    have "hs_content m cs' = map_of (zip (map (\<lambda>x. uint (fst x)) ?xs') (map (\<lambda>p. [p]) ?ps))"
      using map_of_snoc [OF none [unfolded ct], of "[a]"] k(3) q(3) qn ct ps(1) by simp
    moreover have "distinct (map fst ?xs')" using cur(3) assms(3) by (auto simp: find_id_None)
    moreover have "\<forall>x \<in> set ?xs'. length (snd x) < 1048576" using cur(4) new by auto
    ultimately show "sid_ok ?s (t\<lparr>id_pieces := al, id_nodes := rc, id_strings := ?xs'\<rparr>)"
      using assms(1) ps(1,3) a(2,3) cells k(2) q(2) room cur(1,2) unfolding sid_ok_def Let_def
      by (intro conjI exI [of _ ?ps] exI [of _ ?L] exI [of _ cs']) (auto simp: s1)
  qed
qed

lemma str2id_step:
  assumes ok: "sid_ok s t" and junk: "length junk = 64" and len: "\<And>st. str = Some st \<Longrightarrow> length st < 2 ^ 32 - 63"
    and abs: "ids_str2id env (sid_max s) str t = (c, i, w, t')"
  shows "\<exists>s'. str2id env junk str s f = Some (Inr (c, i, s', f @ w)) \<and> sid_ok s' t' \<and> sid_max s' = sid_max s \<and>
    sid_file_len s' = sid_file_len s + (if c = 0 then int (length w) else 0)"
proof (cases "str = None \<or> str = Some []")
  case True
  then show ?thesis using ok abs by (auto simp: str2id_def ids_str2id_def Let_def split: prod.splits)
next
  case False
  then obtain st where st: "str = Some st" "st \<noteq> []" by auto
  let ?xs = "id_strings t" and ?d = "digest64 st"
  let ?rec = "record_of (length ?xs) (?d, st)"
  have md5: "MD5Bits64 junk st = Some ?d" using MD5Bits64_digest [OF st(2) len [OF st(1)] junk] .
  have cur: "sid_cur s = int (length ?xs)" "sid_alloc s = id_pieces t" using ok by (simp_all add: sid_ok_def Let_def)
  have wrap: "(24 + int (length st)) mod 4294967296 = 24 + int (length st)" using len [OF st(1)] by simp
  note se = sid_search [OF ok, of ?d]
  obtain L where L: "qa_ok (id_pieces t) L" using ok by (auto simp: sid_ok_def Let_def)
  obtain p al where p: "QAllocator_alloc (fst (piece_ok env)) (snd (piece_ok env)) (24 + int (length st)) (id_pieces t) = Inr (p, al)"
    "piece env st (id_pieces t) = (p, al)" using piece_ok [OF L, of env st] by metis
  obtain q rc where q: "new_node env (id_nodes t) = (q, rc)" by (metis surj_pair)
  note b = abs [unfolded ids_str2id_def Let_def st(1) option.sel p(2) q prod.case]
  show ?thesis
  proof (cases "find_id ?d ?xs")
    case (Some k)
    then show ?thesis using se st b ok md5 by (auto simp: str2id_def)
  next
    case None
    with se have nf: "searchKey_FL (uint ?d) (- 1) (sid_s2i s) = Some (Inr (- 1, None))" by simp
    have d: "str2id env junk str s f =
      (if sid_max s \<le> int (length ?xs) then Some (Inr (- 2, None, s, f))
       else case p of
         None \<Rightarrow> Some (Inr (- 3, None, s\<lparr>sid_alloc := al\<rparr>, f))
       | Some a \<Rightarrow> store_record env ?d ?rec (24 + int (length st)) a (s\<lparr>sid_alloc := al, sid_mem := (sid_mem s)(a \<mapsto> ?rec)\<rparr>) f)"
      using nf md5 st(2) by (simp add: str2id_def st(1) cur p(1) wrap Let_def split: option.split)
    show ?thesis
    proof (cases "sid_max s \<le> int (length ?xs)")
      case True
      then show ?thesis using b d None ok st by (auto simp: cur)
    next
      case room: False
      show ?thesis
      proof (cases p)
        case None
        then show ?thesis using b d \<open>find_id ?d ?xs = None\<close> room st sid_new_piece(1) [OF ok p(2)] by (auto simp: cur)
      next
        case (Some a)
        let ?s1 = "s\<lparr>sid_alloc := al, sid_mem := (sid_mem s)(a \<mapsto> ?rec)\<rparr>"
        have ok1: "sid_ok ?s1 (t\<lparr>id_pieces := al\<rparr>)" using sid_new_piece(1) [OF ok p(2), of ?rec] Some by simp
        obtain c' r' m q' rc' where k:
          "addKey_FL (fst (node_ok env)) (snd (node_ok env)) (uint ?d) (Some [a]) (- 1) (sid_s2i s) = Some (Inr (c', r', m))"
          "new_node env (id_nodes t) = (q', rc')" "c' = (if q' = None then - 1 else 0)"
          "q' = None \<Longrightarrow> sid_ok (?s1\<lparr>sid_s2i := m\<rparr>) (t\<lparr>id_pieces := al, id_nodes := rc'\<rparr>)"
          "\<And>z. q' \<noteq> None \<Longrightarrow> int (length ?xs) < sid_max s \<Longrightarrow>
             sid_ok (?s1\<lparr>sid_s2i := m, sid_i2s := aset (sid_i2s s) (sid_cur s) (Some a), sid_cur := sid_cur s + 1, sid_file_len := z\<rparr>)
               (t\<lparr>id_pieces := al, id_nodes := rc', id_strings := ?xs @ [(?d, st)]\<rparr>)"
          using sid_new_id [OF ok p(2) [unfolded Some] None refl] by blast
        have eq: "q' = q" "rc' = rc" using k(2) q by simp_all
        note k = k [unfolded eq]
        show ?thesis
        proof (cases "write_cut env = None \<and> flush_cut env = None")
          case False
          then show ?thesis using b d None room st Some ok1
            by (auto simp: cur store_record_def cut_def split: option.splits if_splits)
        next
          case True
          show ?thesis
          proof (cases q)
            case None
            then show ?thesis using b d \<open>find_id ?d ?xs = None\<close> room st Some True k(1,3) k(4) [OF None]
              by (auto simp: cur store_record_def)
          next
            case (Some q0)
            then have "q \<noteq> None" by simp
            note k5 = k(5) [OF this, of "sid_file_len s + (24 + int (length st))"]
            show ?thesis using b d None room st \<open>p = Some a\<close> Some True k(1,3) k5
              by (auto simp: cur store_record_def)
          qed
        qed
      qed
    qed
  qed
qed

section \<open>Sequences of calls\<close>

datatype sid_call = Str2Id sid_env octets "octets option" | Id2Str int

datatype sid_answer = Number int "int option" | String int "(octets \<times> 64 word) option"

text \<open>\<open>QMD5\<close> has a buffer of 64 octets and takes strings below \<open>2\<^sup>32 - 63\<close> octets; numbers are unsigned.\<close>

fun call_ok :: "sid_call \<Rightarrow> bool" where
  "call_ok (Str2Id env junk str) \<longleftrightarrow> length junk = 64 \<and> (case str of None \<Rightarrow> True | Some st \<Rightarrow> length st < 2 ^ 32 - 63)"
| "call_ok (Id2Str i) \<longleftrightarrow> 0 \<le> i"

fun sid_do :: "sid_call \<Rightarrow> QStrIDAllocator \<Rightarrow> octets \<Rightarrow> (sid_error + sid_answer \<times> QStrIDAllocator \<times> octets) option" where
  "sid_do (Str2Id env junk str) s f = map_option (map_sum id (\<lambda>(c, i, s, f). (Number c i, s, f))) (str2id env junk str s f)"
| "sid_do (Id2Str i) s f = Some (map_sum id (\<lambda>(c, x). (String c x, s, f)) (id2str i s))"

fun sid_run :: "sid_call list \<Rightarrow> QStrIDAllocator \<Rightarrow> octets \<Rightarrow> (sid_error + sid_answer list \<times> QStrIDAllocator \<times> octets) option" where
  "sid_run [] s f = Some (Inr ([], s, f))"
| "sid_run (x # calls) s f =
     Option.bind (sid_do x s f) (\<lambda>r. case r of
       Inl e \<Rightarrow> Some (Inl e)
     | Inr (a, s, f) \<Rightarrow> map_option (map_sum id (\<lambda>(as, s, f). (a # as, s, f))) (sid_run calls s f))"

fun ids_do :: "int \<Rightarrow> sid_call \<Rightarrow> ids \<Rightarrow> sid_answer \<times> octets \<times> ids" where
  "ids_do mx (Str2Id env junk str) t = (case ids_str2id env mx str t of (c, i, w, t) \<Rightarrow> (Number c i, w, t))"
| "ids_do mx (Id2Str i) t =
     (if i < int (length (id_strings t)) then String 0 (Some (prod.swap (id_strings t ! nat i))) else String (- 1) None, [], t)"

fun ids_run :: "int \<Rightarrow> sid_call list \<Rightarrow> ids \<Rightarrow> sid_answer list \<times> octets \<times> ids" where
  "ids_run mx [] t = ([], [], t)"
| "ids_run mx (x # calls) t =
     (case ids_do mx x t of (a, w, t) \<Rightarrow> case ids_run mx calls t of (as, v, t) \<Rightarrow> (a # as, w @ v, t))"

lemma id2str_ok:
  assumes "sid_ok s t" "0 \<le> i"
  shows "id2str i s = Inr (if i < int (length (id_strings t)) then (0, Some (prod.swap (id_strings t ! nat i))) else (- 1, None))"
proof (cases "i < int (length (id_strings t))")
  case True
  let ?x = "id_strings t ! nat i"
  have n: "nat i < length (id_strings t)" using True assms(2) by simp
  then have "?x \<in> set (id_strings t)" by simp
  then have l: "length (snd ?x) < 1048576" using assms(1) by (simp add: sid_ok_def Let_def)
  have i: "i < 2 ^ 32" using True assms(1) by (simp add: sid_ok_def Let_def)
  obtain ps where "\<forall>i < length (id_strings t). aget (sid_i2s s) (int i) = Some (ps ! i) \<and> sid_mem s (ps ! i) = Some (record_of i (id_strings t ! i))"
    using assms(1) unfolding sid_ok_def Let_def by blast
  with n have p: "aget (sid_i2s s) (int (nat i)) = Some (ps ! nat i)" "sid_mem s (ps ! nat i) = Some (record_of (nat i) ?x)" by blast+
  have c: "sid_cur s = int (length (id_strings t))" using assms(1) by (simp add: sid_ok_def Let_def)
  have e: "int (nat i) = i" using assms(2) by simp
  show ?thesis
    using True i l p(2) p(1) [unfolded e] assms(2) by (simp add: id2str_def c record_parts' prod.swap_def)
next
  case False
  then show ?thesis using assms(1) by (simp add: id2str_def sid_ok_def Let_def)
qed

lemma sid_do_ok:
  assumes "sid_ok s t" "call_ok x" "ids_do (sid_max s) x t = (a, w, t')"
  shows "\<exists>s'. sid_do x s f = Some (Inr (a, s', f @ w)) \<and> sid_ok s' t' \<and> sid_max s' = sid_max s"
proof (cases x)
  case (Str2Id env junk str)
  obtain c i w' t2 where b: "ids_str2id env (sid_max s) str t = (c, i, w', t2)" by (metis surj_pair)
  from str2id_step [OF assms(1) _ _ b, of junk f] obtain s' where
    "str2id env junk str s f = Some (Inr (c, i, s', f @ w'))" "sid_ok s' t2" "sid_max s' = sid_max s"
    using assms(2) Str2Id by (auto split: option.splits)
  then show ?thesis using assms(3) b Str2Id by auto
next
  case (Id2Str i)
  then show ?thesis using assms id2str_ok [OF assms(1), of i] by auto
qed

lemma sid_run_ok:
  assumes "sid_ok s t" "\<forall>x \<in> set calls. call_ok x" "ids_run (sid_max s) calls t = (as, w, t')"
  shows "\<exists>s'. sid_run calls s f = Some (Inr (as, s', f @ w)) \<and> sid_ok s' t' \<and> sid_max s' = sid_max s"
  using assms
proof (induction calls arbitrary: s t f as w)
  case (Cons x calls)
  obtain a u t1 where x: "ids_do (sid_max s) x t = (a, u, t1)" by (metis surj_pair)
  obtain bs v t2 where r: "ids_run (sid_max s) calls t1 = (bs, v, t2)" by (metis surj_pair)
  obtain s1 where s1: "sid_do x s f = Some (Inr (a, s1, f @ u))" "sid_ok s1 t1" "sid_max s1 = sid_max s"
    using sid_do_ok [OF Cons.prems(1) _ x] Cons.prems(2) by auto
  have e: "as = a # bs" "w = u @ v" "t' = t2" using Cons.prems(3) x r by simp_all
  obtain s2 where "sid_run calls s1 (f @ u) = Some (Inr (bs, s2, (f @ u) @ v))" "sid_ok s2 t2" "sid_max s2 = sid_max s1"
    using Cons.IH [OF s1(2), of bs v "f @ u"] Cons.prems(2) r s1(3) e(3) by auto
  then show ?case using s1 e by simp
qed simp

section \<open>Loading what was stored\<close>

lemma QAllocator_alloc_calm: "QAllocator_alloc i m n s = Inr (Some a, s') \<Longrightarrow> QAllocator_alloc True True n s = Inr (Some a, s')"
  by (auto simp: QAllocator_alloc_def next_block_def Let_def split: option.splits if_splits)

lemma piece_calm:
  assumes "piece env st al = (Some a, al')" "qa_ok al L"
  shows "piece calm st al = (Some a, al')"
proof -
  obtain p x where "QAllocator_alloc (fst (piece_ok env)) (snd (piece_ok env)) (24 + int (length st)) al = Inr (p, x)" "piece env st al = (p, x)"
    using piece_ok [OF assms(2), of env st] by metis
  then have "QAllocator_alloc (fst (piece_ok env)) (snd (piece_ok env)) (24 + int (length st)) al = Inr (Some a, al')" using assms(1) by simp
  from QAllocator_alloc_calm [OF this] show ?thesis by (simp add: piece_def calm_def)
qed

lemma node_calm:
  assumes "new_node env rc = (Some q, rc')" "rc_ok rc L"
  shows "new_node calm rc = (Some q, rc')"
proof -
  obtain x where "rc_alloc (fst (node_ok env)) (snd (node_ok env)) rc = Inr x" using rc_alloc_ok [OF assms(2)] by blast
  then show ?thesis using assms(1)
    by (auto simp: new_node_def calm_def rc_alloc_def rc_fresh_def rc_next_block_def Let_def split: option.splits if_splits block_index.splits)
qed

lemma load_record_step:
  assumes ok: "sid_ok s t" and room: "int (length (id_strings t)) < sid_max s" and new: "find_id d (id_strings t) = None"
    and p: "piece calm st (id_pieces t) = (Some a, al)" and q: "new_node calm (id_nodes t) = (Some q, rc)"
  shows "\<exists>s'. (\<forall>g. load_record calm (record_of (length (id_strings t)) (d, st) @ g) s = Some (Inr (0, g, s'))) \<and>
    sid_ok s' (t\<lparr>id_pieces := al, id_nodes := rc, id_strings := id_strings t @ [(d, st)]\<rparr>) \<and> sid_max s' = sid_max s \<and>
    sid_file_len s' = sid_file_len s + (24 + int (length st))"
proof -
  let ?xs = "id_strings t"
  let ?rec = "record_of (length ?xs) (d, st)"
  let ?s1 = "s\<lparr>sid_alloc := al, sid_mem := (sid_mem s)(a \<mapsto> ?rec)\<rparr>"
  obtain L where L: "qa_ok (id_pieces t) L" using ok by (auto simp: sid_ok_def Let_def)
  have al: "QAllocator_alloc True True (24 + int (length st)) (id_pieces t) = Inr (Some a, al)"
    using piece_ok [OF L, of calm st] p by (metis calm_def fst_conv snd_conv sid_env.select_convs(1))
  have st: "length st < 1048576" using sid_new_piece(2) [OF ok p] by simp
  have cur: "sid_cur s = int (length ?xs)" "sid_alloc s = id_pieces t" "int (length ?xs) < 2 ^ 32" using ok by (simp_all add: sid_ok_def Let_def)
  have len: "sint (of_nat (length st) :: 32 word) = int (length st)" using sint_of_int_small [of "int (length st)"] st by simp
  have sz: "s32 (16 + int (length st) + 8) = 24 + int (length st)"
    using st by (subst s32_id) (simp_all add: fits32_def MIN_INT32_def MAX_INT32_def)
  obtain c r m q' rc' where k: "addKey_FL (fst (node_ok calm)) (snd (node_ok calm)) (uint d) (Some [a]) (- 1) (sid_s2i s) = Some (Inr (c, r, m))"
    "new_node calm (id_nodes t) = (q', rc')" "c = (if q' = None then - 1 else 0)"
    "q' = None \<Longrightarrow> sid_ok (?s1\<lparr>sid_s2i := m\<rparr>) (t\<lparr>id_pieces := al, id_nodes := rc'\<rparr>)"
    "\<And>z. q' \<noteq> None \<Longrightarrow> int (length ?xs) < sid_max s \<Longrightarrow>
       sid_ok (?s1\<lparr>sid_s2i := m, sid_i2s := aset (sid_i2s s) (sid_cur s) (Some a), sid_cur := sid_cur s + 1, sid_file_len := z\<rparr>)
         (t\<lparr>id_pieces := al, id_nodes := rc', id_strings := ?xs @ [(d, st)]\<rparr>)"
    using sid_new_id [OF ok p new refl] by blast
  have eq: "q' = Some q" "rc' = rc" using k(2) q by simp_all
  let ?s2 = "?s1\<lparr>sid_s2i := m, sid_i2s := aset (sid_i2s s) (sid_cur s) (Some a), sid_cur := sid_cur s + 1,
    sid_file_len := sid_file_len s + (24 + int (length st))\<rparr>"
  have "load_record calm (?rec @ g) s = Some (Inr (0, g, ?s2))" for g
  proof -
    let ?f = "?rec @ g" and ?n = "nat (int (length st) + 8)"
    have n: "?n = length st + 8" by simp
    have "take 16 ?f @ take ?n (drop 16 ?f) = take (16 + ?n) ?f" by (simp only: take_add)
    then have body: "take 16 ?f @ take ?n (drop 16 ?f) = ?rec" "drop (16 + ?n) ?f = g" "length (take ?n (drop 16 ?f)) = ?n" by (simp_all add: n)
    have i: "record_id (take 16 ?f) = int (length ?xs)" using cur(3) by (simp only: fst_conv snd_conv) (intro record_parts(3), simp_all)
    show ?thesis
      unfolding load_record_def Let_def body i unfolding fst_conv snd_conv record_parts(1,2) len sz using al k(1,3) eq cur room n
      by (simp add: calm_def)
  qed
  then show ?thesis using k(5) [unfolded eq] room by (intro exI [of _ ?s2]) simp
qed

text \<open>The state after \<open>init\<close> without a file.\<close>

definition start_state :: "int \<Rightarrow> (addr \<Rightarrow> addr HashNode) \<Rightarrow> QStrIDAllocator" where
  "start_state mx junk = (QStrIDAllocator_new junk)\<lparr>sid_max := mx, sid_i2s := replicate (nat mx) None,
     sid_s2i := snd (QHashSearch_init True True 8 (mx div 2 + 1) PTR (QHashSearch_new junk)), sid_file_len := 0, sid_cur := 0\<rparr>"

definition start_ids :: ids where
  "start_ids = \<lparr>id_strings = [], id_pieces = QAllocator_new 2000 1048576, id_nodes = snd (rc_init 24 1000000 1000 QAllocatorRecycle_new)\<rparr>"

lemma hs_ok_empty:
  assumes "hs_FL h = Some rc" "rc_ok_at n rc {}" "0 < hs_data_len h" "hs_bucket_size h = b" "0 < b"
    "hs_table h = Some (replicate (nat b) None)" "hs_data_num h = 0"
  shows "hs_ok n h (replicate (nat b) [])" "hs_content h (replicate (nat b) []) = Map.empty"
  using assms by (simp_all add: hs_ok_def hs_chains_def hs_content_def alen_def)

lemma start_ok: "0 < mx \<Longrightarrow> mx < 2 ^ 32 \<Longrightarrow> sid_ok (start_state mx junk) start_ids"
proof -
  assume mx: "0 < mx" "mx < 2 ^ 32"
  let ?rc = "snd (rc_init 24 1000000 1000 QAllocatorRecycle_new)"
  let ?h = "snd (QHashSearch_init True True 8 (mx div 2 + 1) PTR (QHashSearch_new junk))"
  let ?cs = "replicate (nat (mx div 2 + 1)) []"
  have rc: "rc_init 24 1000000 1000 QAllocatorRecycle_new = (0, ?rc)" by (simp add: rc_init_def)
  have ok: "rc_ok_at 24 ?rc {}" using rc_ok_init [OF rc] by (simp add: rc_ok_at_def rc_init_def)
  have h: "hs_FL ?h = Some ?rc" "hs_data_len ?h = 8" "hs_bucket_size ?h = mx div 2 + 1"
    "hs_table ?h = Some (replicate (nat (mx div 2 + 1)) None)" "hs_data_num ?h = 0"
    by (simp_all add: QHashSearch_init_def PTR_def rc_init_def Let_def)
  have "0 < mx div 2 + 1" "0 < hs_data_len ?h" using mx h(2) by simp_all
  note e = hs_ok_empty [OF h(1) ok this(2) h(3) this(1) h(4,5)]
  have "qa_ok (QAllocator_new 2000 1048576) {}" by (simp add: qa_ok_def qa_ready_def QAllocator_new_def)
  then show ?thesis
    unfolding sid_ok_def Let_def using mx h(1) e
    by (intro conjI exI [of _ "[]"] exI [of _ "{}"] exI [of _ ?cs])
       (simp_all add: start_state_def start_ids_def QStrIDAllocator_new_def QAllocator_new_def alen_def)
qed

lemma s32_half: "0 \<le> mx \<Longrightarrow> mx < 2 ^ 32 \<Longrightarrow> 0 \<le> s32 (mx div 2 + 1) \<Longrightarrow> s32 (mx div 2 + 1) = mx div 2 + 1"
proof -
  assume mx: "0 \<le> mx" "mx < 2 ^ 32" "0 \<le> s32 (mx div 2 + 1)"
  have "mx div 2 + 1 \<noteq> 2 ^ 31"
  proof
    assume "mx div 2 + 1 = 2 ^ 31"
    then have "s32 (mx div 2 + 1) < 0" by (simp add: s32_def)
    with mx(3) show False by simp
  qed
  moreover have "mx div 2 + 1 \<le> 2 ^ 31" using mx(2) by simp
  ultimately show ?thesis using mx(1) by (intro s32_id) (simp add: fits32_def MIN_INT32_def MAX_INT32_def)
qed

lemma init_start:
  assumes "0 \<le> mx" "mx < 2 ^ 32"
    and "StrID_init env map_ok table_ok nodes_ok fopen_ok mx (Some path) None (QStrIDAllocator_new junk) = Some (Inr (0, s, d))"
  shows "s = start_state mx junk \<and> d = Some [] \<and> 0 < mx \<and> length path < 256 \<and> 0 \<le> s32 (mx div 2 + 1)"
proof -
  have g: "mx \<noteq> 0" "length path < 256" "map_ok" using assms(3) by (auto simp: StrID_init_def split: if_splits)
  obtain r m where rm: "QHashSearch_init (table_ok \<and> 0 \<le> s32 (mx div 2 + 1)) nodes_ok 8 (s32 (mx div 2 + 1)) PTR (QHashSearch_new junk) = (r, m)"
    by (metis surj_pair)
  have r: "r = 0" "fopen_ok" using assms(3) g rm by (auto simp: StrID_init_def QStrIDAllocator_new_def Let_def split: if_splits)
  then have t: "table_ok" "0 \<le> s32 (mx div 2 + 1)" "nodes_ok" using rm by (auto simp: QHashSearch_init_def Let_def PTR_def split: if_splits)
  then have "m = snd (QHashSearch_init True True 8 (mx div 2 + 1) PTR (QHashSearch_new junk))" using rm s32_half [OF assms(1,2)] by simp
  then show ?thesis using assms g rm r t by (auto simp: StrID_init_def start_state_def QStrIDAllocator_new_def Let_def)
qed

lemma init_loads:
  assumes "0 < mx" "mx < 2 ^ 32" "length path < 256" "0 \<le> s32 (mx div 2 + 1)"
  shows "StrID_init env True True True True mx (Some path) (Some file) (QStrIDAllocator_new junk) =
    Option.bind (load_records env file (start_state mx junk)) (\<lambda>r. case r of
      Inl e \<Rightarrow> Some (Inl e)
    | Inr (c, _, s) \<Rightarrow>
        if c \<noteq> 0 then Some (Inr (c, s, Some file))
        else if sid_file_len s \<noteq> int (length file) then Some (Inl Assert_Failed)
        else Some (Inr (0, s, Some file)))"
proof -
  obtain m where rm: "QHashSearch_init True True 8 (mx div 2 + 1) PTR (QHashSearch_new junk) = (0, m)"
    by (simp add: QHashSearch_init_def PTR_def rc_init_def Let_def)
  have "s32 (mx div 2 + 1) = mx div 2 + 1" using s32_half [of mx] assms by simp
  then show ?thesis using assms rm
    by (simp add: StrID_init_def start_state_def QStrIDAllocator_new_def Let_def split: if_splits)
qed

section \<open>Numbers are those of a list\<close>

text \<open>The answers a list of strings with their digests allows; memory or the file may refuse a new string.\<close>

fun answers_ok :: "int \<Rightarrow> sid_call list \<Rightarrow> sid_answer list \<Rightarrow> (64 word \<times> octets) list \<Rightarrow> bool" where
  "answers_ok mx [] [] xs \<longleftrightarrow> True"
| "answers_ok mx (Str2Id env junk str # calls) (Number c i # as) xs \<longleftrightarrow>
     (if str = None \<or> str = Some [] then c = - 1 \<and> i = None \<and> answers_ok mx calls as xs
      else case find_id (digest64 (the str)) xs of
        Some k \<Rightarrow> c = 1 \<and> i = Some (int k) \<and> answers_ok mx calls as xs
      | None \<Rightarrow>
          if mx \<le> int (length xs) then c = - 2 \<and> i = None \<and> answers_ok mx calls as xs
          else c = 0 \<and> i = Some (int (length xs)) \<and> answers_ok mx calls as (xs @ [(digest64 (the str), the str)])
             \<or> c \<in> {- 3, - 4, - 5, - 6} \<and> i = None \<and> answers_ok mx calls as xs)"
| "answers_ok mx (Id2Str i # calls) (String c x # as) xs \<longleftrightarrow>
     (c, x) = (if i < int (length xs) then (0, Some (snd (xs ! nat i), fst (xs ! nat i))) else (- 1, None)) \<and> answers_ok mx calls as xs"
| "answers_ok mx _ _ xs \<longleftrightarrow> False"

lemma ids_str2id_cases:
  assumes "ids_str2id env mx str t = (c, i, w, t')"
  shows "if str = None \<or> str = Some [] then c = - 1 \<and> i = None \<and> w = [] \<and> t' = t
    else case find_id (digest64 (the str)) (id_strings t) of
      Some k \<Rightarrow> c = 1 \<and> i = Some (int k) \<and> w = [] \<and> t' = t
    | None \<Rightarrow>
        if mx \<le> int (length (id_strings t)) then c = - 2 \<and> i = None \<and> w = [] \<and> t' = t
        else c = 0 \<and> i = Some (int (length (id_strings t))) \<and> w = record_of (length (id_strings t)) (digest64 (the str), the str) \<and>
            (\<exists>a al q rc. piece env (the str) (id_pieces t) = (Some a, al) \<and> new_node env (id_nodes t) = (Some q, rc) \<and>
               t' = t\<lparr>id_pieces := al, id_nodes := rc, id_strings := id_strings t @ [(digest64 (the str), the str)]\<rparr>)
          \<or> c \<in> {- 3, - 4, - 5, - 6} \<and> i = None \<and> id_strings t' = id_strings t"
  using assms by (cases str) (auto simp: ids_str2id_def Let_def split: option.splits prod.splits if_splits)

lemma ids_answers: "ids_run mx calls t = (as, w, t') \<Longrightarrow> answers_ok mx calls as (id_strings t)"
proof (induction calls arbitrary: t as w t')
  case (Cons x calls)
  obtain a u t1 where x: "ids_do mx x t = (a, u, t1)" by (metis surj_pair)
  obtain bs v t2 where r: "ids_run mx calls t1 = (bs, v, t2)" by (metis surj_pair)
  have e: "as = a # bs" using Cons.prems x r by simp
  note IH = Cons.IH [OF r]
  show ?case
  proof (cases x)
    case (Str2Id env junk str)
    obtain c i w' t3 where b: "ids_str2id env mx str t = (c, i, w', t3)" by (metis surj_pair)
    then have "a = Number c i" "t3 = t1" using x Str2Id by simp_all
    with ids_str2id_cases [OF b] IH e Str2Id show ?thesis by (auto split: option.splits if_splits)
  next
    case (Id2Str i)
    then show ?thesis using x IH e by (auto simp: prod.swap_def)
  qed
qed simp

text \<open>
  C18. \<open>QStrIDAllocator\<close> is a list of strings.  After \<open>init\<close> without a file, for every sequence of calls and whatever fails in
  memory or on disk: every call returns without touching memory that is not there; a string whose digest is known
  gets the number of the string with that digest, a new one the next number (or an error, which changes nothing that can
  be asked for), and \<open>id2str\<close> gives back the string and the digest of every number assigned.
\<close>

theorem StrID_numbers:
  assumes "0 \<le> mx" "mx < 2 ^ 32" "\<forall>x \<in> set calls. call_ok x"
    and "StrID_init env map_ok table_ok nodes_ok fopen_ok mx (Some path) None (QStrIDAllocator_new junk) = Some (Inr (0, s, d))"
  shows "\<exists>as s' f. sid_run calls s [] = Some (Inr (as, s', f)) \<and> answers_ok mx calls as []"
proof -
  have s: "s = start_state mx junk" "0 < mx" using init_start [OF assms(1,2,4)] by simp_all
  have mx: "sid_max s = mx" by (simp add: s start_state_def)
  obtain as w t where r: "ids_run mx calls start_ids = (as, w, t)" by (metis surj_pair)
  from sid_run_ok [OF start_ok [OF s(2) assms(2), of junk, folded s(1)] assms(3), unfolded mx, OF r, of "[]"]
  show ?thesis using ids_answers [OF r] by (auto simp: start_ids_def)
qed

lemma init_fresh: "StrID_init env True True True True 4 (Some ''ids'') None (QStrIDAllocator_new junk) = Some (Inr (0, start_state 4 junk, Some []))"
  by (simp add: StrID_init_def start_state_def QStrIDAllocator_new_def QHashSearch_init_def rc_init_def PTR_def s32_def Let_def)

abbreviation demo_calls :: "sid_call list" where
  "demo_calls \<equiv> [Str2Id calm (replicate 64 0) (Some [0x61]), Str2Id calm (replicate 64 0) (Some [0x62]), Id2Str 1, Str2Id calm (replicate 64 7) (Some [0x61])]"

abbreviation demo_junk :: "addr \<Rightarrow> addr HashNode" where
  "demo_junk \<equiv> \<lambda>_. \<lparr>hn_link = None, hn_key = 0, hn_data = []\<rparr>"

theorem StrID_numbers_witness:
  "\<exists>as s' f. sid_run demo_calls (start_state 4 demo_junk) [] = Some (Inr (as, s', f)) \<and> answers_ok 4 demo_calls as []"
  by (rule StrID_numbers [OF _ _ _ init_fresh]) simp_all

section \<open>A restart gives the numbers back\<close>

fun refused :: "sid_answer \<Rightarrow> bool" where
  "refused (Number c i) \<longleftrightarrow> c \<in> {- 3, - 4, - 5, - 6}"
| "refused (String c x) \<longleftrightarrow> False"

text \<open>A state that is reached by loading a file, whatever follows in it.\<close>

definition loads :: "QStrIDAllocator \<Rightarrow> octets \<Rightarrow> ids \<Rightarrow> int \<Rightarrow> bool" where
  "loads r0 f t mx \<longleftrightarrow> (\<exists>r. (\<forall>g. load_records (\<lambda>_. calm) (f @ g) r0 = load_records (\<lambda>_. calm) g r) \<and>
     sid_ok r t \<and> sid_max r = mx \<and> sid_file_len r = int (length f))"

lemma loads_step:
  assumes l: "loads r0 f t mx" and x: "ids_do mx x t = (a, w, t')" "\<not> refused a"
  shows "loads r0 (f @ w) t' mx"
proof (cases "w = [] \<and> t' = t")
  case False
  obtain env junk str where s: "x = Str2Id env junk str" using x(1) False by (cases x) auto
  obtain c i where b: "ids_str2id env mx str t = (c, i, w, t')" "a = Number c i"
    using x(1) s by (cases "ids_str2id env mx str t") auto
  let ?d = "digest64 (the str)"
  from ids_str2id_cases [OF b(1)] False x(2) b(2) obtain p al q rc where
    n: "find_id ?d (id_strings t) = None" "int (length (id_strings t)) < mx" and w: "w = record_of (length (id_strings t)) (?d, the str)" and
    k: "piece env (the str) (id_pieces t) = (Some p, al)" "new_node env (id_nodes t) = (Some q, rc)"
       "t' = t\<lparr>id_pieces := al, id_nodes := rc, id_strings := id_strings t @ [(?d, the str)]\<rparr>"
    by (auto split: if_splits option.splits)
  obtain r where r: "\<And>g. load_records (\<lambda>_. calm) (f @ g) r0 = load_records (\<lambda>_. calm) g r" "sid_ok r t" "sid_max r = mx"
    "sid_file_len r = int (length f)" using l by (auto simp: loads_def)
  obtain L where L: "qa_ok (id_pieces t) L" using r(2) by (auto simp: sid_ok_def Let_def)
  obtain M where M: "rc_ok (id_nodes t) M" using r(2) by (auto simp: sid_ok_def Let_def hs_ok_def rc_ok_at_def)
  note st = load_record_step [OF r(2) n(2) [folded r(3)] n(1) piece_calm [OF k(1) L] node_calm [OF k(2) M], folded w]
  obtain r' where r': "\<And>g. load_record calm (w @ g) r = Some (Inr (0, g, r'))" "sid_ok r' t'" "sid_max r' = mx"
    "sid_file_len r' = int (length f) + (24 + int (length (the str)))" using st r(3,4) k(3) by auto
  have lw: "16 \<le> length w" using w by simp
  have "load_records (\<lambda>_. calm) ((f @ w) @ g) r0 = load_records (\<lambda>_. calm) g r'" for g
  proof -
    have "load_records (\<lambda>_. calm) (w @ g) r = load_records (\<lambda>_. calm) g r'"
      by (subst load_records.simps) (use r'(1) lw in simp)
    then show ?thesis using r(1) [of "w @ g"] by simp
  qed
  then show ?thesis unfolding loads_def using r'(2-4) w by (intro exI [of _ r']) simp
qed (use l in auto)

lemma loads_run:
  assumes "loads r0 f t mx" "ids_run mx calls t = (as, w, t')" "\<forall>a \<in> set as. \<not> refused a"
  shows "loads r0 (f @ w) t' mx"
  using assms
proof (induction calls arbitrary: f t as w t')
  case (Cons x calls)
  obtain a u t1 where x: "ids_do mx x t = (a, u, t1)" by (metis surj_pair)
  obtain bs v t2 where r: "ids_run mx calls t1 = (bs, v, t2)" by (metis surj_pair)
  have e: "as = a # bs" "w = u @ v" "t' = t2" using Cons.prems(2) x r by simp_all
  have "loads r0 (f @ u) t1 mx" using loads_step [OF Cons.prems(1) x] Cons.prems(3) e(1) by simp
  from Cons.IH [OF this r] show ?case using Cons.prems(3) e by simp
qed simp

text \<open>What a sequence of calls shows to its callers: the answers and the file.\<close>

definition shown :: "(sid_error + sid_answer list \<times> QStrIDAllocator \<times> octets) option \<Rightarrow> (sid_error + sid_answer list \<times> octets) option" where
  "shown = map_option (map_sum id (\<lambda>(as, s, f). (as, f)))"

lemma same_ids:
  assumes "sid_ok s t" "sid_ok s' t" "sid_max s' = sid_max s" "\<forall>x \<in> set calls. call_ok x"
  shows "shown (sid_run calls s f) = shown (sid_run calls s' f)"
proof -
  obtain as w t' where r: "ids_run (sid_max s) calls t = (as, w, t')" by (metis surj_pair)
  then have r': "ids_run (sid_max s') calls t = (as, w, t')" using assms(3) by simp
  show ?thesis using sid_run_ok [OF assms(1,4) r, of f] sid_run_ok [OF assms(2,4) r', of f] by (auto simp: shown_def)
qed

text \<open>With memory and a disk that work, two thousand calls with strings of up to \<open>2\<^sup>20 - 24\<close> octets are never refused.\<close>

definition roomy :: "nat \<Rightarrow> ids \<Rightarrow> bool" where
  "roomy k t \<longleftrightarrow> mMaxBlockNum (id_pieces t) = 2000 \<and> mMaxBlockLen (id_pieces t) = 1048576 \<and> mNowBlockNum (id_pieces t) < int k \<and>
     - 1 \<le> mNowBlockNum (id_pieces t) \<and> (mNowBlockNum (id_pieces t) = - 1 \<longrightarrow> mNowBlockLen (id_pieces t) = 1048576) \<and>
     rc_head (id_nodes t) = None \<and> rc_index (id_nodes t) \<noteq> Gone \<and> rc_max_block (id_nodes t) = 1000000 \<and> rc_now_block (id_nodes t) < int k"

fun calm_call :: "sid_call \<Rightarrow> bool" where
  "calm_call (Str2Id env junk str) \<longleftrightarrow> env = calm \<and> (case str of None \<Rightarrow> True | Some st \<Rightarrow> length st \<le> 1048552)"
| "calm_call (Id2Str i) \<longleftrightarrow> True"

lemma roomy_piece:
  assumes "roomy k t" "k < 2000" "length st \<le> 1048552"
  shows "\<exists>a al. piece calm st (id_pieces t) = (Some a, al) \<and> roomy (Suc k) (t\<lparr>id_pieces := al\<rparr>)"
  using assms by (auto simp: piece_def calm_def roomy_def QAllocator_alloc_def next_block_def Let_def)

lemma roomy_node:
  assumes "roomy k t" "k < 2000"
  shows "\<exists>q rc. new_node calm (id_nodes t) = (Some q, rc) \<and> roomy (Suc k) (t\<lparr>id_nodes := rc\<rparr>)"
  using assms by (cases "rc_index (id_nodes t)") (auto simp: new_node_def calm_def roomy_def rc_alloc_def rc_fresh_def rc_next_block_def Let_def)

lemma roomy_step:
  assumes "roomy k t" "k < 2000" "calm_call x" "ids_do mx x t = (a, w, t')"
  shows "\<not> refused a \<and> roomy (Suc k) t'"
proof (cases x)
  case (Str2Id env junk str)
  have up: "roomy (Suc k) t" using assms(1) by (simp add: roomy_def)
  show ?thesis
  proof (cases str)
    case None
    then show ?thesis using Str2Id assms(4) up by (auto simp: ids_str2id_def Let_def split: prod.splits)
  next
    case (Some st)
    obtain p al q rc where k: "piece calm st (id_pieces t) = (Some p, al)" "roomy (Suc k) (t\<lparr>id_pieces := al\<rparr>)"
      "new_node calm (id_nodes t) = (Some q, rc)" "roomy (Suc k) (t\<lparr>id_nodes := rc\<rparr>)"
      using roomy_piece [OF assms(1,2), of st] roomy_node [OF assms(1,2)] assms(3) Str2Id Some by auto
    have "roomy (Suc k) (t\<lparr>id_pieces := al, id_nodes := rc, id_strings := xs\<rparr>)" for xs using k(2,4) by (simp add: roomy_def)
    then show ?thesis using Str2Id Some assms(3,4) up k(1,3)
      by (auto simp: ids_str2id_def calm_def Let_def split: option.splits if_splits)
  qed
qed (use assms in \<open>auto simp: roomy_def split: if_splits\<close>)

lemma roomy_run:
  assumes "roomy k t" "k + length calls \<le> 2000" "\<forall>x \<in> set calls. calm_call x" "ids_run mx calls t = (as, w, t')"
  shows "\<forall>a \<in> set as. \<not> refused a"
  using assms
proof (induction calls arbitrary: k t as w t')
  case (Cons x calls)
  obtain a u t1 where x: "ids_do mx x t = (a, u, t1)" by (metis surj_pair)
  obtain bs v t2 where r: "ids_run mx calls t1 = (bs, v, t2)" by (metis surj_pair)
  have "as = a # bs" using Cons.prems(4) x r by simp
  moreover have "\<not> refused a \<and> roomy (Suc k) t1" using roomy_step [OF Cons.prems(1) _ _ x] Cons.prems(2,3) by simp
  ultimately show ?case using Cons.IH [of "Suc k", OF _ _ _ r] Cons.prems(2,3) by auto
qed simp

lemma calm_session:
  assumes "0 < mx" "mx < 2 ^ 32" "\<forall>x \<in> set calls. call_ok x \<and> calm_call x" "length calls \<le> 2000"
  shows "\<exists>as s f. sid_run calls (start_state mx junk) [] = Some (Inr (as, s, f)) \<and> (\<forall>a \<in> set as. \<not> refused a)"
proof -
  have mx: "sid_max (start_state mx junk) = mx" by (simp add: start_state_def)
  obtain as w t where r: "ids_run mx calls start_ids = (as, w, t)" by (metis surj_pair)
  have "roomy 0 start_ids" by (simp add: roomy_def start_ids_def QAllocator_new_def rc_init_def QAllocatorRecycle_new_def)
  from roomy_run [OF this _ _ r] have "\<forall>a \<in> set as. \<not> refused a" using assms(3,4) by simp
  moreover have "\<forall>x \<in> set calls. call_ok x" using assms(3) by simp
  from sid_run_ok [OF start_ok [OF assms(1,2), of junk] this, unfolded mx, OF r]
  have "\<exists>s. sid_run calls (start_state mx junk) [] = Some (Inr (as, s, [] @ w))" by blast
  ultimately show ?thesis by blast
qed

text \<open>
  C17. The file of \<open>QStrIDAllocator\<close> gives everything back.  After any sequence of calls in which no string was refused for
  want of memory or by the disk, a new process that calls \<open>init\<close> on the file succeeds, and from then on answers
  every sequence of calls, in every environment, exactly as the first process would have, whatever its fresh memory held.
\<close>

theorem StrID_restart:
  assumes "0 \<le> mx" "mx < 2 ^ 32" "\<forall>x \<in> set calls. call_ok x"
    and "StrID_init env map_ok table_ok nodes_ok fopen_ok mx (Some path) None (QStrIDAllocator_new junk) = Some (Inr (0, s0, d))"
    and "sid_run calls s0 [] = Some (Inr (as, s, f))" "\<forall>a \<in> set as. \<not> refused a"
  shows "\<exists>s'. StrID_init (\<lambda>_. calm) True True True True mx (Some path) (Some f) (QStrIDAllocator_new junk') = Some (Inr (0, s', Some f)) \<and>
    (\<forall>more. (\<forall>x \<in> set more. call_ok x) \<longrightarrow> shown (sid_run more s' f) = shown (sid_run more s f))"
proof -
  have s: "s0 = start_state mx junk" "0 < mx" "length path < 256" "0 \<le> s32 (mx div 2 + 1)" using init_start [OF assms(1,2,4)] by simp_all
  have mx: "sid_max s0 = mx" "sid_max (start_state mx junk') = mx" "sid_file_len (start_state mx junk') = 0" by (simp_all add: s start_state_def)
  obtain bs w t where r: "ids_run mx calls start_ids = (bs, w, t)" by (metis surj_pair)
  obtain s1 where "sid_run calls s0 [] = Some (Inr (bs, s1, [] @ w))" "sid_ok s1 t" "sid_max s1 = sid_max s0"
    using sid_run_ok [OF start_ok [OF s(2) assms(2), of junk, folded s(1)] assms(3), unfolded mx, OF r, of "[]"] mx by auto
  then have e: "bs = as" "w = f" "sid_ok s t" "sid_max s = mx" using assms(5) mx by simp_all
  have "loads (start_state mx junk') [] start_ids mx" unfolding loads_def
    using start_ok [OF s(2) assms(2), of junk'] mx(2,3) by (intro exI [of _ "start_state mx junk'"]) simp
  from loads_run [OF this r] have "loads (start_state mx junk') f t mx" using assms(6) e by simp
  then obtain s' where "\<And>g. load_records (\<lambda>_. calm) (f @ g) (start_state mx junk') = load_records (\<lambda>_. calm) g s'"
    and s': "sid_ok s' t" "sid_max s' = mx" "sid_file_len s' = int (length f)" by (auto simp: loads_def)
  from this(1) [of "[]"] have "load_records (\<lambda>_. calm) f (start_state mx junk') = Some (Inr (0, [], s'))" by (simp add: load_records.simps)
  then have "StrID_init (\<lambda>_. calm) True True True True mx (Some path) (Some f) (QStrIDAllocator_new junk') = Some (Inr (0, s', Some f))"
    using init_loads [OF s(2) assms(2) s(3,4)] s'(3) by simp
  moreover have "shown (sid_run more s' f) = shown (sid_run more s f)" if "\<forall>x \<in> set more. call_ok x" for more
    using same_ids [OF s'(1) e(3) _ that] s'(2) e(4) by simp
  ultimately show ?thesis by blast
qed

theorem StrID_restart_witness:
  "\<exists>as s f s'. sid_run demo_calls (start_state 4 demo_junk) [] = Some (Inr (as, s, f)) \<and> (\<forall>a \<in> set as. \<not> refused a) \<and>
     StrID_init (\<lambda>_. calm) True True True True 4 (Some ''ids'') (Some f) (QStrIDAllocator_new demo_junk) = Some (Inr (0, s', Some f)) \<and>
     shown (sid_run [Str2Id calm (replicate 64 0) (Some [0x63])] s' f) = shown (sid_run [Str2Id calm (replicate 64 0) (Some [0x63])] s f)"
proof -
  obtain as s f where r: "sid_run demo_calls (start_state 4 demo_junk) [] = Some (Inr (as, s, f))" "\<forall>a \<in> set as. \<not> refused a"
    using calm_session [of 4 demo_calls demo_junk] by auto
  have c: "\<forall>x \<in> set demo_calls. call_ok x" by simp
  from StrID_restart [OF _ _ c init_fresh r, of demo_junk] obtain s' where
    s': "StrID_init (\<lambda>_. calm) True True True True 4 (Some ''ids'') (Some f) (QStrIDAllocator_new demo_junk) = Some (Inr (0, s', Some f))"
    "\<And>more. \<forall>x \<in> set more. call_ok x \<Longrightarrow> shown (sid_run more s' f) = shown (sid_run more s f)" by auto
  show ?thesis
    by (intro exI [of _ as] exI [of _ s] exI [of _ f] exI [of _ s'] conjI r s') simp
qed

text \<open>A write that was cut short in the head of its record stops every later start.\<close>

lemma StrID_torn_file:
  assumes "0 < mx" "mx < 2 ^ 32" "length path < 256" "0 \<le> s32 (mx div 2 + 1)" "f \<noteq> []" "length f < 16"
  shows "StrID_init env True True True True mx (Some path) (Some f) (QStrIDAllocator_new junk) = Some (Inl Assert_Failed)"
  using assms(5,6) by (simp add: init_loads [OF assms(1-4)] load_records.simps start_state_def)

end
