(* ===== verification/LogicalParser.thy ===== *)
theory LogicalParser
  imports Prelude
begin

text \<open>
  \<open>QLogicalParser\<close> of \<^verbatim>\<open>src/common/qlogicalparser.h\<close>: a boolean grammar over words is turned into postfix order with a stack of
  operators and evaluated with a stack of numbers, which is a member of the parser.  Stacks are lists with the top
  first.
\<close>

section \<open>The parser\<close>

definition Priority :: "char \<Rightarrow> int" where
  "Priority c = (if c = CHR ''|'' then 1 else if c = CHR ''&'' then 2 else if c = CHR ''!'' then 3 else - 1)"

definition IsOperator :: "char \<Rightarrow> bool" where
  "IsOperator c \<longleftrightarrow> c = CHR ''&'' \<or> c = CHR ''|'' \<or> c = CHR ''!''"

fun pop_operators :: "char \<Rightarrow> char list \<Rightarrow> string list \<Rightarrow> char list \<times> string list" where
  "pop_operators c [] v = ([], v)"
| "pop_operators c (x # stk) v = (if Priority c \<le> Priority x then pop_operators c stk (v @ [[x]]) else (x # stk, v))"

text \<open>\<open>t\<close> is the word read so far.\<close>

fun InToPost_loop :: "string \<Rightarrow> string \<Rightarrow> char list \<Rightarrow> string list \<Rightarrow> string list" where
  "InToPost_loop [] t stk v = v @ map (\<lambda>x. [x]) stk"
| "InToPost_loop (c # cs) t stk v =
     (if IsOperator c then case pop_operators c stk v of (stk, v) \<Rightarrow> InToPost_loop cs t (c # stk) v
      else if cs = [] \<or> IsOperator (hd cs) then InToPost_loop cs [] stk (v @ [t @ [c]])
      else InToPost_loop cs (t @ [c]) stk v)"

definition InToPost :: "string \<Rightarrow> string list" where
  "InToPost inGrammar = InToPost_loop inGrammar [] [] []"

definition Get1Operand :: "int list \<Rightarrow> int option \<times> int list" where
  "Get1Operand s = (case s of [] \<Rightarrow> (None, []) | r # s \<Rightarrow> (Some r, s))"

definition Get2Operands :: "int list \<Rightarrow> (int \<times> int) option \<times> int list" where
  "Get2Operands s = (case s of [] \<Rightarrow> (None, []) | [r] \<Rightarrow> (None, []) | r # l # s \<Rightarrow> (Some (l, r), s))"

text \<open>The value and the stack; a missing operand clears the stack and gives 0.\<close>

definition DoOperator :: "string \<Rightarrow> int list \<Rightarrow> int \<times> int list" where
  "DoOperator p s =
     (if p = ''!'' then
        (case Get1Operand s of
           (None, s) \<Rightarrow> (0, [])
         | (Some r, s) \<Rightarrow> let v = (if r = 1 then 0 else 1) in (v, v # s))
      else
        (case Get2Operands s of
           (None, s) \<Rightarrow> (0, [])
         | (Some (l, r), s) \<Rightarrow>
             let v = (if p = ''&'' then if l = 1 \<and> r = 1 then 1 else 0
                      else if p = ''|'' then if l = 1 \<or> r = 1 then 1 else 0 else 0)
             in (v, v # s)))"

definition word_matches :: "string \<Rightarrow> string list \<Rightarrow> string \<Rightarrow> bool" where
  "word_matches inKey inMeanings w \<longleftrightarrow> w = ''UK'' \<or> w = inKey \<or> w \<in> set inMeanings"

fun CalRun_loop :: "string \<Rightarrow> string list \<Rightarrow> string list \<Rightarrow> int \<times> int list \<Rightarrow> int \<times> int list" where
  "CalRun_loop inKey inMeanings [] (result, s) = (result, s)"
| "CalRun_loop inKey inMeanings (w # v) (result, s) =
     (if w = ''&'' \<or> w = ''|'' \<or> w = ''!'' then CalRun_loop inKey inMeanings v (DoOperator w s)
      else CalRun_loop inKey inMeanings v (result, (if word_matches inKey inMeanings w then 1 else 0) # s))"

text \<open>At the end the stack is emptied; the last element taken is the result.\<close>

definition CalRun :: "string \<Rightarrow> string list \<Rightarrow> string list \<Rightarrow> int list \<Rightarrow> int \<times> int list" where
  "CalRun inKey inMeanings v s =
     (case CalRun_loop inKey inMeanings v (0, s) of (result, s) \<Rightarrow> (if s = [] then result else last s, []))"

definition parse :: "string \<Rightarrow> string \<Rightarrow> string list \<Rightarrow> int list \<Rightarrow> bool \<times> int list" where
  "parse inGrammar inKey inMeanings s =
     (case CalRun inKey inMeanings (InToPost inGrammar) s of (result, s) \<Rightarrow> (result = 1, s))"

section \<open>Grammars and their meaning\<close>

text \<open>A word with or without a negation; conjunctions; a disjunction of them.\<close>

type_synonym literal = "bool \<times> string"

definition word_ok :: "string \<Rightarrow> bool" where
  "word_ok w \<longleftrightarrow> w \<noteq> [] \<and> (\<forall>c \<in> set w. \<not> IsOperator c)"

definition show_literal :: "literal \<Rightarrow> string" where
  "show_literal l = (if fst l then CHR ''!'' # snd l else snd l)"

fun join :: "char \<Rightarrow> string list \<Rightarrow> string" where
  "join c [] = []"
| "join c [x] = x"
| "join c (x # xs) = x @ c # join c xs"

definition show_grammar :: "literal list list \<Rightarrow> string" where
  "show_grammar g = join (CHR ''|'') (map (\<lambda>ls. join (CHR ''&'') (map show_literal ls)) g)"

definition literal_true :: "string \<Rightarrow> string list \<Rightarrow> literal \<Rightarrow> bool" where
  "literal_true key meanings l \<longleftrightarrow> word_matches key meanings (snd l) \<noteq> fst l"

definition grammar_true :: "string \<Rightarrow> string list \<Rightarrow> literal list list \<Rightarrow> bool" where
  "grammar_true key meanings g \<longleftrightarrow> (\<exists>ls \<in> set g. \<forall>l \<in> set ls. literal_true key meanings l)"

definition grammar_ok :: "literal list list \<Rightarrow> bool" where
  "grammar_ok g \<longleftrightarrow> g \<noteq> [] \<and> (\<forall>ls \<in> set g. ls \<noteq> [] \<and> (\<forall>l \<in> set ls. word_ok (snd l)))"

section \<open>Correctness\<close>

lemma ops [simp]: "IsOperator (CHR ''&'')" "IsOperator (CHR ''|'')" "IsOperator (CHR ''!'')"
  by (simp_all add: IsOperator_def)

lemma prio [simp]: "Priority (CHR ''|'') = 1" "Priority (CHR ''&'') = 2" "Priority (CHR ''!'') = 3"
  by (simp_all add: Priority_def)

definition starts_op :: "string \<Rightarrow> bool" where
  "starts_op rest \<longleftrightarrow> rest = [] \<or> IsOperator (hd rest)"

lemma InToPost_word:
  assumes "w \<noteq> []" "\<forall>c \<in> set w. \<not> IsOperator c" "starts_op rest"
  shows "InToPost_loop (w @ rest) t stk v = InToPost_loop rest [] stk (v @ [t @ w])"
  using assms
proof (induction w arbitrary: t)
  case (Cons c w)
  show ?case
  proof (cases w)
    case Nil
    then show ?thesis using Cons.prems by (simp add: starts_op_def)
  next
    case (Cons d w')
    then show ?thesis using Cons.IH [of "t @ [c]"] Cons.prems by simp
  qed
qed simp

lemma CalRun_append: "CalRun_loop key ms (v @ w) rs = CalRun_loop key ms w (CalRun_loop key ms v rs)"
  by (induction key ms v rs rule: CalRun_loop.induct) auto

text \<open>What is pending: a conjunction (\<open>av\<close>) inside a disjunction (\<open>ov\<close>), each with its value so far.\<close>

definition b2i :: "bool \<Rightarrow> int" where "b2i b = (if b then 1 else 0)"

definition pending :: "bool option \<Rightarrow> bool option \<Rightarrow> char list" where
  "pending av ov = (if av = None then [] else ''&'') @ (if ov = None then [] else ''|'')"

definition partials :: "bool option \<Rightarrow> bool option \<Rightarrow> int list" where
  "partials av ov = (case av of None \<Rightarrow> [] | Some b \<Rightarrow> [b2i b]) @ (case ov of None \<Rightarrow> [] | Some b \<Rightarrow> [b2i b])"

definition with_and :: "bool option \<Rightarrow> bool \<Rightarrow> bool" where
  "with_and av b = (case av of None \<Rightarrow> b | Some a \<Rightarrow> a \<and> b)"

definition with_or :: "bool option \<Rightarrow> bool \<Rightarrow> bool" where
  "with_or ov b = (case ov of None \<Rightarrow> b | Some a \<Rightarrow> a \<or> b)"

definition neg_op :: "bool \<Rightarrow> char list" where "neg_op n = (if n then ''!'' else [])"

definition run_stack :: "string \<Rightarrow> string list \<Rightarrow> string list \<Rightarrow> int list" where
  "run_stack key ms v = snd (CalRun_loop key ms v (0, []))"

lemma run_stack_snoc:
  "run_stack key ms (v @ [''!'']) = (case run_stack key ms v of [] \<Rightarrow> [] | r # s \<Rightarrow> b2i (r \<noteq> 1) # s)"
  "run_stack key ms (v @ [''&'']) = (case run_stack key ms v of [] \<Rightarrow> [] | [r] \<Rightarrow> [] | r # l # s \<Rightarrow> b2i (l = 1 \<and> r = 1) # s)"
  "run_stack key ms (v @ [''|'']) = (case run_stack key ms v of [] \<Rightarrow> [] | [r] \<Rightarrow> [] | r # l # s \<Rightarrow> b2i (l = 1 \<or> r = 1) # s)"
  "word_ok w \<Longrightarrow> run_stack key ms (v @ [w]) = b2i (word_matches key ms w) # run_stack key ms v"
  by (cases "CalRun_loop key ms v (0, [])";
      force simp: run_stack_def CalRun_append DoOperator_def Get1Operand_def Get2Operands_def Let_def b2i_def word_ok_def split: list.splits)+

lemma b2i_one [simp]: "b2i b = 1 \<longleftrightarrow> b" by (simp add: b2i_def)

lemma InToPost_literal:
  assumes "word_ok (snd l)" "starts_op rest"
  shows "InToPost_loop (show_literal l @ rest) [] (pending av ov) v = InToPost_loop rest [] (neg_op (fst l) @ pending av ov) (v @ [snd l])"
proof (cases "fst l")
  case True
  have "pop_operators (CHR ''!'') (pending av ov) v = (pending av ov, v)" by (auto simp: pending_def)
  then show ?thesis using True assms InToPost_word [of "snd l" rest "[]"] by (simp add: show_literal_def neg_op_def word_ok_def)
next
  case False
  then show ?thesis using assms InToPost_word [of "snd l" rest "[]"] by (simp add: show_literal_def neg_op_def word_ok_def)
qed

text \<open>The operators that \<open>&\<close> and \<open>|\<close> take from the stack, and what they do to the numbers.\<close>

lemma pop_and:
  "pop_operators (CHR ''&'') (neg_op n @ pending av ov) v =
     (pending None ov, v @ map (\<lambda>x. [x]) (neg_op n @ pending av None))"
  by (auto simp: neg_op_def pending_def)

lemma pop_or:
  "pop_operators (CHR ''|'') (neg_op n @ pending av ov) v = ([], v @ map (\<lambda>x. [x]) (neg_op n @ pending av ov))"
  by (auto simp: neg_op_def pending_def)

lemma run_neg:
  assumes "run_stack key ms v = b2i x # s"
  shows "run_stack key ms (v @ map (\<lambda>x. [x]) (neg_op n)) = b2i (x \<noteq> n) # s"
  using assms by (auto simp: neg_op_def run_stack_snoc)

lemma run_and:
  assumes "run_stack key ms v = b2i x # partials av ov"
  shows "run_stack key ms (v @ map (\<lambda>x. [x]) (neg_op n @ pending av None)) = b2i (with_and av (x \<noteq> n)) # partials None ov"
proof -
  have n: "run_stack key ms (v @ map (\<lambda>x. [x]) (neg_op n)) = b2i (x \<noteq> n) # partials av ov" by (rule run_neg [OF assms])
  show ?thesis
  proof (cases av)
    case None
    then show ?thesis using n by (simp add: pending_def with_and_def partials_def)
  next
    case (Some a)
    then show ?thesis using n run_stack_snoc(2) [of key ms "v @ map (\<lambda>x. [x]) (neg_op n)"]
      by (simp add: pending_def with_and_def partials_def)
  qed
qed

lemma run_or:
  assumes "run_stack key ms v = b2i x # partials av ov"
  shows "run_stack key ms (v @ map (\<lambda>x. [x]) (neg_op n @ pending av ov)) = [b2i (with_or ov (with_and av (x \<noteq> n)))]"
proof -
  let ?w = "v @ map (\<lambda>x. [x]) (neg_op n @ pending av None)"
  have a: "run_stack key ms ?w = b2i (with_and av (x \<noteq> n)) # partials None ov" by (rule run_and [OF assms])
  have e: "v @ map (\<lambda>x. [x]) (neg_op n @ pending av ov) = ?w @ map (\<lambda>x. [x]) (pending None ov)" by (simp add: pending_def)
  show ?thesis
    unfolding e using a run_stack_snoc(3) [of key ms ?w] by (cases ov) (simp_all add: pending_def partials_def with_or_def)
qed

lemma conjunction_runs:
  assumes "ls \<noteq> []" "\<forall>l \<in> set ls. word_ok (snd l)" "starts_op rest" "run_stack key ms v = partials av ov"
  shows "\<exists>n x av' v'. InToPost_loop (join (CHR ''&'') (map show_literal ls) @ rest) [] (pending av ov) v =
      InToPost_loop rest [] (neg_op n @ pending av' ov) v' \<and> run_stack key ms v' = b2i x # partials av' ov
    \<and> with_and av' (x \<noteq> n) = with_and av (\<forall>l \<in> set ls. literal_true key ms l)"
  using assms
proof (induction ls arbitrary: av v)
  case (Cons l ls)
  let ?m = "word_matches key ms (snd l)"
  have r: "run_stack key ms (v @ [snd l]) = b2i ?m # partials av ov"
    using Cons.prems by (simp add: run_stack_snoc(4))
  show ?case
  proof (cases ls)
    case Nil
    then show ?thesis using InToPost_literal [of l rest av ov v] Cons.prems r
      by (intro exI [of _ "fst l"] exI [of _ ?m] exI [of _ av] exI [of _ "v @ [snd l]"]) (simp add: literal_true_def)
  next
    case (Cons l2 ls2)
    let ?rest = "join (CHR ''&'') (map show_literal ls) @ rest" and ?b = "with_and av (?m \<noteq> fst l)"
    let ?v = "v @ [snd l] @ map (\<lambda>x. [x]) (neg_op (fst l) @ pending av None)"
    have j: "join (CHR ''&'') (map show_literal (l # ls)) @ rest = show_literal l @ CHR ''&'' # ?rest" using Cons by simp
    have "InToPost_loop (show_literal l @ CHR ''&'' # ?rest) [] (pending av ov) v =
        InToPost_loop (CHR ''&'' # ?rest) [] (neg_op (fst l) @ pending av ov) (v @ [snd l])"
      by (rule InToPost_literal) (use Cons.prems in \<open>auto simp: starts_op_def\<close>)
    also have "\<dots> = InToPost_loop ?rest [] (pending (Some ?b) ov) ?v" by (simp add: pop_and) (simp add: pending_def)
    finally have step: "InToPost_loop (join (CHR ''&'') (map show_literal (l # ls)) @ rest) [] (pending av ov) v =
        InToPost_loop ?rest [] (pending (Some ?b) ov) ?v" unfolding j .
    have "run_stack key ms ?v = partials (Some ?b) ov" using run_and [OF r, of "fst l"] by (simp add: partials_def)
    moreover have "ls \<noteq> []" "\<forall>l \<in> set ls. word_ok (snd l)" using Cons Cons.prems(2) by simp_all
    ultimately obtain n x av' v' where ih: "InToPost_loop ?rest [] (pending (Some ?b) ov) ?v = InToPost_loop rest [] (neg_op n @ pending av' ov) v'"
      "run_stack key ms v' = b2i x # partials av' ov" "with_and av' (x \<noteq> n) = with_and (Some ?b) (\<forall>l \<in> set ls. literal_true key ms l)"
      using Cons.IH [of ?v "Some ?b"] Cons.prems(3) by blast
    have w: "with_and (Some ?b) (\<forall>l \<in> set ls. literal_true key ms l) = with_and av (\<forall>l \<in> set (l # ls). literal_true key ms l)"
      by (cases av) (auto simp: with_and_def literal_true_def)
    show ?thesis
      unfolding step ih(1) by (intro exI [of _ n] exI [of _ x] exI [of _ av'] exI [of _ v'] conjI refl ih(2)) (simp only: ih(3) w)
  qed
qed simp

lemma grammar_runs:
  assumes "grammar_ok g" "run_stack key ms v = partials None ov"
  shows "run_stack key ms (InToPost_loop (show_grammar g) [] (pending None ov) v) = [b2i (with_or ov (grammar_true key ms g))]"
  using assms
proof (induction g arbitrary: ov v)
  case Nil
  then show ?case by (simp add: grammar_ok_def)
next
  case (Cons ls g)
  let ?s = "join (CHR ''&'') (map show_literal ls)" and ?b = "\<forall>l \<in> set ls. literal_true key ms l"
  have ok: "ls \<noteq> []" "\<forall>l \<in> set ls. word_ok (snd l)" using Cons.prems(1) by (auto simp: grammar_ok_def)
  show ?case
  proof (cases g)
    case Nil
    obtain n x av v' where c: "InToPost_loop (?s @ []) [] (pending None ov) v = InToPost_loop [] [] (neg_op n @ pending av ov) v'"
      "run_stack key ms v' = b2i x # partials av ov" "with_and av (x \<noteq> n) = with_and None ?b"
      using conjunction_runs [OF ok _ Cons.prems(2), of "[]"] by (auto simp: starts_op_def)
    then have "run_stack key ms (InToPost_loop ?s [] (pending None ov) v) = [b2i (with_or ov (with_and None ?b))]"
      using run_or [OF c(2), of n] by simp
    then show ?thesis using Nil by (simp add: show_grammar_def grammar_true_def with_and_def)
  next
    case (Cons ls2 g2)
    let ?rest = "CHR ''|'' # show_grammar g"
    obtain n x av v' where c: "InToPost_loop (?s @ ?rest) [] (pending None ov) v = InToPost_loop ?rest [] (neg_op n @ pending av ov) v'"
      "run_stack key ms v' = b2i x # partials av ov" "with_and av (x \<noteq> n) = with_and None ?b"
      using conjunction_runs [OF ok _ Cons.prems(2), of ?rest] by (auto simp: starts_op_def)
    let ?v = "v' @ map (\<lambda>x. [x]) (neg_op n @ pending av ov)" and ?ov = "Some (with_or ov ?b)"
    have "run_stack key ms ?v = partials None ?ov" using run_or [OF c(2), of n] c(3) by (simp add: partials_def with_and_def)
    moreover have "grammar_ok g" using Cons Cons.prems(1) by (simp add: grammar_ok_def)
    ultimately have "run_stack key ms (InToPost_loop (show_grammar g) [] (pending None ?ov) ?v) = [b2i (with_or ?ov (grammar_true key ms g))]"
      by (intro Cons.IH)
    moreover have "InToPost_loop ?rest [] (neg_op n @ pending av ov) v' = InToPost_loop (show_grammar g) [] (pending None ?ov) ?v"
      by (simp add: pop_or) (simp add: pending_def)
    moreover have "show_grammar (ls # g) = ?s @ ?rest" using Cons by (simp add: show_grammar_def)
    moreover have "with_or ?ov (grammar_true key ms g) = with_or ov (grammar_true key ms (ls # g))"
      by (cases ov) (auto simp: with_or_def grammar_true_def)
    ultimately show ?thesis using c(1) by simp
  qed
qed

text \<open>
  C38. The parser decides its grammars: for a disjunction of conjunctions of words, each negated at most once,
  \<open>parse\<close> is true exactly when the formula is true of the key and the meanings, and it leaves its stack empty, so
  that the next call starts afresh.
\<close>

theorem parse_decides:
  assumes "grammar_ok g"
  shows "parse (show_grammar g) inKey inMeanings [] = (grammar_true inKey inMeanings g, [])"
proof -
  let ?v = "InToPost (show_grammar g)"
  have "run_stack inKey inMeanings ?v = [b2i (grammar_true inKey inMeanings g)]"
    using grammar_runs [OF assms, of inKey inMeanings "[]" None]
    by (simp add: InToPost_def pending_def partials_def run_stack_def with_or_def)
  then show ?thesis by (cases "CalRun_loop inKey inMeanings ?v (0, [])") (simp add: parse_def CalRun_def run_stack_def)
qed

theorem parse_decides_witness:
  "parse ''cat&!dog|fish'' ''cat'' [''bird''] [] = (True, []) \<and> parse ''cat&!dog|fish'' ''cat'' [''dog''] [] = (False, [])"
proof -
  let ?g = "[[(False, ''cat''), (True, ''dog'')], [(False, ''fish'')]]"
  have "grammar_ok ?g" by (simp add: grammar_ok_def word_ok_def IsOperator_def)
  from parse_decides [OF this, of "''cat''" "[''bird'']"] parse_decides [OF this, of "''cat''" "[''dog'']"] show ?thesis
    by (simp add: show_grammar_def show_literal_def grammar_true_def literal_true_def word_matches_def)
qed

text \<open>A second negation takes the first one from the stack before its operand is there: \<open>!!w\<close> means \<open>!w\<close>.\<close>

lemma parse_double_negation:
  assumes "word_ok w"
  shows "parse (''!!'' @ w) inKey inMeanings [] = (\<not> word_matches inKey inMeanings w, [])"
proof -
  have "InToPost (''!!'' @ w) = [''!'', w, ''!'']"
    using InToPost_word [of w "[]" "[]"] assms by (simp add: InToPost_def word_ok_def starts_op_def)
  moreover have "w \<noteq> ''&''" "w \<noteq> ''|''" "w \<noteq> ''!''" using assms by (auto simp: word_ok_def)
  ultimately show ?thesis
    by (simp add: parse_def CalRun_def DoOperator_def Get1Operand_def Let_def)
qed

end
