(* ===== verification/EditDistance.thy ===== *)
theory EditDistance
  imports Prelude
begin

text \<open>
  \<open>QDistance::calMinEditDistance\<close> of \<^verbatim>\<open>src/common/qdistance.h\<close>.  A string with its length is a list; the other distances of the
  header are floating-point numbers.
\<close>

fun calMinEditDistance :: "'c list \<Rightarrow> 'c list \<Rightarrow> int" where
  "calMinEditDistance [] str2 = int (length str2)"
| "calMinEditDistance str1 [] = int (length str1)"
| "calMinEditDistance (a # str1) (b # str2) =
     (if a = b then calMinEditDistance str1 str2
      else
        let dis1 = calMinEditDistance str1 str2;
            dis2 = calMinEditDistance (a # str1) str2;
            dis3 = calMinEditDistance str1 (b # str2);
            dis1 = (if dis1 < dis2 then dis1 else dis2);
            dis1 = (if dis1 < dis3 then dis1 else dis3)
        in dis1 + 1)"

text \<open>What it should compute: the least number of replacements, insertions and deletions that turn one string into the other.\<close>

inductive edits :: "nat \<Rightarrow> 'c list \<Rightarrow> 'c list \<Rightarrow> bool" where
  done_: "edits 0 [] []"
| keep: "edits n s t \<Longrightarrow> edits n (a # s) (a # t)"
| replace: "edits n s t \<Longrightarrow> edits (Suc n) (a # s) (b # t)"
| insert: "edits n s t \<Longrightarrow> edits (Suc n) s (b # t)"
| delete: "edits n s t \<Longrightarrow> edits (Suc n) (a # s) t"

declare edits.intros [intro]

lemma dist_Nil2 [simp]: "calMinEditDistance s [] = int (length s)"
  by (cases s) simp_all

lemma dist_Cons: "calMinEditDistance (a # s) (b # t) =
  (if a = b then calMinEditDistance s t
   else 1 + min (calMinEditDistance s t) (min (calMinEditDistance (a # s) t) (calMinEditDistance s (b # t))))"
  by (auto simp: Let_def min_def)

declare calMinEditDistance.simps(3) [simp del] dist_Cons [simp]

lemma dist_commute: "calMinEditDistance s t = calMinEditDistance t s"
  by (induction s t rule: calMinEditDistance.induct) (auto simp: min.commute min.left_commute)

lemma dist_nonneg: "0 \<le> calMinEditDistance s t"
  by (induction s t rule: calMinEditDistance.induct) auto

text \<open>One more character changes the distance by at most one.\<close>

lemma dist_step:
  fixes s t :: "'c list"
  shows "calMinEditDistance (a # s) t \<le> 1 + calMinEditDistance s t \<and> calMinEditDistance s t \<le> 1 + calMinEditDistance (a # s) t"
proof (induction "length s + length t" arbitrary: a s t rule: less_induct)
  case less
  have up: "calMinEditDistance (c # u) w \<le> 1 + calMinEditDistance u w" and down: "calMinEditDistance u w \<le> 1 + calMinEditDistance (c # u) w"
    and up2: "calMinEditDistance w (c # u) \<le> 1 + calMinEditDistance w u" and down2: "calMinEditDistance w u \<le> 1 + calMinEditDistance w (c # u)"
    if "length u + length w < length s + length t" for c :: 'c and u w :: "'c list"
    using less [of u w] that by (auto simp: dist_commute [of w])
  show ?case
  proof (cases t)
    case (Cons b t')
    show ?thesis
    proof (cases "a = b")
      case True
      have "calMinEditDistance s t' \<le> 1 + calMinEditDistance s (b # t')" by (rule down2) (simp add: Cons)
      moreover have "calMinEditDistance s (b # t') \<le> 1 + calMinEditDistance s t'" by (rule up2) (simp add: Cons)
      ultimately show ?thesis using True Cons by simp
    next
      case False
      have "calMinEditDistance s (b # t') \<le> 1 + calMinEditDistance s t'" by (rule up2) (simp add: Cons)
      moreover have "calMinEditDistance s t' \<le> 1 + calMinEditDistance (a # s) t'" by (rule down) (simp add: Cons)
      ultimately show ?thesis using False Cons by (simp add: min_def)
    qed
  qed simp
qed

lemma dist_least: "edits n s t \<Longrightarrow> calMinEditDistance s t \<le> int n"
proof (induction rule: edits.induct)
  case (replace n s t a b)
  then show ?case by auto
next
  case (insert n s t b)
  then show ?case using dist_step [of b t s] by (simp add: dist_commute [of s])
next
  case (delete n s t a)
  then show ?case using dist_step [of a s t] by simp
qed simp_all

lemma edits_all: "edits (length s) [] s" "edits (length s) s []"
  by (induction s) auto

lemma edits_dist: "edits (nat (calMinEditDistance s t)) s t"
proof (induction s t rule: calMinEditDistance.induct)
  case (3 a s b t)
  have n: "nat (1 + calMinEditDistance u w) = Suc (nat (calMinEditDistance u w))" for u w :: "'a list"
    using dist_nonneg [of u w] by simp
  show ?case
  proof (cases "a = b")
    case True
    then show ?thesis using 3(1) by auto
  next
    case False
    then have ih: "edits (nat (calMinEditDistance s t)) s t" "edits (nat (calMinEditDistance (a # s) t)) (a # s) t"
      "edits (nat (calMinEditDistance s (b # t))) s (b # t)" using 3(2-) by auto
    have m: "min x (min y z) = x \<or> min x (min y z) = y \<or> min x (min y z) = z" for x y z :: int by (simp add: min_def)
    consider "calMinEditDistance (a # s) (b # t) = 1 + calMinEditDistance s t"
      | "calMinEditDistance (a # s) (b # t) = 1 + calMinEditDistance (a # s) t"
      | "calMinEditDistance (a # s) (b # t) = 1 + calMinEditDistance s (b # t)"
      using False m [of "calMinEditDistance s t" "calMinEditDistance (a # s) t" "calMinEditDistance s (b # t)"] unfolding dist_Cons by auto
    then show ?thesis by cases (simp_all only: n edits.replace [OF ih(1)] edits.insert [OF ih(2)] edits.delete [OF ih(3)])
  qed
qed (simp_all only: calMinEditDistance.simps(1) dist_Nil2 nat_int edits_all)

text \<open>
  \<open>calMinEditDistance\<close> is the edit distance: that many replacements, insertions and deletions suffice, and fewer do
  not, although the recursion never considers an edit where the first characters agree.
\<close>

lemma calMinEditDistance_minimal:
  "\<exists>n. calMinEditDistance str1 str2 = int n \<and> edits n str1 str2 \<and> (\<forall>k. edits k str1 str2 \<longrightarrow> n \<le> k)"
proof (intro exI conjI allI impI)
  show "calMinEditDistance str1 str2 = int (nat (calMinEditDistance str1 str2))" using dist_nonneg [of str1 str2] by simp
  show "edits (nat (calMinEditDistance str1 str2)) str1 str2" by (rule edits_dist)
  show "nat (calMinEditDistance str1 str2) \<le> k" if "edits k str1 str2" for k using dist_least [OF that] by simp
qed

end
