(* ===== verification/DataStream.thy ===== *)
theory DataStream
  imports Buffers
begin

text \<open>
  \<open>QDataStream\<close> of \<^verbatim>\<open>src/common/qdatastream.h\<close>, a stream of integers, blocks of octets and strings in a \<open>QBuffer\<close>, and the
  functions of \<open>QSerialization\<close> on C strings that it uses.  A C string is the octets up to the first zero, \<open>None\<close> the null
  pointer.
\<close>

section \<open>C strings in a block\<close>

definition text_of :: "octets \<Rightarrow> octets" where
  "text_of str = takeWhile (\<lambda>b. b \<noteq> 0) str"

definition cstring_length :: "octets option \<Rightarrow> int" where
  "cstring_length str = (case str of None \<Rightarrow> 4 | Some s \<Rightarrow> if text_of s = [] then 4 else alen (text_of s) + 4 + 1)"

definition set_cstring :: "octets \<Rightarrow> int \<Rightarrow> octets option \<Rightarrow> int \<times> int \<times> octets" where
  "set_cstring data pos str =
     (if pos < alen data \<and> pos \<ge> 0 then
        let length = (case str of None \<Rightarrow> 0 | Some s \<Rightarrow> if text_of s = [] then 0 else alen (text_of s) + 1) in
        if alen data - pos \<ge> length + 4 then
          case set_int32 data pos (of_int length) of
            (iret, pos, data) \<Rightarrow>
              if iret = 0 \<and> length > 0
              then let data = put data pos (text_of (the str)); pos = pos + length in (0, pos, put data (pos - 1) [0])
              else (iret, pos, data)
        else (- 1, pos, data)
      else (- 1, pos, data))"

text \<open>The status, the position, what is written to the caller's buffer, if anything, and the length reported.\<close>

definition get_cstring :: "octets \<Rightarrow> int \<Rightarrow> int \<Rightarrow> int \<times> int \<times> octets option \<times> int option" where
  "get_cstring data pos str_buf_length =
     (if room data pos 4 \<and> str_buf_length > 0 then
        case get_int32 data pos of
          (iret, pos, v) \<Rightarrow>
            if iret = 0 then
              let length = sint (the v) in
              if length > 0 then
                if length \<le> str_buf_length then
                  if alen data - pos \<ge> length then (0, pos + length, Some (get data pos length), Some (length - 1)) else (- 3, pos, Some [0], Some 0)
                else (- 2, pos, Some [0], Some 0)
              else (0, pos, Some [0], Some 0)
            else (iret, pos, Some [0], Some 0)
      else (- 1, pos, None, None))"

section \<open>The stream\<close>

definition QDataStream_new :: "(nat \<Rightarrow> 8 word) \<Rightarrow> int \<Rightarrow> QBuffer" where
  "QDataStream_new junk n = (if n > 0 then expand junk n None else None)"

definition ds_set_int8 where "ds_set_int8 junk v = pb_set junk 1 (\<lambda>d. set_int8 d 0 v)"
definition ds_set_int16 where "ds_set_int16 junk v = pb_set junk 2 (\<lambda>d. set_int16 d 0 v)"
definition ds_set_int32 where "ds_set_int32 junk v = pb_set junk 4 (\<lambda>d. set_int32 d 0 v)"
definition ds_set_int64 where "ds_set_int64 junk v = pb_set junk 8 (\<lambda>d. set_int64 d 0 v)"
definition ds_set_bytes where "ds_set_bytes junk bs = pb_set junk (alen bs) (\<lambda>d. set_bytes d 0 bs)"
definition ds_set_cstring where "ds_set_cstring junk str = pb_set junk (cstring_length str) (\<lambda>d. set_cstring d 0 str)"

text \<open>A \<open>std::string\<close> is measured as such and written as a C string; the test for room and the request differ by four.\<close>

definition ds_set_string :: "(nat \<Rightarrow> 8 word) \<Rightarrow> octets \<Rightarrow> QBuffer \<Rightarrow> buf_error + int \<times> QBuffer" where
  "ds_set_string junk str s =
     (let n = get_string_length str in
      case (if get_free_length s < n + 4 then expand junk n s else s) of
        None \<Rightarrow> Inr (- 1, None)
      | Some b \<Rightarrow>
          (case set_cstring (drop (nat (b_free b)) (b_mem b)) 0 (Some str) of (iret, _, region) \<Rightarrow>
             let b' = b\<lparr>b_mem := take (nat (b_free b)) (b_mem b) @ region\<rparr> in
             if iret = 0 then (case pour n (Some b') of Inl e \<Rightarrow> Inl e | Inr (_, s') \<Rightarrow> Inr (iret, s'))
             else Inr (iret, Some b')))"

definition ds_get_int8 where "ds_get_int8 = pb_get 1 (\<lambda>d. get_int8 d 0)"
definition ds_get_int16 where "ds_get_int16 = pb_get 2 (\<lambda>d. get_int16 d 0)"
definition ds_get_int32 where "ds_get_int32 = pb_get 4 (\<lambda>d. get_int32 d 0)"
definition ds_get_int64 where "ds_get_int64 = pb_get 8 (\<lambda>d. get_int64 d 0)"
definition ds_get_bytes where "ds_get_bytes n = pb_get n (\<lambda>d. get_bytes d 0 n)"

definition ds_get_string :: "QBuffer \<Rightarrow> int \<times> octets option \<times> QBuffer" where
  "ds_get_string s =
     (case s of
        None \<Rightarrow> (- 1, None, s)
      | Some b \<Rightarrow>
          (case get_string (get (b_mem b) (b_data b) (get_data_length s)) 0 of (iret, _, v) \<Rightarrow>
             (iret, v, if iret = 0 then snd (drain (get_string_length (the v)) s) else s)))"

definition ds_get_cstring :: "int \<Rightarrow> QBuffer \<Rightarrow> int \<times> octets option \<times> int option \<times> QBuffer" where
  "ds_get_cstring buf_length s =
     (case s of
        None \<Rightarrow> (- 1, None, None, s)
      | Some b \<Rightarrow>
          (case get_cstring (get (b_mem b) (b_data b) (get_data_length s)) 0 buf_length of (iret, _, v, real) \<Rightarrow>
             (iret, v, real, if iret = 0 then snd (drain (the real) s) else s)))"

section \<open>Strings at the front of a block\<close>

definition string_octets :: "octets \<Rightarrow> octets" where
  "string_octets str = le_bytes 4 (of_int (get_string_length str - 4) :: 32 word) @ (if str = [] then [] else str @ [0])"

lemma alen_string_octets [simp]: "alen (string_octets str) = get_string_length str"
  by (simp add: string_octets_def get_string_length_def alen_def)

lemma text_of_id [simp]: "0 \<notin> set str \<Longrightarrow> text_of str = str"
  by (auto simp: text_of_def takeWhile_eq_all_conv)

lemma string_length_ge: "4 \<le> get_string_length str"
  by (simp add: get_string_length_def)

lemma set_cstring_front:
  assumes "0 \<notin> set str" "get_string_length str \<le> alen d"
  shows "set_cstring d 0 (Some str) = (0, get_string_length str, put d 0 (string_octets str))"
proof -
  have "set_cstring d 0 (Some str) = set_string d 0 str"
    unfolding set_cstring_def set_string_def option.case option.sel text_of_id [OF assms(1)]
    using assms(2) alen_nonneg [of str] by (auto simp: get_string_length_def Let_def)
  then show ?thesis using set_string_layout [of 0 str d] assms(2) by (simp add: string_octets_def)
qed

lemma get_string_front:
  assumes "alen str + 1 < 2 ^ 31"
  shows "get_string (string_octets str @ rest) 0 = (0, get_string_length str, Some str)"
proof -
  let ?d = "string_octets str @ rest"
  have l: "get_string_length str \<le> alen ?d" using alen_string_octets [of str] by (simp add: alen_def)
  have "put ?d 0 (string_octets str) = ?d" by (simp add: put_def)
  then have "set_string ?d 0 str = (0, get_string_length str, ?d)" using set_string_layout [of 0 str ?d, folded string_octets_def] l by simp
  then show ?thesis using string_roundtrip [of 0 str ?d] l assms by simp
qed

lemma ds_set_string_eq: "ds_set_string junk str s = pb_set junk (get_string_length str) (\<lambda>d. set_cstring d 0 (Some str)) s"
proof -
  have "(if get_free_length s < get_string_length str + 4 then expand junk (get_string_length str) s else s) =
      (if get_free_length s < get_string_length str then expand junk (get_string_length str) s else s)"
    using string_length_ge [of str] by (cases s) (auto simp: expand_def get_free_length_def)
  then show ?thesis by (simp add: ds_set_string_def pb_set_def Let_def)
qed

lemma ds_get_string_eq:
  assumes "get_string (content s) 0 = (0, p, Some v)"
  shows "ds_get_string s = pb_get (get_string_length v) (\<lambda>d. get_string d 0) s"
  using assms by (cases s) (simp_all add: ds_get_string_def pb_get_def content_def get_data_length_def)

section \<open>What is written is read\<close>

datatype item = Int8 "8 word" | Int16 "16 word" | Int32 "32 word" | Int64 "64 word" | Bytes octets | Str octets

datatype item_kind = K8 | K16 | K32 | K64 | KBytes int | KStr

fun item_kind_of :: "item \<Rightarrow> item_kind" where
  "item_kind_of (Int8 v) = K8"
| "item_kind_of (Int16 v) = K16"
| "item_kind_of (Int32 v) = K32"
| "item_kind_of (Int64 v) = K64"
| "item_kind_of (Bytes bs) = KBytes (alen bs)"
| "item_kind_of (Str s) = KStr"

text \<open>Blocks are not empty; strings have no zero octet and their length fits in 31 bits.\<close>

fun item_ok :: "item \<Rightarrow> bool" where
  "item_ok (Bytes bs) \<longleftrightarrow> bs \<noteq> []"
| "item_ok (Str s) \<longleftrightarrow> 0 \<notin> set s \<and> alen s + 1 < 2 ^ 31"
| "item_ok _ \<longleftrightarrow> True"

fun item_layout :: "item \<Rightarrow> octets" where
  "item_layout (Int8 v) = [v]"
| "item_layout (Int16 v) = le_bytes 2 v"
| "item_layout (Int32 v) = le_bytes 4 v"
| "item_layout (Int64 v) = le_bytes 8 v"
| "item_layout (Bytes bs) = bs"
| "item_layout (Str s) = string_octets s"

definition item_octets :: "item \<Rightarrow> octets" where
  "item_octets x = (if item_ok x then item_layout x else [])"

fun write_item :: "(nat \<Rightarrow> 8 word) \<Rightarrow> item \<Rightarrow> QBuffer \<Rightarrow> QBuffer option" where
  "write_item junk (Int8 v) s = written (ds_set_int8 junk v s)"
| "write_item junk (Int16 v) s = written (ds_set_int16 junk v s)"
| "write_item junk (Int32 v) s = written (ds_set_int32 junk v s)"
| "write_item junk (Int64 v) s = written (ds_set_int64 junk v s)"
| "write_item junk (Bytes bs) s = written (ds_set_bytes junk bs s)"
| "write_item junk (Str t) s = written (ds_set_string junk t s)"

definition got :: "('a \<Rightarrow> item) \<Rightarrow> int \<times> 'a option \<times> QBuffer \<Rightarrow> (item \<times> QBuffer) option" where
  "got c r = (case r of (iret, v, s) \<Rightarrow> if iret = 0 then map_option (\<lambda>x. (c x, s)) v else None)"

fun read_item :: "item_kind \<Rightarrow> QBuffer \<Rightarrow> (item \<times> QBuffer) option" where
  "read_item K8 s = got Int8 (ds_get_int8 s)"
| "read_item K16 s = got Int16 (ds_get_int16 s)"
| "read_item K32 s = got Int32 (ds_get_int32 s)"
| "read_item K64 s = got Int64 (ds_get_int64 s)"
| "read_item (KBytes n) s = got Bytes (ds_get_bytes n s)"
| "read_item KStr s = got Str (ds_get_string s)"

lemmas ds_defs = ds_set_int8_def ds_set_int16_def ds_set_int32_def ds_set_int64_def ds_set_bytes_def
  ds_get_int8_def ds_get_int16_def ds_get_int32_def ds_get_int64_def ds_get_bytes_def

lemma item_octets_ne: "item_octets x \<noteq> [] \<longleftrightarrow> item_ok x"
  by (cases x) (auto simp: item_octets_def string_octets_def le_bytes_def)

lemma alen_pos: "bs \<noteq> [] \<Longrightarrow> 0 < alen bs" for bs :: "'a list"
  by (simp add: alen_def)

lemma alen_one: "alen [v] = 1"
  by (simp add: alen_def)

lemma item_appends:
  assumes "buf_inv s" "0 < n" "alen bs = n" "\<And>d. n \<le> alen d \<Longrightarrow> w d = (0, n, put d 0 bs)"
  shows "\<exists>s'. written (pb_set junk n w s) = Some s' \<and> buf_inv s' \<and> content s' = content s @ bs"
  using pb_set_appends [OF assms, of junk] by (auto simp: written_def)

lemma write_item_appends:
  assumes "buf_inv s" "item_octets x \<noteq> []"
  shows "\<exists>s'. write_item junk x s = Some s' \<and> buf_inv s' \<and> content s' = content s @ item_octets x"
proof -
  have ok: "item_ok x" using assms(2) by (simp add: item_octets_ne)
  show ?thesis
  proof (cases x)
    case (Str t)
    have "0 < get_string_length t" using string_length_ge [of t] by linarith
    then show ?thesis using item_appends [OF assms(1) _ alen_string_octets [of t] set_cstring_front [of t]] ok Str
      by (simp add: item_octets_def ds_set_string_eq)
  qed (use ok in \<open>simp_all add: item_octets_def ds_defs item_appends [OF assms(1)] set_int_bytes set_int8_def set_bytes_def alen_pos alen_one\<close>)
qed

lemma item_removes:
  assumes "buf_inv s" "content s = bs @ rest" "0 < n" "alen bs = n" "r (bs @ rest) = (0, n, Some v)"
  shows "\<exists>s'. got c (pb_get n r s) = Some (c v, s') \<and> buf_inv s' \<and> content s' = rest"
  using pb_get_removes [of s n bs rest r n v] assms by (auto simp: got_def)

lemma read_item_removes:
  assumes "buf_inv s" "item_octets x \<noteq> []" "content s = item_octets x @ rest"
  shows "\<exists>s'. read_item (item_kind_of x) s = Some (x, s') \<and> buf_inv s' \<and> content s' = rest"
proof -
  have ok: "item_ok x" using assms(2) by (simp add: item_octets_ne)
  have c: "content s = item_layout x @ rest" using assms(3) ok by (simp add: item_octets_def)
  show ?thesis
  proof (cases x)
    case (Str t)
    have f: "get_string (string_octets t @ rest) 0 = (0, get_string_length t, Some t)" using ok Str by (simp add: get_string_front)
    have "0 < get_string_length t" using string_length_ge [of t] by linarith
    then show ?thesis using item_removes [OF assms(1), of "string_octets t" rest _ "\<lambda>d. get_string d 0" t Str] f c Str
        ds_get_string_eq [of s] by simp
  next
    case (Int8 v)
    then show ?thesis using item_removes [OF assms(1), of "[v]" rest 1 "\<lambda>d. get_int8 d 0" v Int8] c
      by (simp add: ds_defs get_int8_def aget_def alen_def)
  next
    case (Bytes bs)
    then show ?thesis using item_removes [OF assms(1), of bs rest "alen bs" "\<lambda>d. get_bytes d 0 (alen bs)" bs Bytes] c ok
      by (simp add: ds_defs get_front_field(4)) (simp add: alen_def)
  qed (use c assms(1) in \<open>simp_all add: ds_defs item_removes [where rest = rest] get_front_field\<close>)
qed

interpretation stream: field_stream "write_item junk" read_item item_kind_of item_octets content buf_inv
  by unfold_locales (use write_item_appends read_item_removes in blast)+

lemma QDataStream_new_empty: "buf_inv (QDataStream_new junk n)" "content (QDataStream_new junk n) = []"
  using expand_spec [of None junk n] by (auto simp: QDataStream_new_def buf_inv_def content_def)

text \<open>
  C39. Whatever is written to a new \<open>QDataStream\<close>, integers of every width, non-empty blocks and strings without a zero
  octet, in any order and of any total length, is read back by the same sequence of getters, and the stream is empty then.
\<close>

theorem datastream_roundtrip:
  assumes "\<forall>x \<in> set xs. item_ok x"
  shows "\<exists>s s'. write_all (write_item junk) xs (QDataStream_new junk n) = Some s \<and> content s = concat (map item_layout xs) \<and>
    read_all read_item (map item_kind_of xs) s = Some (xs, s') \<and> content s' = []"
proof -
  have "\<forall>x \<in> set xs. item_octets x \<noteq> []" using assms by (simp add: item_octets_ne)
  from stream.roundtrip [OF QDataStream_new_empty(1) this QDataStream_new_empty(2), of junk junk n]
  have "\<exists>s s'. write_all (write_item junk) xs (QDataStream_new junk n) = Some s \<and> content s = concat (map item_octets xs) \<and>
    read_all read_item (map item_kind_of xs) s = Some (xs, s') \<and> content s' = []" .
  moreover have "map item_octets xs = map item_layout xs" using assms by (simp add: item_octets_def)
  ultimately show ?thesis by simp
qed

theorem datastream_roundtrip_witness:
  "\<exists>s s'. write_all (write_item (\<lambda>_. 0xCD)) [Int16 5, Str [0x61, 0x62], Bytes [7]] (QDataStream_new (\<lambda>_. 0xCD) 0) = Some s \<and>
    content s = concat (map item_layout [Int16 5, Str [0x61, 0x62], Bytes [7]]) \<and>
    read_all read_item [K16, KStr, KBytes 1] s = Some ([Int16 5, Str [0x61, 0x62], Bytes [7]], s') \<and> content s' = []"
  using datastream_roundtrip [of "[Int16 5, Str [0x61, 0x62], Bytes [7]]" "\<lambda>_. 0xCD" 0] by (simp add: alen_def)

section \<open>Strings that are not\<close>

text \<open>
  The getter for C strings moves on by the length of the text only: of the \<open>4 + n + 1\<close> octets of a text of \<open>n\<close> octets
  the last five stay in the stream, and the next getter reads them.
\<close>

lemma drain_content:
  assumes "buf_inv s" "content s = bs @ rest" "alen bs = n" "rest \<noteq> []"
  shows "content (snd (drain n s)) = rest"
proof (cases "n = 0")
  case True
  then have "bs = []" using assms(3) by (simp add: alen_def)
  then show ?thesis using True assms(2,4)
    by (cases s) (auto simp: drain_def content_def get_def Let_def QBuffer_clear_def)
next
  case False
  then have n: "0 < n" using assms(3) by (simp add: alen_def)
  obtain s' where "pb_get n (\<lambda>d. (0, n, Some ())) s = (0, Some (), s')" "content s' = rest"
    using pb_get_removes [of s n bs rest "\<lambda>d. (0, n, Some ())" n "()"] assms n by auto
  then show ?thesis by (cases s) (auto simp: pb_get_def drain_def)
qed

lemma ds_get_cstring_leaves:
  assumes "buf_inv s" "content s = string_octets t" "t \<noteq> []" "alen t + 1 < 2 ^ 31" "alen t < buf_length"
  shows "\<exists>s'. ds_get_cstring buf_length s = (0, Some (t @ [0]), Some (alen t), s') \<and> content s' = drop (length t) (string_octets t)"
proof -
  let ?n = "le_bytes 4 (of_int (alen t + 1) :: 32 word)"
  have o: "string_octets t = ?n @ t @ [0]" using assms(3) by (simp add: string_octets_def get_string_length_def add.commute)
  have i: "get_int32 (string_octets t) 0 = (0, 4, Some (of_int (alen t + 1)))" unfolding o using get_front_field(2) by simp
  have l: "sint (of_int (alen t + 1) :: 32 word) = alen t + 1" using assms(4) alen_nonneg [of t] by (intro sint_of_int_small) simp_all
  have a: "alen (string_octets t) = alen t + 5" using assms(3) by (simp add: get_string_length_def)
  have g: "get (string_octets t) 4 (alen t + 1) = t @ [0]" unfolding o by (simp add: get_def alen_def le_bytes_def upt_sizes)
  have bl: "0 < buf_length" "0 \<le> alen t" using assms(5) alen_nonneg [of t] by linarith+
  have c: "get_cstring (string_octets t) 0 buf_length = (0, 4 + (alen t + 1), Some (t @ [0]), Some (alen t))"
    using assms(5) a by (simp add: get_cstring_def i l g bl Let_def del: of_int_add of_int_1)
  obtain b where b: "s = Some b" using assms(2) by (cases s) (auto simp: content_def o le_bytes_def upt_sizes)
  have "get (b_mem b) (b_data b) (get_data_length s) = string_octets t" using assms(2) b by (simp add: content_def get_data_length_def)
  then have "ds_get_cstring buf_length s = (0, Some (t @ [0]), Some (alen t), snd (drain (alen t) s))" using b c by (simp add: ds_get_cstring_def)
  moreover have "content (snd (drain (alen t) s)) = drop (length t) (string_octets t)"
  proof (rule drain_content [OF assms(1), of "take (length t) (string_octets t)"])
    show "content s = take (length t) (string_octets t) @ drop (length t) (string_octets t)" using assms(2) by simp
    have "length (string_octets t) = length t + 5" using a by (simp add: alen_def)
    then show "alen (take (length t) (string_octets t)) = alen t" "drop (length t) (string_octets t) \<noteq> []" by (simp_all add: alen_def)
  qed
  ultimately show ?thesis by blast
qed

text \<open>
  A \<open>std::string\<close> with a zero octet is written up to it, but the stream moves on by its whole length: what is read back
  differs, and octets that were never written become part of the stream.
\<close>

lemma ds_set_string_zero:
  "case ds_set_string (\<lambda>_. 0xCD) [0x61, 0, 0x62] None of
     Inr (r, s) \<Rightarrow> r = 0 \<and> content s = [2, 0, 0, 0, 0x61, 0, 0xCD, 0xCD] \<and>
       (case ds_get_string s of (r, v, s) \<Rightarrow> r = 0 \<and> v = Some [0x61] \<and> content s = [0xCD, 0xCD])
   | Inl e \<Rightarrow> False"
  by code_simp

end
