(* ===== verification/ByteArray.thy ===== *)
theory ByteArray
  imports Buffers
begin

text \<open>
  \<open>QByteArray\<close> of \<^verbatim>\<open>src/common/qbytearray.h\<close>: values and strings in a block of fixed size.  Sizes and positions are
  unsigned 32-bit integers, with the wrap-around written where two of them are added.  A call may throw, and the object
  keeps what was changed before; so it returns its result or error together with the object.
\<close>

section \<open>The array\<close>

record QByteArray =
  ba_data :: "octets option"
  ba_size :: int
  ba_position :: int
  ba_own :: bool

datatype ba_error = Out_Of_Range int int int | Overrun

definition QByteArray_new :: QByteArray where
  "QByteArray_new = \<lparr>ba_data = None, ba_size = 0, ba_position = 0, ba_own = True\<rparr>"

definition ba_free :: "QByteArray \<Rightarrow> QByteArray" where
  "ba_free s = s\<lparr>ba_data := None\<rparr>"

definition ba_reset :: "QByteArray \<Rightarrow> QByteArray" where
  "ba_reset s = (ba_free s)\<lparr>ba_position := 0, ba_size := 0, ba_own := True\<rparr>"

definition ba_reset_size :: "(nat \<Rightarrow> 8 word) \<Rightarrow> int \<Rightarrow> QByteArray \<Rightarrow> QByteArray" where
  "ba_reset_size junk n s = (ba_free s)\<lparr>ba_size := n, ba_data := (if n > 0 then Some (malloc junk n) else None)\<rparr>"

definition QByteArray_sized :: "(nat \<Rightarrow> 8 word) \<Rightarrow> int \<Rightarrow> QByteArray" where
  "QByteArray_sized junk n = QByteArray_new\<lparr>ba_size := n, ba_data := (if n > 0 then Some (malloc junk n) else None)\<rparr>"

text \<open>The \<open>n\<close> octets from \<open>offset\<close> on are copied from a block that the array does not own.\<close>

definition ba_copy :: "octets \<Rightarrow> int \<Rightarrow> int \<Rightarrow> QByteArray \<Rightarrow> (ba_error + unit) \<times> QByteArray" where
  "ba_copy src offset n s =
     (let s = (ba_reset s)\<lparr>ba_size := n\<rparr> in
      if n > 0 then
        if offset + n \<le> alen src then (Inr (), s\<lparr>ba_data := Some (get src offset n)\<rparr>) else (Inl Overrun, s)
      else (Inr (), s))"

definition ba_assign :: "octets \<Rightarrow> int \<Rightarrow> int \<Rightarrow> QByteArray \<Rightarrow> (ba_error + unit) \<times> QByteArray" where
  "ba_assign src offset n s = ba_copy src offset n (ba_reset s)"

definition ba_wrap :: "octets \<Rightarrow> int \<Rightarrow> int \<Rightarrow> QByteArray \<Rightarrow> QByteArray" where
  "ba_wrap src offset n s = (ba_reset s)\<lparr>ba_own := False, ba_data := Some (drop (nat offset) src), ba_size := n\<rparr>"

text \<open>A copy of \<open>n\<close> octets to or from the current position.\<close>

definition ba_store :: "octets \<Rightarrow> QByteArray \<Rightarrow> (ba_error + unit) \<times> QByteArray" where
  "ba_store bs s =
     (case ba_data s of
        None \<Rightarrow> if bs = [] then (Inr (), s) else (Inl Overrun, s)
      | Some d \<Rightarrow>
          if ba_position s + alen bs \<le> alen d
          then (Inr (), s\<lparr>ba_data := Some (put d (ba_position s) bs), ba_position := (ba_position s + alen bs) mod 2 ^ 32\<rparr>)
          else (Inl Overrun, s))"

definition ba_fetch :: "int \<Rightarrow> int \<Rightarrow> QByteArray \<Rightarrow> ba_error + octets" where
  "ba_fetch pos n s =
     (case ba_data s of
        None \<Rightarrow> if n = 0 then Inr [] else Inl Overrun
      | Some d \<Rightarrow> if pos + n \<le> alen d then Inr (get d pos n) else Inl Overrun)"

text \<open>A value of a type \<open>T\<close> is its octets; \<open>sizeof\<close> has 64 bits, so that this test does not wrap.\<close>

definition ba_put :: "octets \<Rightarrow> QByteArray \<Rightarrow> (ba_error + unit) \<times> QByteArray" where
  "ba_put e s =
     (if ba_position s + alen e > ba_size s then (Inl (Out_Of_Range (ba_position s) (alen e) (ba_size s)), s) else ba_store e s)"

definition ba_peek :: "int \<Rightarrow> QByteArray \<Rightarrow> ba_error + octets" where
  "ba_peek n s =
     (if ba_position s + n > ba_size s then Inl (Out_Of_Range (ba_position s) n (ba_size s)) else ba_fetch (ba_position s) n s)"

definition ba_get :: "int \<Rightarrow> QByteArray \<Rightarrow> (ba_error + octets) \<times> QByteArray" where
  "ba_get n s =
     (if ba_position s + n > ba_size s then (Inl (Out_Of_Range (ba_position s) n (ba_size s)), s)
      else case ba_peek n s of
        Inl e \<Rightarrow> (Inl e, s)
      | Inr v \<Rightarrow> (Inr v, s\<lparr>ba_position := (ba_position s + n) mod 2 ^ 32\<rparr>))"

text \<open>The functions on ranges add 32-bit numbers.\<close>

definition ba_put_range :: "octets \<Rightarrow> int \<Rightarrow> int \<Rightarrow> QByteArray \<Rightarrow> (ba_error + unit) \<times> QByteArray" where
  "ba_put_range src offset n s =
     (if (ba_position s + n) mod 2 ^ 32 > ba_size s then (Inl (Out_Of_Range (ba_position s) n (ba_size s)), s)
      else if offset + n \<le> alen src then ba_store (get src offset n) s else (Inl Overrun, s))"

definition ba_get_range :: "int \<Rightarrow> QByteArray \<Rightarrow> (ba_error + octets) \<times> QByteArray" where
  "ba_get_range n s =
     (if (ba_position s + n) mod 2 ^ 32 > ba_size s then (Inl (Out_Of_Range (ba_position s) n (ba_size s)), s)
      else case ba_fetch (ba_position s) n s of
        Inl e \<Rightarrow> (Inl e, s)
      | Inr v \<Rightarrow> (Inr v, s\<lparr>ba_position := (ba_position s + n) mod 2 ^ 32\<rparr>))"

text \<open>A string is its length with the terminator, then the octets with the terminator.\<close>

definition ba_put_string :: "octets \<Rightarrow> QByteArray \<Rightarrow> (ba_error + unit) \<times> QByteArray" where
  "ba_put_string v s =
     (case ba_put (le_bytes 4 (of_nat (length v) + 1 :: 32 word)) s of
        (Inl e, s) \<Rightarrow> (Inl e, s)
      | (Inr _, s) \<Rightarrow> ba_put_range (v @ [0]) 0 ((alen v + 1) mod 2 ^ 32) s)"

text \<open>\<open>None\<close> where the string is left as it was; reading it ends at the first zero octet.\<close>

definition ba_get_string :: "QByteArray \<Rightarrow> (ba_error + octets option) \<times> QByteArray" where
  "ba_get_string s =
     (case ba_get 4 s of
        (Inl e, s) \<Rightarrow> (Inl e, s)
      | (Inr b, s) \<Rightarrow>
          let n = uint (le_val b :: 32 word) in
          if n > 0 then
            (case ba_get_range n s of
               (Inl e, s) \<Rightarrow> (Inl e, s)
             | (Inr v, s) \<Rightarrow> (if 0 \<in> set v then Inr (Some (takeWhile (\<lambda>b. b \<noteq> 0) v)) else Inl Overrun, s))
          else (Inr None, s))"

text \<open>The offset of the reference that is returned.\<close>

definition ba_rawData :: "int \<Rightarrow> int \<Rightarrow> QByteArray \<Rightarrow> ba_error + int" where
  "ba_rawData index n s =
     (let index = (if index < 0 then s32 (ba_position s) else index) in
      if (index + n) mod 2 ^ 32 > ba_size s then Inl (Out_Of_Range (index mod 2 ^ 32) n (ba_size s)) else Inr index)"

definition ba_getRef :: "int \<Rightarrow> int \<Rightarrow> QByteArray \<Rightarrow> (ba_error + int) \<times> QByteArray" where
  "ba_getRef index n s =
     (case ba_rawData index n s of
        Inl e \<Rightarrow> (Inl e, s)
      | Inr r \<Rightarrow> (Inr r, s\<lparr>ba_position := (if index < 0 then ba_position s + n else index + n) mod 2 ^ 32\<rparr>))"

definition ba_set_position :: "int \<Rightarrow> QByteArray \<Rightarrow> (ba_error + int) \<times> QByteArray" where
  "ba_set_position p s =
     (if p > ba_size s then (Inl (Out_Of_Range (ba_position s) p (ba_size s)), s) else (Inr (ba_position s), s\<lparr>ba_position := p\<rparr>))"

definition ba_remaining :: "QByteArray \<Rightarrow> int" where
  "ba_remaining s = s32 (ba_size s - ba_position s)"

section \<open>No call leaves the block\<close>

definition ba_wf :: "QByteArray \<Rightarrow> bool" where
  "ba_wf s \<longleftrightarrow> 0 \<le> ba_size s \<and> ba_size s < 2 ^ 31 \<and> 0 \<le> ba_position s \<and> ba_position s < 2 ^ 31 \<and>
     (case ba_data s of None \<Rightarrow> ba_size s = 0 | Some d \<Rightarrow> ba_size s \<le> alen d)"

datatype ba_call =
    Reset | ResetSize int | Assign octets int int | Wrap octets int int | Put octets | Get int | PutRange octets int int | GetRange int
  | PutString octets | GetRef int int | SetPosition int

text \<open>What a caller has to see to: sources that hold what is to be copied, and lengths below \<open>2\<^sup>31\<close>.\<close>

fun ba_call_ok :: "ba_call \<Rightarrow> bool" where
  "ba_call_ok Reset \<longleftrightarrow> True"
| "ba_call_ok (ResetSize n) \<longleftrightarrow> 0 \<le> n \<and> n < 2 ^ 31"
| "ba_call_ok (Assign src off n) \<longleftrightarrow> 0 \<le> n \<and> n < 2 ^ 31 \<and> 0 \<le> off \<and> off + n \<le> alen src"
| "ba_call_ok (Wrap src off n) \<longleftrightarrow> 0 \<le> n \<and> n < 2 ^ 31 \<and> 0 \<le> off \<and> off + n \<le> alen src"
| "ba_call_ok (Put e) \<longleftrightarrow> alen e < 2 ^ 31"
| "ba_call_ok (Get n) \<longleftrightarrow> 0 \<le> n \<and> n < 2 ^ 31"
| "ba_call_ok (PutRange src off n) \<longleftrightarrow> 0 \<le> n \<and> n < 2 ^ 31 \<and> 0 \<le> off \<and> off + n \<le> alen src"
| "ba_call_ok (GetRange n) \<longleftrightarrow> 0 \<le> n \<and> n < 2 ^ 31"
| "ba_call_ok (PutString v) \<longleftrightarrow> alen v + 1 < 2 ^ 31"
| "ba_call_ok (GetRef i n) \<longleftrightarrow> i < 2 ^ 31 \<and> 0 \<le> n \<and> n < 2 ^ 31"
| "ba_call_ok (SetPosition p) \<longleftrightarrow> 0 \<le> p"

fun ba_do :: "(nat \<Rightarrow> 8 word) \<Rightarrow> ba_call \<Rightarrow> QByteArray \<Rightarrow> ba_error option \<times> QByteArray" where
  "ba_do junk Reset s = (None, ba_reset s)"
| "ba_do junk (ResetSize n) s = (None, ba_reset_size junk n s)"
| "ba_do junk (Assign src off n) s = map_prod (case_sum Some (\<lambda>_. None)) id (ba_assign src off n s)"
| "ba_do junk (Wrap src off n) s = (None, ba_wrap src off n s)"
| "ba_do junk (Put e) s = map_prod (case_sum Some (\<lambda>_. None)) id (ba_put e s)"
| "ba_do junk (Get n) s = map_prod (case_sum Some (\<lambda>_. None)) id (ba_get n s)"
| "ba_do junk (PutRange src off n) s = map_prod (case_sum Some (\<lambda>_. None)) id (ba_put_range src off n s)"
| "ba_do junk (GetRange n) s = map_prod (case_sum Some (\<lambda>_. None)) id (ba_get_range n s)"
| "ba_do junk (PutString v) s = map_prod (case_sum Some (\<lambda>_. None)) id (ba_put_string v s)"
| "ba_do junk (GetRef i n) s = map_prod (case_sum Some (\<lambda>_. None)) id (ba_getRef i n s)"
| "ba_do junk (SetPosition p) s = map_prod (case_sum Some (\<lambda>_. None)) id (ba_set_position p s)"

fun ba_run :: "(nat \<Rightarrow> 8 word) \<Rightarrow> ba_call list \<Rightarrow> QByteArray \<Rightarrow> ba_error option list \<times> QByteArray" where
  "ba_run junk [] s = ([], s)"
| "ba_run junk (x # xs) s = (case ba_do junk x s of (e, s) \<Rightarrow> map_prod ((#) e) id (ba_run junk xs s))"

lemma mod32 [simp]: "0 \<le> x \<Longrightarrow> x < 4294967296 \<Longrightarrow> x mod 4294967296 = (x :: int)"
  by simp

lemma ba_wf_position: "ba_wf s \<Longrightarrow> 0 \<le> p \<Longrightarrow> p \<le> ba_size s \<Longrightarrow> ba_wf (s\<lparr>ba_position := p\<rparr>)"
  by (cases "ba_data s") (auto simp: ba_wf_def)

lemma ba_store_wf:
  assumes "ba_wf s" "ba_position s + alen bs \<le> ba_size s"
  shows "\<exists>s'. ba_store bs s = (Inr (), s') \<and> ba_wf s' \<and> ba_size s' = ba_size s \<and> ba_position s' = ba_position s + alen bs"
proof (cases "ba_data s")
  case None
  then have "ba_position s + alen bs \<le> 0" "0 \<le> ba_position s" using assms by (auto simp: ba_wf_def)
  then have "length bs = 0" unfolding alen_def by linarith
  then have "bs = []" by simp
  then show ?thesis using None assms by (simp add: ba_store_def alen_def)
next
  case (Some d)
  then have r: "ba_position s + alen bs \<le> alen d" "0 \<le> ba_position s" using assms by (auto simp: ba_wf_def)
  then have "alen (put d (ba_position s) bs) = alen d" by simp
  moreover have "(ba_position s + alen bs) mod 4294967296 = ba_position s + alen bs" using assms r(2) alen_nonneg [of bs]
    by (intro mod32) (auto simp: ba_wf_def)
  moreover have "0 \<le> ba_size s" "ba_size s < 2147483648" "ba_size s \<le> alen d" using assms(1) Some by (simp_all add: ba_wf_def)
  moreover have "0 \<le> ba_position s + alen bs" "ba_position s + alen bs < 2147483648" using r(2) assms(2) calculation(4) alen_nonneg [of bs] by linarith+
  ultimately show ?thesis using Some r by (simp add: ba_store_def ba_wf_def)
qed

lemma ba_fetch_wf:
  assumes "ba_wf s" "0 \<le> n" "ba_position s + n \<le> ba_size s"
  shows "\<exists>v. ba_fetch (ba_position s) n s = Inr v \<and> alen v = n"
proof (cases "ba_data s")
  case None
  then have "n = 0" using assms by (auto simp: ba_wf_def)
  then show ?thesis using None by (simp add: ba_fetch_def alen_def)
next
  case (Some d)
  then have "ba_position s + n \<le> alen d" "0 \<le> ba_position s" using assms by (auto simp: ba_wf_def)
  then show ?thesis using Some assms(2) by (simp add: ba_fetch_def get_def alen_def)
qed

lemma ba_put_wf:
  assumes "ba_wf s"
  shows "\<exists>e s'. ba_put bs s = (e, s') \<and> ba_wf s' \<and> e \<noteq> Inl Overrun"
  using assms ba_store_wf [OF assms, of bs] by (auto simp: ba_put_def)

lemma ba_put_range_wf:
  assumes "ba_wf s" "0 \<le> n" "n < 2 ^ 31" "0 \<le> off" "off + n \<le> alen src"
  shows "\<exists>e s'. ba_put_range src off n s = (e, s') \<and> ba_wf s' \<and> e \<noteq> Inl Overrun"
proof -
  have m: "(ba_position s + n) mod 4294967296 = ba_position s + n" using assms by (intro mod32) (auto simp: ba_wf_def)
  have "nat off + nat n \<le> length src" using assms by (simp add: alen_def)
  then have "alen (get src off n) = n" using assms(2) by (simp add: get_def alen_def)
  then show ?thesis using assms ba_store_wf [OF assms(1), of "get src off n"] m by (auto simp: ba_put_range_def)
qed

lemma ba_get_wf:
  assumes "ba_wf s" "0 \<le> n" "n < 2 ^ 31"
  shows "\<exists>e s'. ba_get n s = (e, s') \<and> ba_wf s' \<and> e \<noteq> Inl Overrun" "\<exists>e s'. ba_get_range n s = (e, s') \<and> ba_wf s' \<and> e \<noteq> Inl Overrun"
proof -
  have m: "(ba_position s + n) mod 4294967296 = ba_position s + n" using assms by (intro mod32) (auto simp: ba_wf_def)
  have w: "ba_wf (s\<lparr>ba_position := ba_position s + n\<rparr>)" if "ba_position s + n \<le> ba_size s"
    using that assms(1,2) by (intro ba_wf_position) (auto simp: ba_wf_def)
  show "\<exists>e s'. ba_get n s = (e, s') \<and> ba_wf s' \<and> e \<noteq> Inl Overrun" "\<exists>e s'. ba_get_range n s = (e, s') \<and> ba_wf s' \<and> e \<noteq> Inl Overrun"
    using ba_fetch_wf [OF assms(1,2)] w assms(1) m by (auto simp: ba_get_def ba_get_range_def ba_peek_def)
qed

lemma ba_getRef_wf:
  assumes "ba_wf s" "i < 2 ^ 31" "0 \<le> n" "n < 2 ^ 31"
  shows "\<exists>e s'. ba_getRef i n s = (e, s') \<and> ba_wf s' \<and> e \<noteq> Inl Overrun"
proof -
  let ?i = "if i < 0 then ba_position s else i"
  have p: "0 \<le> ba_position s" "ba_position s < 2 ^ 31" using assms(1) by (auto simp: ba_wf_def)
  then have "s32 (ba_position s) = ba_position s" by (intro s32_id) (simp add: fits32_def MIN_INT32_def MAX_INT32_def)
  moreover have "(?i + n) mod 4294967296 = ?i + n" using assms p by (intro mod32) auto
  moreover have "ba_wf (s\<lparr>ba_position := ?i + n\<rparr>)" if "?i + n \<le> ba_size s"
    using that assms p by (intro ba_wf_position) auto
  ultimately show ?thesis using assms(1) by (auto simp: ba_getRef_def ba_rawData_def Let_def split: if_splits)
qed

lemma ba_assign_wf:
  assumes "0 \<le> n" "n < 2 ^ 31" "0 \<le> off" "off + n \<le> alen src"
  shows "\<exists>s'. ba_assign src off n s = (Inr (), s') \<and> ba_wf s'" "ba_wf (ba_wrap src off n s)"
proof -
  have "nat off + nat n \<le> length src" using assms by (simp add: alen_def)
  then have "alen (get src off n) = n" "n \<le> alen (drop (nat off) src)" using assms by (simp_all add: get_def alen_def)
  then show "\<exists>s'. ba_assign src off n s = (Inr (), s') \<and> ba_wf s'" "ba_wf (ba_wrap src off n s)" using assms
    by (auto simp: ba_assign_def ba_copy_def ba_wrap_def ba_wf_def ba_reset_def ba_free_def Let_def)
qed

lemma ba_put_string_wf:
  assumes "ba_wf s" "alen v + 1 < 2 ^ 31"
  shows "\<exists>e s'. ba_put_string v s = (e, s') \<and> ba_wf s' \<and> e \<noteq> Inl Overrun"
proof -
  obtain e s1 where e: "ba_put (le_bytes 4 (of_nat (length v) + 1 :: 32 word)) s = (e, s1)" "ba_wf s1" "e \<noteq> Inl Overrun"
    using ba_put_wf [OF assms(1)] by blast
  have n: "(alen v + 1) mod 4294967296 = alen v + 1" using assms(2) alen_nonneg [of v] by (intro mod32) simp_all
  have "alen v + 1 \<le> alen (v @ [0])" by (simp add: alen_def)
  then show ?thesis using e ba_put_range_wf [OF e(2), of "alen v + 1" 0 "v @ [0]"] assms(2) alen_nonneg [of v] n
    by (cases e) (auto simp: ba_put_string_def)
qed

lemma ba_do_wf:
  assumes "ba_wf s" "ba_call_ok x"
  shows "ba_wf (snd (ba_do junk x s)) \<and> fst (ba_do junk x s) \<noteq> Some Overrun"
proof (cases x)
  case Reset
  then show ?thesis by (simp add: ba_reset_def ba_free_def ba_wf_def)
next
  case (ResetSize n)
  then show ?thesis using assms alen_malloc [of n junk] by (auto simp: ba_reset_size_def ba_free_def ba_wf_def)
next
  case (Assign src off n)
  then show ?thesis using assms ba_assign_wf(1) [of n off src s] by auto
next
  case (Wrap src off n)
  then show ?thesis using assms ba_assign_wf(2) [of n off src s] by auto
next
  case (Put e)
  then show ?thesis using ba_put_wf [OF assms(1), of e] by (auto split: sum.splits)
next
  case (Get n)
  then show ?thesis using ba_get_wf(1) [OF assms(1), of n] assms(2) by (auto split: sum.splits)
next
  case (PutRange src off n)
  then show ?thesis using ba_put_range_wf [OF assms(1), of n off src] assms(2) by (auto split: sum.splits)
next
  case (GetRange n)
  then show ?thesis using ba_get_wf(2) [OF assms(1), of n] assms(2) by (auto split: sum.splits)
next
  case (PutString v)
  then show ?thesis using ba_put_string_wf [OF assms(1), of v] assms(2) by (auto split: sum.splits)
next
  case (GetRef i n)
  then show ?thesis using ba_getRef_wf [OF assms(1), of i n] assms(2) by (auto split: sum.splits)
next
  case (SetPosition p)
  then show ?thesis using assms ba_wf_position [of s p] by (simp add: ba_set_position_def)
qed



text \<open>Beyond that the test of the functions on ranges wraps: a length of \<open>2\<^sup>32 - 1\<close> passes it at position one.\<close>

lemma ba_get_range_wraps:
  assumes "ba_data s = Some d" "ba_position s = 1" "0 \<le> ba_size s" "alen d < 2 ^ 32"
  shows "ba_get_range (2 ^ 32 - 1) s = (Inl Overrun, s)"
  using assms by (simp add: ba_get_range_def ba_fetch_def)

text \<open>A string that fits is read back from where it was written.\<close>

lemma ba_string_roundtrip:
  assumes "ba_wf s" "0 \<notin> set v" "ba_position s + 4 + alen v + 1 \<le> ba_size s"
  shows "\<exists>s'. ba_put_string v s = (Inr (), s') \<and> ba_get_string (s'\<lparr>ba_position := ba_position s\<rparr>) = (Inr (Some v), s')"
proof -
  let ?p = "ba_position s" and ?le = "le_bytes 4 (of_nat (length v) + 1 :: 32 word)"
  have b: "0 \<le> ?p" "0 \<le> alen v" "ba_size s < 2147483648" using assms(1) alen_nonneg [of v] by (auto simp: ba_wf_def)
  obtain d where d: "ba_data s = Some d" "ba_size s \<le> alen d" using assms(1,3) b by (cases "ba_data s") (auto simp: ba_wf_def)
  let ?d = "put d ?p (?le @ v @ [0])"
  have t: "alen (?le @ v @ [0]) = 5 + alen v" by (simp add: alen_def)
  have len: "alen ?d = alen d" using room_put [of ?p "?le @ v @ [0]" d] b assms(3) d(2) t by simp
  have w: "put (put d ?p ?le) (?p + 4) (v @ [0]) = ?d" using put_put [of ?p ?le d "v @ [0]"] b assms(3) d(2) by simp
  have p4: "?p + 4 \<le> alen d" using b assms(3) d(2) by linarith
  then have l4: "alen (put d ?p ?le) = alen d" using room_put [of ?p ?le d] b(1) by simp
  have g0: "get (v @ [0]) 0 (alen v + 1) = v @ [0]" by (simp add: get_def alen_def nat_add_distrib)
  have v1: "alen (v @ [0]) = alen v + 1" by (simp add: alen_def)
  let ?s = "s\<lparr>ba_data := Some ?d, ba_position := 5 + (?p + alen v)\<rparr>"
  have r: "?p + 4 < 2147483648" "alen v + 1 < 2147483648" "5 + (?p + alen v) < 2147483648" "?p + 4 \<le> ba_size s" "\<not> ba_size s < ?p + 4"
    "\<not> ba_size s < 5 + (?p + alen v)" "0 < alen v + 1" "5 + (?p + alen v) \<le> alen d" using b assms(3) d(2) by linarith+
  have m: "(?p + 4) mod 4294967296 = ?p + 4" by (rule mod32) (use r b in linarith)+
  have m2: "(alen v + 1) mod 4294967296 = alen v + 1" by (rule mod32) (use r b in linarith)+
  have m3: "(5 + (?p + alen v)) mod 4294967296 = 5 + (?p + alen v)" by (rule mod32) (use r b in linarith)+
  have put: "ba_put_string v s = (Inr (), ?s)"
    by (simp add: ba_put_string_def ba_put_def ba_store_def ba_put_range_def g0 l4 w d(1) m m2 m3 v1 r p4)
  have pl: "?p \<le> alen d" using b assms(3) d(2) by linarith
  have g1: "get ?d ?p 4 = ?le" using get_put_part [OF b(1) pl, of "[]" ?le "v @ [0]"] by (simp add: alen_def)
  have g2: "get ?d (?p + 4) (alen v + 1) = v @ [0]" using get_put_part [OF b(1) pl, of ?le "v @ [0]" "[]"] v1 by simp
  have "uint (of_nat (length v) + 1 :: 32 word) = alen v + 1"
  proof -
    have "(of_nat (length v) + 1 :: 32 word) = of_nat (length v + 1)" by simp
    moreover have "uint (of_nat (length v + 1) :: 32 word) = int (length v + 1)"
      using b assms(3) unfolding alen_def by (simp add: uint_word_of_int_eq unsigned_of_nat take_bit_nat_eq_self del: of_nat_Suc)
    ultimately show ?thesis by (simp add: alen_def add.commute)
  qed
  then have n: "uint (le_val ?le :: 32 word) = alen v + 1" by (simp add: le_val_bytes)
  have tw: "takeWhile (\<lambda>b. b \<noteq> 0) (v @ [0]) = v" using assms(2) by (induction v) auto
  have "ba_get_string (?s\<lparr>ba_position := ?p\<rparr>) = (Inr (Some v), ?s)"
    by (simp add: ba_get_string_def ba_get_def ba_peek_def ba_fetch_def ba_get_range_def g1 g2 n len m m3 r p4 tw Let_def)
  with put show ?thesis by simp
qed

end
