(* ===== verification/Spec2Isabelle.thy ===== *)
theory Spec2Isabelle
  imports ListQueue MultiKeyVariants Heaps Searching HeapQuickSort SearchPool WorkerThreads Monitor Sentinel StringFind HashMaps Buffers Bitmaps Crc RedBlackMap ParallelSort LinkedList StrIDAllocator LogicalParser EditDistance DataStream ByteArray
begin

text \<open>
  A verification of the Kalava-PIR image retrieval cluster.

  \<^bold>\<open>The program.\<close>  A \<^emph>\<open>master\<close> process (\<^verbatim>\<open>src/master/src\<close>) accepts SOAP requests and distributes them to
  \<^emph>\<open>worker\<close> processes (\<^verbatim>\<open>src/worker/src\<close>), each of which wraps an image matching library.  Both are
  written over a common library of containers, algorithms and utilities (\<^verbatim>\<open>src/common\<close>).  A search
  on the master asks all workers in parallel, collects their matches under a mutex, sorts them by
  score and returns the best; a watchdog polls the workers' states, and a snapshot file lets a
  restarted master recover its workers.  A worker is initialised, trained and started through
  requests, and threads do the long work.

  \<^bold>\<open>Theories.\<close>  Below, what each holds and the source it models.

  \<^item> \<open>Prelude\<close>: checked array access, C division, words and sortedness on ranges; the collections of
    simplification rules the other theories use.
  \<^item> \<open>Queue\<close>, \<open>ListQueue\<close>: \<open>QQueue\<close> and \<open>QListQueue\<close> of \<^verbatim>\<open>qqueue.h\<close>.  The ring is a record with a cell
    list and two indices; the linked queue lives in an explicit store of nodes, with failing
    allocation.  Each method runs under the object's mutex and is one step; a blocking method is
    \<open>None\<close> where it waits.  The locale \<open>bounded_queue\<close> of \<open>Queue\<close> is their contract; under every
    schedule what was popped and what is queued is what was pushed.
  \<^item> \<open>PriorityQueue\<close>, \<open>Heaps\<close>, over \<open>HeapArray\<close>: \<open>QPriorityQueue\<close> of \<^verbatim>\<open>qqueue.h\<close>, \<open>QMinHeap\<close> and \<open>QMaxHeap\<close>
    of \<^verbatim>\<open>qheap.h\<close>.  The array-heap lemmas are proved once for a total preorder and interpreted for
    both directions; popping everything gives a sorted list.
  \<^item> \<open>MultiKeySort\<close>, \<open>MultiKeyVariants\<close>: the sorts \<^verbatim>\<open>Q_Recursion_*\<close> and \<^verbatim>\<open>Q_Unrecursion_*\<close> of
    \<^verbatim>\<open>qalgorithm.h\<close>.  One partition loop is proved over an abstract order and swap, then
    instantiated for each number of keys and attached arrays.  The iterative sorts keep their stack
    of 1024 integers: enough for ranges of 513 cells, which the theorems state as their bound.
  \<^item> \<open>BasicSorts\<close>, \<open>HeapQuickSort\<close>, \<open>Searching\<close>: the elementary sorts and the searches of
    \<^verbatim>\<open>qalgorithm.h\<close>; the quick sort is a function to \<open>option\<close>, because its partition may not end.
  \<^item> \<open>CLib\<close>, \<open>ConfigReader\<close>: the parts of the C library that parsing needs, and \<open>QConfigReader\<close> of
    \<^verbatim>\<open>qconfigreader.h\<close> on the text of a file, with the 1024-byte line buffer and buffer overruns as
    errors.  A file that consists of rendered fields is read as the first field of the name.
  \<^item> \<open>WorkerInfo\<close>: the worker table of the master and its snapshot (\<^verbatim>\<open>master/src/pir.cpp\<close>).
  \<^item> \<open>SearchPool\<close>: the queue of search objects (\<^verbatim>\<open>initServer\<close>, \<^verbatim>\<open>ns__imSearch\<close>) as a step relation of
    concurrent requests over \<open>QQueue\<close>.
  \<^item> \<open>Master\<close>: the handlers of \<^verbatim>\<open>master/src/recgservice.cpp\<close> and the watchdog.
  \<^item> \<open>WorkerServer\<close>, \<open>WorkerThreads\<close>: \<^verbatim>\<open>worker/src/recgservice.cpp\<close> and the recovery file of
    \<^verbatim>\<open>worker/src/pir.cpp\<close>.  The first has the handlers that touch files, the training set and
    searches, as functions on the state; the second the life cycle, in which handlers and threads
    are lists of instructions whose steps interleave.  The locale \<open>thread_invariant\<close> gives
    invariants of all interleavings.
  \<^item> \<open>Dispatch\<close>: the accept loop of \<^verbatim>\<open>serverMain\<close>, the threads of \<^verbatim>\<open>process_queue\<close> and the trigger of
    \<^verbatim>\<open>qglobal.h\<close> between them, as interleaved steps: every accepted connection can be served, and a
    server told to shut down while its threads wait never ends.
  \<^item> \<open>Startup\<close>, \<open>Sentinel\<close>, \<open>Monitor\<close>: options and configuration files of both servers, the launch request
    of \<^verbatim>\<open>sentinel/src/serlaunch.cpp\<close> with the directory functions of \<^verbatim>\<open>qdir.cc\<close>, and the master's
    \<open>http_get\<close>, status page, log query and training thread.
  \<^item> \<open>StringFind\<close>, \<open>Codecs\<close>: string functions of \<^verbatim>\<open>qfunc.h\<close>.  The locale \<open>substring_search\<close> says what a
    search promises and is interpreted for the three searches; the Knuth-Morris-Pratt search is
    shown equal to the plain one; splitting, replacing, URL encoding, base-62 and decimal numbers have
    their round trips.
  \<^item> \<open>HashMaps\<close>: the three tables of \<^verbatim>\<open>qhashmap.h\<close> refine maps (locales \<open>insert_table\<close>, \<open>erase_table\<close>).
  \<^item> \<open>Serialization\<close>, \<open>Buffers\<close>: \<^verbatim>\<open>qserialization.h\<close>, and the growing buffer and message fields of
    \<^verbatim>\<open>qbuffer.h\<close> and \<^verbatim>\<open>qprotobuffer.h\<close>; the locale \<open>field_stream\<close> turns what one field promises into the
    round trip of a whole message.
  \<^item> \<open>DataStream\<close>, \<open>ByteArray\<close>: \<^verbatim>\<open>qdatastream.h\<close>, a second instance of \<open>field_stream\<close>, and \<^verbatim>\<open>qbytearray.h\<close>, whose
    well-formedness every call keeps while lengths stay below \<open>2\<^sup>31\<close>.
  \<^item> \<open>Bitmaps\<close>: the bit sets of \<^verbatim>\<open>qbitmap.h\<close> refine sets (locale \<open>bit_set\<close>), with 32-bit counts.
  \<^item> \<open>Crc\<close>: the tables and functions of \<^verbatim>\<open>qcrc.h\<close> agree with the polynomial division one bit at a time,
    and miss no error within one byte (locale \<open>checksum\<close>).
  \<^item> \<open>RedBlackTree\<close>, \<open>RedBlackMap\<close>: \<^verbatim>\<open>qredblacktree.h\<close> over a store of nodes with parent pointers.  The store
    holds a tree below a path to the root; the rotations and the loop of \<open>InsertFixup\<close> are proved against
    operations on such trees, and insertion and search against maps.  Removal is modelled; its repair is
    wrong for right children, and a theorem shows the red root it leaves.
  \<^item> \<open>ParallelSort\<close>: the start of \<open>QQSParallel\<close> of \<^verbatim>\<open>qalgorithm.h\<close>, which waits for ever.
  \<^item> \<open>Allocators\<close>: \<^verbatim>\<open>qallocator.h\<close> and the list of \<^verbatim>\<open>qlist.h\<close> built on it.  The locale \<open>allocator\<close> gives, for any
    client, that what it holds is backed by memory and shares no octet; it is interpreted for both allocators.
  \<^item> \<open>Vectors\<close>, \<open>LinkedList\<close>: \<^verbatim>\<open>qvector.h\<close>, \<^verbatim>\<open>qstack.h\<close> and the doubly linked list of \<^verbatim>\<open>qlist.h\<close>.  The locale
    \<open>list_machine\<close> says that a container does the operations of a list up to a number of elements; the linked list
    is a ring in a store of nodes, and its destructor is shown to depend on where the cursor stands.
  \<^item> \<open>HashSearch\<close>: the table of \<^verbatim>\<open>qhashsearch.h\<close>, whose nodes are chunks of the allocators: what the allocator promises
    and the chains together give a map.
  \<^item> \<open>Md5\<close>: \<^verbatim>\<open>qmd5.h\<close> and \<^verbatim>\<open>qmd5file.h\<close>, both shown to compute the digest of RFC 1321, with the lengths for which
    they do not.
  \<^item> \<open>StrIDAllocator\<close>: the string numbers of \<^verbatim>\<open>qstridallocator.h\<close>, composed of the allocator, the hash table and the digest
    above.  The object refines a list, and a restarted process that loads the file answers as the first one.
  \<^item> \<open>LogicalParser\<close>, \<open>EditDistance\<close>: the matching of \<^verbatim>\<open>qlogicalparser.h\<close> decides formulas, and the recursion of
    \<^verbatim>\<open>qdistance.h\<close> gives the least number of edits.
  \<^item> this theory: the properties that span master and workers.

  \<^bold>\<open>Conventions.\<close>  Signed machine integers are \<open>int\<close>, with the conversions \<open>s32\<close>, \<open>u8\<close>, \<open>u64\<close> written where
  the code converts or may wrap; the training counter of the worker is a \<open>32 word\<close>.  Errors are
  values of sum or option types.  A loop that is not structurally recursive has a termination proof,
  or is a \<open>partial_function\<close> whose result \<open>None\<close> means that it does not return.

  \<^bold>\<open>Arguments.\<close>  What is outside the sources is an argument of the definitions that use it: the
  answers to SOAP calls, the image library, \<open>std::sort\<close> (with the promise \<open>sorts\<close>), files and whether
  they can be written, what fresh memory holds, the system calls of the sentinel, allocation failure,
  and the order in which threads get a mutex.  Scores are
  elements of any linear order; progress values are rational numbers; the one floating-point
  threshold test of \<open>trainAdd\<close> is an argument.

  \<^bold>\<open>What is not modelled.\<close>  The gSOAP runtime and the generated stubs, logging and time measurement, the
  bodies of system calls, daemonisation, pid files, sockets and signals, the section of the status
  page on the host, floating-point accessors of the configuration, the sorting threads
  behind \<open>QQSParallel::init\<close>, and the containers and utilities of \<^verbatim>\<open>src/common\<close> other than those above.
  The watchdog of the master replaces the worker table while searches may read it; the model treats
  a status update and a search as separate steps.
\<close>

section \<open>The cluster\<close>

text \<open>
  What a master hears when it asks the worker processes for their states: nothing from a process
  that is not reachable over the network.
\<close>

definition state_replies :: "(nat \<Rightarrow> bool) \<Rightarrow> wsys list \<Rightarrow> nat \<Rightarrow> int option" where
  "state_replies up ws i = (if i < length ws \<and> up i then Some (w_serverstate (ws ! i)) else None)"

definition life_of_worker :: "request set \<Rightarrow> wsys \<Rightarrow> bool" where
  "life_of_worker R s \<longleftrightarrow> (\<exists>s0. threads s0 = [] \<and> w_serverstate s0 = PIR_STATE_NONE \<and> w_progressPCT s0 = 0 \<and> wreach R s0 s)"

lemma life_state:
  assumes "life_of_worker R s" "R_serviceRestart \<notin> R"
  shows "PIR_STATE_NONE \<le> w_serverstate s \<and> w_serverstate s \<le> PIR_STATE_READY"
proof -
  obtain s0 where s0: "threads s0 = []" "w_serverstate s0 = PIR_STATE_NONE" "wreach R s0 s"
    using assms(1) by (auto simp: life_of_worker_def)
  have "wreach (UNIV - {R_serviceRestart}) s0 s" using s0(3) by (rule wreach_mono) (use assms(2) in blast)
  from no_restart.invariant [OF this] s0(1,2) show ?thesis by (simp add: pir_states)
qed

text \<open>
  C2. The state of the cluster.  Whatever the workers have been through, as long as no
  \<open>serviceRestart\<close> was sent to them, a status update makes the master \<open>READY\<close> exactly when it has at
  least one worker and every worker is reachable and \<open>READY\<close>.
\<close>

theorem cluster_ready:
  assumes "\<forall>w\<in>set ws. life_of_worker R w" "R_serviceRestart \<notin> R" "bucketSize server = int (length ws)"
  shows "serverstate (poll_status (state_replies up ws) server) = PIR_STATE_READY \<longleftrightarrow>
    ws \<noteq> [] \<and> (\<forall>i < length ws. up i \<and> w_serverstate (ws ! i) = PIR_STATE_READY)"
proof -
  have "\<forall>i t. i < nat (bucketSize server) \<and> state_replies up ws i = Some t \<longrightarrow> PIR_STATE_NONE \<le> t \<and> t \<le> PIR_STATE_READY"
    using life_state [OF _ assms(2)] assms(1,3) nth_mem by (auto simp: state_replies_def; blast)
  from conjunct1 [OF poll_status_cases [OF this]] assms(3)
  have "serverstate (poll_status (state_replies up ws) server) = PIR_STATE_READY \<longleftrightarrow>
      ws \<noteq> [] \<and> (\<forall>i < length ws. state_replies up ws i = Some PIR_STATE_READY)" by simp
  moreover have "state_replies up ws i = Some PIR_STATE_READY \<longleftrightarrow> up i \<and> w_serverstate (ws ! i) = PIR_STATE_READY"
    if "i < length ws" for i using that by (simp add: state_replies_def)
  ultimately show ?thesis by blast
qed

theorem cluster_ready_witness:
  "serverstate (poll_status (state_replies (\<lambda>_. True) [demo_wsys]) (demo_server\<lparr>bucketSize := 1\<rparr>)) \<noteq> PIR_STATE_READY"
proof -
  have "life_of_worker {} demo_wsys"
    unfolding life_of_worker_def by (intro exI [of _ demo_wsys]) (simp add: demo_wsys_def wreach.start)
  with cluster_ready [of "[demo_wsys]" "{}" "demo_server\<lparr>bucketSize := 1\<rparr>" "\<lambda>_. True"] show ?thesis
    by (auto simp: demo_wsys_def pir_states)
qed

section \<open>Recovery of the master\<close>



text \<open>
  Initialising twice.  \<open>serviceInit\<close> appends to the table instead of replacing it: a second call
  with the same parameters leaves every worker in the table twice, so that each search asks every
  worker twice.
\<close>

lemma serviceInit_twice:
  assumes "fields_ok n wsv" "fields_ok n tpv" "fields_ok n mev" "fields_ok n opv" "workerInfoVec server = []"
  shows "case ns__serviceInit reply ok (encode wsv) (encode tpv) (encode mev) (encode opv) server of (tg1, server1, _) \<Rightarrow>
      case ns__serviceInit reply2 ok2 (encode wsv) (encode tpv) (encode mev) (encode opv) server1 of (tg2, server2, _) \<Rightarrow>
        workerInfoVec server2 = worker_table wsv tpv mev opv @ worker_table wsv tpv mev opv \<and> bucketSize server2 = 2 * int n"
proof -
  let ?vec = "worker_table wsv tpv mev opv" and ?init = "\<lambda>r f. ns__serviceInit r f (encode wsv) (encode tpv) (encode mev) (encode opv)"
  have n: "length ?vec = n" using assms(1) by (auto simp: worker_table_def fields_ok_def)
  have step: "workerInfoVec (fst (snd (?init r f s))) = workerInfoVec s @ ?vec
      \<and> bucketSize (fst (snd (?init r f s))) = int (length (workerInfoVec s)) + int n" for r f s
    using serviceInit_cases(1) [OF initWorkerInfo_encode [OF assms(1-4)], of r f s] n by simp
  from step [of reply2 ok2 "fst (snd (?init reply ok server))"] step [of reply ok server] assms(5) n show ?thesis
    by (auto split: prod.split)
qed

end
